(* ===== verification/Prelude.thy ===== *)
theory Prelude
  imports Main "HOL-Library.Word" "HOL-Library.Sublist" "HOL-Library.Multiset"
begin

text \<open>
  What every component of the model shares: the collections of simplification
  and introduction rules, the outcome type of a Go operation that may panic,
  byte strings, and the generic lemmas on strings, lists, maps and words that
  the component theories use.
\<close>

section \<open>Collections\<close>

named_theorems counter_simps \<open>values read from a counter after each operation\<close>
named_theorems item_simps \<open>fields of a segment item after each operation\<close>
named_theorems inv_intros \<open>preservation lemmas of the component invariants\<close>
named_theorems line_simps \<open>line by line unfolding of the wire formats\<close>

section \<open>Outcomes of Go operations\<close>

text \<open>The run-time panics that the modelled code can reach, and \<open>os.Exit\<close>.\<close>

datatype panic = NilMapWrite | IndexOutOfRange | NilDereference | SendOnClosed | ProcessExit

type_synonym 'a go = "panic + 'a"

definition go_bind :: "'a go \<Rightarrow> ('a \<Rightarrow> 'b go) \<Rightarrow> 'b go" where
  "go_bind r f = (case r of Inl e \<Rightarrow> Inl e | Inr v \<Rightarrow> f v)"

lemma go_bind_simps [simp]:
  "go_bind (Inl e) f = Inl e"
  "go_bind (Inr v) f = f v"
  by (simp_all add: go_bind_def)

lemma go_bind_eq_Inr [simp]:
  "go_bind r f = Inr y \<longleftrightarrow> (\<exists>x. r = Inr x \<and> f x = Inr y)"
  by (cases r) simp_all

definition panics :: "'a go \<Rightarrow> bool" where
  "panics r = (case r of Inl _ \<Rightarrow> True | Inr _ \<Rightarrow> False)"

lemma panics_simps [simp]: "panics (Inl e)" "\<not> panics (Inr v)"
  by (simp_all add: panics_def)

lemma panics_bind [simp]:
  "panics (go_bind r f) \<longleftrightarrow> panics r \<or> (\<exists>v. r = Inr v \<and> panics (f v))"
  by (cases r) simp_all

lemma not_panics_iff: "\<not> panics r \<longleftrightarrow> (\<exists>v. r = Inr v)"
  by (cases r) simp_all

section \<open>Byte strings\<close>

text \<open>
  A Go \<open>string\<close> is a list of bytes; the model keeps it as Isabelle's
  \<open>string\<close>, whose characters are the 256 byte values.
\<close>

definition has_prefix :: "'a list \<Rightarrow> 'a list \<Rightarrow> bool" where
  "has_prefix p s \<longleftrightarrow> take (length p) s = p"

definition has_suffix :: "'a list \<Rightarrow> 'a list \<Rightarrow> bool" where
  "has_suffix p s \<longleftrightarrow> has_prefix (rev p) (rev s)"

text \<open>\<open>strings.Split(s, sep)\<close> for a separator of one character.\<close>

fun split_on :: "'a \<Rightarrow> 'a list \<Rightarrow> 'a list list" where
  "split_on c [] = [[]]"
| "split_on c (x # xs) =
     (if x = c then [] # split_on c xs
      else (case split_on c xs of [] \<Rightarrow> [[x]] | w # ws \<Rightarrow> (x # w) # ws))"

text \<open>\<open>strings.Join(xs, sep)\<close> for a separator of one character.\<close>

fun join_with :: "'a \<Rightarrow> 'a list list \<Rightarrow> 'a list" where
  "join_with c [] = []"
| "join_with c [w] = w"
| "join_with c (w # v # ws) = w @ c # join_with c (v # ws)"

lemma has_prefix_append [simp]: "has_prefix p (p @ s)"
  by (simp add: has_prefix_def)

lemma has_prefix_Nil [simp]: "has_prefix [] s"
  by (simp add: has_prefix_def)

lemma has_prefix_Cons [simp]:
  "has_prefix (a # p) (b # s) \<longleftrightarrow> a = b \<and> has_prefix p s"
  "\<not> has_prefix (a # p) []"
  by (auto simp: has_prefix_def)

lemma has_prefix_iff: "has_prefix p s \<longleftrightarrow> (\<exists>t. s = p @ t)"
  by (metis append_take_drop_id has_prefix_append has_prefix_def)

lemma has_suffix_iff: "has_suffix p s \<longleftrightarrow> (\<exists>t. s = t @ p)"
  unfolding has_suffix_def has_prefix_iff by (metis rev_append rev_rev_ident)

lemma has_suffix_append [simp]: "has_suffix p (s @ p)"
  by (auto simp: has_suffix_iff)

lemma split_on_not_Nil [simp]: "split_on c s \<noteq> []"
  by (cases s) (auto split: list.split)

lemma split_on_no_sep: "c \<notin> set w \<Longrightarrow> split_on c w = [w]"
  by (induction w) auto

lemma split_on_append_sep:
  "c \<notin> set w \<Longrightarrow> split_on c (w @ c # s) = w # split_on c s"
  by (induction w) auto

lemma join_split [simp]: "join_with c (split_on c s) = s"
proof (induction s)
  case (Cons x xs)
  obtain w ws where "split_on c xs = w # ws"
    by (cases "split_on c xs") simp_all
  then show ?case
    using Cons.IH by (cases ws) auto
qed simp

lemma split_join:
  assumes "ws \<noteq> []" and "\<forall>w \<in> set ws. c \<notin> set w"
  shows "split_on c (join_with c ws) = ws"
  using assms by (induction ws rule: join_with.induct[of _ c])
    (auto simp: split_on_no_sep split_on_append_sep)

lemma split_on_parts: "w \<in> set (split_on c s) \<Longrightarrow> c \<notin> set w"
proof (induction s arbitrary: w)
  case (Cons x xs)
  then show ?case
    by (cases "split_on c xs") (auto split: if_splits)
qed simp

section \<open>Maps and counting\<close>

lemma card_insert_new: "finite A \<Longrightarrow> x \<notin> A \<Longrightarrow> card (insert x A) = Suc (card A)"
  by simp

lemma Diff_single_Diff: "A - {x} - B = A - insert x B"
  by blast

lemma card_Diff_mem: "finite A \<Longrightarrow> x \<in> A \<Longrightarrow> Suc (card (A - {x})) = card A"
  by (metis card.remove)

lemma length_filter_split:
  "length (filter P xs) + length (filter (\<lambda>x. \<not> P x) xs) = length xs"
  by (simp add: sum_length_filter_compl)

text \<open>The number of entries of a list that satisfy \<open>P\<close>, after an update.\<close>

definition count_if :: "('a \<Rightarrow> bool) \<Rightarrow> 'a list \<Rightarrow> nat" where
  "count_if P xs = length (filter P xs)"

lemma count_if_simps [simp]:
  "count_if P [] = 0"
  "count_if P (x # xs) = (if P x then Suc (count_if P xs) else count_if P xs)"
  "count_if P (xs @ ys) = count_if P xs + count_if P ys"
  by (simp_all add: count_if_def)

lemma count_if_update:
  "t < length xs \<Longrightarrow>
   count_if P (xs[t := v]) + of_bool (P (xs ! t)) = count_if P xs + of_bool (P v)"
proof (induction xs arbitrary: t)
  case (Cons x xs)
  then show ?case by (cases t) auto
qed simp

lemma count_if_pos: "t < length xs \<Longrightarrow> P (xs ! t) \<Longrightarrow> 0 < count_if P xs"
  by (auto simp: count_if_def filter_empty_conv)

lemma count_if_witness: "0 < count_if P xs \<Longrightarrow> \<exists>t < length xs. P (xs ! t)"
  unfolding count_if_def by (metis filter_False gr_implies_not_zero in_set_conv_nth list.size(3))

lemma count_if_all: "count_if P xs = length xs \<longleftrightarrow> (\<forall>x \<in> set xs. P x)"
  unfolding count_if_def by (metis filter_id_conv length_filter_less less_irrefl)

lemma count_if_or:
  "(\<And>x. x \<in> set xs \<Longrightarrow> \<not> (P x \<and> Q x)) \<Longrightarrow>
   count_if P xs + count_if Q xs = count_if (\<lambda>x. P x \<or> Q x) xs"
  by (induction xs) auto

lemma count_if_le: "count_if P xs \<le> length xs"
  by (simp add: count_if_def)

text \<open>What a list of goroutines holds, after one of them moved.\<close>

lemma mset_concat_update:
  assumes "w < length ws"
  shows "mset (concat (map f (ws[w := v]))) + mset (f (ws ! w)) = mset (concat (map f ws)) + mset (f v)"
  using assms
proof (induction ws arbitrary: w)
  case (Cons a ws)
  then show ?case by (cases w) (auto simp: ac_simps)
qed simp

section \<open>Machine integers\<close>

lemma unat_plus_1:
  fixes w :: "'a::len word"
  assumes "unat w + 1 < 2 ^ LENGTH('a)"
  shows "unat (w + 1) = unat w + 1"
  using assms by (simp add: unat_word_ariths)

lemma unat_minus_1:
  fixes w :: "'a::len word"
  assumes "w \<noteq> 0"
  shows "unat (w - 1) = unat w - 1"
  using assms by (rule unat_minus_one)

end
