(* ===== verification/Counter.thy ===== *)
theory Counter
  imports Prelude
begin

text \<open>
  \<open>Counter_uint64.go\<close>: the named 64 bit counters (\<open>GCounter\<close> and the
  counter of each session). The state is the Go map, \<open>None\<close> being the nil map
  \<open>KillCounter\<close> leaves behind: reading and deleting from it is allowed, writing
  panics. Every operation holds the counter's mutex from its first line to its
  last, so an operation is one atomic step. Log lines are not modelled.
\<close>

section \<open>State and operations\<close>

type_synonym counter = "(string \<rightharpoonup> 64 word) option"

definition NewCounter :: counter where
  "NewCounter = Some (\<lambda>_. None)"

definition KillCounter :: "counter \<Rightarrow> counter" where
  "KillCounter c = None"

definition ClearCounter :: "counter \<Rightarrow> counter" where
  "ClearCounter c = (case c of None \<Rightarrow> None | Some m \<Rightarrow> Some (\<lambda>_. None))"

text \<open>The Go expressions \<open>c.m[k]\<close>, \<open>c.m[k] = v\<close> and \<open>delete(c.m, k)\<close>.\<close>

definition GetValue :: "counter \<Rightarrow> string \<Rightarrow> 64 word" where
  "GetValue c k = (case c of None \<Rightarrow> 0 | Some m \<Rightarrow> (case m k of None \<Rightarrow> 0 | Some v \<Rightarrow> v))"

definition has_key :: "counter \<Rightarrow> string \<Rightarrow> bool" where
  "has_key c k = (case c of None \<Rightarrow> False | Some m \<Rightarrow> m k \<noteq> None)"

definition SetValue :: "counter \<Rightarrow> string \<Rightarrow> 64 word \<Rightarrow> counter go" where
  "SetValue c k v = (case c of None \<Rightarrow> Inl NilMapWrite | Some m \<Rightarrow> Inr (Some (m(k \<mapsto> v))))"

definition DeleteKey :: "counter \<Rightarrow> string \<Rightarrow> counter" where
  "DeleteKey c k = (case c of None \<Rightarrow> None | Some m \<Rightarrow> Some (m(k := None)))"

definition Init :: "counter \<Rightarrow> string \<Rightarrow> (counter \<times> bool) go" where
  "Init c k =
     (if has_key c k then Inr (c, False)
      else go_bind (SetValue c k 0) (\<lambda>c'. Inr (c', True)))"

definition ResetKey :: "counter \<Rightarrow> string \<Rightarrow> counter go" where
  "ResetKey c k = SetValue c k 0"

definition Incr :: "counter \<Rightarrow> string \<Rightarrow> (counter \<times> 64 word) go" where
  "Incr c k =
     go_bind (SetValue c k (GetValue c k + 1)) (\<lambda>c'. Inr (c', GetValue c' k))"

text \<open>The third result is the error \<open>already at max\<close>.\<close>

definition IncrMax :: "counter \<Rightarrow> string \<Rightarrow> 64 word \<Rightarrow> (counter \<times> bool \<times> 64 word \<times> bool) go" where
  "IncrMax c k vmax =
     (if GetValue c k < vmax
      then go_bind (SetValue c k (GetValue c k + 1)) (\<lambda>c'. Inr (c', True, GetValue c' k, False))
      else Inr (c, False, 0, True))"

text \<open>A value that reaches zero is deleted from the map.\<close>

definition drop_zero :: "counter \<Rightarrow> string \<Rightarrow> counter" where
  "drop_zero c k = (if GetValue c k = 0 then DeleteKey c k else c)"

definition Decr :: "counter \<Rightarrow> string \<Rightarrow> (counter \<times> 64 word) go" where
  "Decr c k =
     (if 0 < GetValue c k
      then go_bind (SetValue c k (GetValue c k - 1)) (\<lambda>c'. Inr (drop_zero c' k, GetValue c' k))
      else Inr (c, 0))"

definition Add :: "counter \<Rightarrow> string \<Rightarrow> 64 word \<Rightarrow> counter go" where
  "Add c k v = SetValue c k (GetValue c k + v)"

definition Sub :: "counter \<Rightarrow> string \<Rightarrow> 64 word \<Rightarrow> counter go" where
  "Sub c k v =
     (if 0 < GetValue c k
      then go_bind (SetValue c k (GetValue c k - v)) (\<lambda>c'. Inr (drop_zero c' k))
      else Inr c)"

definition GetReset :: "counter \<Rightarrow> string \<Rightarrow> (counter \<times> 64 word) go" where
  "GetReset c k = go_bind (SetValue c k 0) (\<lambda>c'. Inr (c', GetValue c k))"

section \<open>What is read after each operation\<close>

lemma GetValue_New [counter_simps, simp]: "GetValue NewCounter k = 0"
  by (simp add: GetValue_def NewCounter_def)

lemma NewCounter_live [simp]: "NewCounter \<noteq> None"
  by (simp add: NewCounter_def)

lemma GetValue_Kill [counter_simps, simp]: "GetValue (KillCounter c) k = 0"
  by (simp add: GetValue_def KillCounter_def)

lemma GetValue_Clear [counter_simps, simp]: "GetValue (ClearCounter c) k = 0"
  by (simp add: GetValue_def ClearCounter_def split: option.split)

lemma GetValue_Set [counter_simps]:
  "SetValue c k v = Inr c' \<Longrightarrow> GetValue c' j = (if j = k then v else GetValue c j)"
  by (auto simp: SetValue_def GetValue_def split: option.splits)

lemma GetValue_Delete [counter_simps, simp]:
  "GetValue (DeleteKey c k) j = (if j = k then 0 else GetValue c j)"
  by (simp add: GetValue_def DeleteKey_def split: option.split)

lemma GetValue_drop_zero [counter_simps, simp]: "GetValue (drop_zero c k) j = GetValue c j"
  by (simp add: drop_zero_def)

lemma SetValue_live [simp]: "c \<noteq> None \<Longrightarrow> \<exists>c'. SetValue c k v = Inr c' \<and> c' \<noteq> None"
  by (auto simp: SetValue_def)

lemma SetValue_dead [simp]: "SetValue None k v = Inl NilMapWrite"
  by (simp add: SetValue_def)

lemma SetValue_not_None: "SetValue c k v = Inr c' \<Longrightarrow> c' \<noteq> None"
  by (auto simp: SetValue_def split: option.splits)

lemma DeleteKey_live [simp]: "DeleteKey c k = None \<longleftrightarrow> c = None"
  by (simp add: DeleteKey_def split: option.split)

lemma drop_zero_live [simp]: "drop_zero c k = None \<longleftrightarrow> c = None"
  by (simp add: drop_zero_def)

lemma Incr_live:
  assumes "c \<noteq> None"
  obtains c' where "Incr c k = Inr (c', GetValue c k + 1)" "c' \<noteq> None"
    "\<And>j. GetValue c' j = (if j = k then GetValue c k + 1 else GetValue c j)"
proof -
  obtain c' where c': "SetValue c k (GetValue c k + 1) = Inr c'" "c' \<noteq> None"
    using SetValue_live[OF assms] by blast
  then show thesis
    by (intro that[of c']) (simp_all add: Incr_def GetValue_Set)
qed

lemma Decr_live:
  assumes "c \<noteq> None"
  obtains c' r where "Decr c k = Inr (c', r)" "c' \<noteq> None"
    "\<And>j. GetValue c' j =
       (if j = k \<and> 0 < GetValue c k then GetValue c k - 1 else GetValue c j)"
    "r = (if 0 < GetValue c k then GetValue c k - 1 else 0)"
proof (cases "0 < GetValue c k")
  case True
  obtain c' where c': "SetValue c k (GetValue c k - 1) = Inr c'" "c' \<noteq> None"
    using SetValue_live[OF assms] by blast
  then show thesis
    using True by (intro that[of "drop_zero c' k"]) (simp_all add: Decr_def GetValue_Set)
next
  case False
  then show thesis
    using assms by (intro that[of c]) (simp_all add: Decr_def)
qed

section \<open>Counters as tallies\<close>

text \<open>
  The abstract counter: a natural number per key. An event is a key and
  whether it is counted up (\<open>True\<close>) or down (\<open>False\<close>). The events stay
  within \<open>b\<close> when no key goes below zero or reaches \<open>b\<close>.
\<close>

type_synonym event = "string \<times> bool"

fun tally :: "(string \<Rightarrow> nat) \<Rightarrow> event list \<Rightarrow> string \<Rightarrow> nat" where
  "tally v [] = v"
| "tally v ((k, up) # es) = tally (v(k := if up then v k + 1 else v k - 1)) es"

fun within :: "nat \<Rightarrow> (string \<Rightarrow> nat) \<Rightarrow> event list \<Rightarrow> bool" where
  "within b v [] \<longleftrightarrow> True"
| "within b v ((k, up) # es) \<longleftrightarrow>
     (if up then v k + 1 < b else 0 < v k) \<and>
     within b (v(k := if up then v k + 1 else v k - 1)) es"

definition ups :: "event list \<Rightarrow> string \<Rightarrow> nat" where
  "ups es k = length (filter (\<lambda>e. e = (k, True)) es)"

definition downs :: "event list \<Rightarrow> string \<Rightarrow> nat" where
  "downs es k = length (filter (\<lambda>e. e = (k, False)) es)"

lemma tally_count: "within b v es \<Longrightarrow> tally v es k + downs es k = v k + ups es k"
proof (induction es arbitrary: v)
  case (Cons e es)
  obtain j up where e: "e = (j, up)" by (cases e)
  have "within b (v(j := if up then v j + 1 else v j - 1)) es" "up \<or> 0 < v j"
    using Cons.prems by (auto simp: e split: if_splits)
  then show ?case
    using Cons.IH[of "v(j := if up then v j + 1 else v j - 1)"]
    by (cases up) (auto simp: e ups_def downs_def fun_upd_def split: if_splits)
qed (simp add: ups_def downs_def)

text \<open>
  The contract the callers of a counter rely on: counting up and down cannot
  fail on a live counter, changes one key and no other, and is exact while the
  value stays inside \<open>[0, bound)\<close>.
\<close>

locale tally_counter =
  fixes live :: "'s \<Rightarrow> bool"
    and val :: "'s \<Rightarrow> string \<Rightarrow> nat"
    and count :: "'s \<Rightarrow> event \<Rightarrow> 's go"
    and bound :: nat
  assumes count_up:
      "live s \<Longrightarrow> val s k + 1 < bound \<Longrightarrow>
       \<exists>s'. count s (k, True) = Inr s' \<and> live s' \<and> val s' = (val s)(k := val s k + 1)"
    and count_down:
      "live s \<Longrightarrow> 0 < val s k \<Longrightarrow>
       \<exists>s'. count s (k, False) = Inr s' \<and> live s' \<and> val s' = (val s)(k := val s k - 1)"

fun count_all :: "('s \<Rightarrow> event \<Rightarrow> 's go) \<Rightarrow> 's \<Rightarrow> event list \<Rightarrow> 's go" where
  "count_all f s [] = Inr s"
| "count_all f s (e # es) = go_bind (f s e) (\<lambda>s'. count_all f s' es)"

context tally_counter begin

lemma count_step:
  assumes "live s" and "if up then val s k + 1 < bound else 0 < val s k"
  obtains s' where "count s (k, up) = Inr s'" "live s'"
    "val s' = (val s)(k := if up then val s k + 1 else val s k - 1)"
  using assms count_up[of s k] count_down[of s k] by (cases up) auto

lemma count_all_tally:
  assumes "live s" and "within bound (val s) es"
  shows "\<exists>s'. count_all count s es = Inr s' \<and> live s' \<and> val s' = tally (val s) es"
  using assms
proof (induction es arbitrary: s)
  case (Cons e es)
  obtain k up where e: "e = (k, up)" by (cases e)
  obtain s' where s': "count s (k, up) = Inr s'" "live s'"
    "val s' = (val s)(k := if up then val s k + 1 else val s k - 1)"
    using Cons.prems by (auto simp: e elim: count_step)
  moreover have "within bound (val s') es"
    using Cons.prems by (simp add: e s'(3))
  ultimately show ?case
    using Cons.IH[of s'] by (simp add: e del: fun_upd_apply)
qed simp

lemma count_all_exact:
  assumes "live s" and "within bound (val s) es"
  obtains s' where "count_all count s es = Inr s'" "live s'"
    "\<And>k. val s' k + downs es k = val s k + ups es k"
  using count_all_tally[OF assms] tally_count[OF assms(2)] by auto

end

section \<open>\<open>Incr\<close> and \<open>Decr\<close> are such a counter\<close>

definition value_of :: "counter \<Rightarrow> string \<Rightarrow> nat" where
  "value_of c k = unat (GetValue c k)"

definition count_event :: "counter \<Rightarrow> event \<Rightarrow> counter go" where
  "count_event c e =
     (case e of (k, up) \<Rightarrow>
        go_bind (if up then Incr c k else Decr c k) (\<lambda>(c', _). Inr c'))"

lemma Incr_event:
  assumes "c \<noteq> None" and "value_of c k + 1 < 2 ^ 64"
  shows "\<exists>c'. count_event c (k, True) = Inr c' \<and> c' \<noteq> None \<and>
              value_of c' = (value_of c)(k := value_of c k + 1)"
proof -
  obtain c' where c': "Incr c k = Inr (c', GetValue c k + 1)" "c' \<noteq> None"
    "\<And>j. GetValue c' j = (if j = k then GetValue c k + 1 else GetValue c j)"
    using Incr_live[OF assms(1)] by metis
  have "unat (GetValue c k + 1) = value_of c k + 1"
    using assms(2) unat_plus_1[of "GetValue c k"] by (simp add: value_of_def)
  then have "value_of c' = (value_of c)(k := value_of c k + 1)"
    by (auto simp: value_of_def c'(3))
  then show ?thesis
    using c'(1,2) by (simp add: count_event_def)
qed

lemma Decr_event:
  assumes "c \<noteq> None" and "0 < value_of c k"
  shows "\<exists>c'. count_event c (k, False) = Inr c' \<and> c' \<noteq> None \<and>
              value_of c' = (value_of c)(k := value_of c k - 1)"
proof -
  have pos: "0 < GetValue c k"
    using assms(2) by (metis value_of_def unat_0 word_neq_0_conv not_gr_zero)
  obtain c' r where c': "Decr c k = Inr (c', r)" "c' \<noteq> None"
    "\<And>j. GetValue c' j = (if j = k \<and> 0 < GetValue c k then GetValue c k - 1 else GetValue c j)"
    using Decr_live[OF assms(1)] by metis
  have "unat (GetValue c k - 1) = value_of c k - 1"
    using pos unat_minus_1[of "GetValue c k"] by (simp add: value_of_def word_neq_0_conv)
  then have "value_of c' = (value_of c)(k := value_of c k - 1)"
    using pos by (auto simp: value_of_def c'(3))
  then show ?thesis
    using c'(1,2) by (simp add: count_event_def)
qed

interpretation go_counter: tally_counter "\<lambda>c. c \<noteq> None" value_of count_event "2 ^ 64"
  by unfold_locales (rule Incr_event Decr_event; assumption)+

section \<open>Properties\<close>

text \<open>Any sequence of \<open>Incr\<close> and \<open>Decr\<close> calls on a counter that has not
  been killed, in which no key is counted below zero or up to \<open>2^64\<close>, runs
  without panic and leaves every key at its old value plus the number of its
  \<open>Incr\<close> calls minus the number of its \<open>Decr\<close> calls.\<close>

theorem counter_runs_exact:
  assumes "c \<noteq> None" and "within (2 ^ 64) (value_of c) es"
  shows "\<exists>c'. count_all count_event c es = Inr c' \<and>
              (\<forall>k. value_of c' k + downs es k = value_of c k + ups es k)"
  using go_counter.count_all_exact[OF assms] by metis

theorem counter_runs_exact_witness:
  "\<exists>c'. count_all count_event NewCounter [(''a'', True), (''b'', True), (''a'', False)] = Inr c' \<and>
        (\<forall>k. value_of c' k + downs [(''a'', True), (''b'', True), (''a'', False)] k =
             value_of NewCounter k + ups [(''a'', True), (''b'', True), (''a'', False)] k)"
  by (rule counter_runs_exact) (simp_all add: NewCounter_def value_of_def GetValue_def)

text \<open>\<open>IncrMax\<close> never moves a counter above its limit: on a live counter it
  counts up and returns the new value, at most \<open>vmax\<close>, when the value is below
  the limit, and otherwise returns an error and changes nothing.\<close>

theorem IncrMax_bounded:
  assumes "c \<noteq> None"
  shows "\<exists>c' ok r err. IncrMax c k vmax = Inr (c', ok, r, err) \<and> err = (\<not> ok) \<and>
           (ok \<longleftrightarrow> GetValue c k < vmax) \<and>
           (if ok then r = GetValue c k + 1 \<and> r \<le> vmax \<and> GetValue c' k = r
            else c' = c \<and> r = 0)"
proof (cases "GetValue c k < vmax")
  case True
  obtain c' where c': "SetValue c k (GetValue c k + 1) = Inr c'"
    using SetValue_live[OF assms] by blast
  have "GetValue c k + 1 \<le> vmax"
    using True by (simp add: inc_le)
  then show ?thesis
    using True c' by (simp add: IncrMax_def GetValue_Set) blast
qed (auto simp: IncrMax_def)

theorem IncrMax_bounded_witness:
  "\<exists>c' ok r err. IncrMax NewCounter ''k'' 3 = Inr (c', ok, r, err) \<and> err = (\<not> ok) \<and>
           (ok \<longleftrightarrow> GetValue NewCounter ''k'' < 3) \<and>
           (if ok then r = GetValue NewCounter ''k'' + 1 \<and> r \<le> 3 \<and> GetValue c' ''k'' = r
            else c' = NewCounter \<and> r = 0)"
  by (rule IncrMax_bounded) (simp add: NewCounter_def)

end
