(* ===== verification/Items.thy ===== *)
theory Items
  imports Prelude Counter
begin

text \<open>
  The data of a session as \<open>Config.go\<close> and \<open>Session.go\<close> declare it: the
  options the modelled code reads, providers, segment items and the segment
  channels. Fields keep the source's names where HOL allows. A Go
  \<open>map[int]bool\<close> of an item only ever holds \<open>true\<close>, so it is the set of its
  keys and \<open>len\<close> is its cardinality. Items and providers are known by their
  index in the session's lists. Fields that only feed log lines, mutexes and
  wait groups are left out.
\<close>

section \<open>Options\<close>

text \<open>The fields of \<open>cfg.opt\<close> that decide something, and the global \<open>cacheON\<close>.\<close>

record options =
  CheckOnly :: bool
  CheckFirst :: bool
  ByPassSTAT :: bool
  CheckCacheOnBoot :: bool
  DlAll :: bool
  DlMissing :: bool
  UploadLater :: bool
  YencWrite :: bool
  Csv :: bool
  ChanSize :: int
  cacheON :: bool

section \<open>Providers\<close>

record articles =
  art_tocheck :: "64 word"
  art_checked :: "64 word"
  art_available :: "64 word"
  art_downloaded :: "64 word"
  art_missing :: "64 word"
  art_refreshed :: "64 word"
  art_verified :: "64 word"

record provider =
  Enabled :: bool
  NoCheck :: bool
  NoDownload :: bool
  NoUpload :: bool
  Newsreader :: bool
  Group :: string
  Name :: string
  MaxConns :: int
  OpenConns :: int
  PreferIHAVE :: bool
  down :: bool
  cap_check :: bool
  cap_ihave :: bool
  cap_post :: bool
  cap_stream :: bool
  articles_of :: articles

definition IncrementOpenConns :: "provider \<Rightarrow> provider" where
  "IncrementOpenConns p = p\<lparr>OpenConns := OpenConns p + 1\<rparr>"

definition DecrementOpenConns :: "provider \<Rightarrow> provider" where
  "DecrementOpenConns p = p\<lparr>OpenConns := OpenConns p - 1\<rparr>"

section \<open>Segment items\<close>

record item =
  seg_id :: string
  hashedId :: string
  missingOn :: "nat set"
  availableOn :: "nat set"
  ignoreDlOn :: "nat set"
  ignoreUlOn :: "nat set"
  unwantedOn :: "nat set"
  uploadedTo :: "nat set"
  retryOn :: "nat set"
  errorOn :: "nat set"
  dmcaOn :: "nat set"
  article :: "string list"
  item_head :: "string list"
  item_body :: "string list"
  flaginDL :: bool
  flagisDL :: bool
  flaginUP :: bool
  flagisUP :: bool
  flaginDLMEM :: bool
  flaginYenc :: bool
  flagisYenc :: bool
  flagCache :: bool
  retireWhenCached :: bool
  memlocked :: nat
  checkedOn :: nat
  pushedDL :: nat
  pushedUP :: nat
  item_size :: nat
  headsize :: nat
  bodysize :: nat
  dlcnt :: nat
  badcrc :: nat
  fails :: nat
  retryIn :: int
  item_rxb :: "64 word"
  item_txb :: "64 word"

section \<open>Channels of segment items\<close>

text \<open>
  A buffered channel of item indices. \<open>makeSegmentChans\<close> gives every channel a
  buffer (the size option or the number of segments), so a send succeeds
  exactly while the buffer has room. A send on a closed channel panics; a
  missing map entry is a nil channel, on which a non-blocking send takes the
  \<open>default\<close> branch.
\<close>

record chan =
  chan_cap :: nat
  chan_buf :: "nat list"
  chan_closed :: bool

definition make_chan :: "nat \<Rightarrow> chan" where
  "make_chan n = \<lparr>chan_cap = n, chan_buf = [], chan_closed = False\<rparr>"

definition try_send :: "(string \<rightharpoonup> chan) \<Rightarrow> string \<Rightarrow> nat \<Rightarrow> ((string \<rightharpoonup> chan) \<times> bool) go" where
  "try_send cs g x =
     (case cs g of
        None \<Rightarrow> Inr (cs, False)
      | Some c \<Rightarrow>
          if chan_closed c then Inl SendOnClosed
          else if length (chan_buf c) < chan_cap c
          then Inr (cs(g \<mapsto> c\<lparr>chan_buf := chan_buf c @ [x]\<rparr>), True)
          else Inr (cs, False))"

definition chan_ok :: "chan \<Rightarrow> bool" where
  "chan_ok c \<longleftrightarrow> length (chan_buf c) \<le> chan_cap c"

section \<open>Sessions\<close>

record checkerGroup =
  chk_left :: int
  chk_gone :: bool

record session =
  providerList :: "provider list"
  segmentChansCheck :: "string \<rightharpoonup> chan"
  segmentChansDowns :: "string \<rightharpoonup> chan"
  segmentChansReups :: "string \<rightharpoonup> chan"
  checkers :: "string \<rightharpoonup> checkerGroup"
  chansClosed :: bool
  stopChan_closed :: bool
  divWake :: bool
  checkFeedDone :: bool
  segcheckdone :: bool
  bootedWorkers :: int
  workDone :: "64 word"
  preBoot :: bool
  active :: bool

text \<open>The index of every provider of a group, in list order: the loops over
  \<open>s.providerList\<close> that skip \<open>prov.Group != provider.Group\<close>.\<close>

definition group_ids :: "provider list \<Rightarrow> string \<Rightarrow> nat list" where
  "group_ids ps g = filter (\<lambda>i. Group (ps ! i) = g) [0..<length ps]"

lemma group_ids_bound: "i \<in> set (group_ids ps g) \<Longrightarrow> i < length ps"
  by (simp add: group_ids_def)

lemma set_group_ids [simp]:
  "set (group_ids ps g) = {i. i < length ps \<and> Group (ps ! i) = g}"
  by (auto simp: group_ids_def)

lemma distinct_group_ids [simp]: "distinct (group_ids ps g)"
  by (simp add: group_ids_def)

section \<open>Counters of the running program\<close>

text \<open>
  \<open>GCounter\<close> and the session and pool counters are never killed while workers
  run (\<open>KillCounter\<close> has no caller), so their operations do not panic; the
  total versions below keep the state when the map is nil.
\<close>

definition bump :: "counter \<Rightarrow> string \<Rightarrow> counter" where
  "bump c k = (case Incr c k of Inl _ \<Rightarrow> c | Inr (c', _) \<Rightarrow> c')"

definition unbump :: "counter \<Rightarrow> string \<Rightarrow> counter" where
  "unbump c k = (case Decr c k of Inl _ \<Rightarrow> c | Inr (c', _) \<Rightarrow> c')"

definition bump_by :: "counter \<Rightarrow> string \<Rightarrow> 64 word \<Rightarrow> counter" where
  "bump_by c k v = (case Add c k v of Inl _ \<Rightarrow> c | Inr c' \<Rightarrow> c')"

lemma bump_live [simp]: "bump c k = None \<longleftrightarrow> c = None"
proof (cases "c = None")
  case True
  then show ?thesis by (simp add: bump_def Incr_def)
next
  case False
  then show ?thesis by (elim Incr_live[of c k]) (use False in \<open>auto simp: bump_def\<close>)
qed

lemma unbump_live [simp]: "unbump c k = None \<longleftrightarrow> c = None"
proof (cases "c = None")
  case True
  then show ?thesis by (simp add: unbump_def Decr_def GetValue_def)
next
  case False
  then show ?thesis by (elim Decr_live[of c k]) (use False in \<open>auto simp: unbump_def\<close>)
qed

lemma bump_None [simp]: "bump None k = None" "unbump None k = None" "bump_by None k v = None"
  by (simp_all add: bump_def unbump_def bump_by_def Incr_def Decr_def Add_def GetValue_def)

lemma bump_Some [simp]:
  "(\<exists>d. bump c k = Some d) \<longleftrightarrow> (\<exists>d. c = Some d)"
  "(\<exists>d. unbump c k = Some d) \<longleftrightarrow> (\<exists>d. c = Some d)"
  by (simp_all flip: not_None_eq)

lemma GetValue_bump [counter_simps]:
  "c \<noteq> None \<Longrightarrow> GetValue (bump c k) j = (if j = k then GetValue c k + 1 else GetValue c j)"
  by (elim Incr_live[of c k]) (simp add: bump_def)

lemma GetValue_unbump [counter_simps]:
  "c \<noteq> None \<Longrightarrow> GetValue (unbump c k) j =
     (if j = k \<and> 0 < GetValue c k then GetValue c k - 1 else GetValue c j)"
  by (elim Decr_live[of c k]) (simp add: unbump_def)

lemma GetValue_bump_by [counter_simps]:
  "c \<noteq> None \<Longrightarrow> GetValue (bump_by c k v) j = (if j = k then GetValue c k + v else GetValue c j)"
  by (auto simp: bump_by_def Add_def SetValue_def GetValue_def split: option.splits sum.splits)

lemma bump_by_live [simp]: "bump_by c k v = None \<longleftrightarrow> c = None"
  by (auto simp: bump_by_def Add_def SetValue_def split: option.splits sum.splits)

text \<open>Counting up before a send and down when it failed leaves every value as it was.\<close>

lemma GetValue_unbump_bump [counter_simps]:
  assumes "c \<noteq> None" and "GetValue c k + 1 \<noteq> 0"
  shows "GetValue (unbump (bump c k) k) j = GetValue c j"
  using assms by (auto simp: GetValue_unbump GetValue_bump word_neq_0_conv)

text \<open>\<open>GetImpossibleCloseCase...\<close> aside, these are the queue counters of \<open>Utils.go\<close>.\<close>

definition IncreaseDLQueueCnt :: "counter \<Rightarrow> counter" where
  "IncreaseDLQueueCnt c = bump c ''dlQueueCnt''"

definition DecreaseDLQueueCnt :: "counter \<Rightarrow> counter" where
  "DecreaseDLQueueCnt c = unbump c ''dlQueueCnt''"

definition IncreaseUPQueueCnt :: "counter \<Rightarrow> counter" where
  "IncreaseUPQueueCnt c = bump c ''upQueueCnt''"

definition DecreaseUPQueueCnt :: "counter \<Rightarrow> counter" where
  "DecreaseUPQueueCnt c = unbump c ''upQueueCnt''"

end
