(* ===== verification/SlotPool.thy ===== *)
theory SlotPool
  imports Prelude
begin

text \<open>
  The contract of a pool of slots with named owners. The memory limiter
  (\<open>MemLimit.go\<close>) keeps it, its slots owned by items; the retirement of
  items in \<open>Workers.go\<close> relies on it. The provider promises the effect of one
  acquire and one release; what holds after any sequence of them is proved here
  once. The pools whose owners are goroutines (connections, logins) are state
  machines instead (\<open>Machine.thy\<close>).
\<close>

datatype 'k slot_event = Take 'k | Give 'k

locale slot_pool =
  fixes ok :: "'s \<Rightarrow> bool"
    and cap :: "'s \<Rightarrow> nat"
    and free :: "'s \<Rightarrow> nat"
    and owners :: "'s \<Rightarrow> 'k set"
    and acquire :: "'k \<Rightarrow> 's \<Rightarrow> 's option"
    and release :: "'k \<Rightarrow> 's \<Rightarrow> 's"
  assumes conserve: "ok s \<Longrightarrow> finite (owners s) \<and> free s + card (owners s) = cap s"
    and acquire_ok: "ok s \<Longrightarrow> acquire k s = Some s' \<Longrightarrow>
          ok s' \<and> cap s' = cap s \<and> owners s' = insert k (owners s)"
    and acquire_free: "ok s \<Longrightarrow> acquire k s = None \<Longrightarrow> free s = 0 \<and> k \<notin> owners s"
    and release_ok: "ok s \<Longrightarrow>
          ok (release k s) \<and> cap (release k s) = cap s \<and> owners (release k s) = owners s - {k}"

text \<open>Running a list of events; \<open>None\<close> when an acquire would have to wait.\<close>

fun run_slots ::
  "('k \<Rightarrow> 's \<Rightarrow> 's option) \<Rightarrow> ('k \<Rightarrow> 's \<Rightarrow> 's) \<Rightarrow> 'k slot_event list \<Rightarrow> 's \<Rightarrow> 's option" where
  "run_slots acq rel [] s = Some s"
| "run_slots acq rel (Take k # es) s =
     (case acq k s of None \<Rightarrow> None | Some s' \<Rightarrow> run_slots acq rel es s')"
| "run_slots acq rel (Give k # es) s = run_slots acq rel es (rel k s)"

fun owners_after :: "'k slot_event list \<Rightarrow> 'k set \<Rightarrow> 'k set" where
  "owners_after [] A = A"
| "owners_after (Take k # es) A = owners_after es (insert k A)"
| "owners_after (Give k # es) A = owners_after es (A - {k})"

context slot_pool begin

lemma run_ok:
  assumes "ok s" and "run_slots acquire release es s = Some s'"
  shows "ok s' \<and> cap s' = cap s \<and> owners s' = owners_after es (owners s)"
  using assms
proof (induction es arbitrary: s)
  case (Cons e es)
  show ?case
  proof (cases e)
    case (Take k)
    then obtain s1 where s1: "acquire k s = Some s1" "run_slots acquire release es s1 = Some s'"
      using Cons.prems(2) by (auto split: option.splits)
    then show ?thesis
      using Cons.IH[of s1] acquire_ok[OF Cons.prems(1) s1(1)] Take by simp
  next
    case (Give k)
    then show ?thesis
      using Cons.IH[of "release k s"] Cons.prems release_ok[of s k] by simp
  qed
qed simp

lemma run_bounded:
  assumes "ok s" and "run_slots acquire release es s = Some s'"
  shows "card (owners s') \<le> cap s" and "free s' = cap s - card (owners_after es (owners s))"
  using run_ok[OF assms] conserve[of s'] by auto

lemma acquire_if_free: "ok s \<Longrightarrow> 0 < free s \<or> k \<in> owners s \<Longrightarrow> \<exists>s'. acquire k s = Some s'"
  using acquire_free[of s k] by (cases "acquire k s") auto

lemma full_when_waiting: "ok s \<Longrightarrow> acquire k s = None \<Longrightarrow> card (owners s) = cap s"
  using acquire_free[of s k] conserve[of s] by simp

lemma release_all_ok: "ok s \<Longrightarrow> ok (fold release ks s) \<and> cap (fold release ks s) = cap s \<and>
    owners (fold release ks s) = owners s - set ks"
proof (induction ks arbitrary: s)
  case (Cons k ks)
  then show ?case using release_ok[of s k] by auto
qed simp

lemma release_all:
  assumes "ok s" and "owners s \<subseteq> set ks"
  shows "free (fold release ks s) = cap s"
proof -
  let ?s = "fold release ks s"
  have empty: "owners ?s = {}"
    using release_all_ok[OF assms(1), of ks] assms(2) by blast
  have "free ?s + card (owners ?s) = cap ?s"
    using release_all_ok[OF assms(1), of ks] conserve[of ?s] by blast
  then show ?thesis
    using release_all_ok[OF assms(1), of ks] by (simp add: empty)
qed

lemma acquire_release:
  assumes "ok s" and "k \<notin> owners s" and "acquire k s = Some s'"
  shows "free (release k s') = free s" and "owners (release k s') = owners s"
  using acquire_ok[OF assms(1,3)] release_ok[of s' k] conserve[OF assms(1)] conserve[of "release k s'"]
    assms(2) by auto

end

end
