(* ===== verification/MemLimit.thy ===== *)
theory MemLimit
  imports Prelude Counter Items SlotPool
begin

text \<open>
  \<open>MemLimit.go\<close>: the limiter of the number of articles held in memory. The
  file is modelled twice. The interleaving model gives every goroutine inside
  \<open>MemLockWait\<close> or \<open>memReturn\<close> a program counter and takes one step per
  critical section or channel operation; its invariant is proved for every
  reachable state. The sequential functions are the same code run by one
  goroutine, and the simulation lemma ties them to the steps.
\<close>

section \<open>The limiter\<close>

text \<open>
  \<open>slots\<close> is \<open>len(m.memchan)\<close>. \<open>pending\<close> maps an item to the \<open>done\<close> channel
  of the goroutine that waits for its slot, here a ticket number.
\<close>

record memlim =
  mem_max :: nat
  waiting :: nat
  slots :: nat
  memdata :: "nat set"
  pending :: "nat \<rightharpoonup> nat"

definition NewMemLimiter :: "int \<Rightarrow> memlim" where
  "NewMemLimiter value =
     (let n = nat (if value \<le> 0 then 2 else value)
      in \<lparr>mem_max = n, waiting = 0, slots = n, memdata = {}, pending = (\<lambda>_. None)\<rparr>)"

definition Usage :: "memlim \<Rightarrow> int \<times> int" where
  "Usage m = (int (mem_max m) - int (slots m), int (mem_max m))"

text \<open>\<open>ViewData\<close> ranges over a Go map, whose order is the argument.\<close>

definition ViewData :: "(nat \<Rightarrow> item) \<Rightarrow> nat list \<Rightarrow> memlim \<Rightarrow> string list" where
  "ViewData its order m = map (\<lambda>i. seg_id (its i)) (filter (\<lambda>i. i \<in> memdata m) order)"

definition MemAvail :: "memlim \<Rightarrow> bool" where
  "MemAvail m \<longleftrightarrow> waiting m < mem_max m"

section \<open>Goroutines inside the limiter\<close>

text \<open>
  The program counters: \<open>LockStart\<close> is the top of the loop of \<open>MemLockWait\<close>,
  \<open>WaitOther\<close> the \<open>select\<close> on another goroutine's channel, \<open>TakeSlot\<close> the
  first (non-blocking) and \<open>Blocked\<close> the second \<open>select\<close> on \<open>memchan\<close>,
  \<open>Commit\<close> the last critical section, \<open>RetSlot\<close> the send of \<open>memReturn\<close>
  after its critical section.
\<close>

datatype pc =
    LockStart
  | WaitOther nat
  | TakeSlot nat
  | Blocked nat
  | Commit nat bool
  | LockDone bool
  | RetStart
  | RetSlot
  | RetDone

text \<open>
  A goroutine is its item and its program counter. \<open>stops\<close> holds the
  goroutines whose stop channel is closed, \<open>done_chans\<close> the closed \<open>done\<close>
  channels, \<open>locked\<close> is \<open>item.memlocked\<close>, and \<open>slot_bug\<close> records that the
  branch logged as \<open>BUG: MemReturn: slot chan is full\<close> was taken.
\<close>

record limsys =
  lim :: memlim
  locked :: "nat \<Rightarrow> nat"
  stops :: "nat set"
  next_ticket :: nat
  done_chans :: "nat set"
  threads :: "(nat \<times> pc) list"
  slot_bug :: bool

definition init_sys :: "int \<Rightarrow> limsys" where
  "init_sys value = \<lparr>lim = NewMemLimiter value, locked = (\<lambda>_. 0), stops = {},
     next_ticket = 0, done_chans = {}, threads = [], slot_bug = False\<rparr>"

definition at :: "limsys \<Rightarrow> nat \<Rightarrow> nat \<Rightarrow> pc \<Rightarrow> bool" where
  "at s t i p \<longleftrightarrow> t < length (threads s) \<and> threads s ! t = (i, p)"

definition goto :: "nat \<Rightarrow> nat \<Rightarrow> pc \<Rightarrow> limsys \<Rightarrow> limsys" where
  "goto t i p s = s\<lparr>threads := (threads s)[t := (i, p)]\<rparr>"

text \<open>The critical sections of \<open>MemLockWait\<close> and \<open>memReturn\<close>.\<close>

definition register_waiter :: "nat \<Rightarrow> limsys \<Rightarrow> limsys" where
  "register_waiter i s = s\<lparr>
     lim := (lim s)\<lparr>pending := (pending (lim s))(i \<mapsto> next_ticket s),
                    waiting := waiting (lim s) + 1\<rparr>,
     next_ticket := next_ticket s + 1\<rparr>"

definition take_slot :: "limsys \<Rightarrow> limsys" where
  "take_slot s = s\<lparr>lim := (lim s)\<lparr>slots := slots (lim s) - 1\<rparr>\<rparr>"

definition commit_wait :: "nat \<Rightarrow> nat \<Rightarrow> bool \<Rightarrow> limsys \<Rightarrow> limsys" where
  "commit_wait i k got s = s\<lparr>
     lim := (lim s)\<lparr>waiting := waiting (lim s) - 1,
                    pending := (pending (lim s))(i := None),
                    memdata := (if got then insert i (memdata (lim s)) else memdata (lim s))\<rparr>,
     locked := (if got then (locked s)(i := 1) else locked s),
     done_chans := insert k (done_chans s)\<rparr>"

definition drop_owner :: "nat \<Rightarrow> limsys \<Rightarrow> limsys" where
  "drop_owner i s = s\<lparr>
     lim := (lim s)\<lparr>memdata := memdata (lim s) - {i}\<rparr>,
     locked := (locked s)(i := 0)\<rparr>"

definition put_slot :: "limsys \<Rightarrow> limsys" where
  "put_slot s =
     (if slots (lim s) < mem_max (lim s)
      then s\<lparr>lim := (lim s)\<lparr>slots := slots (lim s) + 1\<rparr>\<rparr>
      else s\<lparr>slot_bug := True\<rparr>)"

inductive mstep :: "limsys \<Rightarrow> limsys \<Rightarrow> bool" where
  spawn_lock: "mstep s (s\<lparr>threads := threads s @ [(i, LockStart)]\<rparr>)"
| spawn_return: "mstep s (s\<lparr>threads := threads s @ [(i, RetStart)]\<rparr>)"
| close_stop: "mstep s (s\<lparr>stops := insert t (stops s)\<rparr>)"
| lock_held:
    "at s t i LockStart \<Longrightarrow> i \<in> memdata (lim s) \<Longrightarrow> mstep s (goto t i (LockDone True) s)"
| lock_other:
    "at s t i LockStart \<Longrightarrow> i \<notin> memdata (lim s) \<Longrightarrow> pending (lim s) i = Some k \<Longrightarrow>
     mstep s (goto t i (WaitOther k) s)"
| lock_register:
    "at s t i LockStart \<Longrightarrow> i \<notin> memdata (lim s) \<Longrightarrow> pending (lim s) i = None \<Longrightarrow>
     mstep s (goto t i (TakeSlot (next_ticket s)) (register_waiter i s))"
| other_done:
    "at s t i (WaitOther k) \<Longrightarrow> k \<in> done_chans s \<Longrightarrow> mstep s (goto t i LockStart s)"
| other_stop:
    "at s t i (WaitOther k) \<Longrightarrow> t \<in> stops s \<Longrightarrow> mstep s (goto t i (LockDone False) s)"
| take_free:
    "at s t i (TakeSlot k) \<Longrightarrow> 0 < slots (lim s) \<Longrightarrow>
     mstep s (goto t i (Commit k True) (take_slot s))"
| take_block:
    "at s t i (TakeSlot k) \<Longrightarrow> slots (lim s) = 0 \<Longrightarrow> mstep s (goto t i (Blocked k) s)"
| blocked_got:
    "at s t i (Blocked k) \<Longrightarrow> 0 < slots (lim s) \<Longrightarrow>
     mstep s (goto t i (Commit k True) (take_slot s))"
| blocked_stop:
    "at s t i (Blocked k) \<Longrightarrow> t \<in> stops s \<Longrightarrow> mstep s (goto t i (Commit k False) s)"
| commit:
    "at s t i (Commit k got) \<Longrightarrow> mstep s (goto t i (LockDone got) (commit_wait i k got s))"
| return_none:
    "at s t i RetStart \<Longrightarrow> i \<notin> memdata (lim s) \<Longrightarrow> mstep s (goto t i RetDone s)"
| return_owner:
    "at s t i RetStart \<Longrightarrow> i \<in> memdata (lim s) \<Longrightarrow> mstep s (goto t i RetSlot (drop_owner i s))"
| return_slot:
    "at s t i RetSlot \<Longrightarrow> mstep s (goto t i RetDone (put_slot s))"

inductive lim_reach :: "int \<Rightarrow> limsys \<Rightarrow> bool" for n where
  start: "lim_reach n (init_sys n)"
| step: "lim_reach n s \<Longrightarrow> mstep s s' \<Longrightarrow> lim_reach n s'"

section \<open>The invariant\<close>

text \<open>A goroutine that has taken a slot out of \<open>memchan\<close> and not recorded the
  owner yet, or has dropped the owner and not put the slot back yet.\<close>

fun in_transit :: "pc \<Rightarrow> bool" where
  "in_transit (Commit _ got) = got"
| "in_transit RetSlot = True"
| "in_transit _ = False"

fun ticket_of :: "pc \<Rightarrow> nat option" where
  "ticket_of (TakeSlot k) = Some k"
| "ticket_of (Blocked k) = Some k"
| "ticket_of (Commit k _) = Some k"
| "ticket_of _ = None"

definition transit :: "limsys \<Rightarrow> nat" where
  "transit s = count_if (\<lambda>(_, p). in_transit p) (threads s)"

definition waiters :: "limsys \<Rightarrow> nat" where
  "waiters s = count_if (\<lambda>(_, p). ticket_of p \<noteq> None) (threads s)"

definition holds_ticket :: "limsys \<Rightarrow> nat \<Rightarrow> nat \<Rightarrow> nat \<Rightarrow> bool" where
  "holds_ticket s t i k \<longleftrightarrow> (\<exists>p. at s t i p \<and> ticket_of p = Some k)"

definition waits_other :: "limsys \<Rightarrow> nat \<Rightarrow> nat \<Rightarrow> nat \<Rightarrow> bool" where
  "waits_other s t i k \<longleftrightarrow> at s t i (WaitOther k)"

definition slots_inv :: "nat \<Rightarrow> limsys \<Rightarrow> bool" where
  "slots_inv n s \<longleftrightarrow>
     mem_max (lim s) = n \<and> finite (memdata (lim s)) \<and>
     slots (lim s) + card (memdata (lim s)) + transit s = n \<and> \<not> slot_bug s"

definition owner_inv :: "limsys \<Rightarrow> bool" where
  "owner_inv s \<longleftrightarrow> (\<forall>i. locked s i = of_bool (i \<in> memdata (lim s)))"

definition ticket_inv :: "limsys \<Rightarrow> bool" where
  "ticket_inv s \<longleftrightarrow>
     waiting (lim s) = waiters s \<and>
     (\<forall>i k. pending (lim s) i = Some k \<longleftrightarrow> (\<exists>t. holds_ticket s t i k)) \<and>
     (\<forall>t u i j k. holds_ticket s t i k \<and> holds_ticket s u j k \<longrightarrow> t = u) \<and>
     (\<forall>t i k. holds_ticket s t i k \<longrightarrow>
        k < next_ticket s \<and> k \<notin> done_chans s \<and> i \<notin> memdata (lim s)) \<and>
     (\<forall>t i k. waits_other s t i k \<longrightarrow> k \<in> done_chans s \<or> (\<exists>u. holds_ticket s u i k)) \<and>
     (\<forall>k \<in> done_chans s. k < next_ticket s)"

lemma ticket_invI:
  assumes "waiting (lim s) = waiters s"
    and "\<And>i k. pending (lim s) i = Some k \<longleftrightarrow> (\<exists>t. holds_ticket s t i k)"
    and "\<And>t u i j k. holds_ticket s t i k \<Longrightarrow> holds_ticket s u j k \<Longrightarrow> t = u"
    and "\<And>t i k. holds_ticket s t i k \<Longrightarrow>
           k < next_ticket s \<and> k \<notin> done_chans s \<and> i \<notin> memdata (lim s)"
    and "\<And>t i k. waits_other s t i k \<Longrightarrow> k \<in> done_chans s \<or> (\<exists>u. holds_ticket s u i k)"
    and "\<And>k. k \<in> done_chans s \<Longrightarrow> k < next_ticket s"
  shows "ticket_inv s"
  using assms unfolding ticket_inv_def by blast

lemma ticket_invD:
  assumes "ticket_inv s"
  shows "waiting (lim s) = waiters s"
    and "pending (lim s) i = Some k \<longleftrightarrow> (\<exists>t. holds_ticket s t i k)"
    and "holds_ticket s t i k \<Longrightarrow> holds_ticket s u j k \<Longrightarrow> t = u"
    and "holds_ticket s t i k \<Longrightarrow> k < next_ticket s"
    and "holds_ticket s t i k \<Longrightarrow> k \<notin> done_chans s"
    and "holds_ticket s t i k \<Longrightarrow> i \<notin> memdata (lim s)"
    and "waits_other s t i k \<Longrightarrow> k \<in> done_chans s \<or> (\<exists>u. holds_ticket s u i k)"
    and "k \<in> done_chans s \<Longrightarrow> k < next_ticket s"
  using assms unfolding ticket_inv_def by blast+

lemma at_goto:
  "at s t i p0 \<Longrightarrow> at (goto t i p s) u j q \<longleftrightarrow> (if u = t then j = i \<and> q = p else at s u j q)"
  by (auto simp: at_def goto_def nth_list_update)

lemma holds_goto:
  "at s t i p0 \<Longrightarrow> holds_ticket (goto t i p s) u j k \<longleftrightarrow>
     (if u = t then j = i \<and> ticket_of p = Some k else holds_ticket s u j k)"
  by (auto simp: holds_ticket_def at_goto)

lemma waits_goto:
  "at s t i p0 \<Longrightarrow> waits_other (goto t i p s) u j k \<longleftrightarrow>
     (if u = t then j = i \<and> p = WaitOther k else waits_other s u j k)"
  by (auto simp: waits_other_def at_goto)

lemma at_det: "at s t i p \<Longrightarrow> at s t j q \<longleftrightarrow> j = i \<and> q = p"
  by (auto simp: at_def)

lemma transit_goto:
  "at s t i p0 \<Longrightarrow>
   transit (goto t i p s) + of_bool (in_transit p0) = transit s + of_bool (in_transit p)"
  using count_if_update[of t "threads s" "\<lambda>(_, p). in_transit p" "(i, p)"]
  by (simp add: transit_def goto_def at_def)

lemma waiters_goto:
  "at s t i p0 \<Longrightarrow>
   waiters (goto t i p s) + of_bool (ticket_of p0 \<noteq> None) =
   waiters s + of_bool (ticket_of p \<noteq> None)"
  using count_if_update[of t "threads s" "\<lambda>(_, p). ticket_of p \<noteq> None" "(i, p)"]
  by (simp add: waiters_def goto_def at_def)

text \<open>What a change of program counter and each critical section leave alone.\<close>

lemma goto_fields [simp]:
  "lim (goto t i p s) = lim s" "locked (goto t i p s) = locked s"
  "stops (goto t i p s) = stops s" "next_ticket (goto t i p s) = next_ticket s"
  "done_chans (goto t i p s) = done_chans s" "slot_bug (goto t i p s) = slot_bug s"
  by (simp_all add: goto_def)

lemma sys_field_simps [simp]:
  "at (s\<lparr>lim := x_lim\<rparr>) t i p = at s t i p"
  "holds_ticket (s\<lparr>lim := x_lim\<rparr>) t i k = holds_ticket s t i k"
  "waits_other (s\<lparr>lim := x_lim\<rparr>) t i k = waits_other s t i k"
  "transit (s\<lparr>lim := x_lim\<rparr>) = transit s" "waiters (s\<lparr>lim := x_lim\<rparr>) = waiters s"
  "at (s\<lparr>locked := x_locked\<rparr>) t i p = at s t i p"
  "holds_ticket (s\<lparr>locked := x_locked\<rparr>) t i k = holds_ticket s t i k"
  "waits_other (s\<lparr>locked := x_locked\<rparr>) t i k = waits_other s t i k"
  "transit (s\<lparr>locked := x_locked\<rparr>) = transit s" "waiters (s\<lparr>locked := x_locked\<rparr>) = waiters s"
  "at (s\<lparr>stops := x_stops\<rparr>) t i p = at s t i p"
  "holds_ticket (s\<lparr>stops := x_stops\<rparr>) t i k = holds_ticket s t i k"
  "waits_other (s\<lparr>stops := x_stops\<rparr>) t i k = waits_other s t i k"
  "transit (s\<lparr>stops := x_stops\<rparr>) = transit s" "waiters (s\<lparr>stops := x_stops\<rparr>) = waiters s"
  "at (s\<lparr>next_ticket := x_next_ticket\<rparr>) t i p = at s t i p"
  "holds_ticket (s\<lparr>next_ticket := x_next_ticket\<rparr>) t i k = holds_ticket s t i k"
  "waits_other (s\<lparr>next_ticket := x_next_ticket\<rparr>) t i k = waits_other s t i k"
  "transit (s\<lparr>next_ticket := x_next_ticket\<rparr>) = transit s" "waiters (s\<lparr>next_ticket := x_next_ticket\<rparr>) = waiters s"
  "at (s\<lparr>done_chans := x_done_chans\<rparr>) t i p = at s t i p"
  "holds_ticket (s\<lparr>done_chans := x_done_chans\<rparr>) t i k = holds_ticket s t i k"
  "waits_other (s\<lparr>done_chans := x_done_chans\<rparr>) t i k = waits_other s t i k"
  "transit (s\<lparr>done_chans := x_done_chans\<rparr>) = transit s" "waiters (s\<lparr>done_chans := x_done_chans\<rparr>) = waiters s"
  "at (s\<lparr>slot_bug := x_slot_bug\<rparr>) t i p = at s t i p"
  "holds_ticket (s\<lparr>slot_bug := x_slot_bug\<rparr>) t i k = holds_ticket s t i k"
  "waits_other (s\<lparr>slot_bug := x_slot_bug\<rparr>) t i k = waits_other s t i k"
  "transit (s\<lparr>slot_bug := x_slot_bug\<rparr>) = transit s" "waiters (s\<lparr>slot_bug := x_slot_bug\<rparr>) = waiters s"
  by (simp_all add: at_def holds_ticket_def waits_other_def transit_def waiters_def)

lemma at_spawn:
  "at (s\<lparr>threads := threads s @ [(i, p)]\<rparr>) t j q \<longleftrightarrow>
     (if t = length (threads s) then j = i \<and> q = p else at s t j q)"
  by (auto simp: at_def nth_append)

lemma spawn_holds:
  "ticket_of p = None \<Longrightarrow>
   holds_ticket (s\<lparr>threads := threads s @ [(i, p)]\<rparr>) t j k = holds_ticket s t j k"
  unfolding holds_ticket_def at_spawn by (cases "t = length (threads s)") (simp_all add: at_def)

lemma spawn_waits:
  "p \<noteq> WaitOther k \<Longrightarrow>
   waits_other (s\<lparr>threads := threads s @ [(i, p)]\<rparr>) t j k = waits_other s t j k"
  unfolding waits_other_def at_spawn by (cases "t = length (threads s)") (auto simp: at_def)

lemma spawn_counts:
  "\<not> in_transit p \<Longrightarrow> transit (s\<lparr>threads := threads s @ [(i, p)]\<rparr>) = transit s"
  "ticket_of p = None \<Longrightarrow> waiters (s\<lparr>threads := threads s @ [(i, p)]\<rparr>) = waiters s"
  by (simp_all add: transit_def waiters_def)

lemmas spawn_simps = spawn_holds spawn_waits spawn_counts

lemma transit_pos: "at s t i p \<Longrightarrow> in_transit p \<Longrightarrow> 0 < transit s"
  unfolding transit_def at_def by (auto intro!: count_if_pos)

lemma waiters_pos: "at s t i p \<Longrightarrow> ticket_of p \<noteq> None \<Longrightarrow> 0 < waiters s"
  unfolding waiters_def at_def by (auto intro!: count_if_pos)

lemma holds_at: "at s t i p \<Longrightarrow> ticket_of p = Some k \<Longrightarrow> holds_ticket s t i k"
  by (auto simp: holds_ticket_def)

lemma holds_det: "at s t i p \<Longrightarrow> holds_ticket s t j k \<longleftrightarrow> j = i \<and> ticket_of p = Some k"
  by (auto simp: holds_ticket_def at_def)

lemma transit_goto_eq:
  "at s t i p0 \<Longrightarrow>
   transit (goto t i p s) = transit s + of_bool (in_transit p) - of_bool (in_transit p0)"
  using transit_goto[of s t i p0 p] by (metis add_diff_cancel_right')

lemma waiters_goto_eq:
  "at s t i p0 \<Longrightarrow>
   waiters (goto t i p s) =
   waiters s + of_bool (ticket_of p \<noteq> None) - of_bool (ticket_of p0 \<noteq> None)"
  using waiters_goto[of s t i p0 p] by (metis add_diff_cancel_right')

lemma owner_step [inv_intros]: "mstep s s' \<Longrightarrow> owner_inv s \<Longrightarrow> owner_inv s'"
proof (induction rule: mstep.induct)
  case (commit s t i k got)
  then show ?case by (cases got) (simp_all add: owner_inv_def commit_wait_def)
qed (simp_all add: owner_inv_def register_waiter_def take_slot_def drop_owner_def put_slot_def)

lemma slots_step [inv_intros]:
  assumes "mstep s s'" and "slots_inv n s" and "ticket_inv s"
  shows "slots_inv n s'"
  using assms
proof (induction rule: mstep.induct)
  case (commit s t i k got)
  have "i \<notin> memdata (lim s)"
    using commit by (auto simp: ticket_inv_def dest!: holds_at)
  moreover have "in_transit (Commit k got) \<Longrightarrow> 0 < transit s"
    by (rule transit_pos[OF commit(1)])
  ultimately show ?case
    using commit by (cases got)
      (simp_all add: slots_inv_def commit_wait_def transit_goto_eq)
next
  case (return_owner s t i)
  then show ?case
    using card_Diff_mem[of "memdata (lim s)" i]
    by (simp add: slots_inv_def drop_owner_def transit_goto_eq)
next
  case (return_slot s t i)
  have "0 < transit s"
    by (rule transit_pos[OF return_slot(1)]) simp
  then show ?case
    using return_slot by (auto simp: slots_inv_def put_slot_def transit_goto_eq)
qed (simp_all add: slots_inv_def spawn_simps transit_goto_eq take_slot_def register_waiter_def)

lemma holds_goto_same:
  "at s t i p0 \<Longrightarrow> ticket_of p = ticket_of p0 \<Longrightarrow>
   holds_ticket (goto t i p s) u j k = holds_ticket s u j k"
  by (auto simp: holds_goto holds_det)

lemma waiters_goto_same:
  "at s t i p0 \<Longrightarrow> ticket_of p = ticket_of p0 \<Longrightarrow> waiters (goto t i p s) = waiters s"
  by (simp add: waiters_goto_eq)

lemma section_simps [simp]:
  "at (register_waiter j s) t i p = at s t i p" "at (commit_wait j k got s) t i p = at s t i p"
  "holds_ticket (register_waiter j s) t i l = holds_ticket s t i l"
  "holds_ticket (commit_wait j k got s) t i l = holds_ticket s t i l"
  "waits_other (register_waiter j s) t i l = waits_other s t i l"
  "waits_other (commit_wait j k got s) t i l = waits_other s t i l"
  "waiters (register_waiter j s) = waiters s" "waiters (commit_wait j k got s) = waiters s"
  by (simp_all add: register_waiter_def commit_wait_def)

text \<open>A goroutine that keeps its ticket, or keeps having none, and does not
  start to wait for another one, keeps the tickets as they are.\<close>

lemma ticket_keep:
  assumes at: "at s t i p0" and same: "ticket_of p = ticket_of p0"
    and "\<And>k. p \<noteq> WaitOther k" and inv: "ticket_inv s"
  shows "ticket_inv (goto t i p s)"
proof (rule ticket_invI, goal_cases)
  case (5 u j k)
  then show ?case
    using assms(3)[of k] ticket_invD(7)[OF inv, of u j k]
    by (simp add: waits_goto[OF at] holds_goto_same[OF at same] split: if_splits)
qed (auto simp: holds_goto_same[OF at same] waiters_goto_same[OF at same] ticket_invD[OF inv]
      dest: ticket_invD(3,4,5,6,8)[OF inv])

lemma ticket_other:
  assumes at: "at s t i LockStart" and "pending (lim s) i = Some k" and inv: "ticket_inv s"
  shows "ticket_inv (goto t i (WaitOther k) s)"
proof -
  have same: "ticket_of (WaitOther k) = ticket_of LockStart" by simp
  have "\<exists>u. holds_ticket s u i k"
    using assms(2) by (simp add: ticket_invD[OF inv])
  then have "waits_other (goto t i (WaitOther k) s) u j l \<Longrightarrow>
      l \<in> done_chans s \<or> (\<exists>u. holds_ticket s u j l)" for u j l
    using ticket_invD(7)[OF inv] by (auto simp: waits_goto[OF at] split: if_splits)
  then show ?thesis
    by (intro ticket_invI)
      (auto simp: holds_goto_same[OF at same] waiters_goto_same[OF at same] ticket_invD[OF inv]
        dest: ticket_invD(3,4,5,6,8)[OF inv])
qed

lemma ticket_register:
  assumes at: "at s t i LockStart" and "i \<notin> memdata (lim s)" and pend: "pending (lim s) i = None"
    and inv: "ticket_inv s"
  shows "ticket_inv (goto t i (TakeSlot (next_ticket s)) (register_waiter i s))"
    (is "ticket_inv ?s")
proof -
  have none: "\<not> holds_ticket s t j k" for j k
    by (simp add: holds_det[OF at])
  have nopend: "\<not> holds_ticket s u i k" for u k
    using pend ticket_invD(2)[OF inv, of i k] by auto
  have at': "at (register_waiter i s) t i LockStart"
    using at by simp
  have H: "holds_ticket ?s u j k \<longleftrightarrow>
      u = t \<and> j = i \<and> k = next_ticket s \<or> holds_ticket s u j k" for u j k
    using none by (auto simp: holds_goto[OF at'])
  have W: "waits_other ?s u j k \<Longrightarrow> waits_other s u j k" for u j k
    by (auto simp: waits_goto[OF at'] split: if_splits)
  have fields: "lim (register_waiter i s) = (lim s)\<lparr>pending := (pending (lim s))(i \<mapsto> next_ticket s),
      waiting := waiting (lim s) + 1\<rparr>" "next_ticket (register_waiter i s) = next_ticket s + 1"
    "done_chans (register_waiter i s) = done_chans s"
    by (simp_all add: register_waiter_def)
  have count: "waiters ?s = waiters s + 1"
    by (simp add: waiters_goto_eq[OF at'])
  show ?thesis
  proof (rule ticket_invI, goal_cases)
    case (2 j k)
    then show ?case using nopend ticket_invD(2)[OF inv] by (auto simp: H fields)
  next
    case (3 u v j l k)
    then show ?case
      using ticket_invD(3)[OF inv] by (auto simp: H dest: ticket_invD(4)[OF inv])
  next
    case (4 u j k)
    then show ?case
      using assms(2) by (auto simp: H fields dest: ticket_invD(4,5,6,8)[OF inv])
  next
    case (5 u j k)
    then show ?case using W ticket_invD(7)[OF inv] by (fastforce simp: H fields)
  qed (auto simp: fields count ticket_invD[OF inv] dest: ticket_invD(8)[OF inv] intro: less_SucI)
qed

lemma ticket_commit:
  assumes at: "at s t i (Commit k got)" and inv: "ticket_inv s"
  shows "ticket_inv (goto t i (LockDone got) (commit_wait i k got s))"
    (is "ticket_inv ?s")
proof -
  have mine: "holds_ticket s t i k"
    using at by (auto simp: holds_ticket_def)
  have at': "at (commit_wait i k got s) t i (Commit k got)"
    using at by simp
  have only: "holds_ticket s u i l \<Longrightarrow> u = t \<and> l = k" for u l
    using mine ticket_invD(2)[OF inv] ticket_invD(3)[OF inv] by (metis option.inject)
  have H: "holds_ticket ?s u j l \<longleftrightarrow> u \<noteq> t \<and> holds_ticket s u j l" for u j l
    by (auto simp: holds_goto[OF at'])
  have W: "waits_other ?s u j l \<Longrightarrow> waits_other s u j l" for u j l
    by (auto simp: waits_goto[OF at'] split: if_splits)
  have fields: "waiting (lim (commit_wait i k got s)) = waiting (lim s) - 1"
    "pending (lim (commit_wait i k got s)) = (pending (lim s))(i := None)"
    "memdata (lim (commit_wait i k got s)) =
      (if got then insert i (memdata (lim s)) else memdata (lim s))"
    "next_ticket (commit_wait i k got s) = next_ticket s"
    "done_chans (commit_wait i k got s) = insert k (done_chans s)"
    by (simp_all add: commit_wait_def)
  have count: "waiters ?s = waiters s - 1"
    by (simp add: waiters_goto_eq[OF at'])
  show ?thesis
  proof (rule ticket_invI, goal_cases)
    case (2 j l)
    show ?case
    proof (cases "j = i")
      case True
      then show ?thesis using only by (auto simp: H fields)
    next
      case False
      then have "holds_ticket s u j l \<Longrightarrow> u \<noteq> t" for u
        by (auto simp: holds_det[OF at])
      then have "(\<exists>u. holds_ticket ?s u j l) \<longleftrightarrow> (\<exists>u. holds_ticket s u j l)"
        unfolding H by blast
      then show ?thesis
        using False by (simp add: fields ticket_invD(2)[OF inv])
    qed
  next
    case (4 u j l)
    then show ?case
      using only ticket_invD(3)[OF inv mine] by (auto simp: H fields dest: ticket_invD(3,4,5,6,8)[OF inv])
  next
    case (5 u j l)
    then have "l \<in> done_chans s \<or> (\<exists>u. holds_ticket s u j l)"
      using W ticket_invD(7)[OF inv] by blast
    moreover have "holds_ticket s t j l \<Longrightarrow> l = k"
      by (simp add: holds_det[OF at])
    ultimately show ?case
      by (simp add: H fields) metis
  qed (auto simp: H fields count ticket_invD[OF inv] ticket_invD(4)[OF inv mine] dest: ticket_invD(3,4,5,6,8)[OF inv])
qed

text \<open>A critical section or spawn that touches neither waiters nor tickets.\<close>

lemma ticket_inv_cong:
  assumes inv: "ticket_inv s"
    and "\<And>t i k. holds_ticket s' t i k = holds_ticket s t i k"
    and "\<And>t i k. waits_other s' t i k = waits_other s t i k"
    and "waiters s' = waiters s" and "waiting (lim s') = waiting (lim s)"
    and "pending (lim s') = pending (lim s)" and "next_ticket s' = next_ticket s"
    and "done_chans s' = done_chans s" and "memdata (lim s') \<subseteq> memdata (lim s)"
  shows "ticket_inv s'"
  using assms(9) by (intro ticket_invI)
    (auto simp: assms(2-8) ticket_invD[OF inv] dest: ticket_invD(3,4,5,6,7,8)[OF inv])

lemma ticket_take: "ticket_inv s \<Longrightarrow> ticket_inv (take_slot s)"
  by (rule ticket_inv_cong[of s]) (simp_all add: take_slot_def)

lemma ticket_drop: "ticket_inv s \<Longrightarrow> ticket_inv (drop_owner i s)"
  by (rule ticket_inv_cong[of s]) (auto simp: drop_owner_def)

lemma ticket_put: "ticket_inv s \<Longrightarrow> ticket_inv (put_slot s)"
  by (rule ticket_inv_cong[of s]) (simp_all add: put_slot_def)

lemma at_sections [simp]:
  "at (take_slot s) t i p = at s t i p" "at (drop_owner j s) t i p = at s t i p"
  "at (put_slot s) t i p = at s t i p"
  by (simp_all add: take_slot_def drop_owner_def put_slot_def)

lemma ticket_step [inv_intros]: "mstep s s' \<Longrightarrow> ticket_inv s \<Longrightarrow> ticket_inv s'"
proof (induction rule: mstep.induct)
  case (spawn_lock s i)
  then show ?case by (elim ticket_inv_cong) (simp_all add: spawn_simps)
next
  case (spawn_return s i)
  then show ?case by (elim ticket_inv_cong) (simp_all add: spawn_simps)
next
  case (close_stop s t)
  then show ?case by (elim ticket_inv_cong) simp_all
qed (auto intro: ticket_register ticket_commit ticket_other ticket_take ticket_drop ticket_put
      ticket_keep)

text \<open>All three hold from the start and are kept by every step.\<close>

lemma init_inv:
  "slots_inv (mem_max (NewMemLimiter n)) (init_sys n)"
  "owner_inv (init_sys n)" "ticket_inv (init_sys n)"
  by (simp_all add: slots_inv_def owner_inv_def init_sys_def NewMemLimiter_def Let_def
      transit_def waiters_def ticket_inv_def holds_ticket_def waits_other_def at_def)

lemma reach_inv:
  assumes "lim_reach n s"
  shows "slots_inv (mem_max (NewMemLimiter n)) s \<and> owner_inv s \<and> ticket_inv s"
  using assms
  by (induction rule: lim_reach.induct) (auto simp: init_inv intro: inv_intros)

lemma capacity_positive: "0 < mem_max (NewMemLimiter n)"
  by (simp add: NewMemLimiter_def Let_def)

section \<open>The sequential functions\<close>

text \<open>
  \<open>MemLockWait\<close> and \<open>memReturn\<close> run without another goroutine in between.
  \<open>None\<close> means the call waits. \<open>stop\<close> tells whether the stop channel is closed.
\<close>

definition lock_wait :: "nat \<Rightarrow> bool \<Rightarrow> memlim \<Rightarrow> (memlim \<times> bool) option" where
  "lock_wait i stop m =
     (if i \<in> memdata m then Some (m, True)
      else if pending m i \<noteq> None then (if stop then Some (m, False) else None)
      else if 0 < slots m
      then Some (m\<lparr>slots := slots m - 1, memdata := insert i (memdata m)\<rparr>, True)
      else if stop then Some (m, False) else None)"

definition mem_return :: "nat \<Rightarrow> memlim \<Rightarrow> memlim" where
  "mem_return i m =
     (if i \<notin> memdata m then m
      else m\<lparr>memdata := memdata m - {i},
             slots := (if slots m < mem_max m then slots m + 1 else slots m)\<rparr>)"

text \<open>The whole handlers, with the counters and \<open>item.memlocked\<close>.\<close>

definition MemLockWait ::
  "nat \<Rightarrow> bool \<Rightarrow> counter \<Rightarrow> memlim \<Rightarrow> item \<Rightarrow> (counter \<times> memlim \<times> item \<times> bool) option" where
  "MemLockWait i stop c m it =
     (let c1 = bump c ''MemLockWait'' in
      case lock_wait i stop m of
        None \<Rightarrow> None
      | Some (m', got) \<Rightarrow>
          if i \<in> memdata m \<or> pending m i \<noteq> None
          then Some (unbump c1 ''MemLockWait'', m', it, got)
          else if got
          then Some (unbump (bump c1 ''TOTAL_MemLock'') ''MemLockWait'', m', it\<lparr>memlocked := 1\<rparr>, True)
          else Some (unbump (bump c1 ''TOTAL_MemLockAborted'') ''MemLockWait'', m', it, False))"

definition memReturn :: "nat \<Rightarrow> counter \<Rightarrow> memlim \<Rightarrow> item \<Rightarrow> counter \<times> memlim \<times> item" where
  "memReturn i c m it =
     (if i \<notin> memdata m then (c, m, it)
      else (if slots m < mem_max m then bump c ''TOTAL_MemReturned'' else c,
            mem_return i m, it\<lparr>memlocked := 0\<rparr>))"

definition MemReturn :: "nat \<Rightarrow> counter \<Rightarrow> memlim \<Rightarrow> item \<Rightarrow> counter \<times> memlim \<times> item" where
  "MemReturn = memReturn"

definition MemReturnIfHeld :: "nat \<Rightarrow> counter \<Rightarrow> memlim \<Rightarrow> item \<Rightarrow> counter \<times> memlim \<times> item" where
  "MemReturnIfHeld = memReturn"

text \<open>The sequential limiter between calls: no goroutine waits.\<close>

definition lim_ok :: "memlim \<Rightarrow> bool" where
  "lim_ok m \<longleftrightarrow> finite (memdata m) \<and> slots m + card (memdata m) = mem_max m \<and>
     (\<forall>i. pending m i = None)"

definition lim_acquire :: "nat \<Rightarrow> memlim \<Rightarrow> memlim option" where
  "lim_acquire i m = map_option fst (lock_wait i False m)"

lemma lim_ok_lock:
  assumes "lim_ok m" and "lock_wait i stop m = Some (m', got)"
  shows "lim_ok m'" and "mem_max m' = mem_max m"
    and "memdata m' = (if got then insert i (memdata m) else memdata m)"
  using assms by (auto simp: lim_ok_def lock_wait_def split: if_splits)

lemma lim_ok_return:
  assumes "lim_ok m"
  shows "lim_ok (mem_return i m)" and "mem_max (mem_return i m) = mem_max m"
    and "memdata (mem_return i m) = memdata m - {i}"
  using assms card_Diff_mem[of "memdata m" i]
  by (auto simp: lim_ok_def mem_return_def)

interpretation mem_pool: slot_pool lim_ok mem_max slots memdata lim_acquire mem_return
proof unfold_locales
  fix m i m'
  assume "lim_ok m" and "lim_acquire i m = Some m'"
  then show "lim_ok m' \<and> mem_max m' = mem_max m \<and> memdata m' = insert i (memdata m)"
    using lim_ok_lock[of m i False m' True]
    by (auto simp: lim_acquire_def lock_wait_def split: if_splits)
next
  fix m i
  assume "lim_ok m"
  then show "lim_ok (mem_return i m) \<and> mem_max (mem_return i m) = mem_max m \<and>
      memdata (mem_return i m) = memdata m - {i}"
    by (simp add: lim_ok_return)
qed (auto simp: lim_acquire_def lock_wait_def lim_ok_def split: if_splits)

lemma lim_ok_New: "lim_ok (NewMemLimiter n)"
  by (simp add: lim_ok_def NewMemLimiter_def Let_def)

section \<open>The sequential functions are the steps\<close>

lemma star_step: "mstep\<^sup>*\<^sup>* s s' \<Longrightarrow> mstep s' s'' \<Longrightarrow> mstep\<^sup>*\<^sup>* s s''"
  by (rule rtranclp.rtrancl_into_rtrancl)

lemma at_gotoI [simp]: "at s t i p0 \<Longrightarrow> at (goto t i p s) t i p"
  by (simp add: at_goto)

lemma lim_eqI:
  "mem_max m = mem_max m' \<Longrightarrow> waiting m = waiting m' \<Longrightarrow> slots m = slots m' \<Longrightarrow>
   memdata m = memdata m' \<Longrightarrow> pending m = pending m' \<Longrightarrow> m = (m' :: memlim)"
  by simp

lemma lock_wait_take:
  assumes "at s t i LockStart" and "i \<notin> memdata (lim s)" and "pending (lim s) i = None"
    and "0 < slots (lim s)"
  shows "\<exists>s'. mstep\<^sup>*\<^sup>* s s' \<and> at s' t i (LockDone True) \<and>
    lim s' = (lim s)\<lparr>slots := slots (lim s) - 1, memdata := insert i (memdata (lim s))\<rparr>"
proof -
  let ?k = "next_ticket s"
  let ?a = "goto t i (TakeSlot ?k) (register_waiter i s)"
  let ?b = "goto t i (Commit ?k True) (take_slot ?a)"
  let ?c = "goto t i (LockDone True) (commit_wait i ?k True ?b)"
  have a: "at ?a t i (TakeSlot ?k)"
    using assms(1) by (intro at_gotoI[of _ _ _ LockStart]) simp
  have b: "at ?b t i (Commit ?k True)"
    using a by (intro at_gotoI[of _ _ _ "TakeSlot ?k"]) simp
  have c: "at ?c t i (LockDone True)"
    using b by (intro at_gotoI[of _ _ _ "Commit ?k True"]) simp
  have "mstep s ?a"
    using assms(1-3) by (rule mstep.lock_register)
  moreover have "mstep ?a ?b"
    using a by (rule mstep.take_free) (simp add: register_waiter_def assms(4))
  moreover have "mstep ?b ?c"
    using b by (rule mstep.commit)
  ultimately have "mstep\<^sup>*\<^sup>* s ?c"
    by (intro star_step[OF star_step[OF r_into_rtranclp]])
  moreover have "lim ?c = (lim s)\<lparr>slots := slots (lim s) - 1, memdata := insert i (memdata (lim s))\<rparr>"
    using assms(3) by (simp add: register_waiter_def take_slot_def commit_wait_def fun_upd_idem)
  ultimately show ?thesis
    using c by blast
qed

lemma lock_wait_abort:
  assumes "at s t i LockStart" and "i \<notin> memdata (lim s)" and "pending (lim s) i = None"
    and "slots (lim s) = 0" and "t \<in> stops s"
  shows "\<exists>s'. mstep\<^sup>*\<^sup>* s s' \<and> at s' t i (LockDone False) \<and> lim s' = lim s"
proof -
  let ?k = "next_ticket s"
  let ?a = "goto t i (TakeSlot ?k) (register_waiter i s)"
  let ?b = "goto t i (Blocked ?k) ?a"
  let ?c = "goto t i (Commit ?k False) ?b"
  let ?d = "goto t i (LockDone False) (commit_wait i ?k False ?c)"
  have a: "at ?a t i (TakeSlot ?k)"
    using assms(1) by (intro at_gotoI[of _ _ _ LockStart]) simp
  have b: "at ?b t i (Blocked ?k)"
    using a by (rule at_gotoI)
  have c: "at ?c t i (Commit ?k False)"
    using b by (rule at_gotoI)
  have d: "at ?d t i (LockDone False)"
    using c by (intro at_gotoI[of _ _ _ "Commit ?k False"]) simp
  have "mstep s ?a"
    using assms(1-3) by (rule mstep.lock_register)
  moreover have "mstep ?a ?b"
    using a by (rule mstep.take_block) (simp add: register_waiter_def assms(4))
  moreover have "mstep ?b ?c"
    using b by (rule mstep.blocked_stop) (simp add: register_waiter_def assms(5))
  moreover have "mstep ?c ?d"
    using c by (rule mstep.commit)
  ultimately have "mstep\<^sup>*\<^sup>* s ?d"
    by (intro star_step[OF star_step[OF star_step[OF r_into_rtranclp]]])
  moreover have "lim ?d = lim s"
    using assms(3) by (simp add: register_waiter_def commit_wait_def fun_upd_idem)
  ultimately show ?thesis
    using d by blast
qed

text \<open>A call that the sequential function completes is a run of the goroutine.\<close>

lemma lock_wait_simulated:
  assumes at: "at s t i LockStart" and result: "lock_wait i (t \<in> stops s) (lim s) = Some (m, got)"
  shows "\<exists>s'. mstep\<^sup>*\<^sup>* s s' \<and> at s' t i (LockDone got) \<and> lim s' = m"
proof -
  consider "i \<in> memdata (lim s)" | k where "i \<notin> memdata (lim s)" "pending (lim s) i = Some k"
    | "i \<notin> memdata (lim s)" "pending (lim s) i = None" by blast
  then show ?thesis
  proof cases
    case 1
    then show ?thesis
      using result mstep.lock_held[OF at 1] at by (auto simp: lock_wait_def)
  next
    case 2
    then have stopped: "t \<in> stops s" "got = False" "m = lim s"
      using result by (auto simp: lock_wait_def split: if_splits)
    let ?a = "goto t i (WaitOther k) s" and ?b = "goto t i (LockDone False) (goto t i (WaitOther k) s)"
    have a: "at ?a t i (WaitOther k)" using at by (rule at_gotoI)
    have "mstep s ?a" using at 2 by (rule mstep.lock_other)
    moreover have "mstep ?a ?b"
      using a by (rule mstep.other_stop) (simp add: stopped)
    ultimately have "mstep\<^sup>*\<^sup>* s ?b"
      by (intro star_step[OF r_into_rtranclp])
    then show ?thesis
      using stopped at_gotoI[OF a] by (intro exI[of _ ?b]) simp
  next
    case 3
    then show ?thesis
      using result lock_wait_take[OF at 3] lock_wait_abort[OF at 3]
      by (auto simp: lock_wait_def split: if_splits)
  qed
qed

lemma mem_return_simulated:
  assumes at: "at s t i RetStart"
  shows "\<exists>s'. mstep\<^sup>*\<^sup>* s s' \<and> at s' t i RetDone \<and> lim s' = mem_return i (lim s)"
proof (cases "i \<in> memdata (lim s)")
  case False
  then show ?thesis
    using mstep.return_none[OF at False] at by (auto simp: mem_return_def)
next
  case True
  let ?a = "goto t i RetSlot (drop_owner i s)"
  let ?b = "goto t i RetDone (put_slot ?a)"
  have a: "at ?a t i RetSlot"
    using at by (intro at_gotoI[of _ _ _ RetStart]) simp
  have "mstep s ?a" using at True by (rule mstep.return_owner)
  moreover have "mstep ?a ?b" using a by (rule mstep.return_slot)
  ultimately have "mstep\<^sup>*\<^sup>* s ?b"
    by (intro star_step[OF r_into_rtranclp])
  moreover have "at ?b t i RetDone"
    using a by (intro at_gotoI[of _ _ _ RetSlot]) simp
  moreover have "lim ?b = mem_return i (lim s)"
    using True by (simp add: mem_return_def put_slot_def drop_owner_def)
  ultimately show ?thesis
    by blast
qed

section \<open>Progress\<close>

definition moves :: "limsys \<Rightarrow> nat \<Rightarrow> bool" where
  "moves s t \<longleftrightarrow> (\<exists>i p p' s'. at s t i p \<and> p' \<noteq> p \<and> at s' t i p' \<and> mstep s s')"

fun finished :: "pc \<Rightarrow> bool" where
  "finished (LockDone _) = True"
| "finished RetDone = True"
| "finished _ = False"

lemma movesI:
  assumes "at s t i p" and "mstep s (goto t i p' s')" and "at s' t i p" and "p' \<noteq> p"
  shows "moves s t"
  using assms at_gotoI[OF assms(3), of p'] unfolding moves_def by blast

lemma moves_or_waits:
  assumes at: "at s t i p" and "\<not> finished p" and inv: "ticket_inv s"
  shows "moves s t \<or> (\<exists>k. p = Blocked k \<and> slots (lim s) = 0) \<or>
    (\<exists>k u. p = WaitOther k \<and> holds_ticket s u i k)"
proof (cases p)
  case LockStart
  consider "i \<in> memdata (lim s)" | k where "i \<notin> memdata (lim s)" "pending (lim s) i = Some k"
    | "i \<notin> memdata (lim s)" "pending (lim s) i = None" by blast
  then have "moves s t"
    using at LockStart
    by cases (auto intro: movesI mstep.lock_held mstep.lock_other mstep.lock_register)
  then show ?thesis ..
next
  case (WaitOther k)
  then have "k \<in> done_chans s \<or> (\<exists>u. holds_ticket s u i k)"
    using at ticket_invD(7)[OF inv, of t i k] by (simp add: waits_other_def)
  then show ?thesis
    using at WaitOther by (auto intro: movesI mstep.other_done)
next
  case (TakeSlot k)
  then have "moves s t"
    using at by (cases "slots (lim s) = 0") (auto intro: movesI mstep.take_free mstep.take_block)
  then show ?thesis ..
next
  case (Blocked k)
  then show ?thesis
    using at by (cases "slots (lim s) = 0") (auto intro: movesI mstep.blocked_got)
next
  case (Commit k got)
  then have "moves s t"
    using at by (auto intro!: movesI mstep.commit)
  then show ?thesis ..
next
  case RetStart
  then have "moves s t"
    using at by (cases "i \<in> memdata (lim s)")
      (auto intro: movesI mstep.return_none mstep.return_owner)
  then show ?thesis ..
next
  case RetSlot
  then have "moves s t"
    using at by (auto intro!: movesI mstep.return_slot)
  then show ?thesis ..
qed (use assms(2) in auto)

lemma transit_moves:
  assumes "ticket_inv s" and "0 < transit s"
  shows "\<exists>u. moves s u"
proof -
  obtain u where u: "u < length (threads s)" "in_transit (snd (threads s ! u))"
    using count_if_witness[OF assms(2)[unfolded transit_def]]
    by (auto simp: case_prod_beta)
  obtain i p where ip: "threads s ! u = (i, p)" by (cases "threads s ! u")
  then have "at s u i p" "in_transit p"
    using u by (simp_all add: at_def)
  then have "moves s u"
    using moves_or_waits[of s u i p] assms(1) by (cases p) auto
  then show ?thesis ..
qed

section \<open>Properties\<close>

text \<open>C1: in every state the limiter can reach, with any number of goroutines
  interleaved inside \<open>MemLockWait\<close> and \<open>MemReturn\<close> and any of them stopped:
  the free slots, the items that own a slot and the slots a goroutine carries
  between two critical sections add up to the limit, so never more than
  \<open>mem_max\<close> items are in memory; the branch logged as a bug (slot channel
  full) is never taken; and \<open>item.memlocked\<close> is 1 exactly for the owners.\<close>

theorem memlim_conserves:
  assumes "lim_reach n s"
  shows "slots (lim s) + card (memdata (lim s)) + transit s = mem_max (NewMemLimiter n) \<and>
         mem_max (lim s) = mem_max (NewMemLimiter n) \<and>
         card (memdata (lim s)) \<le> mem_max (lim s) \<and> \<not> slot_bug s \<and>
         (\<forall>i. locked s i = (if i \<in> memdata (lim s) then 1 else 0))"
  using reach_inv[OF assms] by (auto simp: slots_inv_def owner_inv_def)

text \<open>The first steps of one goroutine, for the witnesses.\<close>

definition sys_waiting :: limsys where
  "sys_waiting = goto 0 7 (TakeSlot 0) (register_waiter 7 ((init_sys 2)\<lparr>threads := [(7, LockStart)]\<rparr>))"

definition sys_committed :: limsys where
  "sys_committed = goto 0 7 (Commit 0 True) (take_slot sys_waiting)"

definition sys_owned :: limsys where
  "sys_owned = goto 0 7 (LockDone True) (commit_wait 7 0 True sys_committed)"

lemma reach_waiting: "lim_reach 2 sys_waiting"
proof -
  have "lim_reach 2 ((init_sys 2)\<lparr>threads := threads (init_sys 2) @ [(7, LockStart)]\<rparr>)"
    by (rule lim_reach.step[OF lim_reach.start mstep.spawn_lock])
  moreover have "mstep ((init_sys 2)\<lparr>threads := [(7, LockStart)]\<rparr>) sys_waiting"
    using mstep.lock_register[of "(init_sys 2)\<lparr>threads := [(7, LockStart)]\<rparr>" 0 7]
    by (simp add: sys_waiting_def at_def init_sys_def NewMemLimiter_def Let_def)
  ultimately show ?thesis
    by (auto simp: init_sys_def intro: lim_reach.step)
qed

lemma reach_committed: "lim_reach 2 sys_committed"
proof -
  have "mstep sys_waiting sys_committed"
    unfolding sys_committed_def
    by (rule mstep.take_free)
      (simp_all add: sys_waiting_def at_def goto_def register_waiter_def init_sys_def
        NewMemLimiter_def Let_def)
  then show ?thesis
    by (rule lim_reach.step[OF reach_waiting])
qed

lemma reach_owned: "lim_reach 2 sys_owned"
proof -
  have "mstep sys_committed sys_owned"
    unfolding sys_owned_def
    by (rule mstep.commit)
      (simp add: sys_committed_def sys_waiting_def at_def goto_def register_waiter_def
        take_slot_def init_sys_def)
  then show ?thesis
    by (rule lim_reach.step[OF reach_committed])
qed

theorem memlim_conserves_witness:
  "slots (lim sys_owned) + card (memdata (lim sys_owned)) + transit sys_owned =
     mem_max (NewMemLimiter 2) \<and>
   mem_max (lim sys_owned) = mem_max (NewMemLimiter 2) \<and>
   card (memdata (lim sys_owned)) \<le> mem_max (lim sys_owned) \<and> \<not> slot_bug sys_owned \<and>
   (\<forall>i. locked sys_owned i = (if i \<in> memdata (lim sys_owned) then 1 else 0))"
  by (rule memlim_conserves[OF reach_owned])

text \<open>C5: no deadlock in the limiter. Whenever a goroutine inside it has not
  returned, some goroutine can take a step, unless every slot is owned by an
  item in memory and the callers wait for one of these to be given back. In
  particular a goroutine that waits on another one for the same item is never
  left behind.\<close>

theorem memlim_no_deadlock:
  assumes "lim_reach n s" and "at s t i p" and "\<not> finished p"
  shows "(\<exists>u. moves s u) \<or> card (memdata (lim s)) = mem_max (lim s)"
proof -
  have inv: "slots_inv (mem_max (NewMemLimiter n)) s" "ticket_inv s"
    using reach_inv[OF assms(1)] by auto
  have "moves s t \<or> slots (lim s) = 0 \<or> (\<exists>u. moves s u)"
  proof (cases "\<exists>k u. p = WaitOther k \<and> holds_ticket s u i k")
    case True
    then obtain k u q where "at s u i q" "ticket_of q = Some k"
      by (auto simp: holds_ticket_def)
    then show ?thesis
      using moves_or_waits[of s u i q, OF _ _ inv(2)] by (cases q) auto
  qed (use moves_or_waits[OF assms(2,3) inv(2)] in auto)
  then show ?thesis
    using transit_moves[OF inv(2)] inv(1) by (cases "transit s = 0") (auto simp: slots_inv_def)
qed

theorem memlim_no_deadlock_witness:
  "(\<exists>u. moves sys_waiting u) \<or> card (memdata (lim sys_waiting)) = mem_max (lim sys_waiting)"
  by (rule memlim_no_deadlock[OF reach_waiting, of 0 7 "TakeSlot 0"])
    (simp_all add: sys_waiting_def at_def goto_def register_waiter_def init_sys_def)

text \<open>At most one goroutine at a time waits for a slot for an item, an item
  that owns a slot has no waiter, and \<open>MemAvail\<close> is exact: it answers whether
  fewer than \<open>mem_max\<close> goroutines are waiting.\<close>

theorem memlim_one_waiter:
  assumes "lim_reach n s"
  shows "(\<forall>t u i k l. holds_ticket s t i k \<and> holds_ticket s u i l \<longrightarrow> t = u \<and> k = l) \<and>
         (\<forall>t i k. holds_ticket s t i k \<longrightarrow> i \<notin> memdata (lim s)) \<and>
         (MemAvail (lim s) \<longleftrightarrow> waiters s < mem_max (NewMemLimiter n))"
proof -
  have inv: "slots_inv (mem_max (NewMemLimiter n)) s" "ticket_inv s"
    using reach_inv[OF assms] by auto
  have "t = u \<and> k = l" if "holds_ticket s t i k" "holds_ticket s u i l" for t u i k l
    using that ticket_invD(2)[OF inv(2)] ticket_invD(3)[OF inv(2)] by (metis option.inject)
  then show ?thesis
    using inv(1) ticket_invD(6)[OF inv(2)] ticket_invD(1)[OF inv(2)]
    by (auto simp: MemAvail_def slots_inv_def)
qed

theorem memlim_one_waiter_witness:
  "holds_ticket sys_waiting 0 7 0 \<and> 7 \<notin> memdata (lim sys_waiting) \<and> MemAvail (lim sys_waiting)"
proof -
  have held: "holds_ticket sys_waiting 0 7 0"
    by (auto simp: holds_ticket_def sys_waiting_def at_def goto_def register_waiter_def init_sys_def)
  have "waiters sys_waiting < mem_max (NewMemLimiter 2)"
    by (simp add: waiters_def sys_waiting_def goto_def register_waiter_def init_sys_def
      NewMemLimiter_def Let_def)
  then show ?thesis
    using held memlim_one_waiter[OF reach_waiting] by blast
qed

text \<open>C6: the sequential functions the handlers use are the goroutine code: a
  call of \<open>MemLockWait\<close> that completes, and every call of \<open>memReturn\<close>, is a
  sequence of the interleaving model's steps that ends in the same limiter
  and the same answer.\<close>

theorem memlim_sequential_refines:
  assumes "at s t i p"
    and "p = LockStart \<and> lock_wait i (t \<in> stops s) (lim s) = Some (m, got) \<and> q = LockDone got \<or>
         p = RetStart \<and> mem_return i (lim s) = m \<and> q = RetDone"
  shows "\<exists>s'. mstep\<^sup>*\<^sup>* s s' \<and> at s' t i q \<and> lim s' = m"
  using assms lock_wait_simulated[of s t i m got] mem_return_simulated[of s t i] by blast

theorem memlim_sequential_refines_witness:
  "\<exists>s'. mstep\<^sup>*\<^sup>* ((init_sys 2)\<lparr>threads := [(7, LockStart)]\<rparr>) s' \<and> at s' 0 7 (LockDone True) \<and>
        lim s' = \<lparr>mem_max = 2, waiting = 0, slots = 1, memdata = {7}, pending = (\<lambda>_. None)\<rparr>"
  by (rule memlim_sequential_refines[of _ 0 7 LockStart _ True])
    (simp_all add: at_def init_sys_def lock_wait_def NewMemLimiter_def Let_def)

end
