(* ===== verification/Workers.thy ===== *)
theory Workers
  imports Prelude Counter Items SlotPool MemLimit
begin

text \<open>
  The decisions of \<open>Workers.go\<close> about one item: whether it is a candidate for
  download or upload, where it can still be uploaded, what a failure does to
  it, when its memory slot goes back, and the two functions of the divider that
  queue it (\<open>pushDL\<close>, \<open>pushUP\<close>). Each holds the item's mutex, so it is a
  function of the item. The order in which Go ranges over a map is an argument
  \<open>order\<close>, and \<open>time.Now().Unix()\<close> is the argument \<open>now\<close>.
\<close>

section \<open>Candidates\<close>

definition matchThisDL :: "options \<Rightarrow> item \<Rightarrow> bool" where
  "matchThisDL opt it =
     (if cacheON opt \<and> (article it \<noteq> [] \<or> flagCache it) \<and> \<not> flagisUP it \<and> \<not> flaginUP it \<and>
         \<not> flaginDLMEM it
      then \<not> flaginDL it \<and> \<not> flagisDL it
      else article it = [] \<and> \<not> flaginDL it \<and> \<not> flagisDL it \<and> \<not> flaginUP it \<and>
           \<not> flagisUP it \<and> \<not> flaginDLMEM it)"

definition matchThisUP :: "item \<Rightarrow> bool" where
  "matchThisUP it \<longleftrightarrow>
     article it \<noteq> [] \<and> (flagisDL it \<or> flagCache it) \<and> \<not> flaginUP it \<and> \<not> flagisUP it \<and>
     \<not> flaginDLMEM it \<and> \<not> flaginDL it"

definition wantDownload :: "options \<Rightarrow> item \<Rightarrow> bool" where
  "wantDownload opt it =
     (if flagisDL it \<or> flagCache it \<or> flaginDL it then False
      else if DlAll opt then True
      else if DlMissing opt then missingOn it \<noteq> {}
      else False)"

definition onAllProviders :: "provider list \<Rightarrow> item \<Rightarrow> bool" where
  "onAllProviders ps it \<longleftrightarrow>
     (\<forall>pid \<in> set [0..<length ps]. pid \<in> availableOn it \<or> pid \<in> uploadedTo it)"

text \<open>The provider side and the item side of the test that \<open>hasUploadTarget\<close>
  and \<open>pushUP\<close> make.\<close>

definition takesUploads :: "provider \<Rightarrow> bool" where
  "takesUploads p \<longleftrightarrow> \<not> (NoUpload p \<or> \<not> cap_ihave p \<and> \<not> cap_post p \<or> down p)"

definition uploadBlocked :: "item \<Rightarrow> nat \<Rightarrow> bool" where
  "uploadBlocked it pid \<longleftrightarrow>
     pid \<in> ignoreUlOn it \<or> pid \<in> uploadedTo it \<or> pid \<in> availableOn it \<or>
     pid \<in> unwantedOn it \<or> pid \<in> dmcaOn it \<or> pid \<in> errorOn it"

definition hasUploadTarget :: "provider list \<Rightarrow> item \<Rightarrow> bool" where
  "hasUploadTarget ps it \<longleftrightarrow>
     (\<exists>pid \<in> missingOn it. takesUploads (ps ! pid) \<and> \<not> uploadBlocked it pid)"

section \<open>Failures\<close>

definition maxItemFails :: nat where
  "maxItemFails = 3"

definition FlagError :: "int \<Rightarrow> nat \<Rightarrow> item \<Rightarrow> item" where
  "FlagError now pid it =
     (let wasUP = flaginUP it;
          it1 = (if flaginUP it
                 then (if fails it < maxItemFails - 1
                       then it\<lparr>retryIn := now + 5, retryOn := insert pid (retryOn it)\<rparr>
                       else it)\<lparr>flaginUP := False\<rparr>
                 else it);
          it2 = it1\<lparr>flaginDL := False, fails := fails it1 + 1\<rparr>;
          it3 = (if wasUP \<and> maxItemFails \<le> fails it2
                 then it2\<lparr>errorOn := insert pid (errorOn it2)\<rparr> else it2)
      in it3\<lparr>availableOn := availableOn it3 - {pid}\<rparr>)"

definition FlagDLFailed :: "provider list \<Rightarrow> string \<Rightarrow> item \<Rightarrow> item" where
  "FlagDLFailed ps g it =
     fold (\<lambda>pid it. it\<lparr>ignoreDlOn := insert pid (ignoreDlOn it),
                      missingOn := insert pid (missingOn it),
                      errorOn := insert pid (errorOn it),
                      availableOn := availableOn it - {pid}\<rparr>) (group_ids ps g) it"

definition markCheckFailed :: "provider list \<Rightarrow> string \<Rightarrow> item \<Rightarrow> item" where
  "markCheckFailed ps g it =
     fold (\<lambda>pid it. it\<lparr>checkedOn := checkedOn it + 1,
                      errorOn := insert pid (errorOn it),
                      ignoreDlOn := insert pid (ignoreDlOn it)\<rparr>) (group_ids ps g) it"

section \<open>Giving memory slots back\<close>

text \<open>What a retirement acts on: \<open>GCounter\<close>, the limiter and the item.\<close>

type_synonym slotstate = "counter \<times> memlim \<times> item"

definition retireItem :: "options \<Rightarrow> nat \<Rightarrow> slotstate \<Rightarrow> slotstate" where
  "retireItem opt i st =
     (case st of (c, m, it) \<Rightarrow>
        let held = 0 < memlocked it;
            it1 = (if held \<and> \<not> YencWrite opt \<and> \<not> flaginYenc it \<and> (\<not> cacheON opt \<or> flagCache it)
                   then it\<lparr>article := []\<rparr> else it)
        in if held then MemReturnIfHeld i c m it1 else (c, m, it1))"

definition retireNoUploadTarget :: "options \<Rightarrow> nat \<Rightarrow> slotstate \<Rightarrow> slotstate" where
  "retireNoUploadTarget = retireItem"

definition allowUpload :: "options \<Rightarrow> counter \<Rightarrow> bool" where
  "allowUpload opt c \<longleftrightarrow> \<not> CheckOnly opt \<and> 0 < GetValue c ''postProviders''"

definition retireAfterDownload :: "options \<Rightarrow> provider list \<Rightarrow> nat \<Rightarrow> slotstate \<Rightarrow> slotstate" where
  "retireAfterDownload opt ps i st =
     (case st of (c, m, it) \<Rightarrow>
        if allowUpload opt c \<and> hasUploadTarget ps it then st
        else if \<not> cacheON opt \<or> flagCache it then retireItem opt i st
        else (c, m, it\<lparr>retireWhenCached := True\<rparr>))"

definition afterCacheWrite :: "options \<Rightarrow> nat \<Rightarrow> slotstate \<Rightarrow> slotstate" where
  "afterCacheWrite opt i st =
     (case st of (c, m, it) \<Rightarrow>
        if retireWhenCached it \<and> flagCache it
        then retireItem opt i (c, m, it\<lparr>retireWhenCached := False\<rparr>) else st)"

text \<open>\<open>releaseMemSlots\<close> over the items of the session, given by their index.\<close>

definition release_item :: "nat \<Rightarrow> counter \<times> memlim \<times> (nat \<Rightarrow> item) \<Rightarrow> counter \<times> memlim \<times> (nat \<Rightarrow> item)" where
  "release_item i st =
     (case st of (c, m, its) \<Rightarrow>
        if 0 < memlocked (its i)
        then (case MemReturn i c m (its i) of (c', m', it') \<Rightarrow> (c', m', its(i := it')))
        else st)"

definition releaseMemSlots ::
  "nat list \<Rightarrow> counter \<times> memlim \<times> (nat \<Rightarrow> item) \<Rightarrow> counter \<times> memlim \<times> (nat \<Rightarrow> item)" where
  "releaseMemSlots = fold release_item"

section \<open>Queueing an item\<close>

text \<open>What a push acts on: the channels of its kind, \<open>GCounter\<close> and the item.\<close>

type_synonym pushstate = "(string \<rightharpoonup> chan) \<times> counter \<times> item"

fun pushDL_loop :: "provider list \<Rightarrow> nat \<Rightarrow> nat list \<Rightarrow> pushstate \<Rightarrow> (pushstate \<times> bool \<times> nat) go" where
  "pushDL_loop ps i [] st = Inr (st, False, 1)"
| "pushDL_loop ps i (pid # order) (cs, c, it) =
     (if pid \<in> ignoreDlOn it \<or> pid \<in> missingOn it \<or> pid \<in> errorOn it
      then pushDL_loop ps i order (cs, c, it)
      else if NoDownload (ps ! pid) \<or> down (ps ! pid)
      then pushDL_loop ps i order (cs, c, it\<lparr>ignoreDlOn := insert pid (ignoreDlOn it)\<rparr>)
      else let c1 = IncreaseDLQueueCnt c in
           go_bind (try_send cs (Group (ps ! pid)) i) (\<lambda>(cs', sent).
             if sent
             then Inr ((cs', bump c1 ''TOTAL_dlQueueCnt'',
                        it\<lparr>flaginDL := True, pushedDL := pushedDL it + 1\<rparr>), True, 0)
             else Inr ((cs', DecreaseDLQueueCnt c1, it), False, 0)))"

definition pushDL ::
  "options \<Rightarrow> provider list \<Rightarrow> bool \<Rightarrow> memlim \<Rightarrow> bool \<Rightarrow> nat list \<Rightarrow> nat \<Rightarrow> pushstate \<Rightarrow>
   (pushstate \<times> bool \<times> nat) go" where
  "pushDL opt ps segdone m allowDl order i st =
     (case st of (cs, c, it) \<Rightarrow>
        if \<not> allowDl then Inr (st, False, 0)
        else if CheckFirst opt \<and> \<not> segdone then Inr ((cs, c, it\<lparr>flaginDLMEM := True\<rparr>), False, 1)
        else let it1 = (if CheckFirst opt then it\<lparr>flaginDLMEM := False\<rparr> else it) in
             if \<not> matchThisDL opt it1 then Inr ((cs, c, it1), False, 1)
             else if \<not> MemAvail m then Inr ((cs, c, it1), False, 1)
             else pushDL_loop ps i order (cs, c, it1))"

text \<open>\<open>pushUP\<close> returns whether it pushed, its two counts and whether it failed.\<close>

fun pushUP_loop ::
  "provider list \<Rightarrow> int \<Rightarrow> nat \<Rightarrow> nat list \<Rightarrow> nat \<Rightarrow> nat \<Rightarrow> pushstate \<Rightarrow>
   (pushstate \<times> bool \<times> nat \<times> nat \<times> bool) go" where
  "pushUP_loop ps now i [] noup inretry st = Inr (st, False, noup, inretry, True)"
| "pushUP_loop ps now i (pid # order) noup inretry (cs, c, it) =
     (if \<not> takesUploads (ps ! pid) \<or> uploadBlocked it pid
      then pushUP_loop ps now i order (noup + 1) inretry (cs, c, it)
      else if pid \<in> retryOn it \<and> now < retryIn it
      then pushUP_loop ps now i order noup (inretry + 1) (cs, c, it)
      else let it1 = it\<lparr>retryOn := retryOn it - {pid}\<rparr>; c1 = IncreaseUPQueueCnt c in
           go_bind (try_send cs (Group (ps ! pid)) i) (\<lambda>(cs', sent).
             if sent
             then Inr ((cs', bump c1 ''TOTAL_upQueueCnt'',
                        it1\<lparr>flaginUP := True, pushedUP := pushedUP it1 + 1\<rparr>), True, 0, 0, False)
             else Inr ((cs', DecreaseUPQueueCnt c1, it1), False, noup + 1, inretry, True)))"

definition pushUP ::
  "options \<Rightarrow> provider list \<Rightarrow> bool \<Rightarrow> bool \<Rightarrow> int \<Rightarrow> nat list \<Rightarrow> nat \<Rightarrow> pushstate \<Rightarrow>
   (pushstate \<times> bool \<times> nat \<times> nat \<times> bool) go" where
  "pushUP opt ps segdone allowUp now order i st =
     (case st of (cs, c, it) \<Rightarrow>
        if \<not> allowUp then Inr (st, False, 1, 0, True)
        else if CheckFirst opt \<and> \<not> segdone then Inr (st, False, 1, 0, False)
        else if \<not> matchThisUP it then Inr (st, False, 1, 0, False)
        else pushUP_loop ps now i order 0 0 st)"

section \<open>What the pushes do\<close>

definition queued_at :: "(string \<rightharpoonup> chan) \<Rightarrow> (string \<rightharpoonup> chan) \<Rightarrow> string \<Rightarrow> nat \<Rightarrow> bool" where
  "queued_at cs cs' g i \<longleftrightarrow>
     (\<exists>ch. cs g = Some ch \<and> \<not> chan_closed ch \<and> length (chan_buf ch) < chan_cap ch \<and>
           cs' = cs(g \<mapsto> ch\<lparr>chan_buf := chan_buf ch @ [i]\<rparr>))"

definition all_open :: "(string \<rightharpoonup> chan) \<Rightarrow> bool" where
  "all_open cs \<longleftrightarrow> (\<forall>g ch. cs g = Some ch \<longrightarrow> \<not> chan_closed ch)"

lemma try_send_cases:
  assumes "try_send cs g i = Inr (cs', sent)"
  shows "if sent then queued_at cs cs' g i else cs' = cs"
  using assms by (auto simp: try_send_def queued_at_def split: option.splits if_splits)

lemma try_send_open: "all_open cs \<Longrightarrow> \<not> panics (try_send cs g i)"
  by (auto simp: try_send_def all_open_def split: option.splits)

lemma queue_counts [counter_simps]:
  "c \<noteq> None \<Longrightarrow> GetValue (IncreaseDLQueueCnt c) j =
     (if j = ''dlQueueCnt'' then GetValue c j + 1 else GetValue c j)"
  "c \<noteq> None \<Longrightarrow> GetValue (IncreaseUPQueueCnt c) j =
     (if j = ''upQueueCnt'' then GetValue c j + 1 else GetValue c j)"
  by (simp_all add: IncreaseDLQueueCnt_def IncreaseUPQueueCnt_def GetValue_bump)

lemma queue_undo [counter_simps]:
  "c \<noteq> None \<Longrightarrow> GetValue c ''dlQueueCnt'' + 1 \<noteq> 0 \<Longrightarrow>
     GetValue (DecreaseDLQueueCnt (IncreaseDLQueueCnt c)) j = GetValue c j"
  "c \<noteq> None \<Longrightarrow> GetValue c ''upQueueCnt'' + 1 \<noteq> 0 \<Longrightarrow>
     GetValue (DecreaseUPQueueCnt (IncreaseUPQueueCnt c)) j = GetValue c j"
  by (simp_all add: IncreaseDLQueueCnt_def DecreaseDLQueueCnt_def
      IncreaseUPQueueCnt_def DecreaseUPQueueCnt_def GetValue_unbump_bump)

lemma queue_live [simp]:
  "IncreaseDLQueueCnt c = None \<longleftrightarrow> c = None" "IncreaseUPQueueCnt c = None \<longleftrightarrow> c = None"
  "DecreaseDLQueueCnt c = None \<longleftrightarrow> c = None" "DecreaseUPQueueCnt c = None \<longleftrightarrow> c = None"
  by (simp_all add: IncreaseDLQueueCnt_def IncreaseUPQueueCnt_def
      DecreaseDLQueueCnt_def DecreaseUPQueueCnt_def)

definition downloadable :: "provider list \<Rightarrow> item \<Rightarrow> nat \<Rightarrow> bool" where
  "downloadable ps it pid \<longleftrightarrow>
     pid \<notin> ignoreDlOn it \<and> pid \<notin> missingOn it \<and> pid \<notin> errorOn it \<and>
     \<not> NoDownload (ps ! pid) \<and> \<not> down (ps ! pid)"

text \<open>The counter is live and will not wrap around.\<close>

definition countable_up :: "counter \<Rightarrow> string \<Rightarrow> bool" where
  "countable_up c k \<longleftrightarrow> c \<noteq> None \<and> GetValue c k + 1 \<noteq> 0"

lemma pushDL_loop_spec:
  assumes "pushDL_loop ps i order (cs, c, it) = Inr ((cs', c', it'), pushed, n)"
  shows "availableOn it' = availableOn it \<and> flaginUP it' = flaginUP it \<and>
    (if pushed
     then flaginDL it' \<and>
          (countable_up c ''dlQueueCnt'' \<longrightarrow> GetValue c' ''dlQueueCnt'' = GetValue c ''dlQueueCnt'' + 1) \<and>
          (\<exists>pid \<in> set order. downloadable ps it pid \<and> queued_at cs cs' (Group (ps ! pid)) i)
     else cs' = cs \<and> flaginDL it' = flaginDL it \<and>
          (countable_up c ''dlQueueCnt'' \<longrightarrow> (\<forall>k. GetValue c' k = GetValue c k)))"
  using assms
proof (induction order arbitrary: it)
  case (Cons pid order)
  let ?skip = "pid \<in> ignoreDlOn it \<or> pid \<in> missingOn it \<or> pid \<in> errorOn it"
  let ?off = "NoDownload (ps ! pid) \<or> down (ps ! pid)"
  let ?it = "it\<lparr>ignoreDlOn := insert pid (ignoreDlOn it)\<rparr>"
  consider (skip) ?skip | (off) "\<not> ?skip" ?off | (attempt) "downloadable ps it pid"
    by (auto simp: downloadable_def)
  then show ?case
  proof cases
    case skip
    then show ?thesis using Cons.IH[of it] Cons.prems by auto
  next
    case off
    have more: "downloadable ps ?it q \<Longrightarrow> downloadable ps it q" for q
      by (simp add: downloadable_def)
    have "pushDL_loop ps i order (cs, c, ?it) = Inr ((cs', c', it'), pushed, n)"
      using Cons.prems off by simp
    from Cons.IH[OF this] more show ?thesis
      by (cases pushed) auto
  next
    case attempt
    then obtain sent where s: "try_send cs (Group (ps ! pid)) i = Inr (cs', sent)" "pushed = sent"
      and r: "it' = (if sent then it\<lparr>flaginDL := True, pushedDL := pushedDL it + 1\<rparr> else it)"
        "c' = (if sent then bump (IncreaseDLQueueCnt c) ''TOTAL_dlQueueCnt''
               else DecreaseDLQueueCnt (IncreaseDLQueueCnt c))"
      using Cons.prems by (auto simp: downloadable_def Let_def split: if_splits)
    show ?thesis
      using try_send_cases[OF s(1)] attempt
      by (cases sent) (auto simp: s r counter_simps countable_up_def)
  qed
qed auto

text \<open>The limiter, the options and the item let the download through.\<close>

definition dl_allowed :: "options \<Rightarrow> bool \<Rightarrow> memlim \<Rightarrow> bool \<Rightarrow> item \<Rightarrow> bool" where
  "dl_allowed opt segdone m allowDl it \<longleftrightarrow>
     allowDl \<and> (CheckFirst opt \<longrightarrow> segdone) \<and> MemAvail m \<and>
     matchThisDL opt (it\<lparr>flaginDLMEM := flaginDLMEM it \<and> \<not> CheckFirst opt\<rparr>)"

lemma matchThisDL_idle: "matchThisDL opt it \<Longrightarrow> \<not> flaginDL it \<and> \<not> flaginUP it"
  by (auto simp: matchThisDL_def split: if_splits)

lemma matchThisUP_idle: "matchThisUP it \<Longrightarrow> \<not> flaginDL it \<and> \<not> flaginUP it"
  by (auto simp: matchThisUP_def)

lemma clear_DLMEM: "it\<lparr>flaginDLMEM := flaginDLMEM it \<and> \<not> b\<rparr> = (if b then it\<lparr>flaginDLMEM := False\<rparr> else it)"
  by simp

lemma pushDL_not_allowed:
  assumes "\<not> dl_allowed opt segdone m allowDl it"
    and "pushDL opt ps segdone m allowDl order i (cs, c, it) = Inr ((cs', c', it'), pushed, n)"
  shows "\<not> pushed \<and> cs' = cs \<and> c' = c \<and> flaginDL it' = flaginDL it \<and> flaginUP it' = flaginUP it"
  using assms by (auto simp: pushDL_def dl_allowed_def clear_DLMEM Let_def split: if_splits)

lemma pushDL_allowed:
  assumes "dl_allowed opt segdone m allowDl it"
  shows "pushDL opt ps segdone m allowDl order i (cs, c, it) =
    pushDL_loop ps i order (cs, c, it\<lparr>flaginDLMEM := flaginDLMEM it \<and> \<not> CheckFirst opt\<rparr>)"
  using assms by (auto simp: pushDL_def dl_allowed_def clear_DLMEM Let_def)

lemma pushDL_spec:
  assumes run: "pushDL opt ps segdone m allowDl order i (cs, c, it) = Inr ((cs', c', it'), pushed, n)"
  shows "if pushed
     then dl_allowed opt segdone m allowDl it \<and> flaginDL it' \<and> \<not> flaginUP it' \<and>
          (countable_up c ''dlQueueCnt'' \<longrightarrow> GetValue c' ''dlQueueCnt'' = GetValue c ''dlQueueCnt'' + 1) \<and>
          (\<exists>pid \<in> set order. downloadable ps it pid \<and> queued_at cs cs' (Group (ps ! pid)) i)
     else cs' = cs \<and> flaginDL it' = flaginDL it \<and> flaginUP it' = flaginUP it \<and>
          (countable_up c ''dlQueueCnt'' \<longrightarrow> (\<forall>k. GetValue c' k = GetValue c k))"
proof (cases "dl_allowed opt segdone m allowDl it")
  case False
  then show ?thesis
    using pushDL_not_allowed[OF False run] by simp
next
  case True
  let ?it = "it\<lparr>flaginDLMEM := flaginDLMEM it \<and> \<not> CheckFirst opt\<rparr>"
  have idle: "\<not> flaginDL ?it" "\<not> flaginUP ?it"
    using True matchThisDL_idle[of opt ?it] by (auto simp: dl_allowed_def)
  have "downloadable ps ?it = downloadable ps it"
    by (simp add: downloadable_def fun_eq_iff)
  then show ?thesis
    using pushDL_loop_spec[OF run[unfolded pushDL_allowed[OF True]]] True idle
    by (simp split: if_splits)
qed

lemma pushDL_loop_total:
  "all_open cs \<Longrightarrow> \<not> panics (pushDL_loop ps i order (cs, c, it))"
proof (induction order arbitrary: it)
  case (Cons pid order)
  then show ?case
    by (auto simp: Let_def try_send_open split: if_splits)
qed simp

lemma pushDL_total: "all_open cs \<Longrightarrow> \<not> panics (pushDL opt ps segdone m allowDl order i (cs, c, it))"
  using pushDL_loop_total by (auto simp: pushDL_def Let_def)

text \<open>\<open>pushUP\<close>: \<open>uploadable\<close> is the test of \<open>hasUploadTarget\<close> for one provider.\<close>

definition uploadable :: "provider list \<Rightarrow> item \<Rightarrow> nat \<Rightarrow> bool" where
  "uploadable ps it pid \<longleftrightarrow> takesUploads (ps ! pid) \<and> \<not> uploadBlocked it pid"

definition retryPending :: "int \<Rightarrow> item \<Rightarrow> nat \<Rightarrow> bool" where
  "retryPending now it pid \<longleftrightarrow> pid \<in> retryOn it \<and> now < retryIn it"

lemma hasUploadTarget_iff: "hasUploadTarget ps it \<longleftrightarrow> (\<exists>pid \<in> missingOn it. uploadable ps it pid)"
  by (simp add: hasUploadTarget_def uploadable_def)

lemma pushUP_loop_spec:
  assumes "pushUP_loop ps now i order a b (cs, c, it) = Inr ((cs', c', it'), pushed, noup, inretry, err)"
  shows "missingOn it' = missingOn it \<and> flaginDL it' = flaginDL it \<and> err = (\<not> pushed) \<and>
    (if pushed
     then flaginUP it' \<and>
          (countable_up c ''upQueueCnt'' \<longrightarrow> GetValue c' ''upQueueCnt'' = GetValue c ''upQueueCnt'' + 1) \<and>
          (\<exists>pid \<in> set order. uploadable ps it pid \<and> \<not> retryPending now it pid \<and>
             queued_at cs cs' (Group (ps ! pid)) i)
     else cs' = cs \<and> flaginUP it' = flaginUP it \<and>
          (countable_up c ''upQueueCnt'' \<longrightarrow> (\<forall>k. GetValue c' k = GetValue c k)))"
  using assms
proof (induction order arbitrary: a b)
  case (Cons pid order)
  consider (skip) "\<not> uploadable ps it pid" | (wait) "uploadable ps it pid" "retryPending now it pid"
    | (attempt) "uploadable ps it pid" "\<not> retryPending now it pid" by blast
  then show ?case
  proof cases
    case skip
    then show ?thesis using Cons.IH[of "a + 1" b] Cons.prems by (auto simp: uploadable_def)
  next
    case wait
    then show ?thesis
      using Cons.IH[of a "b + 1"] Cons.prems by (auto simp: uploadable_def retryPending_def)
  next
    case attempt
    then obtain sent where s: "try_send cs (Group (ps ! pid)) i = Inr (cs', sent)"
      "pushed = sent" "err = (\<not> sent)"
      and r: "it' = (if sent then it\<lparr>retryOn := retryOn it - {pid}, flaginUP := True,
                                     pushedUP := pushedUP it + 1\<rparr>
                     else it\<lparr>retryOn := retryOn it - {pid}\<rparr>)"
        "c' = (if sent then bump (IncreaseUPQueueCnt c) ''TOTAL_upQueueCnt''
               else DecreaseUPQueueCnt (IncreaseUPQueueCnt c))"
      using Cons.prems by (auto simp: uploadable_def retryPending_def Let_def split: if_splits)
    show ?thesis
      using try_send_cases[OF s(1)] attempt
      by (cases sent) (auto simp: s r counter_simps countable_up_def)
  qed
qed auto

lemma pushUP_loop_total:
  "all_open cs \<Longrightarrow> \<not> panics (pushUP_loop ps now i order a b (cs, c, it))"
proof (induction order arbitrary: a b)
  case (Cons pid order)
  then show ?case
    by (auto simp: Let_def try_send_open split: if_splits)
qed simp

lemma pushUP_total: "all_open cs \<Longrightarrow> \<not> panics (pushUP opt ps segdone allowUp now order i (cs, c, it))"
  using pushUP_loop_total by (auto simp: pushUP_def)

definition up_allowed :: "options \<Rightarrow> bool \<Rightarrow> bool \<Rightarrow> item \<Rightarrow> bool" where
  "up_allowed opt segdone allowUp it \<longleftrightarrow>
     allowUp \<and> (CheckFirst opt \<longrightarrow> segdone) \<and> matchThisUP it"

lemma pushUP_not_allowed:
  assumes "\<not> up_allowed opt segdone allowUp it"
    and "pushUP opt ps segdone allowUp now order i (cs, c, it) =
         Inr ((cs', c', it'), pushed, noup, inretry, err)"
  shows "\<not> pushed \<and> cs' = cs \<and> c' = c \<and> it' = it"
  using assms by (auto simp: pushUP_def up_allowed_def split: if_splits)

lemma pushUP_allowed:
  assumes "up_allowed opt segdone allowUp it"
  shows "pushUP opt ps segdone allowUp now order i (cs, c, it) =
    pushUP_loop ps now i order 0 0 (cs, c, it)"
  using assms by (auto simp: pushUP_def up_allowed_def)

lemma pushUP_spec:
  assumes run: "pushUP opt ps segdone allowUp now order i (cs, c, it) =
      Inr ((cs', c', it'), pushed, noup, inretry, err)"
  shows "if pushed
     then up_allowed opt segdone allowUp it \<and> flaginUP it' \<and> \<not> flaginDL it' \<and>
          (countable_up c ''upQueueCnt'' \<longrightarrow> GetValue c' ''upQueueCnt'' = GetValue c ''upQueueCnt'' + 1) \<and>
          (\<exists>pid \<in> set order. uploadable ps it pid \<and> \<not> retryPending now it pid \<and>
             queued_at cs cs' (Group (ps ! pid)) i)
     else cs' = cs \<and> flaginDL it' = flaginDL it \<and> flaginUP it' = flaginUP it \<and>
          (countable_up c ''upQueueCnt'' \<longrightarrow> (\<forall>k. GetValue c' k = GetValue c k))"
proof (cases "up_allowed opt segdone allowUp it")
  case False
  then show ?thesis using pushUP_not_allowed[OF False run] by simp
next
  case True
  then have "\<not> flaginDL it \<and> \<not> flaginUP it"
    using matchThisUP_idle[of it] by (simp add: up_allowed_def)
  then show ?thesis
    using pushUP_loop_spec[OF run[unfolded pushUP_allowed[OF True]]] True
    by (simp split: if_splits)
qed

text \<open>The counts when nothing is pushed and no channel was full: every provider
  was skipped, and each is in exactly one of the two counts.\<close>

definition room_for :: "provider list \<Rightarrow> (string \<rightharpoonup> chan) \<Rightarrow> nat \<Rightarrow> bool" where
  "room_for ps cs pid \<longleftrightarrow>
     (case cs (Group (ps ! pid)) of None \<Rightarrow> False
      | Some ch \<Rightarrow> \<not> chan_closed ch \<and> length (chan_buf ch) < chan_cap ch)"

lemma try_send_room: "room_for ps cs pid \<Longrightarrow> \<exists>cs'. try_send cs (Group (ps ! pid)) i = Inr (cs', True)"
  by (auto simp: room_for_def try_send_def split: option.splits)

lemma pushUP_loop_counts:
  assumes "\<forall>pid \<in> set order. room_for ps cs pid"
    and "pushUP_loop ps now i order a b (cs, c, it) = Inr (st, False, noup, inretry, err)"
  shows "noup = a + count_if (\<lambda>pid. \<not> uploadable ps it pid) order \<and>
         inretry = b + count_if (uploadable ps it) order \<and>
         (\<forall>pid \<in> set order. uploadable ps it pid \<longrightarrow> retryPending now it pid)"
  using assms
proof (induction order arbitrary: a b)
  case (Cons pid order)
  obtain cs' where "try_send cs (Group (ps ! pid)) i = Inr (cs', True)"
    using try_send_room[of ps cs pid i] Cons.prems(1) by auto
  then consider (skip) "\<not> uploadable ps it pid" | (wait) "uploadable ps it pid" "retryPending now it pid"
    using Cons.prems(2) by (auto simp: uploadable_def retryPending_def Let_def split: if_splits)
  then show ?case
  proof cases
    case skip
    then show ?thesis using Cons.IH[of "a + 1" b] Cons.prems by (auto simp: uploadable_def)
  next
    case wait
    then show ?thesis
      using Cons.IH[of a "b + 1"] Cons.prems by (auto simp: uploadable_def retryPending_def)
  qed
qed simp

section \<open>An item is queued at most once\<close>

text \<open>Every queued item is flagged, no channel holds an item twice and no item
  is in the channels of two groups.\<close>

definition queue_inv :: "(nat \<Rightarrow> bool) \<Rightarrow> (string \<rightharpoonup> chan) \<Rightarrow> bool" where
  "queue_inv flagged cs \<longleftrightarrow>
     (\<forall>g ch. cs g = Some ch \<longrightarrow> distinct (chan_buf ch) \<and> (\<forall>i \<in> set (chan_buf ch). flagged i)) \<and>
     (\<forall>g h ch dh i. cs g = Some ch \<and> cs h = Some dh \<and> i \<in> set (chan_buf ch) \<and>
        i \<in> set (chan_buf dh) \<longrightarrow> g = h)"

lemma queue_inv_unchanged:
  "queue_inv f cs \<Longrightarrow> (\<And>i. f i \<Longrightarrow> f' i) \<Longrightarrow> queue_inv f' cs"
  unfolding queue_inv_def by blast

lemma queue_inv_push:
  assumes inv: "queue_inv f cs" and q: "queued_at cs cs' g i" and new: "\<not> f i"
  shows "queue_inv (f(i := True)) cs'"
proof -
  obtain ch where ch: "cs g = Some ch" "cs' = cs(g \<mapsto> ch\<lparr>chan_buf := chan_buf ch @ [i]\<rparr>)"
    using q by (auto simp: queued_at_def)
  have fresh: "i \<notin> set (chan_buf dh)" if "cs h = Some dh" for h dh
    using inv new that unfolding queue_inv_def by blast
  show ?thesis
    unfolding queue_inv_def
  proof (intro conjI allI impI, goal_cases)
    case (1 h dh)
    then show ?case
      using inv ch fresh[OF ch(1)] by (auto simp: queue_inv_def split: if_splits)
  next
    case (2 h dh)
    then show ?case
      using inv ch by (fastforce simp: queue_inv_def split: if_splits)
  next
    case (3 h k dh ek j)
    then show ?case
      using inv ch fresh unfolding queue_inv_def by (auto split: if_splits) metis+
  qed
qed

text \<open>Taking the head of a channel, as the workers do, keeps it.\<close>

lemma queue_inv_recv:
  assumes "queue_inv f cs" and "cs g = Some ch"
  shows "queue_inv f (cs(g \<mapsto> ch\<lparr>chan_buf := tl (chan_buf ch)\<rparr>))"
  using assms unfolding queue_inv_def
  by (auto split: if_splits dest: list.set_sel(2)[rotated] simp: distinct_tl)
     (metis list.set_sel(2) tl_Nil)+

lemma pushDL_queue_inv:
  assumes inv: "queue_inv (\<lambda>j. flaginDL (its j)) cs"
    and run: "pushDL opt ps segdone m allowDl order i (cs, c, its i) = Inr ((cs', c', it'), pushed, n)"
  shows "queue_inv (\<lambda>j. flaginDL ((its(i := it')) j)) cs'"
proof (cases pushed)
  case False
  then have "cs' = cs" "flaginDL it' = flaginDL (its i)"
    using pushDL_spec[OF run] by simp_all
  then show ?thesis
    using inv by (auto elim: queue_inv_unchanged)
next
  case True
  then obtain g where g: "queued_at cs cs' g i" "dl_allowed opt segdone m allowDl (its i)" "flaginDL it'"
    using pushDL_spec[OF run] by auto
  then have "\<not> flaginDL (its i)"
    using matchThisDL_idle by (fastforce simp: dl_allowed_def)
  from queue_inv_push[OF inv g(1) this] show ?thesis
    by (elim queue_inv_unchanged) (auto simp: g(3) split: if_splits)
qed

lemma pushUP_queue_inv:
  assumes inv: "queue_inv (\<lambda>j. flaginUP (its j)) cs"
    and run: "pushUP opt ps segdone allowUp now order i (cs, c, its i) =
      Inr ((cs', c', it'), pushed, noup, inretry, err)"
  shows "queue_inv (\<lambda>j. flaginUP ((its(i := it')) j)) cs'"
proof (cases pushed)
  case False
  then have "cs' = cs" "flaginUP it' = flaginUP (its i)"
    using pushUP_spec[OF run] by simp_all
  then show ?thesis
    using inv by (auto elim: queue_inv_unchanged)
next
  case True
  then obtain g where g: "queued_at cs cs' g i" "matchThisUP (its i)" "flaginUP it'"
    using pushUP_spec[OF run] by (auto simp: up_allowed_def)
  then have "\<not> flaginUP (its i)"
    using matchThisUP_idle by blast
  from queue_inv_push[OF inv g(1) this] show ?thesis
    by (elim queue_inv_unchanged) (auto simp: g(3) split: if_splits)
qed

section \<open>Retirement\<close>

lemma retireItem_slot:
  assumes "memlocked it = of_bool (i \<in> memdata m)"
  shows "\<exists>c' it'. retireItem opt i (c, m, it) = (c', mem_return i m, it') \<and> memlocked it' = 0 \<and>
    retireWhenCached it' = retireWhenCached it"
  using assms by (auto simp: retireItem_def MemReturnIfHeld_def memReturn_def mem_return_def Let_def)

lemma retireItem_keeps:
  "retireItem opt i (c, m, it) = (c', m', it') \<Longrightarrow>
     flaginDL it' = flaginDL it \<and> flaginUP it' = flaginUP it \<and> (c' = None \<longleftrightarrow> c = None) \<and>
     GetValue c' ''dlQueueCnt'' = GetValue c ''dlQueueCnt'' \<and>
     GetValue c' ''upQueueCnt'' = GetValue c ''upQueueCnt''"
  by (cases "c = None")
    (auto simp: retireItem_def MemReturnIfHeld_def memReturn_def Let_def GetValue_bump split: if_splits)

lemma release_item_slot:
  assumes "memlocked (its i) = of_bool (i \<in> memdata m)"
  shows "\<exists>c' it'. release_item i (c, m, its) = (c', mem_return i m, its(i := it')) \<and> memlocked it' = 0"
proof (cases "i \<in> memdata m")
  case True
  then show ?thesis
    using assms
    by (intro exI[of _ "if slots m < mem_max m then bump c ''TOTAL_MemReturned'' else c"]
        exI[of _ "(its i)\<lparr>memlocked := 0\<rparr>"])
      (simp add: release_item_def MemReturn_def memReturn_def)
next
  case False
  then show ?thesis
    using assms
    by (intro exI[of _ c] exI[of _ "its i"]) (simp add: release_item_def mem_return_def)
qed

lemma releaseMemSlots_fold:
  assumes "lim_ok m" and "\<forall>i. memlocked (its i) = of_bool (i \<in> memdata m)"
  shows "\<exists>c' its'. releaseMemSlots ks (c, m, its) = (c', fold mem_return ks m, its') \<and>
    (\<forall>i. memlocked (its' i) = of_bool (i \<in> memdata m - set ks))"
  using assms unfolding releaseMemSlots_def
proof (induction ks arbitrary: c m its)
  case (Cons k ks)
  obtain c1 it1 where r: "release_item k (c, m, its) = (c1, mem_return k m, its(k := it1))"
    "memlocked it1 = 0"
    using release_item_slot Cons.prems(2) by blast
  moreover have "lim_ok (mem_return k m)" "memdata (mem_return k m) = memdata m - {k}"
    using lim_ok_return[OF Cons.prems(1)] by simp_all
  moreover from this have "\<forall>i. memlocked ((its(k := it1)) i) = of_bool (i \<in> memdata (mem_return k m))"
    using Cons.prems(2) r(2) by simp
  ultimately have "\<exists>c' its'. fold release_item ks (c1, mem_return k m, its(k := it1)) =
      (c', fold mem_return ks (mem_return k m), its') \<and>
      (\<forall>i. memlocked (its' i) = of_bool (i \<in> memdata (mem_return k m) - set ks))"
    by (intro Cons.IH)
  moreover have "memdata (mem_return k m) - set ks = memdata m - set (k # ks)"
    using \<open>memdata (mem_return k m) = memdata m - {k}\<close> by auto
  ultimately show ?case
    by (simp add: r(1) del: fun_upd_apply)
qed simp

text \<open>The cache writer's last critical section on success, before \<open>afterCacheWrite\<close>.\<close>

definition cache_written :: "slotstate \<Rightarrow> slotstate" where
  "cache_written st = (case st of (c, m, it) \<Rightarrow> (c, m, it\<lparr>flagCache := True, flaginDL := False\<rparr>))"

definition failed_upload :: "int \<Rightarrow> nat \<Rightarrow> item \<Rightarrow> item" where
  "failed_upload now pid it = FlagError now pid (it\<lparr>flaginUP := True\<rparr>)"

lemma failed_upload_fields:
  "fails (failed_upload now pid it) = fails it + 1"
  "pid \<in> errorOn (failed_upload now pid it) \<longleftrightarrow> pid \<in> errorOn it \<or> 2 \<le> fails it"
  "fails it < 2 \<Longrightarrow> retryPending t (failed_upload now pid it) pid \<longleftrightarrow> t < now + 5"
  by (auto simp: failed_upload_def FlagError_def maxItemFails_def Let_def retryPending_def)

lemma failed_uploads:
  "fails ((failed_upload now pid ^^ n) it) = fails it + n"
  "pid \<in> errorOn ((failed_upload now pid ^^ n) it) \<longleftrightarrow>
     pid \<in> errorOn it \<or> 0 < n \<and> 3 \<le> fails it + n"
  by (induction n) (auto simp: failed_upload_fields)

section \<open>Properties\<close>

text \<open>An item and providers for the witnesses: the article is on provider 0 and
  missing on provider 1.\<close>

definition blank_item :: item where
  "blank_item = \<lparr>seg_id = ''a@b'', hashedId = [], missingOn = {}, availableOn = {}, ignoreDlOn = {},
     ignoreUlOn = {}, unwantedOn = {}, uploadedTo = {}, retryOn = {}, errorOn = {}, dmcaOn = {},
     article = [], item_head = [], item_body = [], flaginDL = False, flagisDL = False, flaginUP = False, flagisUP = False,
     flaginDLMEM = False, flaginYenc = False, flagisYenc = False, flagCache = False,
     retireWhenCached = False, memlocked = 0, checkedOn = 0, pushedDL = 0, pushedUP = 0,
     item_size = 0, headsize = 0, bodysize = 0,
     dlcnt = 0, badcrc = 0, fails = 0, retryIn = 0, item_rxb = 0, item_txb = 0\<rparr>"

definition plain_options :: options where
  "plain_options = \<lparr>CheckOnly = False, CheckFirst = False, ByPassSTAT = False,
     CheckCacheOnBoot = False, DlAll = False, DlMissing = False, UploadLater = False,
     YencWrite = False, Csv = False, ChanSize = 0, cacheON = False\<rparr>"

definition plain_provider :: "string \<Rightarrow> provider" where
  "plain_provider g = \<lparr>Enabled = True, NoCheck = False, NoDownload = False, NoUpload = False,
     Newsreader = False, Group = g, Name = g, MaxConns = 2, OpenConns = 0, PreferIHAVE = False,
     down = False, cap_check = False, cap_ihave = False, cap_post = True, cap_stream = False,
     articles_of = \<lparr>art_tocheck = 0, art_checked = 0, art_available = 0, art_downloaded = 0,
       art_missing = 0, art_refreshed = 0, art_verified = 0\<rparr>\<rparr>"

definition two_providers :: "provider list" where
  "two_providers = [plain_provider ''A'', plain_provider ''B'']"

definition half_item :: item where
  "half_item = blank_item\<lparr>availableOn := {0}, missingOn := {1}, checkedOn := 2\<rparr>"

definition two_chans :: "string \<rightharpoonup> chan" where
  "two_chans = [''A'' \<mapsto> make_chan 3, ''B'' \<mapsto> make_chan 3]"

text \<open>\<open>pushDL\<close> queues an item for download only if downloads are allowed,
  the check phase lets it, the limiter has room for another waiter and the item
  is idle and still needed; it then goes once, to the channel of a provider that
  has the article, is not ignored or failed for it, allows downloads and is up,
  and the queue counter grows by one. In every other case the channels, the
  item's flags and all counter values stay as they were.\<close>

theorem pushDL_sound:
  assumes "pushDL opt ps segdone m allowDl order i (cs, c, it) = Inr ((cs', c', it'), pushed, n)"
    and "set order = availableOn it" and "countable_up c ''dlQueueCnt''"
  shows "if pushed
     then dl_allowed opt segdone m allowDl it \<and> flaginDL it' \<and> \<not> flaginUP it' \<and>
          GetValue c' ''dlQueueCnt'' = GetValue c ''dlQueueCnt'' + 1 \<and>
          (\<exists>pid \<in> availableOn it. downloadable ps it pid \<and> queued_at cs cs' (Group (ps ! pid)) i)
     else cs' = cs \<and> flaginDL it' = flaginDL it \<and> flaginUP it' = flaginUP it \<and>
          (\<forall>k. GetValue c' k = GetValue c k)"
  using pushDL_spec[OF assms(1)] assms(3) unfolding assms(2) by (simp split: if_splits)

lemma pushDL_example:
  "pushDL plain_options two_providers False (NewMemLimiter 2) True [0] 5 (two_chans, NewCounter, half_item) =
   Inr ((two_chans(''A'' \<mapsto> (make_chan 3)\<lparr>chan_buf := [5]\<rparr>),
         bump (IncreaseDLQueueCnt NewCounter) ''TOTAL_dlQueueCnt'',
         half_item\<lparr>flaginDL := True, pushedDL := 1\<rparr>), True, 0)"
  by (simp add: pushDL_def plain_options_def matchThisDL_def half_item_def blank_item_def
      MemAvail_def NewMemLimiter_def two_providers_def plain_provider_def try_send_def two_chans_def
      make_chan_def Let_def)

theorem pushDL_sound_witness:
  "\<exists>pid \<in> availableOn half_item. downloadable two_providers half_item pid \<and>
     queued_at two_chans (two_chans(''A'' \<mapsto> (make_chan 3)\<lparr>chan_buf := [5]\<rparr>))
       (Group (two_providers ! pid)) 5"
  using pushDL_sound[OF pushDL_example]
  by (simp add: half_item_def countable_up_def NewCounter_def GetValue_def)

text \<open>\<open>hasUploadTarget\<close>, by which the divider decides that an item is finished,
  agrees with \<open>pushUP\<close>: for an item \<open>pushUP\<close> may push, when the channels have
  room, it answers true exactly if \<open>pushUP\<close> queues the item or reports it as
  waiting for a retry. So no item is retired that could be uploaded and none
  that cannot be uploaded is kept.\<close>

theorem hasUploadTarget_pushUP:
  assumes "up_allowed opt segdone allowUp it" and "set order = missingOn it"
    and "\<forall>pid \<in> set order. room_for ps cs pid"
    and "pushUP opt ps segdone allowUp now order i (cs, c, it) = Inr (st, pushed, noup, inretry, err)"
  shows "hasUploadTarget ps it \<longleftrightarrow> pushed \<or> 0 < inretry"
proof (cases pushed)
  case True
  then obtain cs' c' it' where "pushUP opt ps segdone allowUp now order i (cs, c, it) =
      Inr ((cs', c', it'), True, noup, inretry, err)"
    using assms(4) by (cases st) simp
  from pushUP_spec[OF this] show ?thesis
    using True by (auto simp: hasUploadTarget_iff assms(2)[symmetric])
next
  case False
  then have "pushUP_loop ps now i order 0 0 (cs, c, it) = Inr (st, False, noup, inretry, err)"
    using assms(4) pushUP_allowed[OF assms(1)] by simp
  from pushUP_loop_counts[OF assms(3) this] have "inretry = count_if (uploadable ps it) order"
    by simp
  then show ?thesis
    using False
    by (auto simp: hasUploadTarget_iff assms(2)[symmetric] count_if_def filter_empty_conv)
qed

definition ready_item :: item where
  "ready_item = half_item\<lparr>article := [''x''], flagisDL := True\<rparr>"

theorem hasUploadTarget_pushUP_witness:
  "hasUploadTarget two_providers ready_item"
proof -
  have "\<exists>st. pushUP plain_options two_providers False True 0 [1] 5 (two_chans, NewCounter, ready_item) =
      Inr (st, True, 0, 0, False)"
    by (simp add: pushUP_def plain_options_def matchThisUP_def ready_item_def half_item_def
        blank_item_def two_providers_def plain_provider_def try_send_def two_chans_def make_chan_def
        takesUploads_def uploadBlocked_def Let_def)
  then obtain st where run: "pushUP plain_options two_providers False True 0 [1] 5
      (two_chans, NewCounter, ready_item) = Inr (st, True, 0, 0, False)" ..
  have "hasUploadTarget two_providers ready_item \<longleftrightarrow> True \<or> 0 < (0::nat)"
    by (rule hasUploadTarget_pushUP[OF _ _ _ run])
      (simp_all add: up_allowed_def plain_options_def matchThisUP_def ready_item_def half_item_def
        blank_item_def room_for_def two_providers_def plain_provider_def two_chans_def make_chan_def)
  then show ?thesis by simp
qed

text \<open>An upload that keeps failing at one provider is retried at most twice:
  the third failure marks the provider as failed for the item, which ends it as
  an upload target, and no earlier failure does.\<close>

theorem upload_failures_bounded:
  assumes "fails it = 0" and "pid \<notin> errorOn it"
  shows "(pid \<in> errorOn ((failed_upload now pid ^^ n) it) \<longleftrightarrow> maxItemFails \<le> n) \<and>
    (uploadable ps ((failed_upload now pid ^^ n) it) pid \<longrightarrow> n < maxItemFails)"
  using assms by (auto simp: failed_uploads maxItemFails_def uploadable_def uploadBlocked_def)

theorem upload_failures_bounded_witness:
  "1 \<in> errorOn ((failed_upload 100 1 ^^ 3) half_item) \<and>
   1 \<notin> errorOn ((failed_upload 100 1 ^^ 2) half_item) \<and>
   \<not> uploadable two_providers ((failed_upload 100 1 ^^ 3) half_item) 1"
proof -
  have start: "fails half_item = 0" "1 \<notin> errorOn half_item"
    by (simp_all add: half_item_def blank_item_def)
  show ?thesis
    using upload_failures_bounded[OF start, where now = 100 and n = 3 and ps = two_providers]
      upload_failures_bounded[OF start, where now = 100 and n = 2 and ps = two_providers]
    by (simp add: maxItemFails_def)
qed

text \<open>The slot of a downloaded item that nothing will upload is given back
  exactly once. Whether the download worker or the cache writer comes first, both
  orders return the slot, leave the item without it and leave no pending
  retirement, so nobody returns it a second time.\<close>

theorem retire_exactly_once:
  assumes "i \<in> memdata m" and "memlocked it = 1"
    and "cacheON opt" and "\<not> flagCache it" and "\<not> retireWhenCached it"
    and "\<not> (allowUpload opt c \<and> hasUploadTarget ps it)"
  shows "\<exists>c1 it1 c2 it2.
    afterCacheWrite opt i (cache_written (retireAfterDownload opt ps i (c, m, it))) =
      (c1, mem_return i m, it1) \<and>
    retireAfterDownload opt ps i (afterCacheWrite opt i (cache_written (c, m, it))) =
      (c2, mem_return i m, it2) \<and>
    memlocked it1 = 0 \<and> memlocked it2 = 0 \<and> \<not> retireWhenCached it1 \<and> \<not> retireWhenCached it2"
proof -
  have target: "hasUploadTarget ps (it\<lparr>flagCache := x, flaginDL := y\<rparr>) = hasUploadTarget ps it" for x y
    by (simp add: hasUploadTarget_def uploadBlocked_def)
  have "retireAfterDownload opt ps i (c, m, it) = (c, m, it\<lparr>retireWhenCached := True\<rparr>)"
    using assms by (auto simp: retireAfterDownload_def)
  then have 1: "afterCacheWrite opt i (cache_written (retireAfterDownload opt ps i (c, m, it))) =
      retireItem opt i (c, m, it\<lparr>flagCache := True, flaginDL := False, retireWhenCached := False\<rparr>)"
    by (simp add: cache_written_def afterCacheWrite_def)
  have 2: "retireAfterDownload opt ps i (afterCacheWrite opt i (cache_written (c, m, it))) =
      retireItem opt i (c, m, it\<lparr>flagCache := True, flaginDL := False\<rparr>)"
    using assms(5,6) by (auto simp: cache_written_def afterCacheWrite_def retireAfterDownload_def target)
  show ?thesis
    unfolding 1 2
    using retireItem_slot[of "it\<lparr>flagCache := True, flaginDL := False, retireWhenCached := False\<rparr>" i m opt c]
      retireItem_slot[of "it\<lparr>flagCache := True, flaginDL := False\<rparr>" i m opt c] assms(1,2,5)
    by auto
qed

theorem retire_exactly_once_witness:
  "\<exists>c1 it1 c2 it2.
    afterCacheWrite (plain_options\<lparr>cacheON := True\<rparr>) 5 (cache_written (retireAfterDownload
      (plain_options\<lparr>cacheON := True\<rparr>) two_providers 5
      (NewCounter, (NewMemLimiter 2)\<lparr>memdata := {5}, slots := 1\<rparr>, half_item\<lparr>memlocked := 1\<rparr>))) =
      (c1, mem_return 5 ((NewMemLimiter 2)\<lparr>memdata := {5}, slots := 1\<rparr>), it1) \<and>
    retireAfterDownload (plain_options\<lparr>cacheON := True\<rparr>) two_providers 5
      (afterCacheWrite (plain_options\<lparr>cacheON := True\<rparr>) 5 (cache_written
        (NewCounter, (NewMemLimiter 2)\<lparr>memdata := {5}, slots := 1\<rparr>, half_item\<lparr>memlocked := 1\<rparr>))) =
      (c2, mem_return 5 ((NewMemLimiter 2)\<lparr>memdata := {5}, slots := 1\<rparr>), it2) \<and>
    memlocked it1 = 0 \<and> memlocked it2 = 0 \<and> \<not> retireWhenCached it1 \<and> \<not> retireWhenCached it2"
  by (rule retire_exactly_once)
    (simp_all add: plain_options_def half_item_def blank_item_def allowUpload_def)

text \<open>When a session has ended, \<open>releaseMemSlots\<close> gives every slot its items
  still hold back to the limiter, which all sessions share: afterwards the
  limiter is as free as it was without the session, and no item of the session
  counts as locked.\<close>

theorem releaseMemSlots_complete:
  assumes "lim_ok m" and "\<forall>i. memlocked (its i) = of_bool (i \<in> memdata m)"
    and "memdata m \<subseteq> set ks"
  shows "\<exists>c' m' its'. releaseMemSlots ks (c, m, its) = (c', m', its') \<and>
    slots m' = mem_max m \<and> memdata m' = {} \<and> (\<forall>i. memlocked (its' i) = 0)"
proof -
  obtain c' its' where r: "releaseMemSlots ks (c, m, its) = (c', fold mem_return ks m, its')"
    and l: "\<forall>i. memlocked (its' i) = of_bool (i \<in> memdata m - set ks)"
    using releaseMemSlots_fold[OF assms(1,2)] by blast
  have "memdata (fold mem_return ks m) = {}"
    using mem_pool.release_all_ok[OF assms(1), of ks] assms(3) by auto
  moreover have "\<forall>i. memlocked (its' i) = 0"
    using l assms(3) by auto
  ultimately show ?thesis
    using r mem_pool.release_all[OF assms(1,3)] by blast
qed

theorem releaseMemSlots_complete_witness:
  "\<exists>c' m' its'. releaseMemSlots [4, 5] (NewCounter, (NewMemLimiter 2)\<lparr>memdata := {5}, slots := 1\<rparr>,
      (\<lambda>_. blank_item)(5 := blank_item\<lparr>memlocked := 1\<rparr>)) = (c', m', its') \<and>
    slots m' = mem_max ((NewMemLimiter 2)\<lparr>memdata := {5}, slots := 1\<rparr>) \<and> memdata m' = {} \<and>
    (\<forall>i. memlocked (its' i) = 0)"
  by (rule releaseMemSlots_complete)
    (simp_all add: lim_ok_def NewMemLimiter_def Let_def blank_item_def)

end
