(* ===== verification/Routines.thy ===== *)
theory Routines
  imports Prelude Counter Items MemLimit Workers
begin

text \<open>
  \<open>Routines.go\<close>: what one check, download or upload does to an item, its
  provider's statistics and the counters, on every answer of the server. The
  server's answer and the connection's availability are arguments; \<open>CMD\<close>'s
  effect on the item is the argument \<open>cmd\<close>. Locks taken one after the other
  inside one routine are one step here; statistics in file maps follow
  \<open>fileStatistic\<close> with Go's nil maps.
\<close>

section \<open>State and outcomes\<close>

datatype goerr = ErrNoConn | ErrSessionStopped | ErrOther

text \<open>What \<open>SharedConnGet\<close> or \<open>GetConn\<close> answered, and what became of the connection.\<close>

datatype got_conn = ConnErr | ConnNil | ConnOk
datatype conn_fate = NeverHeld | StillNil | ConnClosed | ConnReturned

record fileStatistic =
  fs_available :: counter
  fs_missing :: counter
  totalSegments :: "64 word"

type_synonym filesStatistic = "string \<rightharpoonup> fileStatistic"

text \<open>\<open>s.fileStat[nzb].available[prov]++\<close>: a missing entry is a nil pointer.\<close>

definition count_available :: "string \<Rightarrow> string \<Rightarrow> filesStatistic \<Rightarrow> filesStatistic go" where
  "count_available nzb prov fs =
     (case fs nzb of None \<Rightarrow> Inl NilDereference
      | Some f \<Rightarrow> go_bind (Incr (fs_available f) prov) (\<lambda>(c, _).
          Inr (fs(nzb \<mapsto> f\<lparr>fs_available := c\<rparr>))))"

definition count_missing :: "string \<Rightarrow> string \<Rightarrow> filesStatistic \<Rightarrow> filesStatistic go" where
  "count_missing nzb prov fs =
     (case fs nzb of None \<Rightarrow> Inl NilDereference
      | Some f \<Rightarrow> go_bind (Incr (fs_missing f) prov) (\<lambda>(c, _).
          Inr (fs(nzb \<mapsto> f\<lparr>fs_missing := c\<rparr>))))"

definition if_csv :: "options \<Rightarrow> (filesStatistic \<Rightarrow> filesStatistic go) \<Rightarrow> filesStatistic \<Rightarrow> filesStatistic go" where
  "if_csv opt f fs = (if Csv opt then f fs else Inr fs)"

record rstate =
  r_item :: item
  r_art :: articles
  r_global :: counter
  r_session :: counter
  r_pool :: counter
  r_stat :: filesStatistic

section \<open>\<open>IsSegmentStupid\<close>\<close>

text \<open>The lengths are Go ints, so the difference may be negative.\<close>

definition IsSegmentStupid :: "provider list \<Rightarrow> item \<Rightarrow> bool" where
  "IsSegmentStupid ps it \<longleftrightarrow>
     card (availableOn it) = 0 \<and> card (missingOn it) = length ps \<or>
     int (card (availableOn it)) - int (card (ignoreDlOn it)) = 0 \<and>
     card (missingOn it) + card (ignoreDlOn it) = length ps"

section \<open>Check\<close>

definition check_found :: "provider list \<Rightarrow> provider \<Rightarrow> item \<Rightarrow> item" where
  "check_found ps p it =
     fold (\<lambda>pid it. it\<lparr>
         checkedOn := checkedOn it + 1,
         availableOn := insert pid (availableOn it),
         missingOn := missingOn it - {pid},
         ignoreDlOn := (if NoDownload p then insert pid (ignoreDlOn it) else ignoreDlOn it),
         ignoreUlOn := (if NoUpload p then insert pid (ignoreUlOn it) else ignoreUlOn it)\<rparr>)
       (group_ids ps (Group p)) it"

definition check_not_found :: "int \<Rightarrow> provider list \<Rightarrow> provider \<Rightarrow> item \<Rightarrow> item" where
  "check_not_found code ps p it =
     fold (\<lambda>pid it0. let it = it0\<lparr>checkedOn := checkedOn it0 + 1\<rparr> in
         if code = 430 then it\<lparr>missingOn := insert pid (missingOn it)\<rparr>
         else if code = 451 then it\<lparr>dmcaOn := insert pid (dmcaOn it)\<rparr>
         else it\<lparr>ignoreDlOn := insert pid (ignoreDlOn it),
                 missingOn := insert pid (missingOn it),
                 errorOn := insert pid (errorOn it)\<rparr>)
       (group_ids ps (Group p)) it"

definition art_count_found :: "articles \<Rightarrow> articles" where
  "art_count_found a = a\<lparr>art_checked := art_checked a + 1, art_available := art_available a + 1\<rparr>"

definition art_count_missing :: "articles \<Rightarrow> articles" where
  "art_count_missing a = a\<lparr>art_checked := art_checked a + 1, art_missing := art_missing a + 1\<rparr>"

definition CheckCache :: "bool \<Rightarrow> item \<Rightarrow> item" where
  "CheckCache exists it = (if exists then it\<lparr>flagCache := True\<rparr> else it)"

text \<open>
  \<open>reply\<close> is the code and error of \<open>CMD_STAT\<close>; \<open>exists\<close> whether the cache has
  the article's file. The result is the state, the code, the error and the
  connection's fate. The counter \<open>GoCheckRoutines\<close> goes up and, deferred, down.
\<close>

definition GoCheckRoutine ::
  "options \<Rightarrow> provider list \<Rightarrow> string \<Rightarrow> nat \<Rightarrow> got_conn \<Rightarrow> int \<times> goerr option \<Rightarrow> bool \<Rightarrow> int \<Rightarrow>
   rstate \<Rightarrow> (rstate \<times> int \<times> goerr option \<times> conn_fate) go" where
  "GoCheckRoutine opt ps nzb pid conn reply exists now st0 =
     (let p = ps ! pid;
          st1 = st0\<lparr>r_global := bump (r_global st0) ''GoCheckRoutines''\<rparr>;
          fin = (\<lambda>st. st\<lparr>r_global := unbump (r_global st) ''GoCheckRoutines''\<rparr>) in
      if down p then Inr (fin st1, 0, Some ErrNoConn, NeverHeld)
      else
      let st2 = (if cacheON opt \<and> \<not> CheckCacheOnBoot opt
                 then st1\<lparr>r_item := CheckCache exists (r_item st1)\<rparr> else st1) in
      case conn of
        ConnErr \<Rightarrow> Inr (fin st2, 0, Some ErrNoConn, NeverHeld)
      | ConnNil \<Rightarrow> Inr (fin st2, 0, Some ErrOther, StillNil)
      | ConnOk \<Rightarrow>
        (case reply of (code, err) \<Rightarrow>
          if code = 0 \<and> err \<noteq> None
          then Inr (fin (st2\<lparr>r_item := FlagError now pid (r_item st2)\<rparr>), code, err, ConnClosed)
          else if code = 223
          then go_bind (if_csv opt (count_available nzb (Name p)) (r_stat st2)) (\<lambda>fs.
             Inr (fin (st2\<lparr>r_item := check_found ps p (r_item st2),
                           r_art := art_count_found (r_art st2), r_stat := fs\<rparr>),
                  code, err, ConnReturned))
          else go_bind (if_csv opt (count_missing nzb (Name p)) (r_stat st2)) (\<lambda>fs.
             Inr (fin (st2\<lparr>r_item := check_not_found code ps p (r_item st2),
                           r_art := art_count_missing (r_art st2), r_stat := fs\<rparr>),
                  code,
                  (if (code = 430 \<or> code = 451) \<and> group_ids ps (Group p) \<noteq> [] then None else err),
                  ConnReturned))))"

text \<open>
  \<open>checkItem\<close> retries a check whose connection broke: \<open>outcomes\<close> are what its
  attempts meet, the connection and the reply; \<open>stopped\<close> whether the session has been
  stopped. \<open>maxCheckNoConn\<close> ends a check routine.
\<close>

definition checkAttempts :: nat where
  "checkAttempts = 2"

definition maxCheckNoConn :: nat where
  "maxCheckNoConn = 3"

fun checkItem_loop ::
  "options \<Rightarrow> provider list \<Rightarrow> string \<Rightarrow> nat \<Rightarrow> (nat \<Rightarrow> got_conn \<times> int \<times> goerr option) \<Rightarrow> bool \<Rightarrow> bool \<Rightarrow> int \<Rightarrow>
   nat \<Rightarrow> nat \<Rightarrow> rstate \<Rightarrow> (rstate \<times> int \<times> goerr option) go" where
  "checkItem_loop opt ps nzb pid outcomes exists stopped now attempt 0 st = Inr (st, 0, None)"
| "checkItem_loop opt ps nzb pid outcomes exists stopped now attempt (Suc fuel) st =
     (case outcomes attempt of (conn, reply) \<Rightarrow>
      go_bind (GoCheckRoutine opt ps nzb pid conn reply exists now st) (\<lambda>(st', code, err, _).
        if code \<noteq> 0 \<or> err = None then Inr (st', code, err)
        else if err = Some ErrNoConn \<or> checkAttempts \<le> attempt \<or> stopped
        then Inr (st'\<lparr>r_item := markCheckFailed ps (Group (ps ! pid)) (r_item st')\<rparr>, code, err)
        else checkItem_loop opt ps nzb pid outcomes exists stopped now (attempt + 1) fuel st'))"

definition checkItem ::
  "options \<Rightarrow> provider list \<Rightarrow> string \<Rightarrow> nat \<Rightarrow> (nat \<Rightarrow> got_conn \<times> int \<times> goerr option) \<Rightarrow> bool \<Rightarrow> bool \<Rightarrow> int \<Rightarrow>
   rstate \<Rightarrow> (rstate \<times> int \<times> goerr option) go" where
  "checkItem opt ps nzb pid outcomes exists stopped now =
     checkItem_loop opt ps nzb pid outcomes exists stopped now 1 checkAttempts"

section \<open>Download\<close>

text \<open>
  \<open>ReadCache\<close>: the size of an article already in memory, else the bytes of the
  cache file. \<open>CacheReader\<close> splits the file, less its last byte, at newlines.
\<close>

definition CacheReader :: "string option \<Rightarrow> item \<Rightarrow> item \<times> nat" where
  "CacheReader content it =
     (case content of None \<Rightarrow> (it, 0)
      | Some bytes \<Rightarrow>
          if bytes = [] then (it, 0)
          else (it\<lparr>article := split_on (CHR 0x0A) (butlast bytes), flagCache := True,
                   flaginDL := False\<rparr>, length bytes))"

definition ReadCache :: "string option \<Rightarrow> item \<Rightarrow> item \<times> nat" where
  "ReadCache content it =
     (if article it \<noteq> [] then (it, item_size it)
      else case CacheReader content it of (it1, n) \<Rightarrow>
        if 0 < n
        then (it1\<lparr>flagCache := True, item_size := (if item_size it1 = 0 then n else item_size it1),
                  flaginDL := False, flaginDLMEM := False\<rparr>, n)
        else (it1, n))"

definition down_ok :: "options \<Rightarrow> provider list \<Rightarrow> provider \<Rightarrow> 64 word \<Rightarrow> item \<Rightarrow> item" where
  "down_ok opt ps p rxb it0 =
     (let it = fold (\<lambda>pid it. it\<lparr>availableOn := insert pid (availableOn it),
                               missingOn := missingOn it - {pid}\<rparr>) (group_ids ps (Group p)) it0
      in it\<lparr>item_rxb := item_rxb it + rxb, flagisDL := True, flaginDL := False,
            flaginDLMEM := False,
            checkedOn := (if ByPassSTAT opt then checkedOn it + 1 else checkedOn it)\<rparr>)"

definition down_failed :: "int \<Rightarrow> provider list \<Rightarrow> provider \<Rightarrow> item \<Rightarrow> item" where
  "down_failed code ps p it0 =
     (let it = fold (\<lambda>pid it1. let it =
           (if code = 430 then it1\<lparr>missingOn := insert pid (missingOn it1)\<rparr>
            else if code = 451
            then it1\<lparr>dmcaOn := insert pid (dmcaOn it1), ignoreDlOn := insert pid (ignoreDlOn it1),
                     missingOn := insert pid (missingOn it1)\<rparr>
            else if code = 99932
            then it1\<lparr>ignoreDlOn := insert pid (ignoreDlOn it1), missingOn := insert pid (missingOn it1),
                     errorOn := insert pid (errorOn it1)\<rparr>
            else it1\<lparr>ignoreDlOn := insert pid (ignoreDlOn it1)\<rparr>)
           in it\<lparr>availableOn := availableOn it - {pid}\<rparr>) (group_ids ps (Group p)) it0
      in it\<lparr>flaginDL := False\<rparr>)"

text \<open>The received bytes are added to two keys of each of the three counters.\<close>

definition count_bytes :: "string \<Rightarrow> string \<Rightarrow> 64 word \<Rightarrow> counter \<Rightarrow> counter" where
  "count_bytes tmp tot n c = bump_by (bump_by c tmp n) tot n"

definition count_all_bytes :: "string \<Rightarrow> string \<Rightarrow> rstate \<Rightarrow> rstate" where
  "count_all_bytes tmp tot st =
     (let n = of_nat (item_size (r_item st)) in
      st\<lparr>r_session := count_bytes tmp tot n (r_session st),
         r_pool := count_bytes tmp tot n (r_pool st),
         r_global := count_bytes tmp tot n (r_global st)\<rparr>)"

text \<open>
  \<open>cached\<close> is the content of the article's cache file, \<open>cmd\<close> the download
  command: the item with what was read, the code, the bytes received and the
  error. The last component of the result tells whether the item was handed to
  the cache writer.
\<close>

definition GoDownsRoutine ::
  "options \<Rightarrow> provider list \<Rightarrow> string \<Rightarrow> nat \<Rightarrow> got_conn \<Rightarrow> string option \<Rightarrow>
   (item \<Rightarrow> item \<times> int \<times> 64 word \<times> goerr option) \<Rightarrow> int \<Rightarrow>
   rstate \<Rightarrow> (rstate \<times> int \<times> goerr option \<times> conn_fate \<times> bool) go" where
  "GoDownsRoutine opt ps nzb pid conn cached cmd now st0 =
     (let p = ps ! pid;
          st1 = st0\<lparr>r_global := bump (r_global st0) ''GoDownsRoutines''\<rparr>;
          fin = (\<lambda>st. st\<lparr>r_global := unbump (r_global st) ''GoDownsRoutines''\<rparr>) in
      if down p
      then let it = FlagError now pid (r_item st1) in
           Inr (fin (st1\<lparr>r_item := it\<lparr>ignoreDlOn := insert pid (ignoreDlOn it)\<rparr>\<rparr>), 0, Some ErrNoConn,
                NeverHeld, False)
      else
      let (it2, n) = (if cacheON opt then ReadCache cached (r_item st1) else (r_item st1, 0));
          st2 = st1\<lparr>r_item := it2\<rparr> in
      if 0 < n then Inr (fin st2, 920, None, NeverHeld, False)
      else case conn of
        ConnErr \<Rightarrow> Inr (fin (st2\<lparr>r_item := FlagError now pid it2\<rparr>), 0, Some ErrNoConn, NeverHeld, False)
      | ConnNil \<Rightarrow> Inr (fin (st2\<lparr>r_item := FlagError now pid it2\<rparr>), 0, Some ErrNoConn, StillNil, False)
      | ConnOk \<Rightarrow>
        (case cmd it2 of (it3, code, rxb, err) \<Rightarrow>
         let st3 = st2\<lparr>r_item := it3\<rparr> in
         if err \<noteq> None
         then Inr (fin (st3\<lparr>r_item := FlagError now pid it3\<rparr>), 0, Some ErrOther, ConnClosed, False)
         else if code = 220
         then (if item_size it3 = 0 then Inl ProcessExit
               else let st4 = count_all_bytes ''TMP_RXbytes'' ''TOTAL_RXbytes'' st3;
                        a = r_art st4;
                        a1 = (if ByPassSTAT opt then a\<lparr>art_available := art_available a + 1\<rparr> else a) in
                    go_bind (if ByPassSTAT opt then if_csv opt (count_available nzb (Name p)) (r_stat st4)
                             else Inr (r_stat st4)) (\<lambda>fs.
                      Inr (fin (st4\<lparr>r_item := down_ok opt ps p rxb (r_item st4),
                                    r_art := a1\<lparr>art_downloaded := art_downloaded a1 + 1\<rparr>,
                                    r_stat := fs\<rparr>), code, err, ConnReturned, cacheON opt)))
         else let a = r_art st3;
                  a1 = (if 0 < art_available a then a\<lparr>art_available := art_available a - 1\<rparr> else a) in
              go_bind (if_csv opt (count_missing nzb (Name p)) (r_stat st3)) (\<lambda>fs.
                Inr (fin (st3\<lparr>r_item := down_failed code ps p it3,
                              r_art := a1\<lparr>art_missing := art_missing a1 + 1\<rparr>, r_stat := fs\<rparr>),
                     code, err, ConnReturned, False))))"

section \<open>Upload\<close>

datatype verdict = Uploaded | Unwanted | Retry

text \<open>\<open>cmd = 1\<close> is \<open>POST\<close>, \<open>cmd = 2\<close> is \<open>IHAVE\<close>.\<close>

definition select_cmd :: "provider \<Rightarrow> nat option" where
  "select_cmd p =
     (if PreferIHAVE p \<and> cap_ihave p then Some 2
      else if cap_post p then Some 1
      else if cap_ihave p then Some 2 else None)"

text \<open>The \<open>switch code\<close> after each command: the verdict and the error afterwards.\<close>

definition judge_upload :: "nat \<Rightarrow> int \<Rightarrow> goerr option \<Rightarrow> verdict \<times> goerr option" where
  "judge_upload cmd code err =
     (if cmd = 1 then (if code = 240 then (Uploaded, err) else (Unwanted, Some ErrOther))
      else if code = 235 then (Uploaded, err)
      else if code = 436 then (Retry, None)
      else if code = 437 then (Unwanted, None)
      else (Unwanted, Some ErrOther))"

definition up_done :: "provider list \<Rightarrow> provider \<Rightarrow> 64 word \<Rightarrow> item \<Rightarrow> item" where
  "up_done ps p txb it0 =
     (let it = fold (\<lambda>pid it. it\<lparr>uploadedTo := insert pid (uploadedTo it),
                               missingOn := missingOn it - {pid}\<rparr>) (group_ids ps (Group p))
                 (it0\<lparr>item_txb := item_txb it0 + txb\<rparr>)
      in it\<lparr>flaginUP := False, flagisUP := True, fails := 0\<rparr>)"

text \<open>The loop that flags the group as unwanted stops at the first provider of
  another group that could still take the article.\<close>

fun up_unwanted_loop :: "provider list \<Rightarrow> string \<Rightarrow> nat list \<Rightarrow> item \<Rightarrow> item \<times> bool" where
  "up_unwanted_loop ps g [] it = (it, False)"
| "up_unwanted_loop ps g (pid # pids) it =
     (if Group (ps ! pid) \<noteq> g
      then if \<not> NoUpload (ps ! pid) \<and> (cap_post (ps ! pid) \<or> cap_ihave (ps ! pid)) \<and>
              pid \<in> missingOn it \<and> pid \<notin> unwantedOn it \<and> pid \<notin> uploadedTo it
           then (it, True)
           else up_unwanted_loop ps g pids it
      else up_unwanted_loop ps g pids (it\<lparr>unwantedOn := insert pid (unwantedOn it)\<rparr>))"

definition up_unwanted :: "provider list \<Rightarrow> provider \<Rightarrow> item \<Rightarrow> item \<times> bool" where
  "up_unwanted ps p it =
     (case up_unwanted_loop ps (Group p) [0..<length ps] it of (it', others) \<Rightarrow>
        (it'\<lparr>flaginUP := False\<rparr>, others))"

definition up_retry :: "int \<Rightarrow> nat \<Rightarrow> item \<Rightarrow> item" where
  "up_retry now pid it =
     it\<lparr>retryIn := now + 15, retryOn := insert pid (retryOn it), flaginUP := False\<rparr>"

text \<open>From the answer of the upload command to the end of the routine.\<close>

definition finish_upload ::
  "provider list \<Rightarrow> nat \<Rightarrow> int \<Rightarrow> nat \<Rightarrow> int \<Rightarrow> 64 word \<Rightarrow> goerr option \<Rightarrow> rstate \<Rightarrow>
   rstate \<times> int \<times> goerr option \<times> conn_fate" where
  "finish_upload ps pid now cmd code txb err0 st =
     (let p = ps ! pid; (v, err) = judge_upload cmd code err0;
          (st1, freemem) =
            (case v of
               Uploaded \<Rightarrow>
                 let st' = count_all_bytes ''TMP_TXbytes'' ''TOTAL_TXbytes'' st; a = r_art st' in
                 (st'\<lparr>r_item := up_done ps p txb (r_item st'),
                      r_art := a\<lparr>art_refreshed := art_refreshed a + 1\<rparr>\<rparr>, True)
             | Unwanted \<Rightarrow>
                 (case up_unwanted ps p (r_item st) of (it, others) \<Rightarrow> (st\<lparr>r_item := it\<rparr>, \<not> others))
             | Retry \<Rightarrow> (st\<lparr>r_item := up_retry now pid (r_item st)\<rparr>, True));
          st2 = (if freemem then st1\<lparr>r_item := (r_item st1)\<lparr>article := []\<rparr>\<rparr> else st1)
      in if err \<noteq> None
         then (st2\<lparr>r_item := FlagError now pid (r_item st2)\<rparr>, 0, Some ErrOther, ConnClosed)
         else (st2, code, err, ConnReturned))"

text \<open>
  \<open>reply\<close> is the code, the bytes sent and the error of \<open>CMD_POST\<close> or
  \<open>CMD_IHAVE\<close>. \<open>None\<close> means the routine waits for a memory slot.
\<close>

definition GoReupsRoutine ::
  "provider list \<Rightarrow> nat \<Rightarrow> nat \<Rightarrow> bool \<Rightarrow> got_conn \<Rightarrow> (nat \<Rightarrow> int \<times> 64 word \<times> goerr option) \<Rightarrow> int \<Rightarrow>
   memlim \<times> rstate \<Rightarrow> ((memlim \<times> rstate) \<times> int \<times> goerr option \<times> conn_fate) option" where
  "GoReupsRoutine ps pid i stop conn reply now ms =
     (case ms of (m, st0) \<Rightarrow>
      let p = ps ! pid;
          st1 = st0\<lparr>r_global := bump (r_global st0) ''GoReupsRoutines''\<rparr>;
          fin = (\<lambda>st. st\<lparr>r_global := unbump (r_global st) ''GoReupsRoutines''\<rparr>);
          it1 = r_item st1 in
      if down p
      then Some ((m, fin (st1\<lparr>r_item := it1\<lparr>errorOn := insert pid (errorOn it1), flaginUP := False\<rparr>\<rparr>)),
                 0, Some ErrNoConn, NeverHeld)
      else
      case (if 0 < memlocked it1 then Some (r_global st1, m, it1, True)
            else MemLockWait i stop (r_global st1) m it1) of
        None \<Rightarrow> None
      | Some (c2, m2, it2, got) \<Rightarrow>
        let st2 = st1\<lparr>r_global := c2, r_item := it2\<rparr>;
            failed = (\<lambda>err fate. Some ((m2, fin (st2\<lparr>r_item := FlagError now pid it2\<rparr>)), 0, Some err, fate)) in
        if \<not> got then Some ((m2, fin st2), 0, Some ErrSessionStopped, NeverHeld)
        else case conn of
          ConnErr \<Rightarrow> failed ErrNoConn NeverHeld
        | ConnNil \<Rightarrow> failed ErrNoConn StillNil
        | ConnOk \<Rightarrow>
          (case select_cmd p of
             None \<Rightarrow> failed ErrOther ConnClosed
           | Some cmd \<Rightarrow>
             (case reply cmd of (code, txb, err) \<Rightarrow>
                if code = 0 \<and> err \<noteq> None then failed ErrOther ConnClosed
                else case finish_upload ps pid now cmd code txb err st2 of (st3, rest) \<Rightarrow>
                  Some ((m2, fin st3), rest))))"

section \<open>The loops over a group in closed form\<close>

abbreviation ids :: "provider list \<Rightarrow> provider \<Rightarrow> nat set" where
  "ids ps p \<equiv> set (group_ids ps (Group p))"

lemma check_found_eq [item_simps]:
  "check_found ps p it = it\<lparr>
     checkedOn := checkedOn it + length (group_ids ps (Group p)),
     availableOn := availableOn it \<union> ids ps p,
     missingOn := missingOn it - ids ps p,
     ignoreDlOn := (if NoDownload p then ignoreDlOn it \<union> ids ps p else ignoreDlOn it),
     ignoreUlOn := (if NoUpload p then ignoreUlOn it \<union> ids ps p else ignoreUlOn it)\<rparr>"
proof -
  have "fold (\<lambda>pid it. it\<lparr>checkedOn := checkedOn it + 1,
         availableOn := insert pid (availableOn it), missingOn := missingOn it - {pid},
         ignoreDlOn := (if NoDownload p then insert pid (ignoreDlOn it) else ignoreDlOn it),
         ignoreUlOn := (if NoUpload p then insert pid (ignoreUlOn it) else ignoreUlOn it)\<rparr>) is it =
      it\<lparr>checkedOn := checkedOn it + length is, availableOn := availableOn it \<union> set is,
         missingOn := missingOn it - set is,
         ignoreDlOn := (if NoDownload p then ignoreDlOn it \<union> set is else ignoreDlOn it),
         ignoreUlOn := (if NoUpload p then ignoreUlOn it \<union> set is else ignoreUlOn it)\<rparr>" for "is"
    by (induction "is" arbitrary: it) (simp_all add: Diff_single_Diff)
  then show ?thesis
    by (simp only: check_found_def)
qed

lemma check_not_found_eq [item_simps]:
  "check_not_found code ps p it = it\<lparr>
     checkedOn := checkedOn it + length (group_ids ps (Group p)),
     missingOn := (if code = 451 then missingOn it else missingOn it \<union> ids ps p),
     dmcaOn := (if code = 451 then dmcaOn it \<union> ids ps p else dmcaOn it),
     ignoreDlOn := (if code = 430 \<or> code = 451 then ignoreDlOn it else ignoreDlOn it \<union> ids ps p),
     errorOn := (if code = 430 \<or> code = 451 then errorOn it else errorOn it \<union> ids ps p)\<rparr>"
proof -
  have "fold (\<lambda>pid it0. let it = it0\<lparr>checkedOn := checkedOn it0 + 1\<rparr> in
         if code = 430 then it\<lparr>missingOn := insert pid (missingOn it)\<rparr>
         else if code = 451 then it\<lparr>dmcaOn := insert pid (dmcaOn it)\<rparr>
         else it\<lparr>ignoreDlOn := insert pid (ignoreDlOn it), missingOn := insert pid (missingOn it),
                 errorOn := insert pid (errorOn it)\<rparr>) is it =
      it\<lparr>checkedOn := checkedOn it + length is,
         missingOn := (if code = 451 then missingOn it else missingOn it \<union> set is),
         dmcaOn := (if code = 451 then dmcaOn it \<union> set is else dmcaOn it),
         ignoreDlOn := (if code = 430 \<or> code = 451 then ignoreDlOn it else ignoreDlOn it \<union> set is),
         errorOn := (if code = 430 \<or> code = 451 then errorOn it else errorOn it \<union> set is)\<rparr>" for "is"
    by (induction "is" arbitrary: it) (simp_all add: Let_def)
  then show ?thesis
    by (simp only: check_not_found_def)
qed

lemma markCheckFailed_eq [item_simps]:
  "markCheckFailed ps g it = it\<lparr>
     checkedOn := checkedOn it + length (group_ids ps g),
     errorOn := errorOn it \<union> set (group_ids ps g),
     ignoreDlOn := ignoreDlOn it \<union> set (group_ids ps g)\<rparr>"
proof -
  have "fold (\<lambda>pid it. it\<lparr>checkedOn := checkedOn it + 1, errorOn := insert pid (errorOn it),
         ignoreDlOn := insert pid (ignoreDlOn it)\<rparr>) is it =
      it\<lparr>checkedOn := checkedOn it + length is, errorOn := errorOn it \<union> set is,
         ignoreDlOn := ignoreDlOn it \<union> set is\<rparr>" for "is"
    by (induction "is" arbitrary: it) simp_all
  then show ?thesis
    by (simp only: markCheckFailed_def)
qed

lemma down_ok_eq [item_simps]:
  "down_ok opt ps p rxb it = it\<lparr>
     availableOn := availableOn it \<union> ids ps p, missingOn := missingOn it - ids ps p,
     item_rxb := item_rxb it + rxb, flagisDL := True, flaginDL := False, flaginDLMEM := False,
     checkedOn := (if ByPassSTAT opt then checkedOn it + 1 else checkedOn it)\<rparr>"
proof -
  have "fold (\<lambda>pid it. it\<lparr>availableOn := insert pid (availableOn it),
         missingOn := missingOn it - {pid}\<rparr>) is it =
      it\<lparr>availableOn := availableOn it \<union> set is, missingOn := missingOn it - set is\<rparr>" for "is"
    by (induction "is" arbitrary: it) (simp_all add: Diff_single_Diff)
  then show ?thesis
    by (simp add: down_ok_def Let_def)
qed

lemma up_done_eq [item_simps]:
  "up_done ps p txb it = it\<lparr>
     item_txb := item_txb it + txb,
     uploadedTo := uploadedTo it \<union> ids ps p, missingOn := missingOn it - ids ps p,
     flaginUP := False, flagisUP := True, fails := 0\<rparr>"
proof -
  have "fold (\<lambda>pid it. it\<lparr>uploadedTo := insert pid (uploadedTo it),
         missingOn := missingOn it - {pid}\<rparr>) is it =
      it\<lparr>uploadedTo := uploadedTo it \<union> set is, missingOn := missingOn it - set is\<rparr>" for "is" and it :: item
    by (induction "is" arbitrary: it) (simp_all add: Diff_single_Diff)
  then show ?thesis
    by (simp add: up_done_def Let_def)
qed

lemma down_failed_flags [item_simps]:
  "flaginDL (down_failed code ps p it) = False"
  "flaginUP (down_failed code ps p it) = flaginUP it"
  "checkedOn (down_failed code ps p it) = checkedOn it"
  "memlocked (down_failed code ps p it) = memlocked it"
proof -
  let ?f = "\<lambda>pid it1. let it =
           (if code = 430 then it1\<lparr>missingOn := insert pid (missingOn it1)\<rparr>
            else if code = 451
            then it1\<lparr>dmcaOn := insert pid (dmcaOn it1), ignoreDlOn := insert pid (ignoreDlOn it1),
                     missingOn := insert pid (missingOn it1)\<rparr>
            else if code = 99932
            then it1\<lparr>ignoreDlOn := insert pid (ignoreDlOn it1), missingOn := insert pid (missingOn it1),
                     errorOn := insert pid (errorOn it1)\<rparr>
            else it1\<lparr>ignoreDlOn := insert pid (ignoreDlOn it1)\<rparr>)
           in it\<lparr>availableOn := availableOn it - {pid}\<rparr>"
  have "flaginUP (fold ?f is it) = flaginUP it \<and> checkedOn (fold ?f is it) = checkedOn it \<and>
      memlocked (fold ?f is it) = memlocked it" for "is"
    by (induction "is" arbitrary: it) (simp_all add: Let_def)
  then show "flaginDL (down_failed code ps p it) = False"
    "flaginUP (down_failed code ps p it) = flaginUP it"
    "checkedOn (down_failed code ps p it) = checkedOn it"
    "memlocked (down_failed code ps p it) = memlocked it"
    by (simp_all add: down_failed_def Let_def)
qed

section \<open>Checks\<close>

lemma FlagError_flags [item_simps]:
  "flaginDL (FlagError now pid it) = False" "flaginUP (FlagError now pid it) = False"
  "checkedOn (FlagError now pid it) = checkedOn it"
  "memlocked (FlagError now pid it) = memlocked it"
  "availableOn (FlagError now pid it) = availableOn it - {pid}"
  "missingOn (FlagError now pid it) = missingOn it"
  by (simp_all add: FlagError_def Let_def)

lemma CheckCache_checked [item_simps]: "checkedOn (CheckCache x it) = checkedOn it"
  by (simp add: CheckCache_def)

text \<open>A check that did not fail counts the item once per provider of the group,
  a failed one not at all: that is what \<open>checkItem\<close>'s caller relies on.\<close>

lemma GoCheckRoutine_counts:
  assumes "GoCheckRoutine opt ps nzb pid conn reply exists now st = Inr (st', code, err, fate)"
  shows "checkedOn (r_item st') = checkedOn (r_item st) +
    (if code = 0 \<and> err \<noteq> None then 0 else length (group_ids ps (Group (ps ! pid))))"
proof (cases reply)
  case (Pair c e)
  then show ?thesis
    using assms
    by (auto simp: GoCheckRoutine_def Let_def item_simps split: if_splits got_conn.splits)
qed

lemma checkItem_loop_counts:
  assumes "checkItem_loop opt ps nzb pid outcomes exists stopped now attempt fuel st = Inr (st', code, err)"
    and "0 < fuel" and "checkAttempts < attempt + fuel"
  shows "checkedOn (r_item st') = checkedOn (r_item st) + length (group_ids ps (Group (ps ! pid)))"
  using assms
proof (induction fuel arbitrary: attempt st)
  case (Suc fuel)
  obtain conn reply where o: "outcomes attempt = (conn, reply)" by (cases "outcomes attempt")
  obtain st1 code1 err1 fate where r:
    "GoCheckRoutine opt ps nzb pid conn reply exists now st = Inr (st1, code1, err1, fate)"
    using Suc.prems(1) o by auto
  note counts = GoCheckRoutine_counts[OF r]
  show ?case
  proof (cases "code1 \<noteq> 0 \<or> err1 = None")
    case True
    then show ?thesis using Suc.prems(1) o r counts by auto
  next
    case broke: False
    show ?thesis
    proof (cases "err1 = Some ErrNoConn \<or> checkAttempts \<le> attempt \<or> stopped")
      case True
      then show ?thesis
        using Suc.prems(1) o r counts broke by (auto simp: item_simps)
    next
      case False
      then have "checkItem_loop opt ps nzb pid outcomes exists stopped now (attempt + 1) fuel st1 =
          Inr (st', code, err)"
        using Suc.prems(1) o r broke by (auto split: if_splits)
      moreover have "0 < fuel" "checkAttempts < attempt + 1 + fuel"
        using Suc.prems(3) False by auto
      ultimately show ?thesis
        using Suc.IH counts broke by fastforce
    qed
  qed
qed simp

text \<open>Two units of fuel are enough: more change nothing.\<close>

lemma checkItem_loop_fuel:
  "0 < fuel \<Longrightarrow> checkAttempts < attempt + fuel \<Longrightarrow>
   checkItem_loop opt ps nzb pid outcomes exists stopped now attempt (fuel + k) st =
   checkItem_loop opt ps nzb pid outcomes exists stopped now attempt fuel st"
proof (induction fuel arbitrary: attempt st)
  case (Suc fuel)
  have "checkItem_loop opt ps nzb pid outcomes exists stopped now (attempt + 1) (fuel + k) st' =
      checkItem_loop opt ps nzb pid outcomes exists stopped now (attempt + 1) fuel st'"
    if "\<not> checkAttempts \<le> attempt" for st'
    using Suc.IH[of "attempt + 1" st'] Suc.prems that by (cases fuel) auto
  then show ?case
    by (cases "outcomes attempt") (auto simp: go_bind_def split: sum.split)
qed simp

text \<open>Without \<open>-csv\<close> no check panics.\<close>

lemma GoCheckRoutine_total: "\<not> Csv opt \<Longrightarrow> \<not> panics (GoCheckRoutine opt ps nzb pid conn reply exists now st)"
  by (auto simp: GoCheckRoutine_def Let_def if_csv_def split: got_conn.splits prod.splits)

lemma checkItem_loop_total:
  "\<not> Csv opt \<Longrightarrow>
   \<not> panics (checkItem_loop opt ps nzb pid outcomes exists stopped now attempt fuel st)"
proof (induction fuel arbitrary: attempt st)
  case (Suc fuel)
  then show ?case
    by (cases "outcomes attempt") (auto simp: GoCheckRoutine_total)
qed simp

text \<open>The check of one item by one routine of each group in turn: what the
  feeders and check routines do to it, in any order of the groups.\<close>

fun check_groups ::
  "options \<Rightarrow> provider list \<Rightarrow> string \<Rightarrow> (nat \<Rightarrow> nat \<Rightarrow> got_conn \<times> int \<times> goerr option) \<Rightarrow> bool \<Rightarrow> int \<Rightarrow>
   nat list \<Rightarrow> rstate \<Rightarrow> rstate go" where
  "check_groups opt ps nzb outcomes exists now [] st = Inr st"
| "check_groups opt ps nzb outcomes exists now (pid # pids) st =
     go_bind (checkItem opt ps nzb pid (outcomes pid) exists False now st) (\<lambda>(st', _, _).
       check_groups opt ps nzb outcomes exists now pids st')"

lemma check_groups_total:
  "\<not> Csv opt \<Longrightarrow> \<not> panics (check_groups opt ps nzb outcomes exists now pids st)"
proof (induction pids arbitrary: st)
  case (Cons pid pids)
  then show ?case by (auto simp: checkItem_def checkItem_loop_total)
qed simp

lemma checkItem_counts:
  assumes "checkItem opt ps nzb pid outcomes exists stopped now st = Inr (st', code, err)"
  shows "checkedOn (r_item st') = checkedOn (r_item st) + length (group_ids ps (Group (ps ! pid)))"
  using checkItem_loop_counts[OF assms[unfolded checkItem_def]] by (simp add: checkAttempts_def)

lemma check_groups_counts:
  assumes "check_groups opt ps nzb outcomes exists now pids st = Inr st'"
  shows "checkedOn (r_item st') =
    checkedOn (r_item st) + (\<Sum>pid \<leftarrow> pids. length (group_ids ps (Group (ps ! pid))))"
  using assms
proof (induction pids arbitrary: st)
  case (Cons pid pids)
  then obtain st1 code err where "checkItem opt ps nzb pid (outcomes pid) exists False now st = Inr (st1, code, err)"
    "check_groups opt ps nzb outcomes exists now pids st1 = Inr st'"
    by auto
  then show ?case
    using Cons.IH[of st1] checkItem_counts by fastforce
qed simp

lemma group_ids_length: "length (group_ids ps g) = card {i. i < length ps \<and> Group (ps ! i) = g}"
  by (metis distinct_card distinct_group_ids set_group_ids)

lemma groups_partition:
  assumes "distinct (map (\<lambda>pid. Group (ps ! pid)) pids)"
    and "set (map (\<lambda>pid. Group (ps ! pid)) pids) = Group ` set ps"
  shows "(\<Sum>pid \<leftarrow> pids. length (group_ids ps (Group (ps ! pid)))) = length ps"
proof -
  let ?A = "\<lambda>g. {i. i < length ps \<and> Group (ps ! i) = g}"
  have "(\<Sum>pid \<leftarrow> pids. length (group_ids ps (Group (ps ! pid)))) =
      (\<Sum>g \<leftarrow> map (\<lambda>pid. Group (ps ! pid)) pids. card (?A g))"
    by (simp add: group_ids_length o_def)
  also have "\<dots> = (\<Sum>g \<in> Group ` set ps. card (?A g))"
    using sum_list_distinct_conv_sum_set[OF assms(1), of "\<lambda>g. card (?A g)"] assms(2) by simp
  also have "\<dots> = card (\<Union>g \<in> Group ` set ps. ?A g)"
    by (rule card_UN_disjoint[symmetric]) auto
  also have "(\<Union>g \<in> Group ` set ps. ?A g) = {..<length ps}"
    by (auto intro: bexI[OF refl nth_mem])
  finally show ?thesis by simp
qed

section \<open>Downloads and uploads\<close>

lemma ReadCache_flag:
  "ReadCache content it = (it', n) \<Longrightarrow> article it = [] \<Longrightarrow> 0 < n \<Longrightarrow> \<not> flaginDL it'"
  by (auto simp: ReadCache_def CacheReader_def split: option.splits if_splits prod.splits)

lemma GoDownsRoutine_flag:
  assumes "GoDownsRoutine opt ps nzb pid conn cached cmd now st = Inr (st', code, err, fate, handed)"
    and "cacheON opt \<longrightarrow> article (r_item st) = []"
  shows "\<not> flaginDL (r_item st')"
proof -
  let ?it = "r_item st"
  obtain it2 n where rc: "(if cacheON opt then ReadCache cached ?it else (?it, 0)) = (it2, n)"
    by fastforce
  have hit: "0 < n \<Longrightarrow> \<not> flaginDL it2"
    using rc assms(2) ReadCache_flag[of cached ?it it2 n] by (auto split: if_splits)
  obtain it3 c rxb e where "cmd it2 = (it3, c, rxb, e)"
    by (cases "cmd it2") auto
  then show ?thesis
    using assms(1) rc hit
    by (auto simp: GoDownsRoutine_def Let_def item_simps count_all_bytes_def
        split: if_splits got_conn.splits)
qed

lemma up_unwanted_loop_keeps:
  "up_unwanted_loop ps g pids it = (it', others) \<Longrightarrow>
     missingOn it' = missingOn it \<and> article it' = article it \<and> flaginDL it' = flaginDL it \<and>
     flagisDL it' = flagisDL it \<and> flagisUP it' = flagisUP it"
proof (induction pids arbitrary: it)
  case (Cons pid pids)
  then show ?case by (auto split: if_splits dest!: Cons.IH)
qed simp

lemma finish_upload_flag:
  "finish_upload ps pid now cmd code txb err st = (st', rest) \<Longrightarrow> \<not> flaginUP (r_item st')"
  by (auto simp: finish_upload_def Let_def item_simps up_retry_def up_unwanted_def count_all_bytes_def
      split: verdict.splits prod.splits if_splits)

lemma GoReupsRoutine_flag:
  assumes "GoReupsRoutine ps pid i stop conn reply now (m, st) = Some ((m', st'), code, err, fate)"
    and "err \<noteq> Some ErrSessionStopped"
  shows "\<not> flaginUP (r_item st')"
  using assms
  by (auto simp: GoReupsRoutine_def Let_def item_simps split: if_splits option.splits
      got_conn.splits prod.splits dest!: finish_upload_flag)

section \<open>Properties\<close>

text \<open>Whatever the connections and the server do, a check routine counts the
  item exactly once for every provider of its group, also when the connection
  breaks on every attempt (then the item is marked as failed there). Two attempts
  are enough fuel: the loop has ended by then. The divider waits for these counts,
  so a check that counted nothing would keep the session from ending.\<close>

theorem checkItem_counts_once:
  assumes "checkItem opt ps nzb pid outcomes exists stopped now st = Inr (st', code, err)"
  shows "checkedOn (r_item st') = checkedOn (r_item st) + length (group_ids ps (Group (ps ! pid))) \<and>
    checkItem_loop opt ps nzb pid outcomes exists stopped now 1 (checkAttempts + k) st = Inr (st', code, err)"
  using checkItem_counts[OF assms] assms checkItem_loop_fuel[of checkAttempts 1]
  by (simp add: checkItem_def checkAttempts_def)

definition blank_state :: "item \<Rightarrow> rstate" where
  "blank_state it = \<lparr>r_item = it, r_art = articles_of (plain_provider ''A''), r_global = NewCounter,
     r_session = NewCounter, r_pool = NewCounter, r_stat = (\<lambda>_. None)\<rparr>"

definition failing_checks :: "nat \<Rightarrow> got_conn \<times> int \<times> goerr option" where
  "failing_checks attempt = (ConnOk, 0, Some ErrOther)"

theorem checkItem_counts_once_witness:
  "\<exists>st' err. checkItem plain_options two_providers ''n'' 1 failing_checks False False 0
       (blank_state blank_item) = Inr (st', 0, err) \<and>
     checkedOn (r_item st') = checkedOn (r_item (blank_state blank_item)) +
       length (group_ids two_providers (Group (two_providers ! 1)))"
proof -
  have "\<exists>st' err. checkItem plain_options two_providers ''n'' 1 failing_checks False False 0
      (blank_state blank_item) = Inr (st', 0, err)"
    by (simp add: checkItem_def checkAttempts_def failing_checks_def GoCheckRoutine_def Let_def
        two_providers_def plain_provider_def numeral_2_eq_2)
  then show ?thesis
    using checkItem_counts_once by blast
qed

text \<open>C4: when the check routines of every provider group have each checked an
  item once, in any order and with any answers, its \<open>checkedOn\<close> has grown by the
  number of providers: the divider's test \<open>item.checkedOn != providersCnt\<close> then
  lets every item through.\<close>

theorem every_item_gets_checked:
  assumes "check_groups opt ps nzb outcomes exists now pids st = Inr st'"
    and "distinct (map (\<lambda>pid. Group (ps ! pid)) pids)"
    and "set (map (\<lambda>pid. Group (ps ! pid)) pids) = Group ` set ps"
    and "checkedOn (r_item st) = 0"
  shows "checkedOn (r_item st') = length ps"
  using check_groups_counts[OF assms(1)] groups_partition[OF assms(2,3)] assms(4) by simp

theorem every_item_gets_checked_witness:
  "\<exists>st'. check_groups plain_options two_providers ''n'' (\<lambda>_. failing_checks) False 0 [1, 0]
       (blank_state blank_item) = Inr st' \<and> checkedOn (r_item st') = length two_providers"
proof -
  have "\<not> panics (check_groups plain_options two_providers ''n'' (\<lambda>_. failing_checks) False 0 [1, 0]
      (blank_state blank_item))"
    by (rule check_groups_total) (simp add: plain_options_def)
  then obtain st' where run: "check_groups plain_options two_providers ''n'' (\<lambda>_. failing_checks) False 0 [1, 0]
      (blank_state blank_item) = Inr st'"
    unfolding not_panics_iff by blast
  have "checkedOn (r_item st') = length two_providers"
    by (rule every_item_gets_checked[OF run])
      (auto simp: two_providers_def plain_provider_def blank_state_def blank_item_def)
  then show ?thesis
    using run by blast
qed

text \<open>\<open>IsSegmentStupid\<close>, by which the divider gives an item up as dead, is exact
  as long as downloads are ignored only where the article is available (the
  \<open>NoDownload\<close> flag): it holds exactly if every provider is either missing the
  article or has it and may not be downloaded from.\<close>

theorem IsSegmentStupid_exact:
  assumes "availableOn it \<union> missingOn it \<subseteq> {..<length ps}"
    and "availableOn it \<inter> missingOn it = {}" and "ignoreDlOn it \<subseteq> availableOn it"
  shows "IsSegmentStupid ps it \<longleftrightarrow>
    (\<forall>pid < length ps. pid \<in> missingOn it \<or> pid \<in> availableOn it \<and> pid \<in> ignoreDlOn it)"
proof -
  let ?A = "availableOn it" and ?M = "missingOn it" and ?I = "ignoreDlOn it"
  have fin: "finite ?A" "finite ?M" "finite ?I"
    using assms by (meson finite_lessThan finite_subset le_sup_iff)+
  have full: "card (?M \<union> ?I) = length ps \<longleftrightarrow> ?M \<union> ?I = {..<length ps}"
    using card_subset_eq[of "{..<length ps}" "?M \<union> ?I"] assms by auto
  have sum: "card ?M + card ?I = card (?M \<union> ?I)"
    using assms(2,3) fin by (intro card_Un_disjoint[symmetric]) auto
  have same: "card ?A = card ?I \<longleftrightarrow> ?A = ?I"
    using card_subset_eq[OF fin(1) assms(3)] by auto
  have none: "card ?A = 0 \<Longrightarrow> ?A = ?I"
    using fin assms(3) by auto
  have "IsSegmentStupid ps it \<longleftrightarrow> ?A = ?I \<and> ?M \<union> ?I = {..<length ps}"
    unfolding IsSegmentStupid_def using same none full sum by fastforce
  also have "\<dots> \<longleftrightarrow> (\<forall>pid < length ps. pid \<in> ?M \<or> pid \<in> ?A \<and> pid \<in> ?I)"
    using assms by blast
  finally show ?thesis .
qed

theorem IsSegmentStupid_exact_witness:
  "\<not> IsSegmentStupid two_providers half_item"
  using IsSegmentStupid_exact[of half_item two_providers]
  by (auto simp: half_item_def blank_item_def two_providers_def)

text \<open>What a check that got an answer does to the item.\<close>

lemma checkItem_answered:
  assumes "outcomes 1 = (ConnOk, code, None)" and "\<not> down (ps ! pid)"
    and "\<not> Csv opt" and "\<not> cacheON opt"
  shows "\<exists>st'. checkItem opt ps nzb pid outcomes exists stopped now st = Inr (st', code, None) \<and>
    r_item st' = (if code = 223 then check_found ps (ps ! pid) (r_item st)
                  else check_not_found code ps (ps ! pid) (r_item st))"
  using assms by (simp add: checkItem_def checkAttempts_def numeral_2_eq_2 GoCheckRoutine_def Let_def if_csv_def)

definition three_providers :: "provider list" where
  "three_providers = [plain_provider ''A'', plain_provider ''B'', plain_provider ''C'']"

definition mixed_answers :: "nat \<Rightarrow> nat \<Rightarrow> got_conn \<times> int \<times> goerr option" where
  "mixed_answers pid attempt = (ConnOk, [223, 500, 430] ! pid, None)"

text \<open>Outside that case \<open>IsSegmentStupid\<close> can be wrong. With three providers
  that answer the check with 223 (has it), 500 (an error) and 430 (missing), the
  item counts as dead although the first provider can deliver the article and
  the third one would take it: the divider skips it, so it is never reuploaded.\<close>

theorem IsSegmentStupid_misjudges:
  "\<exists>st'. check_groups plain_options three_providers ''n'' mixed_answers False 0 [0, 1, 2]
       (blank_state blank_item) = Inr st' \<and>
     IsSegmentStupid three_providers (r_item st') \<and>
     0 \<in> availableOn (r_item st') \<and> downloadable three_providers (r_item st') 0 \<and>
     hasUploadTarget three_providers (r_item st')"
proof -
  have ids: "group_ids three_providers ''A'' = [0]" "group_ids three_providers ''B'' = [1]"
    "group_ids three_providers ''C'' = [2]"
    by (simp_all add: group_ids_def three_providers_def plain_provider_def upt_rec)
  have ps: "three_providers ! 0 = plain_provider ''A''" "three_providers ! 1 = plain_provider ''B''"
    "three_providers ! 2 = plain_provider ''C''"
    by (simp_all add: three_providers_def)
  let ?it1 = "blank_item\<lparr>checkedOn := 1, availableOn := {0}\<rparr>"
  let ?it2 = "?it1\<lparr>checkedOn := 2, missingOn := {1}, ignoreDlOn := {1}, errorOn := {1}\<rparr>"
  let ?it3 = "?it2\<lparr>checkedOn := 3, missingOn := {1, 2}\<rparr>"
  have up: "group_ids three_providers (Group (plain_provider g)) = group_ids three_providers g"
    "\<not> NoDownload (plain_provider g)" "\<not> NoUpload (plain_provider g)" "\<not> down (plain_provider g)"
    "cap_post (plain_provider g)" for g
    by (simp_all add: plain_provider_def)
  have r: "check_found three_providers (plain_provider ''A'') blank_item = ?it1"
    "check_not_found 500 three_providers (plain_provider ''B'') ?it1 = ?it2"
    "check_not_found 430 three_providers (plain_provider ''C'') ?it2 = ?it3"
    unfolding check_found_def check_not_found_def
    by (simp_all add: up ids blank_item_def insert_commute)
  have opt: "\<not> Csv plain_options" "\<not> cacheON plain_options"
    by (simp_all add: plain_options_def)
  have final: "IsSegmentStupid three_providers ?it3 \<and> 0 \<in> availableOn ?it3 \<and>
      downloadable three_providers ?it3 0 \<and> hasUploadTarget three_providers ?it3"
    by (simp add: IsSegmentStupid_def downloadable_def hasUploadTarget_def takesUploads_def
        uploadBlocked_def ps up blank_item_def) (simp add: three_providers_def)
  have step: "\<exists>st1. checkItem plain_options three_providers ''n'' pid (mixed_answers pid) False False 0 st =
        Inr (st1, [223, 500, 430] ! pid, None) \<and>
      r_item st1 = (if [223, 500, 430] ! pid = (223 :: int)
        then check_found three_providers (three_providers ! pid) (r_item st)
        else check_not_found ([223, 500, 430] ! pid) three_providers (three_providers ! pid) (r_item st))"
    if "pid < 3" for pid st
  proof (rule checkItem_answered)
    show "\<not> down (three_providers ! pid)"
      using that by (cases pid; cases "pid - 1") (auto simp: three_providers_def up less_Suc_eq numeral_3_eq_3)
  qed (simp_all add: mixed_answers_def opt)
  obtain s1 where s1: "checkItem plain_options three_providers ''n'' 0 (mixed_answers 0) False False 0
      (blank_state blank_item) = Inr (s1, 223, None)" "r_item s1 = ?it1"
    using step[of 0 "blank_state blank_item"] by (auto simp: blank_state_def ps r)
  obtain s2 where s2: "checkItem plain_options three_providers ''n'' 1 (mixed_answers 1) False False 0 s1 =
      Inr (s2, 500, None)" "r_item s2 = ?it2"
    using step[of 1 s1] by (auto simp: s1(2) ps[simplified] r[simplified])
  obtain s3 where s3: "checkItem plain_options three_providers ''n'' 2 (mixed_answers 2) False False 0 s2 =
      Inr (s3, 430, None)" "r_item s3 = ?it3"
    using step[of 2 s2] by (auto simp: s2(2) ps[simplified] r[simplified])
  show ?thesis
    using s1(1) s2(1) s3 final by auto
qed

text \<open>A server that answers an \<open>IHAVE\<close> with 436 (try again later) stops the
  reupload of an article this session downloaded: the routine marks the item for
  a retry but frees its article, so neither \<open>pushUP\<close> nor \<open>pushDL\<close> ever takes
  the item again, while \<open>hasUploadTarget\<close> is still what it was and the divider
  keeps waiting for it.\<close>

theorem retry_never_resumes:
  assumes "finish_upload ps pid now 2 436 txb err st = (st', code', err', fate)"
    and "flagisDL (r_item st)"
  shows "pid \<in> retryOn (r_item st') \<and> err' = None \<and> article (r_item st') = [] \<and>
    \<not> matchThisUP (r_item st') \<and> \<not> matchThisDL opt (r_item st') \<and>
    hasUploadTarget ps (r_item st') = hasUploadTarget ps (r_item st)"
  using assms
  by (auto simp: finish_upload_def judge_upload_def up_retry_def matchThisUP_def matchThisDL_def
      hasUploadTarget_def uploadBlocked_def Let_def)

theorem retry_never_resumes_witness:
  "\<exists>st' code' err' fate.
     finish_upload two_providers 1 100 2 436 0 None (blank_state ready_item) = (st', code', err', fate) \<and>
     1 \<in> retryOn (r_item st') \<and> \<not> matchThisUP (r_item st') \<and> \<not> matchThisDL plain_options (r_item st') \<and>
     hasUploadTarget two_providers (r_item st')"
proof -
  obtain st' code' err' fate where run:
    "finish_upload two_providers 1 100 2 436 0 None (blank_state ready_item) = (st', code', err', fate)"
    by (metis prod_cases4)
  have "flagisDL (r_item (blank_state ready_item))"
    by (simp add: blank_state_def ready_item_def)
  moreover have "hasUploadTarget two_providers (r_item (blank_state ready_item))"
    by (simp add: blank_state_def ready_item_def half_item_def blank_item_def hasUploadTarget_def
        takesUploads_def uploadBlocked_def two_providers_def plain_provider_def)
  ultimately show ?thesis
    using retry_never_resumes[OF run, of plain_options] run by blast
qed

text \<open>The file statistics as \<open>LaunchSession\<close> makes them.\<close>

definition launched_stat :: "string list \<Rightarrow> filesStatistic" where
  "launched_stat names = (\<lambda>n. if n \<in> set names
     then Some \<lparr>fs_available = NewCounter, fs_missing = None, totalSegments = 0\<rparr> else None)"

text \<open>With \<open>-csv\<close> the first check that does not find the article, in a session
  whose file statistics are as \<open>LaunchSession\<close> makes them (\<open>available\<close> made,
  \<open>missing\<close> never made), ends in a panic: a nil map is written, or a nil entry is
  dereferenced when the NZB's name is not the name of one of its files.\<close>

theorem csv_check_panics:
  assumes "Csv opt" and "\<not> down (ps ! pid)" and "r_stat st = launched_stat names"
    and "code \<noteq> 223" and "code \<noteq> 0"
  shows "panics (GoCheckRoutine opt ps nzb pid ConnOk (code, err) exists now st)"
  using assms
  by (auto simp: GoCheckRoutine_def Let_def if_csv_def count_missing_def launched_stat_def
      Incr_def)

theorem csv_check_panics_witness:
  "panics (GoCheckRoutine (plain_options\<lparr>Csv := True\<rparr>) two_providers ''f'' 0 ConnOk (430, None) False 0
     ((blank_state blank_item)\<lparr>r_stat := launched_stat [''f'']\<rparr>))"
  by (rule csv_check_panics[of _ _ _ _ "[''f'']"]) (simp_all add: two_providers_def plain_provider_def)

text \<open>A download routine that returns, on every path (provider down, cache hit,
  no connection, broken command, every answer), has cleared the item's flag
  \<open>flaginDL\<close>, and an upload routine that was not stopped while it waited for a slot
  has cleared \<open>flaginUP\<close>; otherwise the divider would count the item as in
  progress forever.\<close>

theorem routines_clear_flags:
  assumes "GoDownsRoutine opt ps nzb pid conn cached cmd now st = Inr (sd, code, err, fate, handed)"
    and "cacheON opt \<longrightarrow> article (r_item st) = []"
    and "GoReupsRoutine ps pid' i stop conn' reply now' (m, su) = Some ((m', su'), code', err', fate')"
    and "err' \<noteq> Some ErrSessionStopped"
  shows "\<not> flaginDL (r_item sd) \<and> \<not> flaginUP (r_item su')"
  using GoDownsRoutine_flag[OF assms(1,2)] GoReupsRoutine_flag[OF assms(3,4)] by blast

theorem routines_clear_flags_witness:
  "\<exists>sd su' m'. GoDownsRoutine plain_options two_providers ''n'' 0 ConnOk None
      (\<lambda>it. (it\<lparr>article := [''x''], item_size := 3\<rparr>, 220, 3, None)) 0
      (blank_state (half_item\<lparr>flaginDL := True\<rparr>)) = Inr (sd, 220, None, ConnReturned, False) \<and>
    GoReupsRoutine two_providers 1 5 False ConnOk (\<lambda>_. (240, 3, None)) 0
      (NewMemLimiter 2, blank_state (ready_item\<lparr>flaginUP := True, memlocked := 1\<rparr>)) =
      Some ((m', su'), 240, None, ConnReturned) \<and>
    \<not> flaginDL (r_item sd) \<and> \<not> flaginUP (r_item su')"
proof -
  let ?cmd = "\<lambda>it :: item. (it\<lparr>article := [''x''], item_size := 3\<rparr>, 220, 3, None)"
  have d: "\<exists>sd. GoDownsRoutine plain_options two_providers ''n'' 0 ConnOk None ?cmd 0
      (blank_state (half_item\<lparr>flaginDL := True\<rparr>)) = Inr (sd, 220, None, ConnReturned, False)"
    by (simp add: GoDownsRoutine_def Let_def plain_options_def two_providers_def plain_provider_def
        blank_state_def count_all_bytes_def item_simps)
  have u: "\<exists>m' su'. GoReupsRoutine two_providers 1 5 False ConnOk (\<lambda>_. (240, 3, None)) 0
      (NewMemLimiter 2, blank_state (ready_item\<lparr>flaginUP := True, memlocked := 1\<rparr>)) =
      Some ((m', su'), 240, None, ConnReturned)"
    by (simp add: GoReupsRoutine_def Let_def two_providers_def plain_provider_def blank_state_def
        select_cmd_def finish_upload_def judge_upload_def count_all_bytes_def item_simps)
  obtain sd m' su' where
    sd: "GoDownsRoutine plain_options two_providers ''n'' 0 ConnOk None ?cmd 0
      (blank_state (half_item\<lparr>flaginDL := True\<rparr>)) = Inr (sd, 220, None, ConnReturned, False)" and
    su: "GoReupsRoutine two_providers 1 5 False ConnOk (\<lambda>_. (240, 3, None)) 0
      (NewMemLimiter 2, blank_state (ready_item\<lparr>flaginUP := True, memlocked := 1\<rparr>)) =
      Some ((m', su'), 240, None, ConnReturned)"
    using d u by blast
  have "cacheON plain_options \<longrightarrow> article (r_item (blank_state (half_item\<lparr>flaginDL := True\<rparr>))) = []"
    by (simp add: plain_options_def)
  from routines_clear_flags[OF sd this su]
  have "\<not> flaginDL (r_item sd) \<and> \<not> flaginUP (r_item su')"
    by simp
  then show ?thesis
    using sd su by blast
qed

end
