(* ===== verification/Divider.thy ===== *)
theory Divider
  imports Prelude Counter Items MemLimit Workers Routines
begin

text \<open>
  \<open>GoWorkDivider\<close> of \<open>Workers.go\<close>: one round looks at every item of the session,
  counts it, retires or queues it, and then decides from the counts whether the
  session is over. A round is two functions: \<open>divide_all\<close> is the loop over
  \<open>s.segmentList\<close>, \<open>decide\<close> everything after it up to the end of the outer
  loop's body. The statistics line, the sleep between rounds and the published
  progress are not modelled; time is an argument in milliseconds.
\<close>

section \<open>Counts of one round\<close>

record counts =
  n_segm :: nat
  n_allOk :: nat
  n_done :: nat
  n_fails :: nat
  n_dead :: nat
  n_isdl :: nat
  n_indl :: nat
  n_inup :: nat
  n_isup :: nat
  n_checked :: nat
  n_dmca :: nat
  n_nodl :: nat
  n_noup :: nat
  n_cached :: nat
  n_inretry :: nat
  n_inyenc :: nat
  n_isyenc :: nat
  n_Tnodl :: nat
  n_notarget :: nat
  n_notDownloaded :: nat

definition no_counts :: counts where
  "no_counts = \<lparr>n_segm = 0, n_allOk = 0, n_done = 0, n_fails = 0, n_dead = 0, n_isdl = 0,
     n_indl = 0, n_inup = 0, n_isup = 0, n_checked = 0, n_dmca = 0, n_nodl = 0, n_noup = 0,
     n_cached = 0, n_inretry = 0, n_inyenc = 0, n_isyenc = 0, n_Tnodl = 0, n_notarget = 0,
     n_notDownloaded = 0\<rparr>"

text \<open>What a round acts on.\<close>

record divstate =
  d_items :: "nat \<Rightarrow> item"
  d_downs :: "string \<rightharpoonup> chan"
  d_reups :: "string \<rightharpoonup> chan"
  d_global :: counter
  d_lim :: memlim

text \<open>What it only reads: options, providers, whether the check phase is done,
  \<open>allowDl\<close>, \<open>allowUp\<close>, the time in seconds and the orders in which Go ranges
  over an item's maps.\<close>

record divenv =
  e_opt :: options
  e_ps :: "provider list"
  e_segdone :: bool
  e_allowDl :: bool
  e_allowUp :: bool
  e_now :: int
  e_dlOrder :: "nat \<Rightarrow> nat list"
  e_upOrder :: "nat \<Rightarrow> nat list"

definition retire_in :: "divenv \<Rightarrow> nat \<Rightarrow> divstate \<Rightarrow> divstate" where
  "retire_in env i ds =
     (case retireNoUploadTarget (e_opt env) i (d_global ds, d_lim ds, d_items ds i) of
        (c, m, it) \<Rightarrow> ds\<lparr>d_global := c, d_lim := m, d_items := (d_items ds)(i := it)\<rparr>)"

text \<open>The test for \<open>done\<close>: on every provider, and nobody wants the file.\<close>

definition is_done :: "divenv \<Rightarrow> item \<Rightarrow> bool" where
  "is_done env it \<longleftrightarrow>
     missingOn it = {} \<and> onAllProviders (e_ps env) it \<and> \<not> wantDownload (e_opt env) it"

definition in_progress :: "item \<Rightarrow> bool" where
  "in_progress it \<longleftrightarrow> flaginDL it \<or> flaginYenc it \<or> flaginUP it"

definition has_target :: "divenv \<Rightarrow> item \<Rightarrow> bool" where
  "has_target env it \<longleftrightarrow> e_allowUp env \<and> hasUploadTarget (e_ps env) it"

text \<open>The counting part of the loop body, up to \<open>if doContinue\<close>.\<close>

definition count_item :: "divenv \<Rightarrow> item \<Rightarrow> counts \<Rightarrow> counts" where
  "count_item env it n = n\<lparr>
     n_checked := n_checked n + 1,
     n_isdl := n_isdl n + of_bool (flagisDL it),
     n_isyenc := n_isyenc n + of_bool (flagisYenc it),
     n_isup := n_isup n + of_bool (flagisUP it),
     n_indl := n_indl n + of_bool (flaginDL it),
     n_inyenc := n_inyenc n + of_bool (flaginYenc it),
     n_inup := n_inup n + of_bool (flaginUP it),
     n_fails := n_fails n + of_bool (3 \<le> fails it),
     n_dmca := n_dmca n + of_bool (dmcaOn it \<noteq> {}),
     n_segm := n_segm n + of_bool (availableOn it \<noteq> {}),
     n_dead := n_dead n + of_bool (IsSegmentStupid (e_ps env) it),
     n_allOk := n_allOk n + of_bool (is_done env it),
     n_done := n_done n + of_bool (is_done env it)\<rparr>"

text \<open>The pushes at the end of the loop body.\<close>

definition push_item :: "divenv \<Rightarrow> nat \<Rightarrow> divstate \<Rightarrow> counts \<Rightarrow> (divstate \<times> counts) go" where
  "push_item env i ds n =
     go_bind
       (if has_target env (d_items ds i)
        then go_bind (pushUP (e_opt env) (e_ps env) (e_segdone env) (e_allowUp env) (e_now env)
                        (e_upOrder env i) i (d_reups ds, d_global ds, d_items ds i))
               (\<lambda>((cs, c, it), pushed, noup, inretry, err).
                  Inr (ds\<lparr>d_reups := cs, d_global := c, d_items := (d_items ds)(i := it)\<rparr>,
                       pushed, noup, inretry, err))
        else Inr (ds, False, 0, 0, False))
       (\<lambda>(ds1, pushedUp, noup, inretry, err).
          if err then Inr (ds1, n)
          else let n1 = n\<lparr>n_inup := n_inup n + of_bool pushedUp, n_noup := n_noup n + noup,
                          n_inretry := n_inretry n + inretry\<rparr> in
               if pushedUp \<or> \<not> e_allowDl env then Inr (ds1, n1)
               else go_bind (pushDL (e_opt env) (e_ps env) (e_segdone env) (d_lim ds1) (e_allowDl env)
                               (e_dlOrder env i) i (d_downs ds1, d_global ds1, d_items ds1 i))
                      (\<lambda>((cs, c, it), pushedDl, nodl).
                         Inr (ds1\<lparr>d_downs := cs, d_global := c, d_items := (d_items ds1)(i := it)\<rparr>,
                              n1\<lparr>n_nodl := n_nodl n1 + nodl, n_Tnodl := n_Tnodl n1 + card (ignoreDlOn it),
                                 n_indl := n_indl n1 + of_bool pushedDl\<rparr>)))"

definition divide_item :: "divenv \<Rightarrow> nat \<Rightarrow> divstate \<times> counts \<Rightarrow> (divstate \<times> counts) go" where
  "divide_item env i st =
     (case st of (ds, n0) \<Rightarrow>
        let it = d_items ds i; n1 = n0\<lparr>n_cached := n_cached n0 + of_bool (flagCache it)\<rparr> in
        if checkedOn it \<noteq> length (e_ps env) then Inr (ds, n1)
        else let n = count_item env it n1 in
          if in_progress it \<or> IsSegmentStupid (e_ps env) it \<or> is_done env it
          then (if is_done env it \<and> DlAll (e_opt env) \<and> 0 < memlocked it \<and> \<not> flaginUP it \<and> \<not> flaginDL it
                then Inr (retire_in env i ds, n) else Inr (ds, n))
          else if \<not> has_target env it \<and> \<not> wantDownload (e_opt env) it
          then Inr (retire_in env i ds,
                    n\<lparr>n_notarget := n_notarget n + 1,
                      n_notDownloaded := n_notDownloaded n + of_bool (\<not> flagisDL it \<and> \<not> flagCache it)\<rparr>)
          else push_item env i ds n)"

fun divide_all :: "divenv \<Rightarrow> nat list \<Rightarrow> divstate \<times> counts \<Rightarrow> (divstate \<times> counts) go" where
  "divide_all env [] st = Inr st"
| "divide_all env (i # is) st = go_bind (divide_item env i st) (divide_all env is)"

section \<open>The decision at the end of a round\<close>

record divloop =
  closeWait :: int
  closeCase :: string
  deadWorkers :: int
  lastProgress :: "64 word"
  lastProgressAt :: int

definition first_loop :: "int \<Rightarrow> divloop" where
  "first_loop now = \<lparr>closeWait = 1, closeCase = [], deadWorkers = 9, lastProgress = 0,
     lastProgressAt = now\<rparr>"

datatype verdict_round = Continue divloop | Quit string | ForceQuit

definition noProgressTimeout :: int where
  "noProgressTimeout = 180000"

text \<open>What a round observes besides its counts.\<close>

record observed =
  o_counts :: counts
  o_todo :: nat
  o_dlQ :: nat
  o_upQ :: nat
  o_yeQ :: nat
  o_workDone :: "64 word"
  o_checkersGone :: bool
  o_postProviders :: nat

definition progress_of :: "observed \<Rightarrow> 64 word" where
  "progress_of ob = (let n = o_counts ob in
     of_nat (n_checked n + n_isdl n + n_isup n + n_isyenc n + n_cached n + n_done n + n_dead n +
             n_fails n + n_notarget n) + o_workDone ob)"

text \<open>Nothing is queued or in progress.\<close>

definition quiet :: "observed \<Rightarrow> bool" where
  "quiet ob \<longleftrightarrow> (let n = o_counts ob in
     n_inup n = 0 \<and> n_indl n = 0 \<and> n_inretry n = 0 \<and> n_inyenc n = 0 \<and>
     o_dlQ ob = 0 \<and> o_upQ ob = 0 \<and> o_yeQ ob = 0)"

definition close_case :: "options \<Rightarrow> observed \<Rightarrow> nat option" where
  "close_case opt ob =
     (let n = o_counts ob; todo = o_todo ob in
      if n_done n = todo \<or> n_fails n = todo \<or> n_fails n + n_done n = todo then Some 0
      else if CheckOnly opt then Some 1
      else if cacheON opt \<and> o_postProviders ob = 0 \<and> n_cached n = todo then Some 2
      else if cacheON opt \<and> n_dead n + n_cached n = todo \<and> n_dead n + n_isup n = todo then Some 3
      else if n_isup n = todo then Some 4
      else if n_dead n + n_isup n = todo \<or> n_dead n + n_isup n + n_fails n = todo then Some 5
      else if n_dead n + n_done n = todo \<or> n_dead n + n_done n + n_fails n = todo then Some 6
      else if 0 < n_notarget n \<and>
              (n_dead n + n_done n + n_notarget n = todo \<or>
               n_dead n + n_done n + n_fails n + n_notarget n = todo) then Some 8
      else None)"

definition case_name :: "nat \<Rightarrow> string" where
  "case_name k = ''|Debug#'' @ [''012345678'' ! k]"

definition decide :: "options \<Rightarrow> int \<Rightarrow> observed \<Rightarrow> divloop \<Rightarrow> verdict_round" where
  "decide opt now ob l =
     (let n = o_counts ob;
          moved = progress_of ob \<noteq> lastProgress l;
          l1 = (if moved then l\<lparr>lastProgress := progress_of ob, lastProgressAt := now\<rparr> else l) in
      if \<not> moved \<and> noProgressTimeout < now - lastProgressAt l then Quit ''noProgress''
      else if n_checked n \<noteq> o_todo ob \<and> o_checkersGone ob \<and> quiet ob then Quit ''checkersGone''
      else if n_checked n \<noteq> o_todo ob \<or> \<not> quiet ob then Continue l1
      else if closeWait l1 \<le> 0 then Quit (closeCase l1)
      else case close_case opt ob of
        Some k \<Rightarrow> Continue (l1\<lparr>closeWait := closeWait l1 - 1, closeCase := closeCase l1 @ case_name k\<rparr>)
      | None \<Rightarrow>
          if 15 \<le> closeWait l1 + 1 then ForceQuit
          else Continue (l1\<lparr>closeWait := closeWait l1 + 1, closeCase := []\<rparr>))"

text \<open>The checks at the start of a round, after the sleep.\<close>

definition start_round :: "bool \<Rightarrow> int \<Rightarrow> divloop \<Rightarrow> verdict_round" where
  "start_round is_stopped booted l =
     (if is_stopped then Quit ''stopped''
      else if deadWorkers l \<le> 0 then Quit ''noworkers''
      else Continue (l\<lparr>deadWorkers := (if booted = 0 then deadWorkers l - 1 else 9)\<rparr>))"

text \<open>The check phase ends: \<open>s.segcheckdone\<close>.\<close>

definition check_phase_done :: "observed \<Rightarrow> bool \<Rightarrow> bool \<Rightarrow> bool" where
  "check_phase_done ob feedDone segdone \<longleftrightarrow>
     segdone \<or> n_checked (o_counts ob) = o_todo ob \<and> feedDone"

section \<open>The outer loop ends\<close>

text \<open>The outer loop over a sequence of observations and round times.\<close>

fun rounds :: "options \<Rightarrow> (nat \<Rightarrow> int) \<Rightarrow> (nat \<Rightarrow> observed) \<Rightarrow> nat \<Rightarrow> divloop \<Rightarrow> verdict_round" where
  "rounds opt t obs 0 l = Continue l"
| "rounds opt t obs (Suc n) l =
     (case rounds opt t obs n l of Continue l' \<Rightarrow> decide opt (t n) (obs n) l' | q \<Rightarrow> q)"

fun goes_on :: "verdict_round \<Rightarrow> bool" where
  "goes_on (Continue _) = True"
| "goes_on _ = False"

lemma goes_on_iff: "goes_on v \<longleftrightarrow> (\<exists>l. v = Continue l)"
  by (cases v) simp_all

definition wait_ok :: "divloop \<Rightarrow> bool" where
  "wait_ok l \<longleftrightarrow> 0 \<le> closeWait l \<and> closeWait l \<le> 14"

definition all_checked :: "observed \<Rightarrow> bool" where
  "all_checked ob \<longleftrightarrow> n_checked (o_counts ob) = o_todo ob"

text \<open>The ways a round can go on.\<close>

lemma decide_Continue:
  assumes "decide opt now ob l = Continue l'"
  shows "lastProgress l' = progress_of ob" and "deadWorkers l' = deadWorkers l"
    and "lastProgressAt l' = (if progress_of ob = lastProgress l then lastProgressAt l else now)"
    and "progress_of ob = lastProgress l \<Longrightarrow> now - lastProgressAt l \<le> noProgressTimeout"
    and "all_checked ob \<and> quiet ob \<Longrightarrow> 0 < closeWait l \<and>
      closeWait l' = (if close_case opt ob = None then closeWait l + 1 else closeWait l - 1) \<and>
      (close_case opt ob = None \<longrightarrow> closeWait l + 1 < 15)"
    and "\<not> (all_checked ob \<and> quiet ob) \<Longrightarrow> closeWait l' = closeWait l"
  using assms by (auto simp: decide_def Let_def all_checked_def split: if_splits option.splits)

lemma decide_wait_ok: "decide opt now ob l = Continue l' \<Longrightarrow> wait_ok l \<Longrightarrow> wait_ok l'"
  using decide_Continue(5,6)[of opt now ob l l']
  by (cases "all_checked ob \<and> quiet ob") (auto simp: wait_ok_def split: if_splits)

lemma rounds_SucE:
  assumes "rounds opt t obs (Suc n) l = Continue l'"
  obtains l1 where "rounds opt t obs n l = Continue l1" "decide opt (t n) (obs n) l1 = Continue l'"
  using assms by (auto split: verdict_round.splits)

lemma rounds_wait_ok: "rounds opt t obs n l = Continue l' \<Longrightarrow> wait_ok l \<Longrightarrow> wait_ok l'"
  by (induction n arbitrary: l') (auto elim!: rounds_SucE intro: decide_wait_ok simp del: rounds.simps(2))

lemma rounds_stay: "goes_on (rounds opt t obs (n + k) l) \<Longrightarrow> goes_on (rounds opt t obs n l)"
  by (induction k) (auto split: verdict_round.splits)

lemma rounds_mono: "n \<le> m \<Longrightarrow> goes_on (rounds opt t obs m l) \<Longrightarrow> goes_on (rounds opt t obs n l)"
  using rounds_stay[of opt t obs n "m - n"] by simp

text \<open>When nothing is left to do, \<open>closeWait\<close> moves in one direction every round.\<close>

lemma idle_wait:
  assumes "rounds opt t (\<lambda>_. ob) n l = Continue l'" and "all_checked ob" and "quiet ob"
  shows "closeWait l' = (if close_case opt ob = None then closeWait l + int n else closeWait l - int n)"
  using assms(1)
proof (induction n arbitrary: l')
  case (Suc n)
  from Suc.prems obtain l1 where "rounds opt t (\<lambda>_. ob) n l = Continue l1"
    "decide opt (t n) ob l1 = Continue l'"
    by (rule rounds_SucE)
  then show ?case
    using Suc.IH[of l1] decide_Continue(5)[of opt "t n" ob l1 l'] assms(2,3) by auto
qed simp

lemma idle_ends:
  assumes "all_checked ob" and "quiet ob" and "wait_ok l"
  shows "\<not> goes_on (rounds opt t (\<lambda>_. ob) 15 l)"
proof
  assume "goes_on (rounds opt t (\<lambda>_. ob) 15 l)"
  then obtain l' where l': "rounds opt t (\<lambda>_. ob) 15 l = Continue l'"
    by (auto simp: goes_on_iff)
  show False
    using idle_wait[OF l' assms(1,2)] rounds_wait_ok[OF l' assms(3)] assms(3)
    by (auto simp: wait_ok_def split: if_splits)
qed

text \<open>The watchdog: while the observation stays the same, the time of the last
  progress stays that of the first round.\<close>

lemma stuck_since:
  assumes "rounds opt t (\<lambda>_. ob) n l = Continue l'" and "0 < n" and "lastProgressAt l \<le> t 0"
  shows "lastProgress l' = progress_of ob \<and> lastProgressAt l' \<le> t 0"
  using assms(1,2)
proof (induction n arbitrary: l')
  case (Suc n)
  from Suc.prems(1) obtain l1 where l1: "rounds opt t (\<lambda>_. ob) n l = Continue l1"
    "decide opt (t n) ob l1 = Continue l'"
    by (rule rounds_SucE)
  show ?case
  proof (cases "n = 0")
    case True
    then show ?thesis using l1 decide_Continue(1,3)[OF l1(2)] assms(3) by auto
  next
    case False
    then show ?thesis using Suc.IH[OF l1(1)] decide_Continue(1,3)[OF l1(2)] by auto
  qed
qed simp

lemma times_grow:
  fixes t :: "nat \<Rightarrow> int"
  assumes "\<And>k. t k + 50 \<le> t (Suc k)"
  shows "t 0 + 50 * int k \<le> t k"
proof (induction k)
  case (Suc k)
  then show ?case using assms[of k] by simp
qed simp

lemma stuck_ends:
  assumes "lastProgressAt l \<le> t 0" and "\<And>k. t k + 50 \<le> t (Suc k)"
    and "noProgressTimeout < 50 * int n"
  shows "\<not> goes_on (rounds opt t (\<lambda>_. ob) (Suc n) l)"
proof
  assume "goes_on (rounds opt t (\<lambda>_. ob) (Suc n) l)"
  then obtain l' where "rounds opt t (\<lambda>_. ob) (Suc n) l = Continue l'"
    unfolding goes_on_iff by blast
  then obtain l1 where l1: "rounds opt t (\<lambda>_. ob) n l = Continue l1"
    "decide opt (t n) ob l1 = Continue l'"
    by (rule rounds_SucE)
  have "0 < n"
    using assms(3) by (cases n) (simp_all add: noProgressTimeout_def)
  then have "lastProgress l1 = progress_of ob" "lastProgressAt l1 \<le> t 0"
    using stuck_since[OF l1(1) _ assms(1)] by simp_all
  then have "t n - t 0 \<le> noProgressTimeout"
    using decide_Continue(4)[OF l1(2)] by simp
  moreover have "t 0 + 50 * int n \<le> t n"
    using assms(2) by (rule times_grow)
  ultimately show False
    using assms(3) by simp
qed

section \<open>What an orderly end means\<close>

text \<open>A round that saw everything checked, nothing in flight and a close case.\<close>

definition closing :: "options \<Rightarrow> observed \<Rightarrow> bool" where
  "closing opt ob \<longleftrightarrow> all_checked ob \<and> quiet ob \<and> close_case opt ob \<noteq> None"

lemma decide_Quit:
  assumes "decide opt now ob l = Quit c" and "c \<noteq> ''noProgress''" and "c \<noteq> ''checkersGone''"
  shows "all_checked ob \<and> quiet ob \<and> closeWait l \<le> 0 \<and> c = closeCase l"
  using assms by (auto simp: decide_def Let_def all_checked_def split: if_splits option.splits)

lemma wait_lowered:
  assumes "rounds opt t obs n l = Continue l'" and "0 < closeWait l" and "closeWait l' \<le> 0"
  shows "\<exists>k < n. closing opt (obs k)"
  using assms(1,3)
proof (induction n arbitrary: l')
  case (Suc n)
  from Suc.prems(1) obtain l1 where l1: "rounds opt t obs n l = Continue l1"
    "decide opt (t n) (obs n) l1 = Continue l'"
    by (rule rounds_SucE)
  show ?case
  proof (cases "closeWait l1 \<le> 0")
    case True
    then show ?thesis using Suc.IH[OF l1(1)] less_SucI by blast
  next
    case False
    then have "closing opt (obs n)"
      using decide_Continue(5,6)[OF l1(2)] Suc.prems(2)
      by (cases "all_checked (obs n) \<and> quiet (obs n)") (auto simp: closing_def split: if_splits)
    then show ?thesis by blast
  qed
qed (use assms(2) in simp)

section \<open>A round over the items\<close>

lemma retire_in_items:
  "d_items (retire_in env i ds) j = (if j = i then d_items (retire_in env i ds) i else d_items ds j)"
  "d_downs (retire_in env i ds) = d_downs ds" "d_reups (retire_in env i ds) = d_reups ds"
  by (simp_all add: retire_in_def split: prod.split)

lemma retire_in_keeps:
  "flaginDL (d_items (retire_in env i ds) j) = flaginDL (d_items ds j)"
  "flaginUP (d_items (retire_in env i ds) j) = flaginUP (d_items ds j)"
  "d_global (retire_in env i ds) = None \<longleftrightarrow> d_global ds = None"
  "GetValue (d_global (retire_in env i ds)) ''dlQueueCnt'' = GetValue (d_global ds) ''dlQueueCnt''"
  "GetValue (d_global (retire_in env i ds)) ''upQueueCnt'' = GetValue (d_global ds) ''upQueueCnt''"
proof -
  obtain c m it where r: "retireItem (e_opt env) i (d_global ds, d_lim ds, d_items ds i) = (c, m, it)"
    by (metis prod_cases3)
  show "flaginDL (d_items (retire_in env i ds) j) = flaginDL (d_items ds j)"
    "flaginUP (d_items (retire_in env i ds) j) = flaginUP (d_items ds j)"
    "d_global (retire_in env i ds) = None \<longleftrightarrow> d_global ds = None"
    "GetValue (d_global (retire_in env i ds)) ''dlQueueCnt'' = GetValue (d_global ds) ''dlQueueCnt''"
    "GetValue (d_global (retire_in env i ds)) ''upQueueCnt'' = GetValue (d_global ds) ''upQueueCnt''"
    using retireItem_keeps[OF r] by (simp_all add: retire_in_def retireNoUploadTarget_def r)
qed

text \<open>What \<open>divide_item\<close> can do to the state: nothing, a retirement or the pushes.\<close>

lemma divide_item_cases:
  assumes "divide_item env i (ds, n0) = Inr (ds', n)"
  obtains "ds' = ds" | "ds' = retire_in env i ds"
    | n1 where "push_item env i ds n1 = Inr (ds', n)" "\<not> in_progress (d_items ds i)"
        "checkedOn (d_items ds i) = length (e_ps env)"
        "n_checked n1 = n_checked n0 + 1" "n_done n1 = n_done n0" "n_dead n1 = n_dead n0"
        "\<not> is_done env (d_items ds i)" "\<not> IsSegmentStupid (e_ps env) (d_items ds i)"
        "n_notarget n1 = n_notarget n0"
  using assms
  by (auto simp: divide_item_def Let_def count_item_def split: if_splits)

lemma push_item_other:
  assumes "push_item env i ds n = Inr (ds', n')" and "j \<noteq> i"
  shows "d_items ds' j = d_items ds j"
  using assms by (auto simp: push_item_def Let_def split: if_splits)

lemma divide_item_other:
  assumes "divide_item env i (ds, n) = Inr (ds', n')" and "j \<noteq> i"
  shows "d_items ds' j = d_items ds j"
  using assms(1)
  by (rule divide_item_cases)
    (use assms(2) push_item_other retire_in_items(1)[of env i ds j] in auto)

lemma push_item_counts:
  "push_item env i ds n = Inr (ds', n') \<Longrightarrow>
     n_checked n' = n_checked n \<and> n_done n' = n_done n \<and> n_dead n' = n_dead n \<and>
     n_notarget n' = n_notarget n \<and> n_isup n' = n_isup n \<and> n_isdl n' = n_isdl n \<and> n_fails n' = n_fails n"
  by (auto simp: push_item_def Let_def split: if_splits)

text \<open>The tests behind the counts, on the item as the round finds it.\<close>

definition is_checked :: "divenv \<Rightarrow> item \<Rightarrow> bool" where
  "is_checked env it \<longleftrightarrow> checkedOn it = length (e_ps env)"

definition is_retired :: "divenv \<Rightarrow> item \<Rightarrow> bool" where
  "is_retired env it \<longleftrightarrow> is_checked env it \<and> \<not> in_progress it \<and>
     \<not> IsSegmentStupid (e_ps env) it \<and> \<not> is_done env it \<and>
     \<not> has_target env it \<and> \<not> wantDownload (e_opt env) it"

lemma divide_item_counts:
  assumes "divide_item env i (ds, n) = Inr (ds', n')"
  shows "n_checked n' = n_checked n + of_bool (is_checked env (d_items ds i))"
    and "n_done n' = n_done n + of_bool (is_checked env (d_items ds i) \<and> is_done env (d_items ds i))"
    and "n_dead n' = n_dead n +
      of_bool (is_checked env (d_items ds i) \<and> IsSegmentStupid (e_ps env) (d_items ds i))"
    and "n_isup n' = n_isup n + of_bool (is_checked env (d_items ds i) \<and> flagisUP (d_items ds i))"
    and "n_fails n' = n_fails n + of_bool (is_checked env (d_items ds i) \<and> 3 \<le> fails (d_items ds i))"
    and "n_notarget n' = n_notarget n + of_bool (is_retired env (d_items ds i))"
  using assms
  by (auto simp: divide_item_def Let_def count_item_def is_checked_def is_retired_def
      split: if_splits dest!: push_item_counts)

lemma divide_all_counts:
  assumes "divide_all env is (ds, n) = Inr (ds', n')" and "distinct is"
  shows "n_checked n' = n_checked n + count_if (\<lambda>i. is_checked env (d_items ds i)) is \<and>
    n_done n' = n_done n + count_if (\<lambda>i. is_checked env (d_items ds i) \<and> is_done env (d_items ds i)) is \<and>
    n_dead n' = n_dead n + count_if (\<lambda>i. is_checked env (d_items ds i) \<and>
      IsSegmentStupid (e_ps env) (d_items ds i)) is \<and>
    n_isup n' = n_isup n + count_if (\<lambda>i. is_checked env (d_items ds i) \<and> flagisUP (d_items ds i)) is \<and>
    n_fails n' = n_fails n + count_if (\<lambda>i. is_checked env (d_items ds i) \<and> 3 \<le> fails (d_items ds i)) is \<and>
    n_notarget n' = n_notarget n + count_if (\<lambda>i. is_retired env (d_items ds i)) is"
  using assms
proof (induction "is" arbitrary: ds n)
  case (Cons i "is")
  then obtain ds1 n1 where r: "divide_item env i (ds, n) = Inr (ds1, n1)"
    "divide_all env is (ds1, n1) = Inr (ds', n')"
    by auto
  have "i \<notin> set is" using Cons.prems(2) by simp
  then have same: "j \<in> set is \<Longrightarrow> d_items ds1 j = d_items ds j" for j
    using divide_item_other[OF r(1), of j] by metis
  have eq: "count_if (\<lambda>i. P (d_items ds1 i)) is = count_if (\<lambda>i. P (d_items ds i)) is" for P
    using same by (auto simp: count_if_def cong: filter_cong)
  show ?case
    using Cons.IH[OF r(2)] Cons.prems(2) divide_item_counts[OF r(1)]
    by (simp add: eq[of "is_checked env"] eq[of "\<lambda>it. is_checked env it \<and> is_done env it"]
        eq[of "\<lambda>it. is_checked env it \<and> IsSegmentStupid (e_ps env) it"]
        eq[of "\<lambda>it. is_checked env it \<and> flagisUP it"]
        eq[of "\<lambda>it. is_checked env it \<and> 3 \<le> fails it"] eq[of "is_retired env"])
qed simp

text \<open>The invariant of the queues over a round: both kinds of channels hold
  flagged items once, and no item is flagged for both.\<close>

definition round_inv :: "divstate \<Rightarrow> bool" where
  "round_inv ds \<longleftrightarrow>
     queue_inv (\<lambda>j. flaginDL (d_items ds j)) (d_downs ds) \<and>
     queue_inv (\<lambda>j. flaginUP (d_items ds j)) (d_reups ds) \<and>
     (\<forall>j. \<not> (flaginDL (d_items ds j) \<and> flaginUP (d_items ds j)))"

lemma round_inv_retire: "round_inv ds \<Longrightarrow> round_inv (retire_in env i ds)"
  by (simp add: round_inv_def retire_in_items(2,3) retire_in_keeps)

lemma round_inv_pushUP:
  assumes inv: "round_inv ds"
    and run: "pushUP opt ps sd au now order i (d_reups ds, d_global ds, d_items ds i) =
      Inr ((cs, c, it), pushed, noup, inretry, err)"
  shows "round_inv (ds\<lparr>d_reups := cs, d_global := c, d_items := (d_items ds)(i := it)\<rparr>)"
proof -
  have "queue_inv (\<lambda>j. flaginUP (((d_items ds)(i := it)) j)) cs"
    using inv run by (intro pushUP_queue_inv) (auto simp: round_inv_def)
  moreover have dl: "flaginDL it = flaginDL (d_items ds i)"
    using pushUP_spec[OF run] matchThisUP_idle[of "d_items ds i"]
    by (cases pushed) (auto simp: up_allowed_def)
  moreover have "queue_inv (\<lambda>j. flaginDL (((d_items ds)(i := it)) j)) (d_downs ds)"
    using inv dl by (auto simp: round_inv_def elim!: queue_inv_unchanged)
  moreover have "\<not> (flaginDL it \<and> flaginUP it)"
    using pushUP_spec[OF run] inv by (cases pushed) (auto simp: round_inv_def)
  ultimately show ?thesis
    using inv by (simp add: round_inv_def)
qed

lemma round_inv_pushDL:
  assumes inv: "round_inv ds"
    and run: "pushDL opt ps sd m ad order i (d_downs ds, d_global ds, d_items ds i) =
      Inr ((cs, c, it), pushed, n)"
  shows "round_inv (ds\<lparr>d_downs := cs, d_global := c, d_items := (d_items ds)(i := it)\<rparr>)"
proof -
  have "queue_inv (\<lambda>j. flaginDL (((d_items ds)(i := it)) j)) cs"
    using inv run by (intro pushDL_queue_inv) (auto simp: round_inv_def)
  moreover have up: "flaginUP it = flaginUP (d_items ds i)"
    using pushDL_spec[OF run] matchThisDL_idle
    by (cases pushed) (fastforce simp: dl_allowed_def)+
  moreover have "queue_inv (\<lambda>j. flaginUP (((d_items ds)(i := it)) j)) (d_reups ds)"
    using inv up by (auto simp: round_inv_def elim!: queue_inv_unchanged)
  moreover have "\<not> (flaginDL it \<and> flaginUP it)"
    using pushDL_spec[OF run] inv by (cases pushed) (auto simp: round_inv_def)
  ultimately show ?thesis
    using inv by (simp add: round_inv_def)
qed

lemma round_inv_push:
  assumes inv: "round_inv ds" and run: "push_item env i ds n = Inr (ds', n')"
  shows "round_inv ds'"
proof -
  obtain ds1 pushedUP noup inretry err where up:
    "(if has_target env (d_items ds i)
      then go_bind (pushUP (e_opt env) (e_ps env) (e_segdone env) (e_allowUp env) (e_now env)
                      (e_upOrder env i) i (d_reups ds, d_global ds, d_items ds i))
             (\<lambda>((cs, c, it), pushed, noup, inretry, err).
                Inr (ds\<lparr>d_reups := cs, d_global := c, d_items := (d_items ds)(i := it)\<rparr>,
                     pushed, noup, inretry, err))
      else Inr (ds, False, 0, 0, False)) = Inr (ds1, pushedUP, noup, inretry, err)"
    using run by (auto simp: push_item_def)
  have inv1: "round_inv ds1"
  proof (cases "has_target env (d_items ds i)")
    case True
    then obtain cs c it where
      "pushUP (e_opt env) (e_ps env) (e_segdone env) (e_allowUp env) (e_now env) (e_upOrder env i) i
        (d_reups ds, d_global ds, d_items ds i) = Inr ((cs, c, it), pushedUP, noup, inretry, err)"
      "ds1 = ds\<lparr>d_reups := cs, d_global := c, d_items := (d_items ds)(i := it)\<rparr>"
      using up by (auto simp del: fun_upd_apply)
    then show ?thesis
      using round_inv_pushUP[OF inv] by simp
  qed (use up inv in simp)
  note rest = run[unfolded push_item_def up go_bind_simps prod.case]
  show ?thesis
  proof (cases "err \<or> pushedUP \<or> \<not> e_allowDl env")
    case True
    then show ?thesis using rest inv1 by (auto simp: Let_def split: if_splits)
  next
    case False
    then obtain cs c it pushed nodl where
      "pushDL (e_opt env) (e_ps env) (e_segdone env) (d_lim ds1) (e_allowDl env) (e_dlOrder env i) i
        (d_downs ds1, d_global ds1, d_items ds1 i) = Inr ((cs, c, it), pushed, nodl)"
      "ds' = ds1\<lparr>d_downs := cs, d_global := c, d_items := (d_items ds1)(i := it)\<rparr>"
      using rest by (auto simp: Let_def simp del: fun_upd_apply)
    then show ?thesis
      using round_inv_pushDL[OF inv1] by simp
  qed
qed

lemma round_inv_item:
  assumes "round_inv ds" and "divide_item env i (ds, n) = Inr (ds', n')"
  shows "round_inv ds'"
  using assms(2)
  by (rule divide_item_cases) (use assms(1) round_inv_retire round_inv_push in auto)

lemma round_inv_all:
  "divide_all env is (ds, n) = Inr (ds', n') \<Longrightarrow> round_inv ds \<Longrightarrow> round_inv ds'"
proof (induction "is" arbitrary: ds n)
  case (Cons i "is")
  then show ?case using round_inv_item by auto
qed simp

section \<open>Properties\<close>

text \<open>C2: the divider always ends. Once the counts, queues and finished attempts it
  observes no longer change, with rounds at least 50 ms apart: it stops within
  3602 rounds, because the watchdog fires three minutes after the last progress,
  whatever is still marked as in progress; and if everything is checked and
  nothing is queued or in progress it stops within 15 rounds.\<close>

theorem divider_terminates:
  assumes "wait_ok l" and "lastProgressAt l \<le> t 0" and "\<And>k. t k + 50 \<le> t (Suc k)"
  shows "\<not> goes_on (rounds opt t (\<lambda>_. ob) 3602 l) \<and>
    (all_checked ob \<and> quiet ob \<longrightarrow> \<not> goes_on (rounds opt t (\<lambda>_. ob) 15 l))"
proof -
  have "\<not> goes_on (rounds opt t (\<lambda>_. ob) (Suc 3601) l)"
    using assms(2,3) by (rule stuck_ends) (simp add: noProgressTimeout_def)
  moreover have "Suc 3601 = 3602" by simp
  ultimately show ?thesis
    using idle_ends[OF _ _ assms(1)] by metis
qed

definition stuck_upload :: observed where
  "stuck_upload = \<lparr>o_counts = no_counts\<lparr>n_checked := 1, n_inup := 1\<rparr>, o_todo = 1, o_dlQ = 0,
     o_upQ = 1, o_yeQ = 0, o_workDone = 0, o_checkersGone = False, o_postProviders = 1\<rparr>"

theorem divider_terminates_witness:
  "\<not> goes_on (rounds plain_options (\<lambda>k. 100 * int k) (\<lambda>_. stuck_upload) 3602 (first_loop 0))"
  using divider_terminates[of "first_loop 0" "\<lambda>k. 100 * int k" plain_options stuck_upload]
  by (simp add: wait_ok_def first_loop_def)

text \<open>When the divider quits without having been stopped, without the watchdog
  and without having lost its check routines, then in that round every segment
  was checked on every provider, nothing was queued or in progress, and an
  earlier round had seen the same and one of the closing conditions. A forced
  end after 14 undecided rounds is the only other way out.\<close>

theorem divider_quit_sound:
  assumes "rounds opt t obs n (first_loop now) = Continue l"
    and "decide opt (t n) (obs n) l = Quit c"
    and "c \<noteq> ''noProgress''" and "c \<noteq> ''checkersGone''"
  shows "all_checked (obs n) \<and> quiet (obs n) \<and> (\<exists>k < n. closing opt (obs k))"
  using decide_Quit[OF assms(2-4)] wait_lowered[OF assms(1)] by (simp add: first_loop_def)

definition all_uploaded :: observed where
  "all_uploaded = \<lparr>o_counts = no_counts\<lparr>n_checked := 1, n_done := 1, n_isup := 1\<rparr>, o_todo = 1,
     o_dlQ = 0, o_upQ = 0, o_yeQ = 0, o_workDone = 3, o_checkersGone = False, o_postProviders = 1\<rparr>"

theorem divider_quit_sound_witness:
  "\<exists>l. rounds plain_options (\<lambda>k. 100 * int k) (\<lambda>_. all_uploaded) 1 (first_loop 0) = Continue l \<and>
     decide plain_options 100 all_uploaded l = Quit ''|Debug#0'' \<and>
     all_checked all_uploaded \<and> quiet all_uploaded \<and> closing plain_options all_uploaded"
proof -
  have a: "\<exists>l. rounds plain_options (\<lambda>k. 100 * int k) (\<lambda>_. all_uploaded) 1 (first_loop 0) = Continue l \<and>
      decide plain_options 100 all_uploaded l = Quit ''|Debug#0''"
    by (simp add: decide_def all_uploaded_def no_counts_def first_loop_def quiet_def close_case_def
        progress_of_def noProgressTimeout_def case_name_def Let_def)
  then obtain l where l: "rounds plain_options (\<lambda>k. 100 * int k) (\<lambda>_. all_uploaded) 1 (first_loop 0) = Continue l"
    "decide plain_options (100 * int 1) all_uploaded l = Quit ''|Debug#0''"
    by auto
  have "all_checked all_uploaded \<and> quiet all_uploaded \<and> (\<exists>k < (1::nat). closing plain_options all_uploaded)"
    using divider_quit_sound[OF l(1), of "''|Debug#0''"] l(2) by simp
  then show ?thesis using a by blast
qed

text \<open>A round never queues an item twice. If before the round every queued
  item is flagged, sits in one place of one channel only, and no item is flagged
  for download and upload at once, then the same holds after it; workers only
  take items out.\<close>

theorem round_keeps_queues:
  assumes "divide_all env is (ds, n) = Inr (ds', n')" and "round_inv ds"
  shows "queue_inv (\<lambda>j. flaginDL (d_items ds' j)) (d_downs ds') \<and>
    queue_inv (\<lambda>j. flaginUP (d_items ds' j)) (d_reups ds') \<and>
    (\<forall>j. \<not> (flaginDL (d_items ds' j) \<and> flaginUP (d_items ds' j)))"
  using round_inv_all[OF assms] by (simp add: round_inv_def)

text \<open>A session of one item for the witnesses.\<close>

definition one_session :: "item \<Rightarrow> divstate" where
  "one_session it = \<lparr>d_items = (\<lambda>_. it), d_downs = two_chans, d_reups = two_chans,
     d_global = bump NewCounter ''postProviders'', d_lim = NewMemLimiter 2\<rparr>"

definition one_env :: divenv where
  "one_env = \<lparr>e_opt = plain_options, e_ps = two_providers, e_segdone = True, e_allowDl = True,
     e_allowUp = True, e_now = 0, e_dlOrder = (\<lambda>_. [0]), e_upOrder = (\<lambda>_. [1])\<rparr>"

lemma all_open_two_chans: "all_open two_chans"
  by (simp add: all_open_def two_chans_def make_chan_def)

lemma push_item_total:
  assumes "all_open (d_downs ds)" and "all_open (d_reups ds)"
  shows "\<not> panics (push_item env i ds n)"
  using assms by (auto simp: push_item_def Let_def pushUP_total pushDL_total split: if_splits)

lemma divide_one_total: "\<not> panics (divide_all one_env [0] (one_session it, no_counts))"
  using push_item_total[of "one_session it"]
  by (auto simp: divide_item_def Let_def one_session_def all_open_two_chans)

lemma round_inv_start: "\<not> flaginDL it \<Longrightarrow> round_inv (one_session it)"
  by (auto simp: round_inv_def one_session_def queue_inv_def two_chans_def make_chan_def split: if_splits)

theorem round_keeps_queues_witness:
  "\<exists>ds' n'. divide_all one_env [0] (one_session half_item, no_counts) = Inr (ds', n') \<and>
     \<not> (flaginDL (d_items ds' 0) \<and> flaginUP (d_items ds' 0))"
proof -
  obtain ds' n' where run: "divide_all one_env [0] (one_session half_item, no_counts) = Inr (ds', n')"
    using divide_one_total[of half_item] unfolding not_panics_iff by auto
  have "round_inv (one_session half_item)"
    by (rule round_inv_start) (simp add: half_item_def blank_item_def)
  from round_keeps_queues[OF run this] show ?thesis
    using run by blast
qed


definition gone_item :: item where
  "gone_item = blank_item\<lparr>missingOn := {0, 1}, checkedOn := 2\<rparr>"


end
