(* ===== verification/Tasks.thy ===== *)
theory Tasks
  imports Prelude Counter Items SlotPool MemLimit Workers Routines
begin

text \<open>
  The life of a session's workers (\<open>Workers.go\<close>, \<open>Routines.go\<close>): building the
  channels, feeding the check channels, what a check, download or upload worker
  does with one item it receives, counting the check routines that are left,
  and closing everything down. Tickers, idle time-outs and log lines are left
  out; a worker's loop body is one step.
\<close>

section \<open>Channels and check routine counts\<close>

record segchans =
  sc_check :: "string \<rightharpoonup> chan"
  sc_downs :: "string \<rightharpoonup> chan"
  sc_reups :: "string \<rightharpoonup> chan"
  sc_checkers :: "string \<rightharpoonup> checkerGroup"

definition no_chans :: segchans where
  "no_chans = \<lparr>sc_check = (\<lambda>_. None), sc_downs = (\<lambda>_. None), sc_reups = (\<lambda>_. None),
     sc_checkers = (\<lambda>_. None)\<rparr>"

definition chan_size :: "options \<Rightarrow> nat \<Rightarrow> nat" where
  "chan_size opt segments = (if ChanSize opt \<le> 0 then segments else nat (ChanSize opt))"

definition add_provider :: "nat \<Rightarrow> provider \<Rightarrow> segchans \<Rightarrow> segchans" where
  "add_provider sz p sc =
     (if \<not> Enabled p \<or> MaxConns p \<le> 0 then sc
      else let g = Group p;
               old = (case sc_checkers sc g of None \<Rightarrow> \<lparr>chk_left = 0, chk_gone = False\<rparr> | Some cg \<Rightarrow> cg);
               sc1 = sc\<lparr>sc_checkers := (sc_checkers sc)(g \<mapsto> old\<lparr>chk_left := chk_left old + MaxConns p\<rparr>)\<rparr>
           in if sc_check sc g \<noteq> None then sc1
              else sc1\<lparr>sc_check := (sc_check sc)(g \<mapsto> make_chan sz),
                       sc_downs := (sc_downs sc)(g \<mapsto> make_chan sz),
                       sc_reups := (sc_reups sc)(g \<mapsto> make_chan sz)\<rparr>)"

definition makeSegmentChans :: "nat \<Rightarrow> provider list \<Rightarrow> segchans" where
  "makeSegmentChans sz ps = fold (add_provider sz) ps no_chans"

text \<open>\<open>checkerGroup.exit\<close>: \<open>gone\<close> is closed when the count falls to zero.\<close>

definition group_exit :: "int \<Rightarrow> checkerGroup \<Rightarrow> checkerGroup" where
  "group_exit n g =
     (if n \<le> 0 then g
      else let k = chk_left g - n in g\<lparr>chk_left := k, chk_gone := (if k \<le> 0 then True else chk_gone g)\<rparr>)"

definition checkersExit :: "string \<Rightarrow> int \<Rightarrow> (string \<rightharpoonup> checkerGroup) \<Rightarrow> (string \<rightharpoonup> checkerGroup)" where
  "checkersExit g n cs = (case cs g of None \<Rightarrow> cs | Some cg \<Rightarrow> cs(g \<mapsto> group_exit n cg))"

text \<open>The groups are given as a list, for the range over the Go map.\<close>

definition allCheckersGone :: "string list \<Rightarrow> (string \<rightharpoonup> checkerGroup) \<Rightarrow> bool" where
  "allCheckersGone groups cs \<longleftrightarrow>
     (\<forall>g \<in> set groups. case cs g of None \<Rightarrow> True | Some cg \<Rightarrow> chk_gone cg) \<and> groups \<noteq> []"

section \<open>The feeder\<close>

text \<open>
  \<open>feedCheckChan\<close> for one group as a step relation. Its state: the items not
  yet fed, how many were fed, whether it still feeds, waits for the channel to
  empty, or has closed it. \<open>recv\<close> is a check routine taking an item.
\<close>

datatype feed_pc = Feeding | WaitEmpty | FeedClosed

record feeder =
  f_todo :: "nat list"
  f_fed :: nat
  f_pc :: feed_pc
  f_chan :: chan
  f_gone :: bool
  f_stop :: bool
  f_taken :: "nat list"

inductive fstep :: "nat \<Rightarrow> feeder \<Rightarrow> feeder \<Rightarrow> bool" for len where
  feed: "f_pc f = Feeding \<Longrightarrow> f_todo f = i # rest \<Longrightarrow> length (chan_buf (f_chan f)) < chan_cap (f_chan f) \<Longrightarrow>
     fstep len f (f\<lparr>f_todo := rest, f_fed := f_fed f + 1,
       f_chan := (f_chan f)\<lparr>chan_buf := chan_buf (f_chan f) @ [i]\<rparr>\<rparr>)"
| feed_end: "f_pc f = Feeding \<Longrightarrow> f_todo f = [] \<or> f_gone f \<or> f_stop f \<Longrightarrow>
     fstep len f (f\<lparr>f_pc := (if f_fed f = len then WaitEmpty else FeedClosed),
       f_chan := (if f_fed f = len then f_chan f else (f_chan f)\<lparr>chan_closed := True\<rparr>)\<rparr>)"
| feed_close: "f_pc f = WaitEmpty \<Longrightarrow> chan_buf (f_chan f) = [] \<or> f_gone f \<or> f_stop f \<Longrightarrow>
     fstep len f (f\<lparr>f_pc := FeedClosed, f_chan := (f_chan f)\<lparr>chan_closed := True\<rparr>\<rparr>)"
| recv: "chan_buf (f_chan f) = i # rest \<Longrightarrow> \<not> f_gone f \<Longrightarrow>
     fstep len f (f\<lparr>f_chan := (f_chan f)\<lparr>chan_buf := rest\<rparr>, f_taken := f_taken f @ [i]\<rparr>)"
| all_gone: "fstep len f (f\<lparr>f_gone := True\<rparr>)"
| stop: "fstep len f (f\<lparr>f_stop := True\<rparr>)"

definition first_feeder :: "nat \<Rightarrow> nat list \<Rightarrow> feeder" where
  "first_feeder sz items = \<lparr>f_todo = items, f_fed = 0, f_pc = Feeding, f_chan = make_chan sz,
     f_gone = False, f_stop = False, f_taken = []\<rparr>"

inductive feed_reach :: "nat \<Rightarrow> nat list \<Rightarrow> feeder \<Rightarrow> bool" for sz items where
  start: "feed_reach sz items (first_feeder sz items)"
| step: "feed_reach sz items f \<Longrightarrow> fstep (length items) f f' \<Longrightarrow> feed_reach sz items f'"

section \<open>What a worker does with one item\<close>

record wstate =
  w_lim :: memlim
  w_st :: rstate
  w_done :: "64 word"
  w_wake :: bool

text \<open>\<open>s.workDone.Add(1)\<close> and \<open>s.wakeDivider()\<close>.\<close>

definition work_finished :: "wstate \<Rightarrow> wstate" where
  "work_finished w = w\<lparr>w_done := w_done w + 1, w_wake := True\<rparr>"

text \<open>The body of the check loop: \<open>noConn\<close> counts the items in a row that got no
  connection; the second result tells whether the routine quits.\<close>

definition check_task ::
  "options \<Rightarrow> provider list \<Rightarrow> string \<Rightarrow> nat \<Rightarrow> (nat \<Rightarrow> got_conn \<times> int \<times> goerr option) \<Rightarrow> bool \<Rightarrow> bool \<Rightarrow> int \<Rightarrow>
   nat \<Rightarrow> wstate \<Rightarrow> (wstate \<times> nat \<times> bool) go" where
  "check_task opt ps nzb pid outcomes exists is_stopped now noConn w =
     (if is_stopped then Inr (w, noConn, False)
      else if ByPassSTAT opt then Inl ProcessExit
      else go_bind (checkItem opt ps nzb pid outcomes exists is_stopped now (w_st w)) (\<lambda>(st, code, err).
        let w1 = w\<lparr>w_st := st\<rparr> in
        if err = Some ErrNoConn \<and> \<not> down (ps ! pid)
        then (if maxCheckNoConn \<le> noConn + 1 then Inr (w1, noConn + 1, True)
              else Inr (work_finished w1, noConn + 1, False))
        else Inr (work_finished w1, 0, False)))"

definition set_item :: "(item \<Rightarrow> item) \<Rightarrow> wstate \<Rightarrow> wstate" where
  "set_item f w = w\<lparr>w_st := (w_st w)\<lparr>r_item := f (r_item (w_st w))\<rparr>\<rparr>"

definition set_global :: "(counter \<Rightarrow> counter) \<Rightarrow> wstate \<Rightarrow> wstate" where
  "set_global f w = w\<lparr>w_st := (w_st w)\<lparr>r_global := f (r_global (w_st w))\<rparr>\<rparr>"

text \<open>Applying a function on counter, limiter and item.\<close>

definition on_slots :: "(counter \<Rightarrow> memlim \<Rightarrow> item \<Rightarrow> slotstate) \<Rightarrow> wstate \<Rightarrow> wstate" where
  "on_slots f w =
     (case f (r_global (w_st w)) (w_lim w) (r_item (w_st w)) of (c, m, it) \<Rightarrow>
        w\<lparr>w_lim := m, w_st := (w_st w)\<lparr>r_global := c, r_item := it\<rparr>\<rparr>)"

text \<open>The body of the download loop. \<open>None\<close>: it waits for a memory slot.\<close>

definition down_task ::
  "options \<Rightarrow> provider list \<Rightarrow> string \<Rightarrow> nat \<Rightarrow> nat \<Rightarrow> bool \<Rightarrow> bool \<Rightarrow> got_conn \<Rightarrow> string option \<Rightarrow>
   (item \<Rightarrow> item \<times> int \<times> 64 word \<times> goerr option) \<Rightarrow> int \<Rightarrow> wstate \<Rightarrow> wstate go option" where
  "down_task opt ps nzb pid i is_stopped stop conn cached cmd now w =
     (let give_up = (\<lambda>w. set_global DecreaseDLQueueCnt (set_item (\<lambda>it. it\<lparr>flaginDL := False\<rparr>) w)) in
      if is_stopped then Some (Inr (give_up w))
      else case MemLockWait i stop (r_global (w_st w)) (w_lim w) (r_item (w_st w)) of
        None \<Rightarrow> None
      | Some (c, m, it, got) \<Rightarrow>
          let w1 = w\<lparr>w_lim := m, w_st := (w_st w)\<lparr>r_global := c, r_item := it\<rparr>\<rparr> in
          if \<not> got then Some (Inr (give_up w1))
          else Some (go_bind (GoDownsRoutine opt ps nzb pid conn cached cmd now (w_st w1))
            (\<lambda>(st, code, err, _, _).
               let w2 = set_global DecreaseDLQueueCnt (work_finished (w1\<lparr>w_st := st\<rparr>)) in
               Inr (if err \<noteq> None \<or> code \<noteq> 220 \<and> code \<noteq> 920 then on_slots (MemReturn i) w2
                    else if code = 220
                    then on_slots (\<lambda>c m it. retireAfterDownload opt ps i (c, m, it)) w2
                    else w2))))"

text \<open>The body of the upload loop.\<close>

definition up_task ::
  "provider list \<Rightarrow> nat \<Rightarrow> nat \<Rightarrow> bool \<Rightarrow> bool \<Rightarrow> got_conn \<Rightarrow> (nat \<Rightarrow> int \<times> 64 word \<times> goerr option) \<Rightarrow>
   int \<Rightarrow> wstate \<Rightarrow> wstate option" where
  "up_task ps pid i is_stopped stop conn reply now w =
     (if is_stopped
      then Some (set_global DecreaseUPQueueCnt (set_item (\<lambda>it. it\<lparr>flaginUP := False\<rparr>) w))
      else case GoReupsRoutine ps pid i stop conn reply now (w_lim w, w_st w) of
        None \<Rightarrow> None
      | Some ((m, st), code, err, _) \<Rightarrow>
          let w1 = set_global DecreaseUPQueueCnt (work_finished (w\<lparr>w_lim := m, w_st := st\<rparr>)) in
          Some (if err \<noteq> None \<or> code = 0 then w1 else on_slots (MemReturn i) w1))"

section \<open>Stopping\<close>

record stopstate =
  s_downs :: "string \<rightharpoonup> chan"
  s_reups :: "string \<rightharpoonup> chan"
  s_closedOnce :: bool
  s_stopOnce :: bool
  s_stopChan :: "bool option"

text \<open>\<open>close\<close> of a closed channel panics, which the model calls \<open>SendOnClosed\<close>.\<close>

definition closeSegmentChannel :: "string \<Rightarrow> (string \<rightharpoonup> chan) \<Rightarrow> (string \<rightharpoonup> chan) go" where
  "closeSegmentChannel g cs =
     (case cs g of None \<Rightarrow> Inr cs
      | Some ch \<Rightarrow> if chan_closed ch then Inl SendOnClosed
                   else Inr (cs(g \<mapsto> ch\<lparr>chan_closed := True\<rparr>)))"

fun close_groups :: "string list \<Rightarrow> (string \<rightharpoonup> chan) \<Rightarrow> (string \<rightharpoonup> chan) go" where
  "close_groups [] cs = Inr cs"
| "close_groups (g # gs) cs = go_bind (closeSegmentChannel g cs) (close_groups gs)"

definition closeWorkChans :: "string list \<Rightarrow> string list \<Rightarrow> stopstate \<Rightarrow> stopstate go" where
  "closeWorkChans dgs ugs s =
     (if s_closedOnce s then Inr s
      else go_bind (close_groups dgs (s_downs s)) (\<lambda>ds.
           go_bind (close_groups ugs (s_reups s)) (\<lambda>us.
             Inr (s\<lparr>s_downs := ds, s_reups := us, s_closedOnce := True\<rparr>))))"

text \<open>\<open>s_stopChan\<close>: \<open>None\<close> is the nil channel, \<open>Some b\<close> one that is closed if \<open>b\<close>.\<close>

definition stop_session :: "stopstate \<Rightarrow> stopstate go" where
  "stop_session s =
     (if s_stopOnce s then Inr s
      else case s_stopChan s of
        None \<Rightarrow> Inr (s\<lparr>s_stopOnce := True\<rparr>)
      | Some b \<Rightarrow> if b then Inl SendOnClosed else Inr (s\<lparr>s_stopOnce := True, s_stopChan := Some True\<rparr>))"

definition stopped :: "stopstate \<Rightarrow> bool" where
  "stopped s = (case s_stopChan s of None \<Rightarrow> False | Some b \<Rightarrow> b)"

definition StopRoutines :: "string list \<Rightarrow> string list \<Rightarrow> stopstate \<Rightarrow> stopstate go" where
  "StopRoutines dgs ugs s = go_bind (closeWorkChans dgs ugs s) stop_session"

section \<open>Lemmas: channels and groups\<close>

definition serves :: "string \<Rightarrow> provider \<Rightarrow> bool" where
  "serves g p \<longleftrightarrow> Enabled p \<and> 0 < MaxConns p \<and> Group p = g"

definition group_conns :: "provider list \<Rightarrow> string \<Rightarrow> int" where
  "group_conns ps g = (\<Sum>p \<leftarrow> filter (serves g) ps. MaxConns p)"

definition checkers_left :: "segchans \<Rightarrow> string \<Rightarrow> int option" where
  "checkers_left sc g = map_option chk_left (sc_checkers sc g)"

lemma add_provider_chans:
  "sc_check (add_provider sz p sc) g = (if sc_check sc g = None \<and> serves g p then Some (make_chan sz) else sc_check sc g)"
  "sc_check sc (Group p) = None \<longleftrightarrow> sc_downs sc (Group p) = None \<Longrightarrow>
   sc_downs (add_provider sz p sc) g = (if sc_downs sc g = None \<and> serves g p then Some (make_chan sz) else sc_downs sc g)"
  "sc_check sc (Group p) = None \<longleftrightarrow> sc_reups sc (Group p) = None \<Longrightarrow>
   sc_reups (add_provider sz p sc) g = (if sc_reups sc g = None \<and> serves g p then Some (make_chan sz) else sc_reups sc g)"
  by (auto simp: add_provider_def serves_def Let_def)

lemma add_provider_left:
  "checkers_left (add_provider sz p sc) g =
     (if serves g p then Some ((case checkers_left sc g of None \<Rightarrow> 0 | Some k \<Rightarrow> k) + MaxConns p)
      else checkers_left sc g)"
  by (auto simp: add_provider_def serves_def checkers_left_def Let_def split: option.splits)

lemma add_provider_gone:
  "(\<And>g cg. sc_checkers sc g = Some cg \<Longrightarrow> \<not> chk_gone cg) \<Longrightarrow>
   sc_checkers (add_provider sz p sc) g = Some cg \<Longrightarrow> \<not> chk_gone cg"
  by (auto simp: add_provider_def Let_def split: if_splits option.splits)

lemma fold_providers:
  assumes "\<And>g. sc_check sc g = None \<longleftrightarrow> sc_downs sc g = None"
    and "\<And>g. sc_check sc g = None \<longleftrightarrow> sc_reups sc g = None"
    and "\<And>g cg. sc_checkers sc g = Some cg \<Longrightarrow> \<not> chk_gone cg"
  shows "(sc_check (fold (add_provider sz) ps sc) g =
       (if sc_check sc g = None \<and> (\<exists>p \<in> set ps. serves g p) then Some (make_chan sz) else sc_check sc g)) \<and>
    (sc_downs (fold (add_provider sz) ps sc) g =
       (if sc_downs sc g = None \<and> (\<exists>p \<in> set ps. serves g p) then Some (make_chan sz) else sc_downs sc g)) \<and>
    (sc_reups (fold (add_provider sz) ps sc) g =
       (if sc_reups sc g = None \<and> (\<exists>p \<in> set ps. serves g p) then Some (make_chan sz) else sc_reups sc g)) \<and>
    (checkers_left (fold (add_provider sz) ps sc) g =
       (if \<exists>p \<in> set ps. serves g p
        then Some ((case checkers_left sc g of None \<Rightarrow> 0 | Some k \<Rightarrow> k) + group_conns ps g)
        else checkers_left sc g)) \<and>
    (\<forall>cg. sc_checkers (fold (add_provider sz) ps sc) g = Some cg \<longrightarrow> \<not> chk_gone cg)"
  using assms
proof (induction ps arbitrary: sc)
  case Nil
  then show ?case by auto
next
  case (Cons p ps)
  let ?sc = "add_provider sz p sc"
  have pre: "sc_check ?sc g = None \<longleftrightarrow> sc_downs ?sc g = None"
    "sc_check ?sc g = None \<longleftrightarrow> sc_reups ?sc g = None" for g
    using Cons.prems(1,2) by (simp_all add: add_provider_chans)
  note IH = Cons.IH[of ?sc, OF pre add_provider_gone[OF Cons.prems(3)]]
  show ?case
    using IH Cons.prems(1,2)
    by (auto simp: add_provider_chans add_provider_left group_conns_def split: if_splits)
qed

lemma makeSegmentChans_spec:
  "sc_check (makeSegmentChans sz ps) g = (if \<exists>p \<in> set ps. serves g p then Some (make_chan sz) else None)"
  "sc_downs (makeSegmentChans sz ps) g = (if \<exists>p \<in> set ps. serves g p then Some (make_chan sz) else None)"
  "sc_reups (makeSegmentChans sz ps) g = (if \<exists>p \<in> set ps. serves g p then Some (make_chan sz) else None)"
  "checkers_left (makeSegmentChans sz ps) g =
     (if \<exists>p \<in> set ps. serves g p then Some (group_conns ps g) else None)"
  "sc_checkers (makeSegmentChans sz ps) g = Some cg \<Longrightarrow> \<not> chk_gone cg"
  using fold_providers[of no_chans sz ps g]
  by (auto simp: makeSegmentChans_def no_chans_def checkers_left_def)

lemma group_exits:
  "\<forall>n \<in> set ns. 0 < n \<Longrightarrow> \<not> chk_gone cg \<Longrightarrow> 0 < chk_left cg \<Longrightarrow>
   chk_left (fold group_exit ns cg) = chk_left cg - sum_list ns \<and>
   (chk_gone (fold group_exit ns cg) \<longleftrightarrow> chk_left cg \<le> sum_list ns)"
proof (induction ns rule: rev_induct)
  case (snoc n ns)
  have "0 \<le> sum_list ns"
    using snoc.prems(1) by (intro sum_list_nonneg) auto
  then show ?case
    using snoc by (auto simp: group_exit_def Let_def)
qed simp

section \<open>Lemmas: the feeder\<close>

definition feed_inv :: "nat list \<Rightarrow> feeder \<Rightarrow> bool" where
  "feed_inv items f \<longleftrightarrow>
     f_taken f @ chan_buf (f_chan f) @ f_todo f = items \<and>
     f_fed f + length (f_todo f) = length items \<and>
     chan_ok (f_chan f) \<and> (chan_closed (f_chan f) \<longleftrightarrow> f_pc f = FeedClosed) \<and>
     (f_pc f = WaitEmpty \<longrightarrow> f_todo f = []) \<and>
     (f_pc f = FeedClosed \<longrightarrow> f_gone f \<or> f_stop f \<or> f_todo f = [] \<and> chan_buf (f_chan f) = [])"

lemma feed_inv_step [inv_intros]: "fstep (length items) f f' \<Longrightarrow> feed_inv items f \<Longrightarrow> feed_inv items f'"
  by (induction rule: fstep.induct) (auto simp: feed_inv_def chan_ok_def)

lemma feed_inv_reach: "feed_reach sz items f \<Longrightarrow> feed_inv items f"
proof (induction rule: feed_reach.induct)
  case start
  show ?case by (simp add: feed_inv_def chan_ok_def first_feeder_def make_chan_def)
next
  case (step f f')
  then show ?case using feed_inv_step by blast
qed

text \<open>A feeder that has not closed its channel can always go on, if the check
  routines do: it feeds, or a routine takes an item, or it closes.\<close>

definition feed_moves :: "nat \<Rightarrow> feeder \<Rightarrow> bool" where
  "feed_moves len f \<longleftrightarrow>
     (\<exists>f'. fstep len f f' \<and> (f_pc f' \<noteq> f_pc f \<or> f_fed f' \<noteq> f_fed f \<or> f_taken f' \<noteq> f_taken f))"

lemma feed_movesI:
  "fstep len f f' \<Longrightarrow> f_pc f' \<noteq> f_pc f \<or> f_fed f' \<noteq> f_fed f \<or> f_taken f' \<noteq> f_taken f \<Longrightarrow> feed_moves len f"
  by (auto simp: feed_moves_def)

lemma feed_progress:
  assumes "f_pc f \<noteq> FeedClosed" and "0 < chan_cap (f_chan f)"
  shows "feed_moves len f"
proof -
  have end1: "f_pc f = Feeding \<Longrightarrow> f_todo f = [] \<or> f_gone f \<or> f_stop f \<Longrightarrow> feed_moves len f"
    by (rule feed_movesI[OF fstep.feed_end]) auto
  have end2: "f_pc f = WaitEmpty \<Longrightarrow> chan_buf (f_chan f) = [] \<or> f_gone f \<or> f_stop f \<Longrightarrow> feed_moves len f"
    by (rule feed_movesI[OF fstep.feed_close]) auto
  have take: "chan_buf (f_chan f) = i # rest \<Longrightarrow> \<not> f_gone f \<Longrightarrow> feed_moves len f" for i rest
    by (rule feed_movesI[OF fstep.recv]) auto
  have feed: "f_pc f = Feeding \<Longrightarrow> f_todo f = i # rest \<Longrightarrow> chan_buf (f_chan f) = [] \<Longrightarrow> feed_moves len f" for i rest
    using assms(2) by (intro feed_movesI[OF fstep.feed]) auto
  show ?thesis
    using end1 end2 take feed assms(1)
    by (cases "f_pc f"; cases "chan_buf (f_chan f)"; cases "f_todo f") blast+
qed

section \<open>Lemmas: tasks\<close>

lemma GetValue_other_bump [counter_simps]:
  "j \<noteq> k \<Longrightarrow> GetValue (bump c k) j = GetValue c j"
  "j \<noteq> k \<Longrightarrow> GetValue (unbump c k) j = GetValue c j"
  "j \<noteq> k \<Longrightarrow> GetValue (bump_by c k v) j = GetValue c j"
  by (cases "c = None"; auto simp: GetValue_bump GetValue_unbump GetValue_bump_by)+

lemma GoDownsRoutine_queue:
  assumes "GoDownsRoutine opt ps nzb pid conn cached cmd now st = Inr (st', code, err, fate, handed)"
  shows "GetValue (r_global st') ''dlQueueCnt'' = GetValue (r_global st) ''dlQueueCnt''"
proof -
  obtain it2 n where rc: "(if cacheON opt then ReadCache cached (r_item st) else (r_item st, 0)) = (it2, n)"
    by fastforce
  obtain it3 c rxb e where "cmd it2 = (it3, c, rxb, e)"
    by (cases "cmd it2") auto
  then show ?thesis
    using assms rc
    by (auto simp: GoDownsRoutine_def Let_def count_all_bytes_def count_bytes_def counter_simps
        split: if_splits got_conn.splits)
qed

lemma MemLockWait_queue:
  "MemLockWait i stop c m it = Some (c', m', it', got) \<Longrightarrow>
     GetValue c' ''dlQueueCnt'' = GetValue c ''dlQueueCnt'' \<and> flaginDL it' = flaginDL it \<and>
     article it' = article it"
  by (auto simp: MemLockWait_def Let_def counter_simps split: option.splits if_splits)

lemma GetValue_pos_live: "0 < GetValue c k \<Longrightarrow> c \<noteq> None"
  by (cases c) (simp_all add: GetValue_def)

lemma GetValue_DecreaseDL:
  "0 < GetValue c ''dlQueueCnt'' \<Longrightarrow>
   GetValue (DecreaseDLQueueCnt c) ''dlQueueCnt'' = GetValue c ''dlQueueCnt'' - 1"
  using GetValue_pos_live[of c] by (simp add: DecreaseDLQueueCnt_def GetValue_unbump)

lemma memReturn_queue:
  "memReturn i c m it = (c', m', it') \<Longrightarrow>
   GetValue c' ''dlQueueCnt'' = GetValue c ''dlQueueCnt'' \<and> m' = mem_return i m \<and>
   flaginDL it' = flaginDL it \<and> flagisDL it' = flagisDL it \<and> flagCache it' = flagCache it"
  by (auto simp: memReturn_def mem_return_def counter_simps split: if_splits)

lemma retireAfterDownload_queue:
  assumes "retireAfterDownload opt ps i (c, m, it) = (c', m', it')"
  shows "GetValue c' ''dlQueueCnt'' = GetValue c ''dlQueueCnt'' \<and> flaginDL it' = flaginDL it \<and>
    flagisDL it' = flagisDL it"
  using assms
  by (auto simp: retireAfterDownload_def retireItem_def MemReturnIfHeld_def Let_def
      split: if_splits dest!: memReturn_queue)

lemma GoDownsRoutine_got:
  assumes "GoDownsRoutine opt ps nzb pid conn cached cmd now st = Inr (st', code, err, fate, handed)"
    and "cacheON opt \<longrightarrow> article (r_item st) = []" and "err = None" and "code = 220 \<or> code = 920"
    and "\<And>it. fst (snd (cmd it)) \<noteq> 920"
  shows "flagisDL (r_item st') \<or> flagCache (r_item st')"
proof -
  obtain it2 n where rc: "(if cacheON opt then ReadCache cached (r_item st) else (r_item st, 0)) = (it2, n)"
    by fastforce
  have hit: "0 < n \<Longrightarrow> flagCache it2"
    using rc assms(2) by (auto simp: ReadCache_def CacheReader_def split: if_splits option.splits prod.splits)
  obtain it3 c rxb e where cmd: "cmd it2 = (it3, c, rxb, e)"
    by (cases "cmd it2") auto
  then have "c \<noteq> 920"
    using assms(5)[of it2] by simp
  then show ?thesis
    using assms(1,3,4) rc hit cmd
    by (auto simp: GoDownsRoutine_def Let_def item_simps count_all_bytes_def
        split: if_splits got_conn.splits)
qed

text \<open>A download task that ends: the cases.\<close>

lemma down_taskE:
  assumes "down_task opt ps nzb pid i is_stopped stop conn cached cmd now w = Some (Inr w')"
  obtains (dropped) c m it where "c = r_global (w_st w) \<and> m = w_lim w \<and> it = r_item (w_st w) \<or>
        MemLockWait i stop (r_global (w_st w)) (w_lim w) (r_item (w_st w)) = Some (c, m, it, False)"
      "w_lim w' = m" "r_item (w_st w') = it\<lparr>flaginDL := False\<rparr>" "r_global (w_st w') = DecreaseDLQueueCnt c"
    | (ran) c m it st code err fate h c' m' it' where
        "MemLockWait i stop (r_global (w_st w)) (w_lim w) (r_item (w_st w)) = Some (c, m, it, True)"
        "GoDownsRoutine opt ps nzb pid conn cached cmd now ((w_st w)\<lparr>r_global := c, r_item := it\<rparr>) =
           Inr (st, code, err, fate, h)"
        "(if err \<noteq> None \<or> code \<noteq> 220 \<and> code \<noteq> 920
          then MemReturn i (DecreaseDLQueueCnt (r_global st)) m (r_item st)
          else if code = 220
          then retireAfterDownload opt ps i (DecreaseDLQueueCnt (r_global st), m, r_item st)
          else (DecreaseDLQueueCnt (r_global st), m, r_item st)) = (c', m', it')"
        "w_lim w' = m'" "r_item (w_st w') = it'" "r_global (w_st w') = c'"
proof (cases is_stopped)
  case True
  then show thesis
    using assms by (intro dropped[of "r_global (w_st w)" "w_lim w" "r_item (w_st w)"])
      (auto simp: down_task_def Let_def set_global_def set_item_def)
next
  case False
  then obtain c m it got where l: "MemLockWait i stop (r_global (w_st w)) (w_lim w) (r_item (w_st w)) =
      Some (c, m, it, got)"
    using assms by (auto simp: down_task_def Let_def split: option.splits)
  show thesis
  proof (cases got)
    case False
    then show thesis
      using assms \<open>\<not> is_stopped\<close> l
      by (intro dropped[of c m it]) (auto simp: down_task_def Let_def set_global_def set_item_def)
  next
    case True
    then obtain st code err fate h where d:
      "GoDownsRoutine opt ps nzb pid conn cached cmd now ((w_st w)\<lparr>r_global := c, r_item := it\<rparr>) =
         Inr (st, code, err, fate, h)"
      using assms \<open>\<not> is_stopped\<close> l by (auto simp: down_task_def Let_def)
    show thesis
      using assms \<open>\<not> is_stopped\<close> l d True
      by (intro ran[of c m it st code err fate h "r_global (w_st w')" "w_lim w'" "r_item (w_st w')"])
        (auto simp: down_task_def Let_def set_global_def work_finished_def on_slots_def
          split: if_splits prod.splits)
  qed
qed

lemma lock_result:
  assumes "MemLockWait i stop c m it = Some (c', m', it', got)" and "lim_ok m" and "i \<notin> memdata m"
  shows "lim_ok m' \<and> (i \<in> memdata m' \<longleftrightarrow> got)"
proof -
  have "lock_wait i stop m = Some (m', got)"
    using assms(1) by (auto simp: MemLockWait_def Let_def split: option.splits if_splits)
  then show ?thesis
    using lim_ok_lock[OF assms(2)] assms(3) by auto
qed

lemma close_groups_ok:
  "distinct gs \<Longrightarrow> (\<And>g ch. g \<in> set gs \<Longrightarrow> cs g = Some ch \<Longrightarrow> \<not> chan_closed ch) \<Longrightarrow>
   close_groups gs cs = Inr (\<lambda>g. if g \<in> set gs then map_option (\<lambda>ch. ch\<lparr>chan_closed := True\<rparr>) (cs g) else cs g)"
proof (induction gs arbitrary: cs)
  case (Cons g gs)
  have step: "closeSegmentChannel g cs = Inr (\<lambda>h. if h = g then map_option (\<lambda>ch. ch\<lparr>chan_closed := True\<rparr>) (cs g) else cs h)"
    using Cons.prems(2)[of g] by (auto simp: closeSegmentChannel_def split: option.split)
  have "close_groups gs (\<lambda>h. if h = g then map_option (\<lambda>ch. ch\<lparr>chan_closed := True\<rparr>) (cs g) else cs h) =
      Inr (\<lambda>h. if h \<in> set gs then map_option (\<lambda>ch. ch\<lparr>chan_closed := True\<rparr>)
        (if h = g then map_option (\<lambda>ch. ch\<lparr>chan_closed := True\<rparr>) (cs g) else cs h)
        else if h = g then map_option (\<lambda>ch. ch\<lparr>chan_closed := True\<rparr>) (cs g) else cs h)"
    using Cons.prems by (intro Cons.IH) (auto split: if_splits)
  then show ?case
    using Cons.prems(1) by (auto simp: step fun_eq_iff)
qed simp

lemma close_groups_all:
  assumes "all_open cs" and "distinct gs" and "dom cs \<subseteq> set gs"
  shows "\<exists>cs'. close_groups gs cs = Inr cs' \<and> dom cs' = dom cs \<and>
    (\<forall>g ch. cs' g = Some ch \<longrightarrow> chan_closed ch) \<and>
    (\<forall>g ch. cs g = Some ch \<longrightarrow> (\<exists>ch'. cs' g = Some ch' \<and> chan_buf ch' = chan_buf ch))"
proof -
  have *: "close_groups gs cs =
      Inr (\<lambda>g. if g \<in> set gs then map_option (\<lambda>ch. ch\<lparr>chan_closed := True\<rparr>) (cs g) else cs g)"
    using assms(1) by (intro close_groups_ok[OF assms(2)]) (auto simp: all_open_def)
  have "cs g = Some ch \<Longrightarrow> g \<in> set gs" for g ch
    using assms(3) by auto
  then show ?thesis
    unfolding * by (auto split: if_splits)
qed

section \<open>Properties\<close>

text \<open>A download worker that has finished with an item, in any way, has taken it
  out of the counts the divider waits for: its flag is cleared and the queue
  counter is one lower; and if it took a memory slot for it, it still holds the
  slot only if the article is there, downloaded now or on disk.\<close>

theorem down_task_finishes:
  assumes run: "down_task opt ps nzb pid i is_stopped stop conn cached cmd now w = Some (Inr w')"
    and "cacheON opt \<longrightarrow> article (r_item (w_st w)) = []"
    and "lim_ok (w_lim w)" and "i \<notin> memdata (w_lim w)"
    and "0 < GetValue (r_global (w_st w)) ''dlQueueCnt''"
    and "\<And>it. fst (snd (cmd it)) \<noteq> 920"
  shows "\<not> flaginDL (r_item (w_st w')) \<and>
    GetValue (r_global (w_st w')) ''dlQueueCnt'' = GetValue (r_global (w_st w)) ''dlQueueCnt'' - 1 \<and>
    (i \<in> memdata (w_lim w') \<longrightarrow> flagisDL (r_item (w_st w')) \<or> flagCache (r_item (w_st w')))"
  using run
proof (cases rule: down_taskE)
  case (dropped c m it)
  have "GetValue c ''dlQueueCnt'' = GetValue (r_global (w_st w)) ''dlQueueCnt''"
    using dropped(1) MemLockWait_queue by blast
  moreover have "i \<notin> memdata m"
    using dropped(1) lock_result[OF _ assms(3,4)] assms(4) by blast
  ultimately show ?thesis
    using dropped assms(5) GetValue_DecreaseDL[of c] by simp
next
  case (ran c m it st code err fate h c' m' it')
  have lock: "GetValue c ''dlQueueCnt'' = GetValue (r_global (w_st w)) ''dlQueueCnt''" "lim_ok m"
    using MemLockWait_queue[OF ran(1)] lock_result[OF ran(1) assms(3,4)] by simp_all
  have noart: "cacheON opt \<longrightarrow> article (r_item ((w_st w)\<lparr>r_global := c, r_item := it\<rparr>)) = []"
    using assms(2) MemLockWait_queue[OF ran(1)] by simp
  have q: "GetValue (r_global st) ''dlQueueCnt'' = GetValue (r_global (w_st w)) ''dlQueueCnt''"
    using GoDownsRoutine_queue[OF ran(2)] lock by simp
  have flag: "\<not> flaginDL (r_item st)"
    by (rule GoDownsRoutine_flag[OF ran(2) noart])
  have dec: "GetValue (DecreaseDLQueueCnt (r_global st)) ''dlQueueCnt'' =
      GetValue (r_global (w_st w)) ''dlQueueCnt'' - 1"
    using GetValue_DecreaseDL[of "r_global st"] assms(5) q by simp
  show ?thesis
  proof (cases "err \<noteq> None \<or> code \<noteq> 220 \<and> code \<noteq> 920")
    case True
    then have r: "memReturn i (DecreaseDLQueueCnt (r_global st)) m (r_item st) = (c', m', it')"
      using ran(3) by (simp add: MemReturn_def)
    show ?thesis
      using memReturn_queue[OF r] lim_ok_return(3)[OF lock(2)] flag dec ran(4-6) by simp
  next
    case False
    then have "flagisDL (r_item st) \<or> flagCache (r_item st)"
      using GoDownsRoutine_got[OF ran(2) noart _ _ assms(6)] by auto
    moreover have "code = 220 \<Longrightarrow> flagisDL (r_item st)"
      using ran(2) False
      by (auto simp: GoDownsRoutine_def Let_def item_simps count_all_bytes_def
          split: if_splits got_conn.splits prod.splits)
    ultimately show ?thesis
      using ran(3-6) False flag dec retireAfterDownload_queue
      by (cases "code = 220") (auto dest!: retireAfterDownload_queue)
  qed
qed

definition missing_reply :: "item \<Rightarrow> item \<times> int \<times> 64 word \<times> goerr option" where
  "missing_reply it = (it, 430, 0, None)"

definition one_worker :: wstate where
  "one_worker = \<lparr>w_lim = NewMemLimiter 2,
     w_st = (blank_state (half_item\<lparr>flaginDL := True\<rparr>))\<lparr>r_global := IncreaseDLQueueCnt NewCounter\<rparr>,
     w_done = 0, w_wake = False\<rparr>"

theorem down_task_finishes_witness:
  "\<exists>w'. down_task plain_options two_providers ''n'' 0 5 False False ConnOk None missing_reply 0 one_worker =
       Some (Inr w') \<and>
     \<not> flaginDL (r_item (w_st w')) \<and> GetValue (r_global (w_st w')) ''dlQueueCnt'' = 0"
proof -
  have lock: "\<exists>c m it. MemLockWait 5 False (r_global (w_st one_worker)) (w_lim one_worker)
      (r_item (w_st one_worker)) = Some (c, m, it, True)"
    by (simp add: MemLockWait_def lock_wait_def one_worker_def NewMemLimiter_def Let_def)
  have "\<not> panics (GoDownsRoutine plain_options two_providers ''n'' 0 ConnOk None missing_reply 0 st)" for st
    by (simp add: GoDownsRoutine_def Let_def plain_options_def two_providers_def plain_provider_def
        missing_reply_def if_csv_def)
  then have "\<exists>w'. down_task plain_options two_providers ''n'' 0 5 False False ConnOk None missing_reply 0
      one_worker = Some (Inr w')"
    using lock by (auto simp: down_task_def Let_def not_panics_iff split: prod.splits)
  then obtain w' where run: "down_task plain_options two_providers ''n'' 0 5 False False ConnOk None
      missing_reply 0 one_worker = Some (Inr w')" ..
  have start: "GetValue (r_global (w_st one_worker)) ''dlQueueCnt'' = 1"
    by (simp add: one_worker_def IncreaseDLQueueCnt_def GetValue_bump)
  have free: "w_lim one_worker = NewMemLimiter 2" "5 \<notin> memdata (NewMemLimiter 2)"
    by (simp_all add: one_worker_def NewMemLimiter_def Let_def)
  have "GetValue (r_global (w_st w')) ''dlQueueCnt'' = 1 - 1 \<and> \<not> flaginDL (r_item (w_st w'))"
    using down_task_finishes[OF run]
    by (simp add: start free plain_options_def missing_reply_def lim_ok_New)
  then show ?thesis using run by simp
qed

text \<open>The channels of a session. Exactly the groups of the enabled providers
  with connections get a check, a download and an upload channel, empty, open
  and of the chosen size, and their count of check routines is the sum of their
  providers' connections. When routines then exit, the group is marked as gone at
  the moment the last of them has exited and not before.\<close>

theorem segment_chans_and_checkers:
  assumes "\<forall>n \<in> set ns. 0 < n" and "sc_checkers (makeSegmentChans sz ps) g = Some cg"
  shows "sc_check (makeSegmentChans sz ps) g = Some (make_chan sz) \<and>
    sc_downs (makeSegmentChans sz ps) g = Some (make_chan sz) \<and>
    sc_reups (makeSegmentChans sz ps) g = Some (make_chan sz) \<and>
    (chk_gone (fold group_exit ns cg) \<longleftrightarrow> group_conns ps g \<le> sum_list ns)"
proof -
  have "checkers_left (makeSegmentChans sz ps) g = Some (chk_left cg)"
    using assms(2) by (simp add: checkers_left_def)
  then have ex: "\<exists>p \<in> set ps. serves g p" and left: "chk_left cg = group_conns ps g"
    using makeSegmentChans_spec(4)[of sz ps g] by (auto split: if_splits)
  have "0 < group_conns ps g"
  proof -
    obtain p where p: "p \<in> set (filter (serves g) ps)" using ex by auto
    have "MaxConns p \<le> group_conns ps g"
      unfolding group_conns_def using p
      by (intro member_le_sum_list) (auto simp: serves_def)
    then show ?thesis using p by (simp add: serves_def)
  qed
  then show ?thesis
    using group_exits[OF assms(1) makeSegmentChans_spec(5)[OF assms(2)]] ex left
    by (auto simp: makeSegmentChans_spec)
qed

theorem segment_chans_and_checkers_witness:
  "\<exists>cg. sc_checkers (makeSegmentChans 3 two_providers) ''A'' = Some cg \<and>
     sc_downs (makeSegmentChans 3 two_providers) ''A'' = Some (make_chan 3) \<and>
     \<not> chk_gone (fold group_exit [1] cg) \<and> chk_gone (fold group_exit [1, 1] cg)"
proof -
  have conns: "group_conns two_providers ''A'' = 2"
    by (simp add: group_conns_def two_providers_def plain_provider_def serves_def)
  have "\<exists>cg. sc_checkers (makeSegmentChans 3 two_providers) ''A'' = Some cg"
    by (simp add: makeSegmentChans_def two_providers_def plain_provider_def add_provider_def no_chans_def
        Let_def)
  then obtain cg where cg: "sc_checkers (makeSegmentChans 3 two_providers) ''A'' = Some cg" ..
  show ?thesis
    using segment_chans_and_checkers[OF _ cg, of "[1]"] segment_chans_and_checkers[OF _ cg, of "[1, 1]"]
    by (intro exI[of _ cg]) (simp add: conns cg)
qed

text \<open>The feeder of a group never loses or repeats an item: at every moment the
  items taken by check routines, those in the channel and those still to feed are
  the session's list in order, and the channel never holds more than its size. It
  closes the channel once, and if the session was not stopped and check routines
  were left, only after every item has been taken. Until then somebody can always
  move: the feeder, or a routine that takes an item.\<close>

theorem feeder_delivers_all:
  assumes "feed_reach sz items f"
  shows "f_taken f @ chan_buf (f_chan f) @ f_todo f = items \<and>
    length (chan_buf (f_chan f)) \<le> chan_cap (f_chan f) \<and>
    (chan_closed (f_chan f) \<longleftrightarrow> f_pc f = FeedClosed) \<and>
    (chan_closed (f_chan f) \<and> \<not> f_gone f \<and> \<not> f_stop f \<longrightarrow> f_taken f = items) \<and>
    (\<not> chan_closed (f_chan f) \<and> 0 < chan_cap (f_chan f) \<longrightarrow> feed_moves (length items) f)"
  using feed_inv_reach[OF assms] feed_progress[of f "length items"]
  by (auto simp: feed_inv_def chan_ok_def)

definition fed_one :: feeder where
  "fed_one = (first_feeder 2 [4, 7])\<lparr>f_todo := [7], f_fed := 1,
     f_chan := (make_chan 2)\<lparr>chan_buf := [4]\<rparr>\<rparr>"

theorem feeder_delivers_all_witness:
  "f_taken fed_one @ chan_buf (f_chan fed_one) @ f_todo fed_one = [4, 7] \<and> feed_moves 2 fed_one"
proof -
  have "fstep (length [4, 7]) (first_feeder 2 [4, 7]) fed_one"
    using fstep.feed[of "first_feeder 2 [4, 7]" 4 "[7]" "length [4 :: nat, 7]"]
    by (simp add: fed_one_def first_feeder_def make_chan_def)
  then have "feed_reach 2 [4, 7] fed_one"
    by (rule feed_reach.step[OF feed_reach.start])
  from feeder_delivers_all[OF this] show ?thesis
    by (simp add: fed_one_def first_feeder_def make_chan_def numeral_2_eq_2)
qed

text \<open>\<open>StopRoutines\<close> may be called any number of times. On a running session it
  closes every download and upload channel and the stop channel, loses nothing
  that is queued, and does not panic; called again it changes nothing, so no
  channel is closed twice.\<close>

theorem StopRoutines_once:
  assumes "all_open (s_downs s)" and "all_open (s_reups s)"
    and "distinct dgs" and "distinct ugs" and "dom (s_downs s) \<subseteq> set dgs" and "dom (s_reups s) \<subseteq> set ugs"
    and "\<not> s_closedOnce s" and "\<not> s_stopOnce s" and "s_stopChan s = Some False"
  shows "\<exists>s'. StopRoutines dgs ugs s = Inr s' \<and> StopRoutines dgs ugs s' = Inr s' \<and> stopped s' \<and>
    (\<forall>g ch. s_downs s' g = Some ch \<longrightarrow> chan_closed ch) \<and>
    (\<forall>g ch. s_reups s' g = Some ch \<longrightarrow> chan_closed ch) \<and>
    (\<forall>g ch. s_downs s g = Some ch \<longrightarrow> (\<exists>ch'. s_downs s' g = Some ch' \<and> chan_buf ch' = chan_buf ch))"
proof -
  obtain ds us where "close_groups dgs (s_downs s) = Inr ds" "close_groups ugs (s_reups s) = Inr us"
    "\<forall>g ch. ds g = Some ch \<longrightarrow> chan_closed ch" "\<forall>g ch. us g = Some ch \<longrightarrow> chan_closed ch"
    "\<forall>g ch. s_downs s g = Some ch \<longrightarrow> (\<exists>ch'. ds g = Some ch' \<and> chan_buf ch' = chan_buf ch)"
    using close_groups_all[OF assms(1,3,5)] close_groups_all[OF assms(2,4,6)] by blast
  then show ?thesis
    using assms(7-9)
    by (simp add: StopRoutines_def closeWorkChans_def stop_session_def stopped_def)
qed

theorem StopRoutines_once_witness:
  "\<exists>s'. StopRoutines [''B'', ''A''] [''A'', ''B''] \<lparr>s_downs = two_chans, s_reups = two_chans,
       s_closedOnce = False, s_stopOnce = False, s_stopChan = Some False\<rparr> = Inr s' \<and> stopped s'"
proof -
  have "all_open two_chans" "dom two_chans \<subseteq> {''A'', ''B''}"
    by (auto simp: all_open_def two_chans_def make_chan_def split: if_splits)
  then show ?thesis
    using StopRoutines_once[of "\<lparr>s_downs = two_chans, s_reups = two_chans,
       s_closedOnce = False, s_stopOnce = False, s_stopChan = Some False\<rparr>" "[''B'', ''A'']" "[''A'', ''B'']"]
    by (simp add: insert_commute) blast
qed

end
