(* ===== verification/Strings.thy ===== *)
theory Strings
  imports Prelude
begin

text \<open>
  The text functions of Go's standard library that the modelled code calls:
  decimal printing and reading (\<open>fmt\<close>, \<open>strconv\<close>), trimming (\<open>strings\<close>)
  and \<open>filepath.Dir\<close> for slash separated paths.
\<close>

section \<open>Decimal numbers\<close>

definition digit :: "nat \<Rightarrow> char" where
  "digit d = char_of (48 + d)"

definition is_digit :: "char \<Rightarrow> bool" where
  "is_digit c \<longleftrightarrow> 48 \<le> (of_char c :: nat) \<and> (of_char c :: nat) \<le> 57"

definition digit_val :: "char \<Rightarrow> nat" where
  "digit_val c = of_char c - 48"

fun dec :: "nat \<Rightarrow> string" where
  "dec n = (if n < 10 then [digit n] else dec (n div 10) @ [digit (n mod 10)])"

declare dec.simps [simp del]

definition undec :: "string \<Rightarrow> nat" where
  "undec s = foldl (\<lambda>a c. 10 * a + digit_val c) 0 s"

lemma of_char_digit [simp]: "d < 10 \<Longrightarrow> (of_char (digit d) :: nat) = 48 + d"
  by (simp add: digit_def)

lemma is_digit_digit [simp]: "d < 10 \<Longrightarrow> is_digit (digit d)"
  by (simp add: is_digit_def)

lemma digit_val_digit [simp]: "d < 10 \<Longrightarrow> digit_val (digit d) = d"
  by (simp add: digit_val_def)

lemma digit_chars:
  "digit 0 = CHR ''0''" "digit 1 = CHR ''1''" "digit 2 = CHR ''2''" "digit 3 = CHR ''3''" "digit 4 = CHR ''4''"
  "digit 5 = CHR ''5''" "digit 6 = CHR ''6''" "digit 7 = CHR ''7''" "digit 8 = CHR ''8''" "digit 9 = CHR ''9''"
  by code_simp+

lemma undec_append [simp]: "undec (s @ [c]) = 10 * undec s + digit_val c"
  by (simp add: undec_def)

lemma undec_dec [simp]: "undec (dec n) = n"
proof (induction n rule: dec.induct)
  case (1 n)
  then show ?case
    by (subst dec.simps) (auto simp: undec_def)
qed

lemma dec_inj [simp]: "dec m = dec n \<longleftrightarrow> m = n"
  by (metis undec_dec)

lemma dec_not_Nil [simp]: "dec n \<noteq> []"
  by (subst dec.simps) simp

lemma dec_digits: "c \<in> set (dec n) \<Longrightarrow> is_digit c"
proof (induction n rule: dec.induct)
  case (1 n)
  then show ?case
    by (subst (asm) (2) dec.simps) (auto split: if_splits)
qed

text \<open>\<open>strconv.ParseUint\<close> base 10 up to a bound, \<open>None\<close> for its error.\<close>

definition parse_nat :: "nat \<Rightarrow> string \<Rightarrow> nat option" where
  "parse_nat lim s =
     (if s \<noteq> [] \<and> list_all is_digit s \<and> undec s < lim then Some (undec s) else None)"

lemma parse_nat_dec [simp]: "n < lim \<Longrightarrow> parse_nat lim (dec n) = Some n"
  by (auto simp: parse_nat_def list_all_iff dec_digits)

lemma parse_nat_bound: "parse_nat lim s = Some n \<Longrightarrow> n < lim"
  by (auto simp: parse_nat_def split: if_splits)

text \<open>\<open>strconv.ParseInt(s, 10, 64)\<close> and \<open>Atoi\<close>: the value, which is the nearest
  bound when the number does not fit, and whether there was no error.\<close>

definition parse_int :: "string \<Rightarrow> int \<times> bool" where
  "parse_int s =
     (let neg = (has_prefix ''-'' s);
          ds = (if neg \<or> has_prefix ''+'' s then tl s else s);
          v = undec ds
      in if ds = [] \<or> \<not> list_all is_digit ds then (0, False)
         else if neg then (if v > 2 ^ 63 then (- (2 ^ 63), False) else (- int v, True))
         else (if v \<ge> 2 ^ 63 then (2 ^ 63 - 1, False) else (int v, True)))"

lemma dec_hd: "dec n = c # cs \<Longrightarrow> is_digit c"
  using dec_digits[of c n] by simp

lemma digit_no_sign: "is_digit c \<Longrightarrow> c \<noteq> CHR ''-'' \<and> c \<noteq> CHR ''+''"
  by (auto simp: is_digit_def)

lemma parse_int_dec [simp]: "n < 2 ^ 63 \<Longrightarrow> parse_int (dec n) = (int n, True)"
proof -
  assume n: "n < 2 ^ 63"
  obtain c cs where d: "dec n = c # cs" by (cases "dec n") simp_all
  have "\<not> has_prefix ''-'' (dec n)" "\<not> has_prefix ''+'' (dec n)"
    using digit_no_sign[OF dec_hd[OF d]] by (auto simp: d)
  then show ?thesis
    using n by (simp add: parse_int_def Let_def list_all_iff dec_digits)
qed

section \<open>Hexadecimal numbers\<close>

definition hexdigit :: "nat \<Rightarrow> char" where
  "hexdigit d = (if d < 10 then digit d else char_of (87 + d))"

definition hex_val :: "char \<Rightarrow> nat option" where
  "hex_val c = (let n = of_char c :: nat
     in if 48 \<le> n \<and> n \<le> 57 then Some (n - 48)
        else if 97 \<le> n \<and> n \<le> 102 then Some (n - 87)
        else if 65 \<le> n \<and> n \<le> 70 then Some (n - 55) else None)"

fun unhex :: "nat \<Rightarrow> string \<Rightarrow> nat option" where
  "unhex a [] = Some a"
| "unhex a (c # cs) = (case hex_val c of None \<Rightarrow> None | Some v \<Rightarrow> unhex (16 * a + v) cs)"

text \<open>\<open>strconv.ParseUint(s, 16, 32)\<close>, and the verb \<open>%08x\<close> of \<open>fmt\<close>.\<close>

definition parse_hex32 :: "string \<Rightarrow> 32 word option" where
  "parse_hex32 s = (if s = [] then None
     else case unhex 0 s of None \<Rightarrow> None | Some n \<Rightarrow> if n < 2 ^ 32 then Some (of_nat n) else None)"

fun hexn :: "nat \<Rightarrow> nat \<Rightarrow> string" where
  "hexn 0 n = []"
| "hexn (Suc k) n = hexn k (n div 16) @ [hexdigit (n mod 16)]"

definition hex8 :: "32 word \<Rightarrow> string" where
  "hex8 w = hexn 8 (unat w)"

lemma hex_val_hexdigit [simp]: "d < 16 \<Longrightarrow> hex_val (hexdigit d) = Some d"
  by (auto simp: hex_val_def hexdigit_def Let_def)

lemma unhex_append: "unhex a (s @ t) = (case unhex a s of None \<Rightarrow> None | Some b \<Rightarrow> unhex b t)"
  by (induction s arbitrary: a) (auto split: option.splits)

lemma unhex_hexn: "unhex 0 (hexn k n) = Some (n mod 16 ^ k)"
proof (induction k arbitrary: n)
  case (Suc k)
  have "16 * (n div 16 mod 16 ^ k) + n mod 16 = n mod 16 ^ Suc k"
    by (metis mod_mult2_eq mult.commute power_Suc add.commute)
  then show ?case by (simp add: unhex_append Suc.IH)
qed simp

lemma length_hexn [simp]: "length (hexn k n) = k"
  by (induction k arbitrary: n) auto

lemma parse_hex8 [simp]: "parse_hex32 (hex8 w) = Some w"
proof -
  have "unat w < 2 ^ 32" using unsigned_less[of w, where 'a = nat] by simp
  moreover have "hexn 8 (unat w) \<noteq> []" using length_hexn[of 8 "unat w"] by (metis list.size(3) zero_neq_numeral)
  ultimately show ?thesis
    by (simp add: parse_hex32_def hex8_def unhex_hexn del: hexn.simps)
qed

definition is_hex :: "char \<Rightarrow> bool" where
  "is_hex c \<longleftrightarrow> hex_val c \<noteq> None"

lemma hexn_hex: "c \<in> set (hexn k n) \<Longrightarrow> is_hex c"
  by (induction k arbitrary: n) (auto simp: is_hex_def)

section \<open>Splitting\<close>

text \<open>The first occurrence of \<open>p\<close>, as \<open>strings.SplitN(s, p, 2)\<close> finds it.\<close>

fun split_first :: "string \<Rightarrow> string \<Rightarrow> (string \<times> string) option" where
  "split_first p [] = (if p = [] then Some ([], []) else None)"
| "split_first p (c # cs) =
     (if has_prefix p (c # cs) then Some ([], drop (length p) (c # cs))
      else map_option (\<lambda>(a, b). (c # a, b)) (split_first p cs))"

lemma split_first_sound: "split_first p s = Some (a, b) \<Longrightarrow> s = a @ p @ b"
proof (induction s arbitrary: a b)
  case (Cons c cs)
  show ?case
  proof (cases "has_prefix p (c # cs)")
    case True
    then show ?thesis using Cons.prems
      by (auto simp: has_prefix_iff simp del: has_prefix_Cons split: if_splits)
  next
    case False
    then show ?thesis using Cons by (auto split: if_splits)
  qed
qed (auto split: if_splits)

section \<open>Trimming\<close>

definition TrimPrefix :: "'a list \<Rightarrow> 'a list \<Rightarrow> 'a list" where
  "TrimPrefix s p = (if has_prefix p s then drop (length p) s else s)"

definition TrimSuffix :: "'a list \<Rightarrow> 'a list \<Rightarrow> 'a list" where
  "TrimSuffix s p = (if has_suffix p s then take (length s - length p) s else s)"

definition TrimRight :: "'a list \<Rightarrow> 'a set \<Rightarrow> 'a list" where
  "TrimRight s cs = rev (dropWhile (\<lambda>c. c \<in> cs) (rev s))"

definition TrimLeft :: "'a list \<Rightarrow> 'a set \<Rightarrow> 'a list" where
  "TrimLeft s cs = dropWhile (\<lambda>c. c \<in> cs) s"

lemma TrimPrefix_append [simp]: "TrimPrefix (p @ s) p = s"
  by (simp add: TrimPrefix_def)

lemma TrimSuffix_append [simp]: "TrimSuffix (s @ p) p = s"
  by (simp add: TrimSuffix_def)

lemma TrimRight_append: "set t \<subseteq> cs \<Longrightarrow> TrimRight (s @ t) cs = TrimRight s cs"
  by (auto simp: TrimRight_def dropWhile_append)

lemma TrimRight_id: "s = [] \<or> last s \<notin> cs \<Longrightarrow> TrimRight s cs = s"
  by (cases s rule: rev_cases) (auto simp: TrimRight_def)

lemma TrimRight_last: "TrimRight s cs \<noteq> [] \<Longrightarrow> last (TrimRight s cs) \<notin> cs"
  unfolding TrimRight_def using hd_dropWhile[of "\<lambda>c. c \<in> cs" "rev s"]
  by (auto simp: last_rev)

definition spaces :: "char set" where
  "spaces = {CHR '' '', CHR 0x09, CHR 0x0A, CHR 0x0B, CHR 0x0C, CHR 0x0D}"

text \<open>\<open>strings.TrimSpace\<close> for the ASCII spaces.\<close>

definition TrimSpace :: "string \<Rightarrow> string" where
  "TrimSpace s = TrimLeft (TrimRight s spaces) spaces"

lemma TrimSpace_id: "s = [] \<or> hd s \<notin> spaces \<and> last s \<notin> spaces \<Longrightarrow> TrimSpace s = s"
  by (cases s) (auto simp: TrimSpace_def TrimRight_id TrimLeft_def)

lemma digit_not_space: "is_digit c \<Longrightarrow> c \<notin> spaces"
  by (auto simp: is_digit_def spaces_def)

section \<open>Paths\<close>

text \<open>
  \<open>filepath.Clean\<close> on a slash system: the components are read from left to
  right onto a stack; \<open>..\<close> takes the last one off, except below the root or
  where only \<open>..\<close> precede.
\<close>

fun clean_comps :: "bool \<Rightarrow> string list \<Rightarrow> string list \<Rightarrow> string list" where
  "clean_comps rooted st [] = rev st"
| "clean_comps rooted st (c # cs) =
     (if c = [] \<or> c = ''.'' then clean_comps rooted st cs
      else if c = ''..'' then
        (case st of
           [] \<Rightarrow> if rooted then clean_comps rooted [] cs else clean_comps rooted [''..''] cs
         | t # st' \<Rightarrow> if t = ''..'' then clean_comps rooted (''..'' # st) cs
                     else clean_comps rooted st' cs)
      else clean_comps rooted (c # st) cs)"

definition path_clean :: "string \<Rightarrow> string" where
  "path_clean s =
     (let rooted = has_prefix ''/'' s;
          body = join_with CHR ''/'' (clean_comps rooted [] (split_on CHR ''/'' s))
      in if rooted then CHR ''/'' # body else if body = [] then ''.'' else body)"

text \<open>\<open>filepath.Dir\<close>: everything before the last slash, cleaned.\<close>

definition path_dir :: "string \<Rightarrow> string" where
  "path_dir s = path_clean (rev (dropWhile (\<lambda>c. c \<noteq> CHR ''/'') (rev s)))"

text \<open>\<open>filepath.Base\<close>: the last element, without trailing slashes.\<close>

definition path_base :: "string \<Rightarrow> string" where
  "path_base s =
     (if s = [] then ''.''
      else let t = TrimRight s {CHR ''/''}
           in if t = [] then ''/'' else rev (takeWhile (\<lambda>c. c \<noteq> CHR ''/'') (rev t)))"

text \<open>\<open>filepath.Join\<close> of two elements; empty ones are ignored.\<close>

definition path_join :: "string \<Rightarrow> string \<Rightarrow> string" where
  "path_join a b =
     (if a = [] then (if b = [] then [] else path_clean b)
      else path_clean (a @ CHR ''/'' # b))"

lemma path_base_no_slash: "path_base s = ''/'' \<or> CHR ''/'' \<notin> set (path_base s)"
  by (auto simp: path_base_def Let_def dest: set_takeWhileD)

text \<open>A file name that stays itself when it is joined to a directory.\<close>

definition plain_name :: "string \<Rightarrow> bool" where
  "plain_name b \<longleftrightarrow> CHR ''/'' \<notin> set b \<and> b \<notin> {[], ''.'', ''..''}"

lemma clean_comps_snoc:
  "plain_name b \<Longrightarrow> clean_comps rooted st (cs @ [b]) = clean_comps rooted st cs @ [b]"
  by (induction rooted st cs rule: clean_comps.induct) (auto simp: plain_name_def split: list.splits)

lemma join_with_snoc: "join_with c (xs @ [b]) = (if xs = [] then b else join_with c xs @ c # b)"
  by (induction c xs rule: join_with.induct) auto

lemma split_on_snoc: "c \<notin> set b \<Longrightarrow> split_on c (a @ c # b) = split_on c a @ [b]"
proof (induction a)
  case (Cons x a)
  then show ?case by (auto split: list.splits)
qed (simp add: split_on_no_sep)

text \<open>Plain names joined to one directory share what stands before them.\<close>

lemma path_join_prefix: "\<exists>pre. \<forall>b. plain_name b \<longrightarrow> path_join a b = pre @ b"
proof -
  define comps where "comps = (\<lambda>x. clean_comps (has_prefix ''/'' x) [] (split_on (CHR ''/'') a))"
  have "path_join a b = (if a = [] then [] else if has_prefix ''/'' a then ''/'' else []) @
      (if a = [] \<or> comps a = [] then [] else join_with (CHR ''/'') (comps a) @ ''/'') @ b"
    if b: "plain_name b" for b
  proof (cases "a = []")
    case True
    have "\<not> has_prefix ''/'' b" using b by (cases b) (auto simp: plain_name_def)
    then show ?thesis
      using True b clean_comps_snoc[OF b, of False "[]" "[]"]
      by (simp add: path_join_def path_clean_def Let_def split_on_no_sep plain_name_def)
  next
    case False
    then have "has_prefix ''/'' (a @ CHR ''/'' # b) = has_prefix ''/'' a" by (cases a) auto
    then show ?thesis
      using False b clean_comps_snoc[OF b]
      by (auto simp: path_join_def path_clean_def Let_def comps_def plain_name_def split_on_snoc join_with_snoc)
  qed
  then show ?thesis by (intro exI allI impI) simp
qed

text \<open>\<open>strings.ReplaceAll\<close> of one character by another.\<close>

definition replace_char :: "char \<Rightarrow> char \<Rightarrow> string \<Rightarrow> string" where
  "replace_char a b s = map (\<lambda>c. if c = a then b else c) s"

section \<open>Cases, fields and lines\<close>

text \<open>\<open>strings.ToUpper\<close> and \<open>strings.ToLower\<close> on ASCII text.\<close>

definition upper :: "string \<Rightarrow> string" where
  "upper s = map (\<lambda>c. let n = of_char c :: nat in if 97 \<le> n \<and> n \<le> 122 then char_of (n - 32) else c) s"

definition lower :: "string \<Rightarrow> string" where
  "lower s = map (\<lambda>c. let n = of_char c :: nat in if 65 \<le> n \<and> n \<le> 90 then char_of (n + 32) else c) s"

text \<open>\<open>strings.Fields\<close> for the ASCII spaces.\<close>

fun Fields :: "string \<Rightarrow> string list" where
  "Fields [] = []"
| "Fields (c # cs) =
     (if c \<in> spaces then Fields cs
      else case cs of [] \<Rightarrow> [[c]]
      | d # _ \<Rightarrow> (if d \<in> spaces then [c] # Fields cs
                 else case Fields cs of [] \<Rightarrow> [[c]] | w # ws \<Rightarrow> (c # w) # ws))"

lemma Fields_disjoint: "\<forall>w \<in> set (Fields s). w \<noteq> [] \<and> (\<forall>c \<in> set w. c \<notin> spaces)"
proof (induction s)
  case (Cons c cs)
  define ws where "ws = Fields cs"
  have "Fields (c # cs) \<in> {ws, [[c]], [c] # ws, case ws of [] \<Rightarrow> [[c]] | w # us \<Rightarrow> (c # w) # us}"
    by (simp add: ws_def split: list.split)
  moreover have "Fields (c # cs) = ws" if "c \<in> spaces"
    using that by (simp add: ws_def)
  moreover have "\<forall>w \<in> set ws. w \<noteq> [] \<and> (\<forall>c \<in> set w. c \<notin> spaces)"
    using Cons by (simp add: ws_def)
  ultimately show ?case
    by (cases "c \<in> spaces"; cases ws) (auto simp del: Fields.simps)
qed simp

lemma Fields_words: "w \<in> set (Fields s) \<Longrightarrow> w \<noteq> [] \<and> set w \<inter> spaces = {}"
  using Fields_disjoint by blast

text \<open>\<open>strings.SplitN\<close> at one character.\<close>

fun SplitN :: "nat \<Rightarrow> char \<Rightarrow> string \<Rightarrow> string list" where
  "SplitN 0 c s = []"
| "SplitN (Suc 0) c s = [s]"
| "SplitN (Suc (Suc n)) c [] = [[]]"
| "SplitN (Suc (Suc n)) c (x # xs) =
     (if x = c then [] # SplitN (Suc n) c xs
      else case SplitN (Suc (Suc n)) c xs of [] \<Rightarrow> [[x]] | w # ws \<Rightarrow> (x # w) # ws)"

lemma SplitN_word: "c \<notin> set w \<Longrightarrow> SplitN (Suc (Suc n)) c (w @ c # s) = w # SplitN (Suc n) c s"
  by (induction w) auto

text \<open>One carriage return at the end of a line is dropped.\<close>

definition strip_cr :: "string \<Rightarrow> string" where
  "strip_cr l = (if l \<noteq> [] \<and> last l = CHR 0x0D then butlast l else l)"

end
