(* ===== verification/Machine.thy ===== *)
theory Machine
  imports Prelude
begin

text \<open>
  The interface of a state machine: a start state, a step relation that gives
  every interleaving of the goroutines' atomic sections, and an invariant.
  A component promises that its invariant holds at the start and is kept by
  every step; what follows for all reachable states is proved here once.
\<close>

locale machine =
  fixes start :: "'s \<Rightarrow> bool"
    and step :: "'s \<Rightarrow> 's \<Rightarrow> bool"
    and inv :: "'s \<Rightarrow> bool"
  assumes inv_start: "start s \<Longrightarrow> inv s"
    and inv_step: "inv s \<Longrightarrow> step s s' \<Longrightarrow> inv s'"
begin

lemma inv_run: "step\<^sup>*\<^sup>* s s' \<Longrightarrow> inv s \<Longrightarrow> inv s'"
  by (induction rule: rtranclp_induct) (auto intro: inv_step)

lemma inv_reach: "start s \<Longrightarrow> step\<^sup>*\<^sup>* s s' \<Longrightarrow> inv s'"
  using inv_run inv_start by blast

lemma run_mono:
  fixes m :: "'s \<Rightarrow> 'a::order"
  assumes "\<And>s s'. inv s \<Longrightarrow> step s s' \<Longrightarrow> m s \<le> m s'"
    and "inv s" and "step\<^sup>*\<^sup>* s s'"
  shows "m s \<le> m s'"
  using assms(3,2)
proof (induction rule: rtranclp_induct)
  case (step y z)
  then show ?case using assms(1)[of y z] inv_run[of s y] by (meson order_trans)
qed simp

lemma run_stable:
  assumes "\<And>s s'. inv s \<Longrightarrow> P s \<Longrightarrow> step s s' \<Longrightarrow> P s'"
    and "inv s" and "P s" and "step\<^sup>*\<^sup>* s s'"
  shows "P s'"
  using assms(4,2,3)
proof (induction rule: rtranclp_induct)
  case (step y z)
  then show ?case using assms(1)[of y z] inv_run[of s y] by blast
qed simp

end

end
