(* ===== verification/Sessions.thy ===== *)
theory Sessions
  imports Strings Items Machine
begin

text \<open>
  \<open>Session.go\<close>: the \<open>PROCESSOR\<close> with its session map, the creation of sessions,
  the checks at the start of \<open>LaunchSession\<close>, the segment list it builds from a
  parsed NZB, and how sessions are cleared; and the file name and message-id
  checks of \<open>Utils.go\<close> it relies on. Session objects are shared by
  pointer, so they live in a store and are known by their \<open>sessId\<close>. What runs
  between boot and shutdown is in the worker theories.
\<close>

section \<open>Message-ids and file names\<close>

definition id_char :: "char \<Rightarrow> bool" where
  "id_char c \<longleftrightarrow> 33 \<le> (of_char c :: nat) \<and> (of_char c :: nat) \<le> 126 \<and> c \<noteq> CHR ''>''"

definition validMessageID :: "string \<Rightarrow> bool" where
  "validMessageID mid \<longleftrightarrow>
     \<not> (length mid < 3 \<or> length mid > 250 \<or> mid ! 0 \<noteq> CHR ''<'' \<or> mid ! (length mid - 1) \<noteq> CHR ''>'') \<and>
     list_all id_char (drop 1 (take (length mid - 1) mid))"

definition safeFileName :: "string \<Rightarrow> string \<times> bool" where
  "safeFileName name =
     (let base = path_base (replace_char (CHR 0x5C) (CHR ''/'') name)
      in if base = [] \<or> base = ''.'' \<or> base = ''..'' \<or> base = ''/'' \<or> CHR 0x00 \<in> set base
         then ([], False) else (base, True))"

section \<open>The parsed NZB\<close>

text \<open>The fields of the parser's result that the code reads.\<close>

record nzb_segment =
  Number :: int
  Bytes :: int
  seg_ID :: string

record nzb_file =
  Filename :: string
  TotalSegments :: int
  Segments :: "nzb_segment list"

record nzb =
  Files :: "nzb_file list"
  nzb_segments :: int
  nzb_bytes :: int

section \<open>Sessions and the processor\<close>

type_synonym sessref = "64 word"

record nzbsession = session +
  nzbName :: string
  nzbPath :: string
  nzbFile :: "nzb option"
  nzbSize :: int
  segmentList :: "item list"
  providerGroups :: "string list"
  proxy :: bool
  progress_total :: "64 word"

record processor =
  IsRunning :: bool
  sessIds :: "64 word"
  sessMap :: "sessref set"
  objs :: "sessref \<rightharpoonup> nzbsession"
  nzbDir :: string

datatype launch_error =
    NeedPathOrSession | PathAndSession | NilSession
  | AlreadyRun sessref | AlreadyBooting

definition fresh_session :: "string \<Rightarrow> string \<Rightarrow> bool \<Rightarrow> nzbsession" where
  "fresh_session name path prox =
     \<lparr>providerList = [], segmentChansCheck = Map.empty, segmentChansDowns = Map.empty,
      segmentChansReups = Map.empty, checkers = Map.empty, chansClosed = False,
      stopChan_closed = False, divWake = False, checkFeedDone = False, segcheckdone = False,
      bootedWorkers = 0, workDone = 0, preBoot = False, active = False,
      nzbName = name, nzbPath = path, nzbFile = None, nzbSize = 0, segmentList = [],
      providerGroups = [], proxy = prox, progress_total = 0\<rparr>"

definition newssid :: "processor \<Rightarrow> processor \<times> sessref" where
  "newssid p = (let i = sessIds p + 1 in (p\<lparr>sessIds := i\<rparr>, i))"

definition newSession :: "string \<Rightarrow> processor \<Rightarrow> processor \<times> sessref" where
  "newSession nzb_name p =
     (let (p1, i) = newssid p;
          s = fresh_session (path_base nzb_name) (path_join (nzbDir p) nzb_name) False
      in (p1\<lparr>objs := (objs p1)(i \<mapsto> s), sessMap := insert i (sessMap p1)\<rparr>, i))"

text \<open>The session behind the proxy and the web pages: not in the map.\<close>

definition newBaseSession :: "nzbsession" where
  "newBaseSession = fresh_session [] [] True"

definition upd :: "sessref \<Rightarrow> (nzbsession \<Rightarrow> nzbsession) \<Rightarrow> processor \<Rightarrow> processor" where
  "upd i f p = p\<lparr>objs := (objs p)(i := map_option f (objs p i))\<rparr>"

definition removeSession :: "sessref \<Rightarrow> processor \<Rightarrow> processor" where
  "removeSession i p = upd i (\<lambda>s. s\<lparr>segmentList := []\<rparr>) (p\<lparr>sessMap := sessMap p - {i}\<rparr>)"

definition closeSession :: "nzbsession \<Rightarrow> nzbsession" where
  "closeSession s = s\<lparr>active := False, checkFeedDone := False, segcheckdone := False, preBoot := False,
     nzbFile := None, providerGroups := [], segmentList := [], segmentChansCheck := Map.empty,
     segmentChansDowns := Map.empty, segmentChansReups := Map.empty\<rparr>"

definition clearSession :: "int \<Rightarrow> sessref \<Rightarrow> processor \<Rightarrow> processor" where
  "clearSession sess_threshold i p =
     (if int (card (sessMap p)) > sess_threshold then removeSession i p else upd i closeSession p)"

section \<open>Launching a session\<close>

text \<open>
  The first part of \<open>LaunchSession\<close>: which session is meant, and then the claim
  of it under its lock. \<open>prox\<close> is the global flag \<open>proxy\<close>.
\<close>

definition launch_pick ::
  "bool \<Rightarrow> string \<Rightarrow> sessref option \<Rightarrow> processor \<Rightarrow> launch_error + processor \<times> sessref option" where
  "launch_pick prox path so p =
     (if \<not> prox then
        (if path = [] \<and> so = None then Inl NeedPathOrSession
         else if path \<noteq> [] \<and> so \<noteq> None then Inl PathAndSession
         else if path \<noteq> [] \<and> so = None then (let (p', i) = newSession path p in Inr (p', Some i))
         else Inr (p, so))
      else Inr (p, so))"

definition claim :: "sessref \<Rightarrow> nzbsession \<Rightarrow> launch_error + nzbsession" where
  "claim i s =
     (if stopChan_closed s then Inl (AlreadyRun i)
      else if preBoot s \<or> active s then Inl AlreadyBooting
      else Inr (s\<lparr>preBoot := True\<rparr>))"

definition launch_start ::
  "bool \<Rightarrow> string \<Rightarrow> sessref option \<Rightarrow> processor \<Rightarrow> launch_error + processor \<times> sessref" where
  "launch_start prox path so p =
     (case launch_pick prox path so p of
        Inl e \<Rightarrow> Inl e
      | Inr (p', io) \<Rightarrow>
          (case io of
             None \<Rightarrow> Inl NilSession
           | Some i \<Rightarrow>
               (case objs p' i of
                  None \<Rightarrow> Inl NilSession
                | Some s \<Rightarrow>
                    (case claim i s of
                       Inl e \<Rightarrow> Inl e
                     | Inr s' \<Rightarrow> Inr (p'\<lparr>objs := (objs p')(i \<mapsto> s')\<rparr>, i)))))"

text \<open>The start of \<open>GoBootWorkers\<close>; \<open>None\<close> is its early return.\<close>

definition boot :: "nzbsession \<Rightarrow> nzbsession option" where
  "boot s = (if active s \<or> \<not> preBoot s then None else Some (s\<lparr>preBoot := False, active := True\<rparr>))"

section \<open>The segment list\<close>

text \<open>\<open>sha\<close> is \<open>SHA256str\<close>.\<close>

definition new_item :: "(string \<Rightarrow> string) \<Rightarrow> string \<Rightarrow> item" where
  "new_item sha mid = \<lparr>seg_id = mid, hashedId = sha mid, missingOn = {}, availableOn = {}, ignoreDlOn = {},
     ignoreUlOn = {}, unwantedOn = {}, uploadedTo = {}, retryOn = {}, errorOn = {}, dmcaOn = {},
     article = [], item_head = [], item_body = [], flaginDL = False, flagisDL = False, flaginUP = False, flagisUP = False,
     flaginDLMEM = False, flaginYenc = False, flagisYenc = False, flagCache = False,
     retireWhenCached = False, memlocked = 0, checkedOn = 0, pushedDL = 0, pushedUP = 0,
     item_size = 0, headsize = 0, bodysize = 0,
     dlcnt = 0, badcrc = 0, fails = 0, retryIn = 0, item_rxb = 0, item_txb = 0\<rparr>"

definition wire_id :: "string \<Rightarrow> string" where
  "wire_id s = ''<'' @ TrimSuffix (TrimPrefix s ''<'') ''>'' @ ''>''"

fun file_segments :: "(string \<Rightarrow> string) \<Rightarrow> nzb_segment list \<Rightarrow> item list" where
  "file_segments sha [] = []"
| "file_segments sha (g # gs) =
     (let mid = wire_id (seg_ID g)
      in if \<not> validMessageID mid then file_segments sha gs
         else new_item sha mid # file_segments sha gs)"

fun all_segments :: "(string \<Rightarrow> string) \<Rightarrow> nzb_file list \<Rightarrow> item list" where
  "all_segments sha [] = []"
| "all_segments sha (f # fs) = file_segments sha (Segments f) @ all_segments sha fs"

text \<open>\<open>load\<close> is \<open>loadNzbFile\<close>: \<open>None\<close> when it returns an error or nothing. The
  outer \<open>None\<close> is the error return of \<open>LaunchSession\<close>.\<close>

definition load_segments ::
  "(string \<Rightarrow> string) \<Rightarrow> (string \<Rightarrow> nzb option) \<Rightarrow> nzbsession \<Rightarrow> nzbsession option" where
  "load_segments sha load s =
     (if nzbFile s \<noteq> None then Some s
      else if nzbPath s \<noteq> [] then
        (case load (nzbPath s) of
           None \<Rightarrow> None
         | Some z \<Rightarrow>
             (let xs = all_segments sha (Files z)
              in Some (s\<lparr>nzbFile := Some z, segmentList := xs, progress_total := of_nat (length xs),
                         nzbSize := nzb_bytes z\<rparr>)))
      else Some s)"

section \<open>The life of one session\<close>

text \<open>
  One session object, the goroutines that call \<open>LaunchSession\<close> on it and
  \<open>stop\<close>, in any interleaving of their locked sections. \<open>l_claims\<close> counts the
  calls that got past the claim, and \<open>l_pc\<close> says where the call that did is.
\<close>

datatype launch_pc = NotLaunched | Claimed | Booted | Stopped | Cleared | GaveUp

record life =
  l_sess :: nzbsession
  l_claims :: nat
  l_boots :: nat
  l_pc :: launch_pc

inductive lstep :: "life \<Rightarrow> life \<Rightarrow> bool" where
  Claim: "claim i (l_sess l) = Inr s \<Longrightarrow>
     lstep l (l\<lparr>l_sess := s, l_claims := Suc (l_claims l), l_pc := Claimed\<rparr>)"
| ClaimRefused: "claim i (l_sess l) = Inl e \<Longrightarrow> lstep l l"
| EarlyReturn: "l_pc l = Claimed \<Longrightarrow> lstep l (l\<lparr>l_pc := GaveUp\<rparr>)"
| Load: "l_pc l = Claimed \<Longrightarrow> load_segments sha load (l_sess l) = Some s \<Longrightarrow> lstep l (l\<lparr>l_sess := s\<rparr>)"
| Boot: "l_pc l = Claimed \<Longrightarrow> boot (l_sess l) = Some s \<Longrightarrow>
     lstep l (l\<lparr>l_sess := s, l_boots := Suc (l_boots l), l_pc := Booted\<rparr>)"
| StopAtEnd: "l_pc l = Booted \<Longrightarrow>
     lstep l (l\<lparr>l_sess := (l_sess l)\<lparr>stopChan_closed := True\<rparr>, l_pc := Stopped\<rparr>)"
| StopJob: "lstep l (l\<lparr>l_sess := (l_sess l)\<lparr>stopChan_closed := True\<rparr>\<rparr>)"
| Close: "l_pc l = Stopped \<Longrightarrow> lstep l (l\<lparr>l_sess := closeSession (l_sess l), l_pc := Cleared\<rparr>)"
| Remove: "l_pc l = Stopped \<Longrightarrow> lstep l (l\<lparr>l_sess := (l_sess l)\<lparr>segmentList := []\<rparr>, l_pc := Cleared\<rparr>)"

definition life_start :: "life \<Rightarrow> bool" where
  "life_start l \<longleftrightarrow> l_claims l = 0 \<and> l_boots l = 0 \<and> l_pc l = NotLaunched \<and>
     (\<exists>name path. l_sess l = fresh_session name path False)"

definition life_inv :: "life \<Rightarrow> bool" where
  "life_inv l \<longleftrightarrow>
     l_claims l = (if l_pc l = NotLaunched then 0 else 1) \<and>
     l_boots l = (if l_pc l \<in> {Booted, Stopped, Cleared} then 1 else 0) \<and>
     (l_pc l \<in> {Claimed, GaveUp} \<longrightarrow> preBoot (l_sess l)) \<and>
     (l_pc l = Booted \<longrightarrow> active (l_sess l)) \<and>
     (l_pc l \<in> {Stopped, Cleared} \<longrightarrow> stopChan_closed (l_sess l))"

section \<open>Lemmas\<close>

lemma claim_eq_Inr [simp]:
  "claim i s = Inr s' \<longleftrightarrow> \<not> stopChan_closed s \<and> \<not> preBoot s \<and> \<not> active s \<and> s' = s\<lparr>preBoot := True\<rparr>"
  by (auto simp: claim_def)

lemma boot_eq_Some [simp]:
  "boot s = Some s' \<longleftrightarrow> \<not> active s \<and> preBoot s \<and> s' = s\<lparr>preBoot := False, active := True\<rparr>"
  by (auto simp: boot_def)

lemma closeSession_keeps_stop [simp]: "stopChan_closed (closeSession s) = stopChan_closed s"
  by (simp add: closeSession_def)

lemma load_segments_keeps:
  assumes "load_segments sha load s = Some s'"
  shows "preBoot s' = preBoot s" "active s' = active s" "stopChan_closed s' = stopChan_closed s"
  using assms by (auto simp: load_segments_def Let_def split: if_splits option.splits)

lemma life_inv_start: "life_start l \<Longrightarrow> life_inv l"
  by (auto simp: life_start_def life_inv_def)

lemma life_inv_step: "life_inv l \<Longrightarrow> lstep l l' \<Longrightarrow> life_inv l'"
  by (erule lstep.cases; cases "l_pc l") (auto simp: life_inv_def load_segments_keeps)

interpretation life: machine life_start lstep life_inv
  by unfold_locales (fact life_inv_start life_inv_step)+

lemma file_segments_ids:
  "map seg_id (file_segments sha gs) = filter validMessageID (map (wire_id \<circ> seg_ID) gs)"
  by (induction gs) (auto simp: Let_def new_item_def)

lemma all_segments_ids:
  "map seg_id (all_segments sha fs) =
     filter validMessageID (map (wire_id \<circ> seg_ID) (concat (map Segments fs)))"
  by (induction fs) (auto simp: file_segments_ids o_def)

lemma file_segments_new: "it \<in> set (file_segments sha gs) \<Longrightarrow> it = new_item sha (seg_id it)"
  by (induction gs) (auto simp: Let_def new_item_def split: if_splits)

lemma all_segments_new: "it \<in> set (all_segments sha fs) \<Longrightarrow> it = new_item sha (seg_id it)"
  by (induction fs) (auto dest: file_segments_new)

lemma wire_id_wire_id [simp]: "wire_id (wire_id s) = wire_id s"
proof -
  have "TrimPrefix (''<'' @ t @ ''>'') ''<'' = t @ ''>''" for t :: string
    by (rule TrimPrefix_append)
  then show ?thesis
    by (simp add: wire_id_def)
qed

lemma validMessageID_iff:
  "validMessageID mid \<longleftrightarrow>
     (\<exists>t. mid = ''<'' @ t @ ''>'' \<and> t \<noteq> [] \<and> length t \<le> 248 \<and> (\<forall>c \<in> set t. id_char c))"
  (is "_ \<longleftrightarrow> (\<exists>t. ?P t)")
proof
  assume v: "validMessageID mid"
  obtain a t z where mid: "mid = a # t @ [z]"
  proof (cases mid)
    case (Cons a r)
    then show ?thesis using v that by (cases r rule: rev_cases) (auto simp: validMessageID_def)
  qed (use v in \<open>simp add: validMessageID_def\<close>)
  then have "?P t"
    using v by (auto simp: validMessageID_def nth_append list_all_iff)
  then show "\<exists>t. ?P t" ..
next
  assume "\<exists>t. ?P t"
  then show "validMessageID mid"
    by (auto simp: validMessageID_def nth_append list_all_iff Suc_le_eq)
qed

lemma id_char_CRLF: "\<not> id_char (CHR 0x0D)" "\<not> id_char (CHR 0x0A)" "\<not> id_char (CHR '' '')"
  by (simp_all add: id_char_def)

lemma validMessageID_clean:
  "validMessageID mid \<Longrightarrow> set mid \<inter> {CHR 0x0D, CHR 0x0A, CHR '' ''} = {}"
  unfolding validMessageID_iff using id_char_CRLF by auto

fun open_all :: "string list \<Rightarrow> processor \<Rightarrow> processor \<times> sessref list" where
  "open_all [] p = (p, [])"
| "open_all (n # ns) p =
     (let (p1, i) = newSession n p; (p2, is) = open_all ns p1 in (p2, i # is))"

lemma newSession_simps:
  assumes "newSession n p = (p', i)"
  shows "i = sessIds p + 1" "sessIds p' = i" "sessMap p' = insert i (sessMap p)"
    "objs p' = (objs p)(i \<mapsto> fresh_session (path_base n) (path_join (nzbDir p) n) False)"
  using assms by (auto simp: newSession_def newssid_def Let_def)

lemma open_all_ids:
  assumes "open_all ns p = (p', is)" and "unat (sessIds p) + length ns < 2 ^ 64"
  shows "map unat is = [Suc (unat (sessIds p))..<Suc (unat (sessIds p) + length ns)] \<and>
    sessMap p' = sessMap p \<union> set is \<and>
    (\<forall>i. i \<notin> set is \<longrightarrow> objs p' i = objs p i)"
  using assms
proof (induction ns arbitrary: p p' "is")
  case (Cons n ns)
  obtain p1 i where 1: "newSession n p = (p1, i)" by (metis surj_pair)
  obtain p2 js where 2: "open_all ns p1 = (p2, js)" by (metis surj_pair)
  have u: "unat i = Suc (unat (sessIds p))"
    using newSession_simps(1)[OF 1] Cons.prems(2) unat_plus_1[of "sessIds p"] by simp
  have IH: "map unat js = [Suc (unat i)..<Suc (unat i + length ns)] \<and>
      sessMap p2 = sessMap p1 \<union> set js \<and> (\<forall>i. i \<notin> set js \<longrightarrow> objs p2 i = objs p1 i)"
    using Cons.IH[OF 2] Cons.prems(2) newSession_simps(2)[OF 1] u by simp
  have p': "p' = p2" "is = i # js"
    using Cons.prems(1) 1 2 by simp_all
  have "map unat (i # js) = Suc (unat (sessIds p)) # [Suc (Suc (unat (sessIds p)))..<Suc (unat (sessIds p) + length (n # ns))]"
    using IH u by simp
  also have "\<dots> = [Suc (unat (sessIds p))..<Suc (unat (sessIds p) + length (n # ns))]"
    by (rule upt_conv_Cons[symmetric]) simp
  finally have "map unat (i # js) = \<dots>" .
  then show ?case
    unfolding p' using IH newSession_simps[OF 1] by simp
qed simp

section \<open>Properties\<close>


definition life0 :: life where
  "life0 = \<lparr>l_sess = fresh_session ''a.nzb'' ''/in/a.nzb'' False, l_claims = 0, l_boots = 0, l_pc = NotLaunched\<rparr>"

definition life1 :: life where
  "life1 = life0\<lparr>l_sess := (l_sess life0)\<lparr>preBoot := True\<rparr>, l_claims := 1, l_pc := Claimed\<rparr>"

lemma life0_start: "life_start life0"
  by (auto simp: life_start_def life0_def)

lemma life0_step: "lstep life0 life1"
  using lstep.Claim[of 1 life0 "(l_sess life0)\<lparr>preBoot := True\<rparr>"]
  by (simp add: life1_def life0_def fresh_session_def)


text \<open>The segment list of a session holds, in the order of the NZB, one fresh
  item for every segment whose bracketed id is a valid message-id, and nothing
  else; no id it holds contains a line break or a space, so an id from an NZB
  cannot add a command to the wire; and the published total is its length.\<close>

theorem segment_ids_safe:
  assumes "nzbFile s = None" and "nzbPath s \<noteq> []" and "load (nzbPath s) = Some z"
    and "load_segments sha load s = Some s'"
  shows "map seg_id (segmentList s') =
      filter validMessageID (map (wire_id \<circ> seg_ID) (concat (map Segments (Files z)))) \<and>
    (\<forall>it \<in> set (segmentList s').
       it = new_item sha (seg_id it) \<and> set (seg_id it) \<inter> {CHR 0x0D, CHR 0x0A, CHR '' ''} = {}) \<and>
    progress_total s' = of_nat (length (segmentList s'))"
proof -
  have xs: "segmentList s' = all_segments sha (Files z)"
    and t: "progress_total s' = of_nat (length (segmentList s'))"
    using assms by (auto simp: load_segments_def Let_def)
  have "validMessageID (seg_id it)" if "it \<in> set (segmentList s')" for it
    using that all_segments_ids[of sha "Files z"] unfolding xs
    by (metis (no_types, lifting) filter_is_subset image_eqI list.set_map mem_Collect_eq set_filter)
  then show ?thesis
    using t all_segments_ids validMessageID_clean by (auto simp: xs dest: all_segments_new)
qed

definition nzb_two :: nzb where
  "nzb_two = \<lparr>Files = [\<lparr>Filename = ''f'', TotalSegments = 2,
      Segments = [\<lparr>Number = 1, Bytes = 10, seg_ID = ''a@b''\<rparr>, \<lparr>Number = 2, Bytes = 10, seg_ID = ''<x y>''\<rparr>]\<rparr>],
    nzb_segments = 2, nzb_bytes = 20\<rparr>"

theorem segment_ids_safe_witness:
  "map seg_id (segmentList (the (load_segments id (\<lambda>_. Some nzb_two) (fresh_session ''f'' ''f'' False)))) = [''<a@b>'']"
proof -
  let ?s = "fresh_session ''f'' ''f'' False"
  have c: "nzbFile ?s = None" "nzbPath ?s \<noteq> []" "(\<lambda>_. Some nzb_two) (nzbPath ?s) = Some nzb_two"
    by (simp_all add: fresh_session_def)
  obtain s' where s': "load_segments id (\<lambda>_. Some nzb_two) ?s = Some s'"
    by (simp add: load_segments_def Let_def fresh_session_def)
  show ?thesis
    using segment_ids_safe[OF c s'] s'
    by (simp add: nzb_two_def wire_id_def TrimPrefix_def TrimSuffix_def has_suffix_def has_prefix_def
        validMessageID_def id_char_def)
qed

text \<open>Sessions opened one after another get different ids, counting up by one
  from the processor's counter, none of them 0, and opening a session changes no other
  session; this holds until the 64 bit counter wraps.\<close>

theorem session_ids_unique:
  assumes "open_all ns p = (p', is)" and "unat (sessIds p) + length ns < 2 ^ 64"
  shows "distinct is \<and> 0 \<notin> set is \<and> sorted (map unat is) \<and> length is = length ns \<and>
    sessMap p' = sessMap p \<union> set is \<and> (\<forall>i. i \<notin> set is \<longrightarrow> objs p' i = objs p i)"
proof -
  note ids = open_all_ids[OF assms]
  let ?U = "[Suc (unat (sessIds p))..<Suc (unat (sessIds p) + length ns)]"
  have u: "map unat is = ?U"
    using ids by blast
  have "distinct is"
  proof -
    have "distinct (map unat is)" unfolding u by simp
    then show ?thesis by (simp add: distinct_map)
  qed
  moreover have "0 \<notin> set is"
  proof
    assume "0 \<in> set is"
    then have "0 \<in> set (map unat is)" by force
    then show False unfolding u by auto
  qed
  moreover have "length is = length ns"
    using arg_cong[OF u, of length] by (simp only: length_map length_upt)
  moreover have "sorted (map unat is)"
    unfolding u by (rule sorted_upt)
  ultimately show ?thesis
    using ids by blast
qed

definition processor0 :: processor where
  "processor0 = \<lparr>IsRunning = True, sessIds = 0, sessMap = {}, objs = Map.empty, nzbDir = ''/in''\<rparr>"

theorem session_ids_unique_witness:
  "distinct (snd (open_all [''a'', ''b'', ''a''] processor0))"
proof -
  obtain p' "is" where r: "open_all [''a'', ''b'', ''a''] processor0 = (p', is)"
    by (metis surj_pair)
  have "unat (sessIds processor0) + length [''a'', ''b'', ''a''] < 2 ^ 64"
    by (simp add: processor0_def)
  from session_ids_unique[OF r this] show ?thesis
    unfolding r by simp
qed

text \<open>A file name that \<open>safeFileName\<close> accepts names an entry of the directory
  it is joined to: it has no slash of either kind, no zero byte, and is neither
  empty nor a name for the directory or its parent.\<close>

theorem safeFileName_safe:
  assumes "safeFileName name = (base, True)"
  shows "set base \<inter> {CHR ''/'', CHR 0x5C, CHR 0x00} = {} \<and> base \<notin> {[], ''.'', ''..''}"
proof -
  let ?r = "replace_char (CHR 0x5C) (CHR ''/'') name"
  have b: "base = path_base ?r" "base \<noteq> ''/''" "base \<notin> {[], ''.'', ''..''}" "CHR 0x00 \<notin> set base"
    using assms by (auto simp: safeFileName_def Let_def split: if_splits)
  have r: "CHR 0x5C \<notin> set ?r"
    by (auto simp: replace_char_def)
  have "set (path_base ?r) \<subseteq> set ?r \<union> {CHR ''.'', CHR ''/''}"
    by (auto simp: path_base_def TrimRight_def Let_def dest!: set_takeWhileD set_dropWhileD)
  then have "CHR 0x5C \<notin> set base"
    using r b(1) by auto
  then show ?thesis
    using b path_base_no_slash[of ?r] by auto
qed

theorem safeFileName_safe_witness:
  "set (fst (safeFileName ''../../etc/passwd'')) \<inter> {CHR ''/'', CHR 0x5C, CHR 0x00} = {}"
  using safeFileName_safe[of "''../../etc/passwd''" "''passwd''"]
  by (simp add: safeFileName_def replace_char_def path_base_def TrimRight_def Let_def)

end
