(* ===== verification/JobQueue.thy ===== *)
theory JobQueue
  imports Sessions
begin

text \<open>
  \<open>webjobs.go\<close>: the queue of the jobs uploaded through the web pages, and its
  runner goroutine. Jobs are shared by pointer (the queue's list and the runner
  both hold them), so they live in a store; the job that \<open>AddJob\<close> makes with
  number \<open>n\<close> is the object at address \<open>n\<close>, a fresh one since \<open>nextID\<close> only
  grows. A section under \<open>jq.mu\<close> is one step. Session progress is published by
  the divider and read from \<open>published\<close>. \<open>Progress\<close>, a float, is kept as the two
  numbers it is the quotient of, and times are natural numbers.
\<close>

section \<open>Jobs\<close>

datatype jobstatus = Queued | Waiting | Running | Completed | Failed

record sessionProgress =
  p_total :: "64 word"
  p_done :: "64 word"
  p_dead :: "64 word"
  p_notarget :: "64 word"
  p_cached :: "64 word"

record job =
  ID :: string
  NZBPath :: string
  NZBName :: string
  Status :: jobstatus
  AddedAt :: nat
  StartedAt :: nat
  FinishedAt :: nat
  Error :: string
  Progress :: "nat \<times> nat"
  TotalArticles :: "64 word"
  ArticlesProcessed :: "64 word"
  ArticlesDone :: "64 word"
  ArticlesCached :: "64 word"
  ArticlesDead :: "64 word"
  TotalSize :: int
  SessionID :: sessref
  job_session :: "sessref option"
  stopRequested :: bool

definition maxPendingJobs :: nat where "maxPendingJobs = 1000"
definition maxFinishedJobs :: nat where "maxFinishedJobs = 50"

datatype job_error = InvalidNZB | QueueFull nat | JobNotFound string | JobState string jobstatus

definition pending :: "jobstatus \<Rightarrow> bool" where
  "pending s \<longleftrightarrow> s = Queued \<or> s = Waiting"

definition finished :: "jobstatus \<Rightarrow> bool" where
  "finished s \<longleftrightarrow> s = Completed \<or> s = Failed"

section \<open>The queue\<close>

text \<open>Where the runner goroutine is: blocked on \<open>wake\<close>, about to look for work,
  with a job from \<open>nextWaiting\<close>, or inside \<open>launch\<close> with its session.\<close>

datatype runner_pc = Asleep | Scanning | Chosen nat | Launched nat sessref

record jobqueue =
  jobs :: "nat list"
  store :: "nat \<Rightarrow> job"
  nextID :: nat
  wake :: bool
  runner :: runner_pc
  published :: "sessref \<Rightarrow> sessionProgress"
  told_to_stop :: "sessref set"
  uploads :: "string set"
  proc :: processor

text \<open>\<open>webUploadDir\<close>, and whether \<open>webProcessor\<close> is set.\<close>

record webconf =
  webUploadDir :: string
  webProcessor :: bool

definition job_id :: "nat \<Rightarrow> string" where
  "job_id n = ''job-'' @ dec n"

definition blank_job :: job where
  "blank_job = \<lparr>ID = [], NZBPath = [], NZBName = [], Status = Queued, AddedAt = 0, StartedAt = 0,
     FinishedAt = 0, Error = [], Progress = (0, 1), TotalArticles = 0, ArticlesProcessed = 0,
     ArticlesDone = 0, ArticlesCached = 0, ArticlesDead = 0, TotalSize = 0, SessionID = 0,
     job_session = None, stopRequested = False\<rparr>"

definition NewJobQueue :: "processor \<Rightarrow> string set \<Rightarrow> jobqueue" where
  "NewJobQueue p files = \<lparr>jobs = [], store = (\<lambda>_. blank_job), nextID = 1, wake = False,
     runner = Asleep, published = (\<lambda>_. \<lparr>p_total = 0, p_done = 0, p_dead = 0, p_notarget = 0, p_cached = 0\<rparr>),
     told_to_stop = {}, uploads = files, proc = p\<rparr>"

definition status_at :: "jobqueue \<Rightarrow> nat \<Rightarrow> jobstatus" where
  "status_at q r = Status (store q r)"

definition nextWaiting :: "jobqueue \<Rightarrow> nat option" where
  "nextWaiting q = List.find (\<lambda>r. status_at q r = Waiting) (jobs q)"

definition find_job :: "string \<Rightarrow> jobqueue \<Rightarrow> nat option" where
  "find_job jid q = List.find (\<lambda>r. ID (store q r) = jid) (jobs q)"

definition set_job :: "nat \<Rightarrow> (job \<Rightarrow> job) \<Rightarrow> jobqueue \<Rightarrow> jobqueue" where
  "set_job r f q = q\<lparr>store := (store q)(r := f (store q r))\<rparr>"

text \<open>\<open>load\<close> is \<open>loadNzbFile\<close>: \<open>None\<close> for an error or an empty result.\<close>

definition AddJob ::
  "(string \<Rightarrow> nzb option) \<Rightarrow> nat \<Rightarrow> string \<Rightarrow> string \<Rightarrow> jobqueue \<Rightarrow> jobqueue \<times> (job_error + string)" where
  "AddJob load now path name q =
     (case load path of
        None \<Rightarrow> (q, Inl InvalidNZB)
      | Some z \<Rightarrow>
          (let waiting = count_if (\<lambda>r. pending (status_at q r)) (jobs q);
               n = nextID q;
               j = blank_job\<lparr>ID := job_id n, NZBPath := path, NZBName := name, Status := Queued,
                     AddedAt := now, TotalSize := nzb_bytes z, TotalArticles := of_int (nzb_segments z)\<rparr>
           in if waiting \<ge> maxPendingJobs then (q, Inl (QueueFull waiting))
              else (q\<lparr>nextID := n + 1, store := (store q)(n := j), jobs := jobs q @ [n]\<rparr>,
                    Inr (job_id n))))"

definition setProgress :: "sessionProgress \<Rightarrow> job \<Rightarrow> job" where
  "setProgress p j =
     (if p_total p = 0 then j
      else let fin = min (p_done p + p_dead p + p_notarget p) (p_total p)
           in j\<lparr>TotalArticles := p_total p, ArticlesDone := min (p_done p) (p_total p),
                ArticlesProcessed := fin, ArticlesCached := p_cached p, ArticlesDead := p_dead p,
                Progress := (unat fin, unat (p_total p))\<rparr>)"

definition snapshot :: "jobqueue \<Rightarrow> nat \<Rightarrow> job" where
  "snapshot q r =
     (let j = store q r; c = j\<lparr>job_session := None\<rparr>
      in case job_session j of
           None \<Rightarrow> c
         | Some s \<Rightarrow> if Status j = Running then setProgress (published q s) c else c)"

definition GetJob :: "string \<Rightarrow> jobqueue \<Rightarrow> job option" where
  "GetJob jid q = map_option (snapshot q) (find_job jid q)"

definition jobs_with :: "(jobstatus \<Rightarrow> bool) \<Rightarrow> jobqueue \<Rightarrow> nat list" where
  "jobs_with P q = filter (\<lambda>r. P (status_at q r)) (jobs q)"

definition ListJobs :: "jobqueue \<Rightarrow> job list" where
  "ListJobs q = concat (map (\<lambda>P. map (snapshot q) (jobs_with P q))
     [\<lambda>s. s = Running, \<lambda>s. s = Waiting, \<lambda>s. s = Queued, finished])"

definition runningJobs :: "jobqueue \<Rightarrow> job list" where
  "runningJobs q = map (snapshot q) (jobs_with (\<lambda>s. s = Running) q)"

definition StartJob :: "string \<Rightarrow> jobqueue \<Rightarrow> jobqueue \<times> job_error option" where
  "StartJob jid q =
     (case find_job jid q of
        None \<Rightarrow> (q, Some (JobNotFound jid))
      | Some r \<Rightarrow>
          if status_at q r \<noteq> Queued then (q, Some (JobState jid (status_at q r)))
          else ((set_job r (\<lambda>j. j\<lparr>Status := Waiting\<rparr>) q)\<lparr>wake := True\<rparr>, None))"

fun start_ids :: "string list \<Rightarrow> jobqueue \<Rightarrow> jobqueue \<times> nat" where
  "start_ids [] q = (q, 0)"
| "start_ids (i # is) q =
     (case StartJob i q of
        (q', Some _) \<Rightarrow> start_ids is q'
      | (q', None) \<Rightarrow> (let (q'', n) = start_ids is q' in (q'', Suc n)))"

definition StartAllQueued :: "jobqueue \<Rightarrow> jobqueue \<times> nat" where
  "StartAllQueued q = start_ids (map (\<lambda>r. ID (store q r)) (jobs_with (\<lambda>s. s = Queued) q)) q"

definition removeUpload :: "webconf \<Rightarrow> string \<Rightarrow> jobqueue \<Rightarrow> jobqueue" where
  "removeUpload w path q =
     (if webUploadDir w = [] \<or> path_dir path \<noteq> webUploadDir w then q
      else q\<lparr>uploads := uploads q - {path}\<rparr>)"

text \<open>The loop of \<open>finishLocked\<close> that keeps all but the first \<open>n\<close> finished jobs.\<close>

fun drop_first :: "('a \<Rightarrow> bool) \<Rightarrow> nat \<Rightarrow> 'a list \<Rightarrow> 'a list" where
  "drop_first P n [] = []"
| "drop_first P n (x # xs) =
     (if 0 < n \<and> P x then drop_first P (n - 1) xs else x # drop_first P n xs)"

definition finish_job :: "(sessref \<Rightarrow> sessionProgress) \<Rightarrow> nat \<Rightarrow> string option \<Rightarrow> job \<Rightarrow> job" where
  "finish_job pub now err j =
     (let j1 = (case job_session j of None \<Rightarrow> j
                | Some s \<Rightarrow> (setProgress (pub s) j)\<lparr>job_session := None\<rparr>);
          err1 = (if err = None \<and> stopRequested j then Some ''stopped'' else err);
          j2 = (case err1 of Some e \<Rightarrow> j1\<lparr>Status := Failed, Error := e\<rparr>
                | None \<Rightarrow> j1\<lparr>Status := Completed\<rparr>)
      in j2\<lparr>FinishedAt := now\<rparr>)"

definition finishLocked :: "webconf \<Rightarrow> nat \<Rightarrow> nat \<Rightarrow> string option \<Rightarrow> jobqueue \<Rightarrow> jobqueue" where
  "finishLocked w now r err q =
     (let q1 = removeUpload w (NZBPath (store q r)) (set_job r (finish_job (published q) now err) q);
          n = count_if (\<lambda>r. finished (status_at q1 r)) (jobs q1)
      in q1\<lparr>jobs := drop_first (\<lambda>r. finished (status_at q1 r)) (n - maxFinishedJobs) (jobs q1)\<rparr>)"

text \<open>The first locked section of \<open>runJob\<close>, and the part after \<open>launch\<close> returned
  \<open>err\<close> (a panic in it is an error too).\<close>

definition runJob_begin :: "webconf \<Rightarrow> nat \<Rightarrow> nat \<Rightarrow> jobqueue \<Rightarrow> jobqueue" where
  "runJob_begin w now r q =
     (if status_at q r \<noteq> Waiting then q\<lparr>runner := Scanning\<rparr>
      else if \<not> webProcessor w
      then (finishLocked w now r (Some ''web processor not initialized'') q)\<lparr>runner := Scanning\<rparr>
      else let (p', i) = newSession (NZBPath (store q r)) (proc q)
           in (set_job r (\<lambda>j. j\<lparr>job_session := Some i, SessionID := i, Status := Running, StartedAt := now\<rparr>) q)
                \<lparr>proc := p', runner := Launched r i\<rparr>)"

definition runJob_end :: "webconf \<Rightarrow> nat \<Rightarrow> nat \<Rightarrow> sessref \<Rightarrow> string option \<Rightarrow> jobqueue \<Rightarrow> jobqueue" where
  "runJob_end w now r i err q =
     (finishLocked w now r err
        (if err = None then q else q\<lparr>proc := removeSession i (proc q)\<rparr>))\<lparr>runner := Scanning\<rparr>"

definition StopJob :: "webconf \<Rightarrow> nat \<Rightarrow> string \<Rightarrow> jobqueue \<Rightarrow> jobqueue \<times> job_error option" where
  "StopJob w now jid q =
     (case find_job jid q of
        None \<Rightarrow> (q, Some (JobNotFound jid))
      | Some r \<Rightarrow>
          (case status_at q r of
             Waiting \<Rightarrow> (finishLocked w now r (Some ''canceled before it started'') q, None)
           | Running \<Rightarrow>
               (let q1 = set_job r (\<lambda>j. j\<lparr>stopRequested := True\<rparr>) q
                in (case job_session (store q r) of
                      None \<Rightarrow> q1
                    | Some s \<Rightarrow> q1\<lparr>told_to_stop := insert s (told_to_stop q1)\<rparr>, None))
           | st \<Rightarrow> (q, Some (JobState jid st))))"

definition stopAll :: "webconf \<Rightarrow> nat \<Rightarrow> jobqueue \<Rightarrow> jobqueue" where
  "stopAll w now q =
     fold (\<lambda>i q. fst (StopJob w now i q))
       (map (\<lambda>r. ID (store q r)) (jobs_with (\<lambda>s. s = Waiting \<or> s = Running) q)) q"

definition DeleteJob :: "webconf \<Rightarrow> string \<Rightarrow> jobqueue \<Rightarrow> jobqueue \<times> job_error option" where
  "DeleteJob w jid q =
     (case find_job jid q of
        None \<Rightarrow> (q, Some (JobNotFound jid))
      | Some r \<Rightarrow>
          if status_at q r = Queued \<or> finished (status_at q r)
          then (removeUpload w (NZBPath (store q r)) (q\<lparr>jobs := remove1 r (jobs q)\<rparr>), None)
          else (q, Some (JobState jid (status_at q r))))"

section \<open>Every interleaving\<close>

text \<open>One step: a web request under the queue's lock, the runner moving on, or
  the divider publishing counts.\<close>

inductive jstep :: "webconf \<Rightarrow> jobqueue \<Rightarrow> jobqueue \<Rightarrow> bool" for w where
  Add: "jstep w q (fst (AddJob load now path name q))"
| Start: "jstep w q (fst (StartJob jid q))"
| Stop: "jstep w q (fst (StopJob w now jid q))"
| Delete: "jstep w q (fst (DeleteJob w jid q))"
| Publish: "jstep w q (q\<lparr>published := pub\<rparr>)"
| Wake: "runner q = Asleep \<Longrightarrow> wake q \<Longrightarrow> jstep w q (q\<lparr>wake := False, runner := Scanning\<rparr>)"
| Sleep: "runner q = Scanning \<Longrightarrow> nextWaiting q = None \<Longrightarrow> jstep w q (q\<lparr>runner := Asleep\<rparr>)"
| Choose: "runner q = Scanning \<Longrightarrow> nextWaiting q = Some r \<Longrightarrow> jstep w q (q\<lparr>runner := Chosen r\<rparr>)"
| Begin: "runner q = Chosen r \<Longrightarrow> jstep w q (runJob_begin w now r q)"
| End: "runner q = Launched r i \<Longrightarrow> jstep w q (runJob_end w now r i err q)"

definition jstart :: "jobqueue \<Rightarrow> bool" where
  "jstart q \<longleftrightarrow> (\<exists>p files. q = NewJobQueue p files)"

text \<open>
  The invariant: jobs in the order they were added, under their own ids, within
  the two limits; the running job is the one the runner launched; a job the
  runner has chosen that is still waiting is still in the list; and a waiting job
  is never forgotten: the runner is awake or will be woken.
\<close>

definition order_ok :: "jobqueue \<Rightarrow> bool" where
  "order_ok q \<longleftrightarrow> sorted_wrt (<) (jobs q) \<and> (\<forall>r \<in> set (jobs q). r < nextID q \<and> ID (store q r) = job_id r)"

definition limits_ok :: "jobqueue \<Rightarrow> bool" where
  "limits_ok q \<longleftrightarrow> count_if (\<lambda>r. pending (status_at q r)) (jobs q) \<le> maxPendingJobs \<and>
     count_if (\<lambda>r. finished (status_at q r)) (jobs q) \<le> maxFinishedJobs"

definition none_running :: "jobqueue \<Rightarrow> bool" where
  "none_running q \<longleftrightarrow> (\<forall>y \<in> set (jobs q). status_at q y \<noteq> Running)"

definition runner_ok :: "jobqueue \<Rightarrow> bool" where
  "runner_ok q \<longleftrightarrow>
     (case runner q of
        Launched x i \<Rightarrow> x \<in> set (jobs q) \<and> status_at q x = Running \<and> job_session (store q x) = Some i \<and>
          (\<forall>y \<in> set (jobs q). status_at q y = Running \<longrightarrow> y = x)
      | Chosen x \<Rightarrow> none_running q \<and> x < nextID q \<and> status_at q x \<notin> {Queued, Running} \<and>
          (status_at q x = Waiting \<longrightarrow> x \<in> set (jobs q))
      | Asleep \<Rightarrow> none_running q
      | Scanning \<Rightarrow> none_running q)"

definition wake_ok :: "jobqueue \<Rightarrow> bool" where
  "wake_ok q \<longleftrightarrow> ((\<exists>r \<in> set (jobs q). status_at q r = Waiting) \<longrightarrow> runner q \<noteq> Asleep \<or> wake q)"

definition jinv :: "jobqueue \<Rightarrow> bool" where
  "jinv q \<longleftrightarrow> order_ok q \<and> limits_ok q \<and> runner_ok q \<and> wake_ok q"

section \<open>Lemmas: lists\<close>

lemma set_drop_first: "set (drop_first P n xs) \<subseteq> set xs"
  by (induction P n xs rule: drop_first.induct) auto

lemma drop_first_keeps: "x \<in> set xs \<Longrightarrow> \<not> P x \<Longrightarrow> x \<in> set (drop_first P n xs)"
  by (induction P n xs rule: drop_first.induct) auto

lemma drop_first_sorted: "sorted_wrt R xs \<Longrightarrow> sorted_wrt R (drop_first P n xs)"
  by (induction P n xs rule: drop_first.induct) (auto dest: set_drop_first[THEN subsetD])

lemma count_drop_first: "count_if P (drop_first P n xs) = count_if P xs - n"
  by (induction P n xs rule: drop_first.induct) auto

lemma count_drop_first_other:
  "(\<And>x. Q x \<Longrightarrow> \<not> P x) \<Longrightarrow> count_if Q (drop_first P n xs) = count_if Q xs"
  by (induction P n xs rule: drop_first.induct) auto

lemma filter_drop_first: "filter P (drop_first P n xs) = drop n (filter P xs)"
proof (induction P n xs rule: drop_first.induct)
  case (2 P n x xs)
  then show ?case by (cases n) auto
qed simp

lemma filter_not_drop_first:
  "filter (\<lambda>x. \<not> P x) (drop_first P n xs) = filter (\<lambda>x. \<not> P x) xs"
  by (induction P n xs rule: drop_first.induct) auto

lemma count_if_cong: "(\<And>x. x \<in> set xs \<Longrightarrow> P x = Q x) \<Longrightarrow> count_if P xs = count_if Q xs"
  unfolding count_if_def by (metis filter_cong)

lemma count_if_mono: "(\<And>x. x \<in> set xs \<Longrightarrow> P x \<Longrightarrow> Q x) \<Longrightarrow> count_if P xs \<le> count_if Q xs"
  by (induction xs) (auto simp: le_Suc_eq)

lemma count_if_at:
  assumes "distinct xs" and "r \<in> set xs" and "\<And>x. x \<in> set xs \<Longrightarrow> x \<noteq> r \<Longrightarrow> P x = Q x"
  shows "count_if P xs + of_bool (Q r) = count_if Q xs + of_bool (P r)"
  using assms
proof (induction xs)
  case (Cons x xs)
  show ?case
  proof (cases "x = r")
    case True
    then have "count_if P xs = count_if Q xs"
      using Cons.prems by (intro count_if_cong) auto
    then show ?thesis using True by simp
  next
    case False
    then show ?thesis using Cons by auto
  qed
qed simp

lemma count_if_remove1: "count_if P (remove1 r xs) \<le> count_if P xs"
  by (induction xs) auto

lemma find_SomeD: "List.find P xs = Some x \<Longrightarrow> x \<in> set xs \<and> P x"
  by (auto simp: find_Some_iff)

lemma find_NoneD: "List.find P xs = None \<Longrightarrow> x \<in> set xs \<Longrightarrow> \<not> P x"
  by (auto simp: find_None_iff)

lemma find_sorted_least:
  fixes xs :: "nat list"
  assumes "List.find P xs = Some x" and "sorted_wrt (<) xs" and "y \<in> set xs" and "P y"
  shows "x \<le> y"
  using assms by (induction xs) (auto split: if_splits)

section \<open>Lemmas: the operations\<close>

named_theorems job_simps

lemma job_id_inj [simp]: "job_id m = job_id n \<longleftrightarrow> m = n"
  by (simp add: job_id_def)

lemma not_both [simp]: "\<not> (pending s \<and> finished s)" "pending s \<Longrightarrow> \<not> finished s" "finished s \<Longrightarrow> \<not> pending s"
  by (auto simp: pending_def finished_def)

lemma status_simps [simp]:
  "pending Queued" "pending Waiting" "\<not> pending Running" "\<not> pending Completed" "\<not> pending Failed"
  "finished Completed" "finished Failed" "\<not> finished Running" "\<not> finished Waiting" "\<not> finished Queued"
  by (simp_all add: pending_def finished_def)

lemma set_job_simps [job_simps]:
  "jobs (set_job r f q) = jobs q" "nextID (set_job r f q) = nextID q" "wake (set_job r f q) = wake q"
  "runner (set_job r f q) = runner q" "published (set_job r f q) = published q" "proc (set_job r f q) = proc q"
  "told_to_stop (set_job r f q) = told_to_stop q" "uploads (set_job r f q) = uploads q"
  "store (set_job r f q) = (store q)(r := f (store q r))"
  by (simp_all add: set_job_def)

lemma removeUpload_simps [job_simps]:
  "jobs (removeUpload w p q) = jobs q" "nextID (removeUpload w p q) = nextID q" "wake (removeUpload w p q) = wake q"
  "runner (removeUpload w p q) = runner q" "published (removeUpload w p q) = published q"
  "proc (removeUpload w p q) = proc q" "told_to_stop (removeUpload w p q) = told_to_stop q"
  "store (removeUpload w p q) = store q"
  by (simp_all add: removeUpload_def)

lemma setProgress_keeps [job_simps]:
  "ID (setProgress p j) = ID j" "Status (setProgress p j) = Status j" "NZBPath (setProgress p j) = NZBPath j"
  "job_session (setProgress p j) = job_session j" "stopRequested (setProgress p j) = stopRequested j"
  by (simp_all add: setProgress_def Let_def)

lemma finish_job_simps [job_simps]:
  "ID (finish_job pub now err j) = ID j" "NZBPath (finish_job pub now err j) = NZBPath j"
  "Status (finish_job pub now err j) = (if err = None \<and> \<not> stopRequested j then Completed else Failed)"
  by (auto simp: finish_job_def Let_def setProgress_keeps split: option.splits)

lemma finish_job_finished [simp]: "finished (Status (finish_job pub now err j))"
  by (simp add: finish_job_simps)

lemma finishLocked_simps [job_simps]:
  "nextID (finishLocked w now r err q) = nextID q" "wake (finishLocked w now r err q) = wake q"
  "runner (finishLocked w now r err q) = runner q" "published (finishLocked w now r err q) = published q"
  "proc (finishLocked w now r err q) = proc q" "told_to_stop (finishLocked w now r err q) = told_to_stop q"
  "store (finishLocked w now r err q) = (store q)(r := finish_job (published q) now err (store q r))"
  by (simp_all add: finishLocked_def Let_def set_job_simps removeUpload_simps)

abbreviation fin_at :: "jobqueue \<Rightarrow> nat \<Rightarrow> nat \<Rightarrow> bool" where
  "fin_at q r x \<equiv> x = r \<or> finished (status_at q x)"

lemma jobs_finishLocked:
  "jobs (finishLocked w now r err q) =
     drop_first (\<lambda>x. fin_at q r x)
       (count_if (\<lambda>x. fin_at q r x) (jobs q) - maxFinishedJobs) (jobs q)"
proof -
  have "(\<lambda>x. finished (status_at (removeUpload w (NZBPath (store q r))
        (set_job r (finish_job (published q) now err) q)) x)) = (\<lambda>x. fin_at q r x)"
    by (auto simp: status_at_def job_simps)
  then show ?thesis
    by (simp add: finishLocked_def Let_def set_job_simps removeUpload_simps)
qed

lemma status_finishLocked [job_simps]:
  "status_at (finishLocked w now r err q) x =
     (if x = r then (if err = None \<and> \<not> stopRequested (store q r) then Completed else Failed) else status_at q x)"
  by (simp add: status_at_def job_simps)

lemma finishLocked_order: "order_ok q \<Longrightarrow> order_ok (finishLocked w now r err q)"
  unfolding order_ok_def jobs_finishLocked
  by (auto simp: job_simps intro: drop_first_sorted dest!: set_drop_first[THEN subsetD])

lemma finishLocked_subset: "set (jobs (finishLocked w now r err q)) \<subseteq> set (jobs q)"
  unfolding jobs_finishLocked by (rule set_drop_first)

lemma finishLocked_keeps:
  "x \<in> set (jobs q) \<Longrightarrow> x \<noteq> r \<Longrightarrow> \<not> finished (status_at q x) \<Longrightarrow>
   x \<in> set (jobs (finishLocked w now r err q))"
  unfolding jobs_finishLocked by (rule drop_first_keeps) auto

lemma order_distinct: "order_ok q \<Longrightarrow> distinct (jobs q)"
  by (simp add: order_ok_def strict_sorted_iff)

lemma finishLocked_limits:
  assumes "order_ok q" and "limits_ok q"
  shows "limits_ok (finishLocked w now r err q)"
proof -
  let ?q = "finishLocked w now r err q" and ?F = "\<lambda>x. fin_at q r x"
  have eq: "finished (status_at ?q x) = ?F x" for x
    by (auto simp: status_finishLocked)
  have "count_if (\<lambda>x. finished (status_at ?q x)) (jobs ?q) \<le> maxFinishedJobs"
    unfolding eq jobs_finishLocked count_drop_first by simp
  moreover have "count_if (\<lambda>x. pending (status_at ?q x)) (jobs ?q) =
      count_if (\<lambda>x. pending (status_at ?q x)) (jobs q)"
    unfolding jobs_finishLocked by (rule count_drop_first_other) (auto simp: status_finishLocked split: if_splits)
  moreover have "\<dots> \<le> count_if (\<lambda>x. pending (status_at q x)) (jobs q)"
    by (rule count_if_mono) (auto simp: status_finishLocked split: if_splits)
  ultimately show ?thesis
    using assms(2) by (simp add: limits_ok_def)
qed

text \<open>Operations that neither move the runner nor touch a running job.\<close>

lemma runner_ok_frame:
  assumes "runner_ok q" and "runner q' = runner q" and "nextID q \<le> nextID q'"
    and "\<And>x. x \<in> set (jobs q') \<Longrightarrow> status_at q' x = Running \<Longrightarrow> x \<in> set (jobs q) \<and> status_at q x = Running"
    and "\<And>x. x \<in> set (jobs q) \<Longrightarrow> status_at q x = Running \<Longrightarrow>
       x \<in> set (jobs q') \<and> status_at q' x = Running \<and> job_session (store q' x) = job_session (store q x)"
    and "\<And>x. x < nextID q \<Longrightarrow> status_at q x \<notin> {Queued, Running} \<Longrightarrow>
       status_at q' x \<notin> {Queued, Running} \<and> (status_at q' x = Waiting \<longrightarrow> status_at q x = Waiting \<and> (x \<in> set (jobs q) \<longrightarrow> x \<in> set (jobs q')))"
  shows "runner_ok q'"
proof -
  have none: "none_running q'" if "none_running q"
    using that assms(4) unfolding none_running_def by blast
  show ?thesis
  proof (cases "runner q")
    case (Launched x i)
    then have x: "x \<in> set (jobs q)" "status_at q x = Running" "job_session (store q x) = Some i"
      and "\<forall>y \<in> set (jobs q). status_at q y = Running \<longrightarrow> y = x"
      using assms(1) by (simp_all add: runner_ok_def)
    then have "\<forall>y \<in> set (jobs q'). status_at q' y = Running \<longrightarrow> y = x"
      using assms(4) by blast
    then show ?thesis
      using Launched assms(2) assms(5)[OF x(1,2)] x(3) by (simp add: runner_ok_def)
  next
    case (Chosen x)
    then have x: "x < nextID q" "status_at q x \<notin> {Queued, Running}" and i: "status_at q x = Waiting \<longrightarrow> x \<in> set (jobs q)"
      and "none_running q"
      using assms(1) by (simp_all add: runner_ok_def)
    then show ?thesis
      using Chosen assms(2,3) assms(6)[OF x] none by (auto simp: runner_ok_def)
  qed (use assms(1,2) none in \<open>simp_all add: runner_ok_def\<close>)
qed

lemma finishLocked_runner:
  assumes "runner_ok q" and "status_at q r = Waiting"
  shows "runner_ok (finishLocked w now r err q)"
proof (rule runner_ok_frame[OF assms(1)])
  let ?q = "finishLocked w now r err q"
  show "x \<in> set (jobs q) \<and> status_at q x = Running" if "x \<in> set (jobs ?q)" "status_at ?q x = Running" for x
    using that finishLocked_subset[of w now r err q] by (auto simp: status_finishLocked split: if_splits)
  show "x \<in> set (jobs ?q) \<and> status_at ?q x = Running \<and> job_session (store ?q x) = job_session (store q x)"
    if "x \<in> set (jobs q)" "status_at q x = Running" for x
  proof -
    have "x \<noteq> r" using that assms(2) by auto
    then show ?thesis
      using that finishLocked_keeps[of x q r w now err] by (simp add: status_finishLocked finishLocked_simps)
  qed
  show "status_at ?q x \<notin> {Queued, Running} \<and>
      (status_at ?q x = Waiting \<longrightarrow> status_at q x = Waiting \<and> (x \<in> set (jobs q) \<longrightarrow> x \<in> set (jobs ?q)))"
    if "status_at q x \<notin> {Queued, Running}" for x
    using that finishLocked_keeps[of x q r w now err] by (simp add: status_finishLocked)
qed (simp_all add: finishLocked_simps)

lemma finishLocked_wake: "wake_ok q \<Longrightarrow> wake_ok (finishLocked w now r err q)"
  using finishLocked_subset[of w now r err q]
  by (auto simp: wake_ok_def status_finishLocked finishLocked_simps split: if_splits)

lemma finishLocked_jinv:
  "jinv q \<Longrightarrow> status_at q r = Waiting \<Longrightarrow> jinv (finishLocked w now r err q)"
  by (simp add: jinv_def finishLocked_order finishLocked_limits finishLocked_runner finishLocked_wake)

text \<open>Updates that leave the list and every status as they are.\<close>

lemma jinv_same:
  assumes "jinv q" and "jobs q' = jobs q" and "nextID q' = nextID q" and "wake q' = wake q"
    and "runner q' = runner q" and "\<And>r. status_at q' r = status_at q r"
    and "\<And>r. ID (store q' r) = ID (store q r)"
    and "\<And>r. job_session (store q' r) = job_session (store q r)"
  shows "jinv q'"
  using assms
  by (cases "runner q")
    (simp_all add: jinv_def order_ok_def limits_ok_def runner_ok_def none_running_def wake_ok_def)

lemma runner_step_jinv:
  assumes "jinv q" and "runner q = Scanning \<or> runner q = Asleep"
    and "runner_ok (q\<lparr>runner := pc, wake := b\<rparr>)" and "wake_ok (q\<lparr>runner := pc, wake := b\<rparr>)"
  shows "jinv (q\<lparr>runner := pc, wake := b\<rparr>)"
  using assms by (simp add: jinv_def order_ok_def limits_ok_def status_at_def)

lemma find_job_Some:
  "find_job jid q = Some r \<Longrightarrow> r \<in> set (jobs q) \<and> ID (store q r) = jid"
  unfolding find_job_def by (drule find_SomeD) simp

lemma find_job_ID:
  assumes "order_ok q" and "r \<in> set (jobs q)"
  shows "find_job (job_id r) q = Some r"
proof -
  have id: "ID (store q y) = job_id y" if "y \<in> set (jobs q)" for y
    using assms(1) that by (simp add: order_ok_def)
  show ?thesis
  proof (cases "find_job (job_id r) q")
    case None
    then show ?thesis
      using find_NoneD[of "\<lambda>x. ID (store q x) = job_id r" "jobs q" r] id[OF assms(2)] assms(2)
      by (simp add: find_job_def)
  next
    case (Some x)
    then show ?thesis using find_job_Some[OF Some] id[of x] by simp
  qed
qed

lemma AddJob_jinv: "jinv q \<Longrightarrow> jinv (fst (AddJob load now path name q))"
proof -
  assume q: "jinv q"
  show ?thesis
  proof (cases "load path = None \<or> count_if (\<lambda>r. pending (status_at q r)) (jobs q) \<ge> maxPendingJobs")
    case True
    then show ?thesis using q by (auto simp: AddJob_def Let_def split: option.splits)
  next
    case False
    then obtain z where z: "load path = Some z" by auto
    let ?q = "fst (AddJob load now path name q)"
    have f: "jobs ?q = jobs q @ [nextID q]" "nextID ?q = nextID q + 1" "wake ?q = wake q" "runner ?q = runner q"
      and st: "\<And>x. store ?q x = (if x = nextID q then store ?q x else store q x)"
      and new: "Status (store ?q (nextID q)) = Queued" "ID (store ?q (nextID q)) = job_id (nextID q)"
      using False z by (simp_all add: AddJob_def Let_def)
    have lt: "x < nextID q" if "x \<in> set (jobs q)" for x
      using q that by (simp add: jinv_def order_ok_def)
    have old: "store ?q x = store q x" if "x \<in> set (jobs q)" for x
      using st[of x] lt[OF that] by simp
    have cnt: "count_if (\<lambda>r. P (status_at ?q r)) (jobs q) = count_if (\<lambda>r. P (status_at q r)) (jobs q)" for P
      by (rule count_if_cong) (simp add: status_at_def old)
    have 1: "order_ok ?q"
      using q old new(2) lt by (auto simp: jinv_def order_ok_def f sorted_wrt_append less_SucI)
    have 2: "limits_ok ?q"
      using q False z new(1) by (simp add: jinv_def limits_ok_def f cnt) (simp add: status_at_def)
    have sx: "status_at ?q x = status_at q x" if "x < nextID q" for x
      using st[of x] that by (simp add: status_at_def)
    have "runner_ok q" using q by (simp add: jinv_def)
    then have 3: "runner_ok ?q"
      by (rule runner_ok_frame) (use new(1) lt sx old in \<open>auto simp: f status_at_def\<close>)
    have "status_at ?q (nextID q) \<noteq> Waiting"
      using new(1) by (simp add: status_at_def)
    then have 4: "wake_ok ?q"
      using q sx lt unfolding jinv_def wake_ok_def f by auto
    show ?thesis using 1 2 3 4 by (simp add: jinv_def)
  qed
qed

lemma StartJob_jinv:
  assumes "jinv q"
  shows "jinv (fst (StartJob jid q))"
proof (cases "find_job jid q")
  case (Some r)
  show ?thesis
  proof (cases "status_at q r = Queued")
    case True
    let ?q = "fst (StartJob jid q)"
    have f: "jobs ?q = jobs q" "nextID ?q = nextID q" "wake ?q" "runner ?q = runner q"
      and st: "\<And>x. status_at ?q x = (if x = r then Waiting else status_at q x)"
      and keep: "\<And>x. ID (store ?q x) = ID (store q x)" "\<And>x. job_session (store ?q x) = job_session (store q x)"
      using Some True by (simp_all add: StartJob_def set_job_simps status_at_def)
    have "limits_ok ?q"
    proof -
      have "pending (status_at ?q x) = pending (status_at q x)"
        "finished (status_at ?q x) = finished (status_at q x)" for x
        using True by (auto simp: st)
      then show ?thesis using assms by (simp add: jinv_def limits_ok_def f)
    qed
    moreover have "runner_ok ?q"
      by (rule runner_ok_frame[of q]) (use assms True in \<open>auto simp: jinv_def f st keep split: if_splits\<close>)
    ultimately show ?thesis
      using assms by (simp add: jinv_def order_ok_def wake_ok_def f keep)
  qed (use assms Some in \<open>simp add: StartJob_def\<close>)
qed (use assms in \<open>simp add: StartJob_def\<close>)

lemma StopJob_jinv:
  assumes "jinv q"
  shows "jinv (fst (StopJob w now jid q))"
proof (cases "find_job jid q")
  case (Some r)
  show ?thesis
  proof (cases "status_at q r")
    case Waiting
    then show ?thesis using assms Some by (simp add: StopJob_def finishLocked_jinv)
  next
    case Running
    show ?thesis
      by (rule jinv_same[OF assms]) (use Some Running in
        \<open>auto simp: StopJob_def Let_def set_job_simps status_at_def split: option.splits\<close>)
  qed (use assms Some in \<open>simp_all add: StopJob_def\<close>)
qed (use assms in \<open>simp add: StopJob_def\<close>)

lemma sorted_remove1: "sorted_wrt R xs \<Longrightarrow> sorted_wrt R (remove1 x xs)"
  by (induction xs) (auto dest: set_remove1_subset[THEN subsetD])

lemma DeleteJob_jinv:
  assumes "jinv q"
  shows "jinv (fst (DeleteJob w jid q))"
proof (cases "find_job jid q")
  case (Some r)
  show ?thesis
  proof (cases "status_at q r = Queued \<or> finished (status_at q r)")
    case True
    let ?q = "fst (DeleteJob w jid q)"
    have f: "jobs ?q = remove1 r (jobs q)" "nextID ?q = nextID q" "wake ?q = wake q" "runner ?q = runner q"
        "store ?q = store q" and st: "status_at ?q = status_at q"
      using Some True by (simp_all add: DeleteJob_def removeUpload_simps status_at_def fun_eq_iff)
    have sub: "x \<in> set (remove1 r (jobs q)) \<Longrightarrow> x \<in> set (jobs q)" for x
      by (rule set_remove1_subset[THEN subsetD])
    have stay: "x \<in> set (remove1 r (jobs q))"
      if "x \<in> set (jobs q)" "status_at q x = Running \<or> status_at q x = Waiting" for x
    proof -
      have "x \<noteq> r" using that(2) True by auto
      then show ?thesis using that(1) by simp
    qed
    have "order_ok ?q"
      using assms sub by (auto simp: jinv_def order_ok_def f intro: sorted_remove1)
    moreover have "limits_ok ?q"
      using assms count_if_remove1[of _ r "jobs q"] unfolding jinv_def limits_ok_def f st
      by (meson le_trans)
    moreover have "runner_ok ?q"
    proof (rule runner_ok_frame[of q])
      show "runner_ok q" using assms by (simp add: jinv_def)
    next
      fix x assume "x \<in> set (jobs ?q)" "status_at ?q x = Running"
      then show "x \<in> set (jobs q) \<and> status_at q x = Running" using sub unfolding f st by blast
    next
      fix x assume "x \<in> set (jobs q)" "status_at q x = Running"
      then show "x \<in> set (jobs ?q) \<and> status_at ?q x = Running \<and> job_session (store ?q x) = job_session (store q x)"
        using stay unfolding f st by blast
    next
      fix x assume "status_at q x \<notin> {Queued, Running}"
      then show "status_at ?q x \<notin> {Queued, Running} \<and> (status_at ?q x = Waiting \<longrightarrow>
          status_at q x = Waiting \<and> (x \<in> set (jobs q) \<longrightarrow> x \<in> set (jobs ?q)))"
        using stay unfolding f st by blast
    qed (simp_all add: f)
    moreover have "wake_ok ?q"
      using assms sub by (auto simp: jinv_def wake_ok_def f st)
    ultimately show ?thesis by (simp add: jinv_def)
  qed (use assms Some in \<open>simp add: DeleteJob_def\<close>)
qed (use assms in \<open>simp add: DeleteJob_def\<close>)

lemma runJob_begin_jinv:
  assumes "jinv q" and "runner q = Chosen r"
  shows "jinv (runJob_begin w now r q)"
proof -
  have r: "r < nextID q" "status_at q r = Waiting \<longrightarrow> r \<in> set (jobs q)" and none: "none_running q"
    using assms by (simp_all add: jinv_def runner_ok_def)
  consider "status_at q r \<noteq> Waiting" | "status_at q r = Waiting" "\<not> webProcessor w"
    | "status_at q r = Waiting" "webProcessor w" by blast
  then show ?thesis
  proof cases
    case 1
    then show ?thesis
      using assms(1) none
      by (simp add: runJob_begin_def jinv_def order_ok_def limits_ok_def runner_ok_def none_running_def
          wake_ok_def status_at_def)
  next
    case 2
    let ?q = "finishLocked w now r (Some ''web processor not initialized'') q"
    have "jinv ?q" "none_running ?q"
      using finishLocked_jinv[OF assms(1) 2(1)] none 
        finishLocked_subset[of w now r "Some ''web processor not initialized''" q]
      by (auto simp: none_running_def status_finishLocked)
    then show ?thesis
      using 2 by (simp add: runJob_begin_def jinv_def order_ok_def limits_ok_def runner_ok_def
          none_running_def wake_ok_def status_at_def)
  next
    case 3
    obtain p' i where n: "newSession (NZBPath (store q r)) (proc q) = (p', i)"
      by (metis surj_pair)
    let ?q = "runJob_begin w now r q"
    have f: "jobs ?q = jobs q" "nextID ?q = nextID q" "wake ?q = wake q" "runner ?q = Launched r i"
      and st: "\<And>x. status_at ?q x = (if x = r then Running else status_at q x)"
      and keep: "\<And>x. ID (store ?q x) = ID (store q x)" "job_session (store ?q r) = Some i"
      using 3 n by (simp_all add: runJob_begin_def set_job_simps status_at_def)
    have "limits_ok ?q"
    proof -
      have "count_if (\<lambda>x. pending (status_at ?q x)) (jobs q) \<le> count_if (\<lambda>x. pending (status_at q x)) (jobs q)"
        by (rule count_if_mono) (auto simp: st split: if_splits)
      moreover have "finished (status_at ?q x) = finished (status_at q x)" for x
        using 3 by (auto simp: st)
      ultimately show ?thesis using assms(1) by (simp add: jinv_def limits_ok_def f)
    qed
    moreover have "runner_ok ?q"
      using r 3 none by (auto simp: runner_ok_def none_running_def f st keep)
    ultimately show ?thesis
      using assms(1) by (simp add: jinv_def order_ok_def wake_ok_def f keep)
  qed
qed

lemma finish_running_jinv:
  assumes "jinv q" and "runner q = Launched r i"
  shows "jinv ((finishLocked w now r err q)\<lparr>runner := Scanning\<rparr>)"
proof -
  let ?q = "finishLocked w now r err q"
  have "\<forall>y \<in> set (jobs q). status_at q y = Running \<longrightarrow> y = r"
    using assms by (simp add: jinv_def runner_ok_def)
  then have "none_running ?q"
    using finishLocked_subset[of w now r err q] by (auto simp: none_running_def status_finishLocked)
  moreover have "order_ok ?q" "limits_ok ?q"
    using finishLocked_order finishLocked_limits assms(1) by (simp_all add: jinv_def)
  ultimately show ?thesis
    by (simp add: jinv_def order_ok_def limits_ok_def runner_ok_def none_running_def
        wake_ok_def status_at_def)
qed

lemma runJob_end_jinv:
  assumes "jinv q" and "runner q = Launched r i"
  shows "jinv (runJob_end w now r i err q)"
proof -
  have "jinv (q\<lparr>proc := p\<rparr>)" for p
    by (rule jinv_same[OF assms(1)]) (simp_all add: status_at_def)
  then show ?thesis
    unfolding runJob_end_def using assms
    by (cases err) (auto intro!: finish_running_jinv)
qed

lemma jinv_step: "jstep w q q' \<Longrightarrow> jinv q \<Longrightarrow> jinv q'"
proof (induction rule: jstep.induct)
  case (Publish q pub)
  then show ?case by (rule jinv_same) (simp_all add: status_at_def)
next
  case (Wake q)
  then show ?case
    by (simp add: jinv_def order_ok_def limits_ok_def runner_ok_def none_running_def wake_ok_def status_at_def)
next
  case (Sleep q)
  then have "\<forall>r \<in> set (jobs q). status_at q r \<noteq> Waiting"
    unfolding nextWaiting_def using find_NoneD by fastforce
  then show ?case
    using Sleep
    by (simp add: jinv_def order_ok_def limits_ok_def runner_ok_def none_running_def wake_ok_def status_at_def)
next
  case (Choose q r)
  then have "r \<in> set (jobs q)" "status_at q r = Waiting"
    unfolding nextWaiting_def by (auto dest: find_SomeD)
  then show ?case
    using Choose
    by (simp add: jinv_def order_ok_def limits_ok_def runner_ok_def none_running_def wake_ok_def status_at_def)
qed (auto intro: AddJob_jinv StartJob_jinv StopJob_jinv DeleteJob_jinv runJob_begin_jinv runJob_end_jinv)

lemma jinv_start: "jstart q \<Longrightarrow> jinv q"
  by (auto simp: jstart_def NewJobQueue_def jinv_def order_ok_def limits_ok_def runner_ok_def
      none_running_def wake_ok_def)

interpretation jobq: machine jstart "jstep w" jinv for w
  by unfold_locales (auto intro: jinv_start jinv_step)

section \<open>Lemmas: how one job moves\<close>

definition job_edge :: "jobstatus \<Rightarrow> jobstatus \<Rightarrow> bool" where
  "job_edge a b \<longleftrightarrow> a = b \<or> (a, b) \<in> {(Queued, Waiting), (Waiting, Running), (Waiting, Failed),
     (Running, Completed), (Running, Failed)}"

text \<open>What one operation may do to the object \<open>r\<close>.\<close>

definition job_moves :: "jobqueue \<Rightarrow> jobqueue \<Rightarrow> nat \<Rightarrow> bool" where
  "job_moves q q' r \<longleftrightarrow> job_edge (status_at q r) (status_at q' r) \<and>
     (finished (status_at q r) \<longrightarrow> store q' r = store q r)"

lemma job_edge_refl [simp]: "job_edge a a"
  by (simp add: job_edge_def)

lemma job_moves_same [simp]: "store q' r = store q r \<Longrightarrow> job_moves q q' r"
  by (simp add: job_moves_def status_at_def)

lemma finishLocked_moves:
  assumes "status_at q x = Waiting \<and> err \<noteq> None \<or> status_at q x = Running"
  shows "job_moves q (finishLocked w now x err q) r"
  using assms
  by (cases "r = x") (auto simp: job_moves_def job_edge_def status_finishLocked finishLocked_simps)

lemma AddJob_store:
  "r < nextID q \<Longrightarrow> store (fst (AddJob load now path name q)) r = store q r"
  by (auto simp: AddJob_def Let_def split: option.splits)

lemma StartJob_moves: "job_moves q (fst (StartJob jid q)) r"
  by (auto simp: StartJob_def job_moves_def job_edge_def status_at_def set_job_simps split: option.splits)

lemma StopJob_moves: "job_moves q (fst (StopJob w now jid q)) r"
proof (cases "find_job jid q")
  case (Some x)
  show ?thesis
  proof (cases "status_at q x")
    case Waiting
    then show ?thesis by (simp add: StopJob_def Some finishLocked_moves)
  next
    case Running
    then show ?thesis
      by (auto simp: StopJob_def Some Let_def job_moves_def status_at_def set_job_simps split: option.splits)
  qed (simp_all add: StopJob_def Some)
qed (simp add: StopJob_def)

lemma DeleteJob_store: "store (fst (DeleteJob w jid q)) = store q"
  by (auto simp: DeleteJob_def removeUpload_simps split: option.splits)

lemma job_moves_runner [simp]: "job_moves q (q'\<lparr>runner := pc\<rparr>) r = job_moves q q' r"
  by (simp add: job_moves_def status_at_def)

lemma runJob_begin_moves: "job_moves q (runJob_begin w now x q) r"
proof (cases "status_at q x = Waiting")
  case w: True
  show ?thesis
  proof (cases "webProcessor w")
    case True
    then show ?thesis
      using w by (auto simp: runJob_begin_def job_moves_def job_edge_def status_at_def set_job_simps
          split: prod.splits)
  qed (use w in \<open>simp add: runJob_begin_def finishLocked_moves\<close>)
qed (simp add: runJob_begin_def)

lemma runJob_end_moves:
  assumes "jinv q" and "runner q = Launched x i"
  shows "job_moves q (runJob_end w now x i err q) r"
proof -
  have "status_at (q\<lparr>proc := p\<rparr>) x = Running" for p
    using assms by (simp add: jinv_def runner_ok_def status_at_def)
  then have "job_moves (q\<lparr>proc := p\<rparr>) (finishLocked w now x err (q\<lparr>proc := p\<rparr>)) r" for p
    by (simp add: finishLocked_moves)
  then have m: "job_moves q (finishLocked w now x err (q\<lparr>proc := p\<rparr>)) r" for p
    by (simp add: job_moves_def status_at_def)
  show ?thesis
    using m[of "proc q"] m[of "removeSession i (proc q)"] by (cases err) (simp_all add: runJob_end_def)
qed

lemma jstep_moves:
  assumes "jstep w q q'" and "jinv q" and "r < nextID q"
  shows "job_moves q q' r"
  using assms
  by (induction rule: jstep.induct)
    (auto simp: AddJob_store DeleteJob_store intro: StartJob_moves StopJob_moves runJob_begin_moves runJob_end_moves)

lemma jstep_nextID: "jstep w q q' \<Longrightarrow> nextID q \<le> nextID q'"
  by (induction rule: jstep.induct)
    (auto simp: AddJob_def StartJob_def StopJob_def DeleteJob_def runJob_begin_def runJob_end_def Let_def
      job_simps split: option.splits jobstatus.splits prod.splits)

section \<open>Properties\<close>

lemma length_by_status:
  "length (filter (\<lambda>r. st r = Running) xs) + (length (filter (\<lambda>r. st r = Waiting) xs) +
     (length (filter (\<lambda>r. st r = Queued) xs) + length (filter (\<lambda>r. finished (st r)) xs))) = length xs"
  by (induction xs) (auto simp: finished_def intro: jobstatus.exhaust)

lemma ListJobs_all:
  "length (ListJobs q) = length (jobs q) \<and> set (ListJobs q) = snapshot q ` set (jobs q)"
proof
  show "length (ListJobs q) = length (jobs q)"
    using length_by_status[of "status_at q" "jobs q"] by (simp add: ListJobs_def jobs_with_def)
  have "status_at q r = Running \<or> status_at q r = Waiting \<or> status_at q r = Queued \<or> finished (status_at q r)" for r
    by (cases "status_at q r") simp_all
  then have "set (jobs q) \<subseteq> {r \<in> set (jobs q). status_at q r = Running} \<union> {r \<in> set (jobs q). status_at q r = Waiting}
      \<union> {r \<in> set (jobs q). status_at q r = Queued} \<union> {r \<in> set (jobs q). finished (status_at q r)}"
    by blast
  then show "set (ListJobs q) = snapshot q ` set (jobs q)"
    unfolding ListJobs_def jobs_with_def by (simp add: image_Un [symmetric] Un_assoc del: image_Un) blast
qed

text \<open>C8: in every interleaving of web requests, runner and divider: job ids are
  distinct and found again, the list is in the order of the ids, the page's list
  shows every job once, at most one job runs, and no more than 1000 jobs wait and 50
  finished ones are kept.\<close>

theorem job_queue_safe:
  assumes "jstart q0" and "(jstep w)\<^sup>*\<^sup>* q0 q"
  shows "length (runningJobs q) \<le> 1 \<and> sorted_wrt (<) (jobs q) \<and>
    (\<forall>r \<in> set (jobs q). find_job (ID (store q r)) q = Some r) \<and>
    length (ListJobs q) = length (jobs q) \<and> set (ListJobs q) = snapshot q ` set (jobs q) \<and>
    count_if (\<lambda>r. pending (status_at q r)) (jobs q) \<le> 1000 \<and>
    count_if (\<lambda>r. finished (status_at q r)) (jobs q) \<le> 50"
proof -
  have i: "jinv q" using jobq.inv_reach[OF assms] .
  then have o: "order_ok q" by (simp add: jinv_def)
  obtain x where "set (jobs_with (\<lambda>s. s = Running) q) \<subseteq> {x}"
    using i by (cases "runner q") (auto simp: jinv_def runner_ok_def none_running_def jobs_with_def)
  moreover have "distinct (jobs_with (\<lambda>s. s = Running) q)"
    using order_distinct[OF o] by (simp add: jobs_with_def)
  ultimately have "length (jobs_with (\<lambda>s. s = Running) q) \<le> 1"
    by (metis card_mono card.empty card.insert distinct_card empty_iff finite.intros One_nat_def)
  then show ?thesis
    using i o find_job_ID[OF o] ListJobs_all[of q]
    by (auto simp: runningJobs_def jinv_def order_ok_def limits_ok_def maxPendingJobs_def maxFinishedJobs_def)
qed

abbreviation web0 :: webconf where
  "web0 \<equiv> \<lparr>webUploadDir = ''/up'', webProcessor = True\<rparr>"

definition queue0 :: jobqueue where
  "queue0 = NewJobQueue processor0 {''/up/a.nzb''}"

definition queue1 :: jobqueue where
  "queue1 = fst (AddJob (\<lambda>_. Some nzb_two) 7 ''/up/a.nzb'' ''a'' queue0)"

definition queue2 :: jobqueue where
  "queue2 = fst (StartJob ''job-1'' queue1)"

lemma queue_runs:
  "jstart queue0" "(jstep web0)\<^sup>*\<^sup>* queue0 queue1" "(jstep web0)\<^sup>*\<^sup>* queue0 queue2"
proof -
  show "jstart queue0" by (auto simp: jstart_def queue0_def)
  have a: "jstep web0 queue0 queue1" unfolding queue1_def by (rule jstep.Add)
  have "jstep web0 queue1 queue2" unfolding queue2_def by (rule jstep.Start)
  with a show "(jstep web0)\<^sup>*\<^sup>* queue0 queue1" "(jstep web0)\<^sup>*\<^sup>* queue0 queue2" by auto
qed

lemma queue1_simps:
  "jobs queue1 = [1]" "status_at queue1 1 = Queued" "ID (store queue1 1) = ''job-1''" "nextID queue1 = 2"
  "runner queue1 = Asleep" "jobs queue2 = [1]" "status_at queue2 1 = Waiting" "runner queue2 = Asleep" "nextID queue2 = 2"
  "\<not> stopRequested (store queue2 1)"
proof -
  have d: "dec (Suc 0) = ''1''" using digit_chars(2) by (simp add: dec.simps[of "Suc 0"])
  have 1: "jobs queue1 = [1]" "status_at queue1 1 = Queued" "ID (store queue1 1) = ''job-1''" "nextID queue1 = 2"
    "runner queue1 = Asleep"
    and s: "\<not> stopRequested (store queue1 1)"
    by (simp_all add: queue1_def queue0_def NewJobQueue_def AddJob_def Let_def maxPendingJobs_def
        status_at_def blank_job_def job_id_def d)
  from 1 show "jobs queue1 = [1]" "status_at queue1 1 = Queued" "ID (store queue1 1) = ''job-1''"
    "nextID queue1 = 2" "runner queue1 = Asleep"
    by simp_all
  have "find_job ''job-1'' queue1 = Some 1"
    using 1(1,3) by (simp add: find_job_def)
  then show "jobs queue2 = [1]" "status_at queue2 1 = Waiting" "runner queue2 = Asleep" "nextID queue2 = 2"
    "\<not> stopRequested (store queue2 1)"
    using 1 s by (simp_all add: queue2_def StartJob_def set_job_simps status_at_def)
qed

theorem job_queue_safe_witness: "find_job ''job-1'' queue1 = Some 1"
  using job_queue_safe[OF queue_runs(1,2)] queue1_simps by simp

text \<open>C9: no started job is forgotten, and jobs run in the order they were added:
  while a job waits, the runner is not asleep without a wake-up pending; when it
  looks for work it finds a waiting job at least as old; and the job it has chosen
  last is waiting in the list or was canceled meanwhile.\<close>

theorem waiting_job_not_forgotten:
  assumes "jstart q0" and "(jstep w)\<^sup>*\<^sup>* q0 q" and "r \<in> set (jobs q)" and "status_at q r = Waiting"
  shows "(runner q = Asleep \<longrightarrow> wake q \<and> (\<exists>q'. jstep w q q' \<and> runner q' = Scanning)) \<and>
    (\<exists>r' \<le> r. nextWaiting q = Some r' \<and> status_at q r' = Waiting \<and> r' \<in> set (jobs q)) \<and>
    (\<forall>r'. runner q = Chosen r' \<longrightarrow> status_at q r' = Waiting \<and> r' \<in> set (jobs q) \<or> finished (status_at q r'))"
proof -
  have i: "jinv q" using jobq.inv_reach[OF assms(1,2)] .
  have 1: "wake q" if "runner q = Asleep"
    using i assms(3,4) that by (auto simp: jinv_def wake_ok_def)
  have 2: "\<exists>q'. jstep w q q' \<and> runner q' = Scanning" if "runner q = Asleep"
    using jstep.Wake[OF that 1[OF that]] by (intro exI conjI) auto
  have sorted: "sorted_wrt (<) (jobs q)"
    using i by (simp add: jinv_def order_ok_def)
  obtain r' where r': "nextWaiting q = Some r'"
    using find_NoneD[of "\<lambda>x. status_at q x = Waiting" "jobs q" r] assms(3,4)
    by (cases "nextWaiting q") (auto simp: nextWaiting_def)
  then have "r' \<le> r" "status_at q r' = Waiting" "r' \<in> set (jobs q)"
    using find_sorted_least[OF _ sorted assms(3), of "\<lambda>x. status_at q x = Waiting" r'] assms(4)
      find_SomeD[of _ "jobs q" r'] by (auto simp: nextWaiting_def)
  moreover have "status_at q x = Waiting \<and> x \<in> set (jobs q) \<or> finished (status_at q x)" if "runner q = Chosen x" for x
    using i that by (cases "status_at q x") (auto simp: jinv_def runner_ok_def none_running_def)
  ultimately show ?thesis using 1 2 r' by blast
qed

theorem waiting_job_not_forgotten_witness: "nextWaiting queue2 = Some 1 \<and> wake queue2"
  using waiting_job_not_forgotten[OF queue_runs(1,3), of 1] queue1_simps
  by (simp add: nextWaiting_def)

text \<open>A job only moves forward, from queued to waiting, then running or failed,
  and from running to completed or failed; and once it has finished, no step
  changes anything of it again.\<close>

theorem job_state_machine:
  assumes "jstart q0" and "(jstep w)\<^sup>*\<^sup>* q0 q" and "r < nextID q"
  shows "(jstep w q q' \<longrightarrow> job_edge (status_at q r) (status_at q' r)) \<and>
    (finished (status_at q r) \<longrightarrow> (jstep w)\<^sup>*\<^sup>* q q' \<longrightarrow> store q' r = store q r)"
proof -
  have i: "jinv q" using jobq.inv_reach[OF assms(1,2)] .
  have "store q' r = store q r" if "finished (status_at q r)" "(jstep w)\<^sup>*\<^sup>* q q'"
  proof -
    have "store q' r = store q r \<and> r < nextID q'"
    proof (rule jobq.run_stable[of "\<lambda>s. store s r = store q r \<and> r < nextID s", OF _ i _ that(2)])
      fix s s' assume s: "jinv s" "store s r = store q r \<and> r < nextID s" "jstep w s s'"
      then have "finished (status_at s r)" using that(1) by (simp add: status_at_def)
      then show "store s' r = store q r \<and> r < nextID s'"
        using jstep_moves[OF s(3,1)] jstep_nextID[OF s(3)] s(2) by (simp add: job_moves_def)
    qed (use assms(3) in simp)
    then show ?thesis ..
  qed
  then show ?thesis
    using jstep_moves[OF _ i assms(3)] by (auto simp: job_moves_def)
qed

theorem job_state_machine_witness: "job_edge (status_at queue1 1) (status_at queue2 1)"
proof -
  have "jstep web0 queue1 queue2" unfolding queue2_def by (rule jstep.Start)
  then show ?thesis
    using job_state_machine[OF queue_runs(1,2), of 1 queue2] queue1_simps(4) by simp
qed

text \<open>When a job finishes, the queue keeps every unfinished job, and of the
  finished ones, the job itself included, the 50 added last; the job counts as
  completed exactly when it had no error and was not asked to stop.\<close>

theorem finishLocked_keeps_newest:
  assumes "q' = finishLocked w now r err q"
  shows "filter (\<lambda>x. \<not> finished (status_at q' x)) (jobs q') = filter (\<lambda>x. \<not> finished (status_at q' x)) (jobs q) \<and>
    filter (\<lambda>x. finished (status_at q' x)) (jobs q') =
      (let fs = filter (\<lambda>x. finished (status_at q' x)) (jobs q) in drop (length fs - 50) fs) \<and>
    status_at q' r = (if err = None \<and> \<not> stopRequested (store q r) then Completed else Failed) \<and>
    (\<forall>x. x \<noteq> r \<longrightarrow> store q' x = store q x)"
proof -
  have eq: "(\<lambda>x. finished (status_at q' x)) = (\<lambda>x. fin_at q r x)"
    and eq2: "(\<lambda>x. \<not> finished (status_at q' x)) = (\<lambda>x. \<not> fin_at q r x)"
    by (auto simp: assms status_finishLocked)
  have "jobs q' = drop_first (\<lambda>x. fin_at q r x) (length (filter (\<lambda>x. fin_at q r x) (jobs q)) - 50) (jobs q)"
    unfolding assms jobs_finishLocked maxFinishedJobs_def count_if_def ..
  then have "filter (\<lambda>x. \<not> fin_at q r x) (jobs q') = filter (\<lambda>x. \<not> fin_at q r x) (jobs q)"
    and "filter (\<lambda>x. fin_at q r x) (jobs q') =
      drop (length (filter (\<lambda>x. fin_at q r x) (jobs q)) - 50) (filter (\<lambda>x. fin_at q r x) (jobs q))"
    by (simp_all only: filter_drop_first filter_not_drop_first)
  then show ?thesis
    unfolding eq eq2 Let_def by (simp add: assms status_finishLocked finishLocked_simps)
qed

theorem finishLocked_keeps_newest_witness:
  "status_at (finishLocked web0 9 1 None queue2) 1 = Completed"
  using finishLocked_keeps_newest[OF refl, of web0 9 1 None queue2] queue1_simps(10) by simp

text \<open>The counts a web page reads never exceed the total, and when the session's
  counts add up to at most its total, they are exactly its counts.\<close>

theorem setProgress_bounded:
  assumes "p_total p \<noteq> 0"
  shows "ArticlesProcessed (setProgress p j) \<le> TotalArticles (setProgress p j) \<and>
    ArticlesDone (setProgress p j) \<le> TotalArticles (setProgress p j) \<and>
    fst (Progress (setProgress p j)) \<le> snd (Progress (setProgress p j)) \<and>
    (unat (p_done p) + unat (p_dead p) + unat (p_notarget p) \<le> unat (p_total p) \<longrightarrow>
      unat (ArticlesProcessed (setProgress p j)) = unat (p_done p) + unat (p_dead p) + unat (p_notarget p) \<and>
      ArticlesDone (setProgress p j) = p_done p \<and>
      ArticlesDone (setProgress p j) \<le> ArticlesProcessed (setProgress p j))"
proof -
  let ?s = "p_done p + p_dead p + p_notarget p"
  have "unat ?s = unat (p_done p) + unat (p_dead p) + unat (p_notarget p)"
    if "unat (p_done p) + unat (p_dead p) + unat (p_notarget p) \<le> unat (p_total p)"
    using that unsigned_less[of "p_total p", where 'a = nat] by (simp add: unat_word_ariths)
  then show ?thesis
    using assms by (auto simp: setProgress_def Let_def word_le_nat_alt min_def)
qed

theorem setProgress_bounded_witness:
  "unat (ArticlesProcessed (setProgress \<lparr>p_total = 9, p_done = 4, p_dead = 2, p_notarget = 1, p_cached = 3\<rparr> blank_job)) = 7"
  using setProgress_bounded[of "\<lparr>p_total = 9, p_done = 4, p_dead = 2, p_notarget = 1, p_cached = 3\<rparr>" blank_job]
  by simp

end
