(* ===== verification/Yenc.thy ===== *)
theory Yenc
  imports Strings
begin

text \<open>
  \<open>yenc/yenc.go\<close>: the yEnc decoder, in the three ways the program drives it
  (all bytes at once, all lines at once, line by line), with its four line
  decoders, and the encoder of \<open>tools/nntpseed/main.go\<close> it is tested with.
  Lines are strings, decoded data is a list of bytes. A \<open>*Decoder\<close> is a value
  that each method returns updated; \<open>Buf\<close>, a buffered reader over a byte slice,
  is the list of the lines left in it (each with its line feed; an unfinished
  last line only ever makes \<open>ReadString\<close> fail, so it is dropped).
\<close>

section \<open>Bytes and checksums\<close>

type_synonym bytes = "8 word list"

definition byte_of :: "char \<Rightarrow> 8 word" where
  "byte_of c = of_nat (of_char c)"

definition char_of_byte :: "8 word \<Rightarrow> char" where
  "char_of_byte b = char_of (unat b)"

unbundle bit_operations_syntax

text \<open>\<open>hash/crc32\<close> with the IEEE polynomial, bit by bit.\<close>

definition crc_shift :: "32 word \<Rightarrow> 32 word" where
  "crc_shift c = (if bit c 0 then drop_bit 1 c XOR 0xEDB88320 else drop_bit 1 c)"

definition crc_byte :: "32 word \<Rightarrow> 8 word \<Rightarrow> 32 word" where
  "crc_byte c b = (crc_shift ^^ 8) (c XOR ucast b)"

definition crc_write :: "32 word \<Rightarrow> bytes \<Rightarrow> 32 word" where
  "crc_write c bs = NOT (foldl crc_byte (NOT c) bs)"

definition crc32 :: "bytes \<Rightarrow> 32 word" where
  "crc32 bs = crc_write 0 bs"

lemma crc_write_append: "crc_write c (xs @ ys) = crc_write (crc_write c xs) ys"
  by (simp add: crc_write_def)

lemma crc_write_Nil [simp]: "crc_write c [] = c"
  by (simp add: crc_write_def)

lemma crc_write_crc32 [simp]: "crc_write (crc32 xs) ys = crc32 (xs @ ys)"
  by (simp add: crc32_def crc_write_append)

lemma crc32_Nil [simp]: "crc32 [] = 0"
  by (simp add: crc32_def)

section \<open>Line decoders\<close>

text \<open>\<open>DecodeLine\<close>, with \<open>awaitingSpecial\<close> carried from line to line.\<close>

fun DecodeLine :: "bool \<Rightarrow> string \<Rightarrow> bytes \<times> bool" where
  "DecodeLine sp [] = ([], sp)"
| "DecodeLine sp (c # cs) =
     (if sp then (let (r, s) = DecodeLine False cs in ((((byte_of c - 42) AND 255) - 64) # r, s))
      else if c = CHR ''='' then DecodeLine True cs
      else (let (r, s) = DecodeLine False cs in ((byte_of c - 42) # r, s)))"

text \<open>\<open>DecodeLineNew\<close>: \<open>nil\<close> when the line ends in an escape character.\<close>

fun decode_new :: "bytes \<Rightarrow> string \<Rightarrow> bytes" where
  "decode_new acc [] = acc"
| "decode_new acc (c # cs) =
     (if c = CHR ''='' then
        (case cs of [] \<Rightarrow> [] | e # cs' \<Rightarrow> decode_new (acc @ [byte_of e - 42 - 64]) cs')
      else decode_new (acc @ [byte_of c - 42]) cs)"

definition DecodeLineNew :: "string \<Rightarrow> bytes" where
  "DecodeLineNew s = decode_new [] s"

text \<open>\<open>DecodeLineSIMD1\<close>: runs up to the next escape character; \<open>None\<close> is \<open>false\<close>.\<close>

definition plain_run :: "string \<Rightarrow> string" where
  "plain_run s = takeWhile (\<lambda>c. c \<noteq> CHR ''='') s"

function DecodeLineSIMD1 :: "bytes \<Rightarrow> string \<Rightarrow> bytes option" where
  "DecodeLineSIMD1 decoded s =
     (if s = [] then Some decoded
      else (let decoded' = decoded @ map (\<lambda>c. byte_of c - 42) (plain_run s);
                rest = drop (length (plain_run s)) s
            in case rest of
                 [] \<Rightarrow> Some decoded'
               | [c] \<Rightarrow> None
               | c # e # rest' \<Rightarrow> DecodeLineSIMD1 (decoded' @ [byte_of e - 42 - 64]) rest'))"
  by pat_completeness auto
termination
proof (relation "measure (\<lambda>(_, s). length s)")
  fix decoded decoded' s rest c e' rest' v v'
  assume "s \<noteq> []" and r: "rest = drop (length (plain_run s)) s" "rest = c # v" "v = e' # rest'"
  have "length (c # e' # rest') \<le> length s"
    using r by (metis length_drop diff_le_self)
  then show "((decoded' @ [byte_of e' - 42 - 64], rest'), decoded, s) \<in> measure (\<lambda>(_, s). length s)"
    by simp
qed simp

declare DecodeLineSIMD1.simps [simp del]

text \<open>
  \<open>DecodeLineSIMD2\<close> decodes in place: one array is read at \<open>r\<close> and written at
  \<open>w\<close>, and \<open>Sub42Bulk\<close> copies between overlapping parts of it.
\<close>

fun Sub42Bulk :: "nat \<Rightarrow> nat \<Rightarrow> nat \<Rightarrow> 8 word list \<Rightarrow> 8 word list" where
  "Sub42Bulk dst src 0 a = a"
| "Sub42Bulk dst src (Suc n) a = Sub42Bulk (Suc dst) (Suc src) n (a[dst := a ! src - 42])"

fun run_end :: "8 word list \<Rightarrow> nat \<Rightarrow> nat \<Rightarrow> nat" where
  "run_end a r 0 = r"
| "run_end a r (Suc n) = (if r < length a \<and> a ! r \<noteq> 61 then run_end a (Suc r) n else r)"

fun simd2_loop :: "nat \<Rightarrow> 8 word list \<Rightarrow> nat \<Rightarrow> nat \<Rightarrow> (8 word list \<times> nat) option" where
  "simd2_loop 0 a r w = Some (a, w)"
| "simd2_loop (Suc n) a r w =
     (if r \<ge> length a then Some (a, w)
      else (let r1 = run_end a r (length a - r);
                a1 = Sub42Bulk w r (r1 - r) a;
                w1 = w + (r1 - r)
            in if r1 < length a \<and> a1 ! r1 = 61 then
                 (if r1 + 1 \<ge> length a then None
                  else simd2_loop n (a1[w1 := a1 ! (r1 + 1) - 42 - 64]) (r1 + 2) (w1 + 1))
               else simd2_loop n a1 r1 w1))"

definition DecodeLineSIMD2 :: "string \<Rightarrow> bytes option" where
  "DecodeLineSIMD2 s =
     map_option (\<lambda>(a, w). take w a) (simd2_loop (Suc (length s)) (map byte_of s) 0 0)"

text \<open>What they all should compute: \<open>None\<close> when the line ends inside an escape.\<close>

fun ydecode :: "string \<Rightarrow> bytes option" where
  "ydecode [] = Some []"
| "ydecode (c # cs) =
     (if c = CHR ''='' then
        (case cs of [] \<Rightarrow> None | e # cs' \<Rightarrow> map_option (\<lambda>r. (byte_of e - 106) # r) (ydecode cs'))
      else map_option (\<lambda>r. (byte_of c - 42) # r) (ydecode cs))"

section \<open>Lemmas: the line decoders agree\<close>

lemma unat_byte_of [simp]: "unat (byte_of c) = of_char c"
  by (simp add: byte_of_def unsigned_of_nat take_bit_eq_mod)

lemma byte_of_inj [simp]: "byte_of c = byte_of d \<longleftrightarrow> c = d"
  by (metis unat_byte_of of_char_eq_iff)

lemma byte_of_char_of_byte [simp]: "byte_of (char_of_byte b) = b"
proof -
  have "unat b < 256" using unsigned_less[of b, where 'a = nat] by simp
  then show ?thesis by (simp add: byte_of_def char_of_byte_def)
qed

lemma byte_of_61 [simp]: "byte_of c = 61 \<longleftrightarrow> c = CHR ''=''"
proof -
  have "byte_of (CHR ''='') = 61" by (simp add: byte_of_def)
  then show ?thesis by (metis byte_of_inj)
qed

lemma and_255 [simp]: "(x :: 8 word) AND 255 = x"
proof -
  have "(255 :: 8 word) = - 1" by simp
  then show ?thesis by (simp only: and.right_neutral)
qed

lemma minus_42_64 [simp]: "(x :: 8 word) - 42 - 64 = x - 106"
  by simp

lemma decode_new_ydecode:
  "decode_new acc s = (case ydecode s of None \<Rightarrow> [] | Some b \<Rightarrow> acc @ b)"
  by (induction acc s rule: decode_new.induct) (auto split: option.splits list.splits)

lemma DecodeLine_Some: "ydecode s = Some b \<Longrightarrow> DecodeLine False s = (b, False)"
  by (induction s arbitrary: b rule: ydecode.induct) (auto split: if_splits list.splits)

lemma DecodeLine_None: "ydecode s = None \<Longrightarrow> snd (DecodeLine False s)"
  by (induction s rule: ydecode.induct) (auto simp: split_beta split: if_splits list.splits)

lemma ydecode_plain:
  "\<forall>c \<in> set p. c \<noteq> CHR ''='' \<Longrightarrow>
   ydecode (p @ t) = map_option (\<lambda>r. map (\<lambda>c. byte_of c - 42) p @ r) (ydecode t)"
  by (induction p) (auto simp: map_option_case split: option.splits)

lemma plain_run_plain: "\<forall>c \<in> set (plain_run s). c \<noteq> CHR ''=''"
  by (auto simp: plain_run_def dest: set_takeWhileD)

lemma plain_run_split: "s = plain_run s @ drop (length (plain_run s)) s"
  by (simp add: plain_run_def dropWhile_eq_drop[symmetric])

lemma plain_run_rest: "drop (length (plain_run s)) s = c # t \<Longrightarrow> c = CHR ''=''"
  using hd_dropWhile[of "\<lambda>c. c \<noteq> CHR ''=''" s]
  by (simp add: plain_run_def dropWhile_eq_drop[symmetric])

lemma SIMD1_ydecode: "DecodeLineSIMD1 acc s = map_option (\<lambda>b. acc @ b) (ydecode s)"
proof (induction acc s rule: DecodeLineSIMD1.induct)
  case (1 acc s)
  let ?p = "plain_run s" and ?t = "drop (length (plain_run s)) s"
  have y: "ydecode s = map_option (\<lambda>r. map (\<lambda>c. byte_of c - 42) ?p @ r) (ydecode ?t)"
    by (subst plain_run_split) (rule ydecode_plain[OF plain_run_plain])
  show ?case
  proof (cases "s = []")
    case True
    then show ?thesis by (simp add: DecodeLineSIMD1.simps)
  next
    case False
    show ?thesis
    proof (cases ?t)
      case Nil
      then show ?thesis using False y by (simp add: DecodeLineSIMD1.simps[of acc s])
    next
      case (Cons c u)
      then have c: "c = CHR ''=''" by (rule plain_run_rest)
      show ?thesis
      proof (cases u)
        case Nil
        then show ?thesis using False y Cons c by (simp add: DecodeLineSIMD1.simps[of acc s])
      next
        case (Cons e v)
        then have t: "?t = c # e # v" using \<open>?t = c # u\<close> by simp
        show ?thesis
          using 1[OF False refl refl t refl] False
          by (simp add: DecodeLineSIMD1.simps[of acc s] y t c option.map_comp o_def)
      qed
    qed
  qed
qed

lemma Sub42Bulk_spec:
  assumes "dst \<le> src" and "src + n \<le> length a"
  shows "length (Sub42Bulk dst src n a) = length a \<and>
    take (dst + n) (Sub42Bulk dst src n a) = take dst a @ map (\<lambda>x. x - 42) (take n (drop src a)) \<and>
    drop (src + n) (Sub42Bulk dst src n a) = drop (src + n) a"
  using assms
proof (induction n arbitrary: dst src a)
  case (Suc n)
  let ?a = "a[dst := a ! src - 42]"
  have "take (Suc dst) ?a = take dst a @ [a ! src - 42]"
    using Suc.prems by (simp add: take_Suc_conv_app_nth)
  moreover have "drop (Suc src) ?a = drop (Suc src) a"
    using Suc.prems by simp
  moreover have "drop src a = a ! src # drop (Suc src) a"
    using Suc.prems by (simp add: Cons_nth_drop_Suc)
  moreover have "drop (Suc src + n) ?a = drop (Suc src + n) a"
    using Suc.prems by simp
  ultimately show ?case
    using Suc.IH[of "Suc dst" "Suc src" ?a] Suc.prems by simp
qed simp

lemma run_end_spec:
  "r + n \<le> length a \<Longrightarrow> run_end a r n = r + length (takeWhile (\<lambda>b. b \<noteq> 61) (take n (drop r a)))"
proof (induction n arbitrary: r)
  case (Suc n)
  then have "drop r a = a ! r # drop (Suc r) a" by (simp add: Cons_nth_drop_Suc)
  then show ?case using Suc by simp
qed simp

lemma takeWhile_byte_of: "takeWhile (\<lambda>b. b \<noteq> 61) (map byte_of t) = map byte_of (plain_run t)"
  by (simp add: takeWhile_map plain_run_def o_def)

lemma simd2_loop_spec:
  assumes "w \<le> r" and "drop r a = map byte_of t" and "r \<le> length a" and "length t < n"
  shows "case ydecode t of None \<Rightarrow> simd2_loop n a r w = None
    | Some b \<Rightarrow> \<exists>a'. simd2_loop n a r w = Some (a', w + length b) \<and> take (w + length b) a' = take w a @ b"
  using assms
proof (induction n arbitrary: a r w t)
  case (Suc n)
  show ?case
  proof (cases "t = []")
    case True
    then have "r \<ge> length a" using Suc.prems(2) by simp
    then show ?thesis using True by simp
  next
    case False
    let ?p = "plain_run t" and ?u = "drop (length (plain_run t)) t"
    let ?k = "length ?p"
    let ?a1 = "Sub42Bulk w r ?k a"
    have len: "length a = r + length t"
      using Suc.prems(2,3) by (metis length_drop length_map le_add_diff_inverse)
    have kt: "?k \<le> length t" by (simp add: plain_run_def length_takeWhile_le)
    have re: "run_end a r (length a - r) = r + ?k"
      using Suc.prems(2) len by (simp add: run_end_spec takeWhile_byte_of)
    have tk: "take ?k (drop r a) = map byte_of ?p"
      using plain_run_split[of t] unfolding Suc.prems(2) by (metis append_eq_conv_conj take_map)
    have s: "length ?a1 = length a" "take (w + ?k) ?a1 = take w a @ map (\<lambda>c. byte_of c - 42) ?p"
      "drop (r + ?k) ?a1 = map byte_of ?u"
      using Sub42Bulk_spec[of w r ?k a] Suc.prems(1) len kt tk Suc.prems(2)
      by (simp_all add: drop_map o_def) (metis Suc.prems(2) add.commute drop_drop drop_map)
    have y: "ydecode t = map_option (\<lambda>x. map (\<lambda>c. byte_of c - 42) ?p @ x) (ydecode ?u)"
      by (subst plain_run_split) (rule ydecode_plain[OF plain_run_plain])
    have step: "simd2_loop (Suc n) a r w =
      (if r + ?k < length a \<and> ?a1 ! (r + ?k) = 61 then
         (if r + ?k + 1 \<ge> length a then None
          else simd2_loop n (?a1[w + ?k := ?a1 ! (r + ?k + 1) - 42 - 64]) (r + ?k + 2) (w + ?k + 1))
       else simd2_loop n ?a1 (r + ?k) (w + ?k))"
    proof -
      have "length a - r = length t" "\<not> length a \<le> r" using len False by simp_all
      then show ?thesis using re by (simp add: Let_def)
    qed
    show ?thesis
    proof (cases ?u)
      case Nil
      then have k: "?k = length t" using kt by simp
      then have "simd2_loop (Suc n) a r w = Some (?a1, w + ?k)"
        unfolding step using len Suc.prems(4) False s(1) by (cases n) simp_all
      then show ?thesis using y Nil s(2) by simp
    next
      case (Cons c v)
      then have c: "c = CHR ''=''" by (rule plain_run_rest)
      have lu: "length t = ?k + Suc (length v)"
        using Cons by (metis add_diff_inverse_nat kt le_add_diff_inverse length_Cons length_drop)
      have at: "?a1 ! (r + ?k) = 61"
      proof -
        have "hd (drop (r + ?k) ?a1) = 61" unfolding s(3) Cons c by (simp add: byte_of_def)
        then show ?thesis using s(1) len lu by (simp add: hd_drop_conv_nth)
      qed
      show ?thesis
      proof (cases v)
        case Nil
        then have "simd2_loop (Suc n) a r w = None"
          unfolding step using at len lu by simp
        then show ?thesis using y Cons c Nil by simp
      next
        case (Cons e v')
        let ?a2 = "?a1[w + ?k := byte_of e - 106]"
        have d1: "drop (r + ?k + 1) ?a1 = byte_of e # map byte_of v'"
          using s(3) \<open>?u = c # v\<close> Cons by (metis drop_Suc drop_drop list.sel(3) list.simps(9) plus_1_eq_Suc tl_drop add.commute)
        then have e: "?a1 ! (r + ?k + 1) = byte_of e"
          using s(1) len lu Cons by (metis drop_eq_Nil hd_drop_conv_nth linorder_not_less list.discI list.sel(1))
        have d2: "drop (r + ?k + 2) ?a2 = map byte_of v'"
        proof -
          have "drop (r + ?k + 2) ?a2 = drop (r + ?k + 2) ?a1"
            using Suc.prems(1) by simp
          also have "\<dots> = drop 1 (drop (r + ?k + 1) ?a1)" by simp
          finally show ?thesis unfolding d1 by simp
        qed
        have tk2: "take (w + ?k + 1) ?a2 = take w a @ map (\<lambda>c. byte_of c - 42) ?p @ [byte_of e - 106]"
        proof -
          have "w + ?k < length ?a1" using s(1) len lu Suc.prems(1) by simp
          then have "take (w + ?k + 1) ?a2 = take (w + ?k) ?a1 @ [byte_of e - 106]"
            by (simp add: take_Suc_conv_app_nth)
          then show ?thesis unfolding s(2) by simp
        qed
        have run: "simd2_loop (Suc n) a r w = simd2_loop n ?a2 (r + ?k + 2) (w + ?k + 1)"
          unfolding step using at e len lu Cons by simp
        have IH: "case ydecode v' of None \<Rightarrow> simd2_loop n ?a2 (r + ?k + 2) (w + ?k + 1) = None
          | Some b \<Rightarrow> \<exists>a'. simd2_loop n ?a2 (r + ?k + 2) (w + ?k + 1) = Some (a', w + ?k + 1 + length b) \<and>
              take (w + ?k + 1 + length b) a' = take (w + ?k + 1) ?a2 @ b"
          by (rule Suc.IH) (use Suc.prems(1,4) d2 s(1) len lu Cons in simp_all)
        show ?thesis
          using IH unfolding run tk2 y \<open>?u = c # v\<close> c Cons
          by (cases "ydecode v'") (auto simp: ac_simps)
      qed
    qed
  qed
qed simp

lemma SIMD2_ydecode: "DecodeLineSIMD2 s = ydecode s"
proof -
  have "case ydecode s of None \<Rightarrow> simd2_loop (Suc (length s)) (map byte_of s) 0 0 = None
    | Some b \<Rightarrow> \<exists>a'. simd2_loop (Suc (length s)) (map byte_of s) 0 0 = Some (a', 0 + length b) \<and>
        take (0 + length b) a' = take 0 (map byte_of s) @ b"
    by (rule simd2_loop_spec) simp_all
  then show ?thesis
    by (cases "ydecode s") (auto simp: DecodeLineSIMD2_def)
qed


section \<open>Decoder state\<close>

record part =
  part_Number :: int
  HeaderSize :: int
  part_Size :: int
  part_Begin :: int
  part_End :: int
  part_Name :: string
  cols :: int
  Crc32 :: "32 word"
  part_crcHash :: "32 word option"
  part_Body :: bytes
  BadCRC :: bool

record decoder =
  toCheck :: int
  Buf :: "string list option"
  Dat :: "string list option"
  Multipart :: bool
  total_parts :: int
  Parts :: "part list"
  Part :: part
  Fullcrc32 :: "32 word"
  dec_crcHash :: "32 word"
  awaitingSpecial :: bool

text \<open>The error values, without their texts.\<close>

datatype yerr = EOF | NoInput | NotAHeader | EmptyName | AlreadyProcessed | SizeMismatch
  | NoCrc | TrailerSyntax | OutOfOrder | IncompleteEscape | NoParts | FullCrcBad | NoFullCrc | UnknownMode

type_synonym 'a yres = "yerr + 'a"

definition new_part :: part where
  "new_part = \<lparr>part_Number = 0, HeaderSize = 0, part_Size = 0, part_Begin = 0, part_End = 0, part_Name = [],
     cols = 0, Crc32 = 0, part_crcHash = None, part_Body = [], BadCRC = False\<rparr>"

fun lines_of :: "string \<Rightarrow> string list" where
  "lines_of [] = []"
| "lines_of (c # cs) =
     (if c = CHR 0x0A then [c] # lines_of cs
      else case lines_of cs of [] \<Rightarrow> [] | l # ls \<Rightarrow> (c # l) # ls)"

text \<open>\<open>NewDecoder(nil, in1, in2, toCheck)\<close>; \<open>None\<close> is a nil slice.\<close>

definition NewDecoder :: "string option \<Rightarrow> string list option \<Rightarrow> int \<Rightarrow> decoder" where
  "NewDecoder in1 in2 n =
     (let d = \<lparr>toCheck = n, Buf = None, Dat = None, Multipart = False, total_parts = 0, Parts = [],
              Part = new_part, Fullcrc32 = 0, dec_crcHash = 0, awaitingSpecial = False\<rparr>
      in case in1 of
           Some b \<Rightarrow> d\<lparr>Buf := Some (lines_of b)\<rparr>
         | None \<Rightarrow>
             (case in2 of Some ls \<Rightarrow> d\<lparr>Dat := Some ls\<rparr>
              | None \<Rightarrow> d\<lparr>Part := new_part\<lparr>part_crcHash := Some 0\<rparr>\<rparr>))"

section \<open>Headers and trailer\<close>

text \<open>The words of a control line as \<open>key=value\<close>; words without \<open>=\<close> are skipped.\<close>

definition key_values :: "string \<Rightarrow> (string \<times> string) list" where
  "key_values s =
     concat (map (\<lambda>w. case split_on CHR ''='' (TrimSpace w) of k # v # _ \<Rightarrow> [(k, v)] | _ \<Rightarrow> [])
       (split_on CHR '' '' s))"

definition header_field :: "string \<times> string \<Rightarrow> decoder \<Rightarrow> decoder" where
  "header_field kv d =
     (if fst kv = ''size'' then d\<lparr>Part := (Part d)\<lparr>HeaderSize := fst (parse_int (snd kv))\<rparr>\<rparr>
      else if fst kv = ''line'' then d\<lparr>Part := (Part d)\<lparr>cols := fst (parse_int (snd kv))\<rparr>\<rparr>
      else if fst kv = ''part'' then d\<lparr>Part := (Part d)\<lparr>part_Number := fst (parse_int (snd kv))\<rparr>, Multipart := True\<rparr>
      else if fst kv = ''total'' then d\<lparr>total_parts := fst (parse_int (snd kv))\<rparr>
      else d)"

definition parse_header :: "string \<Rightarrow> decoder \<Rightarrow> decoder" where
  "parse_header s d =
     (if length s < 7 then d
      else case split_first ''name='' (drop 7 s) of
             Some (a, nm) \<Rightarrow> fold header_field (key_values a) (d\<lparr>Part := (Part d)\<lparr>part_Name := TrimSpace nm\<rparr>\<rparr>)
           | None \<Rightarrow> fold header_field (key_values (drop 7 s)) d)"

definition starts :: "string \<Rightarrow> string \<Rightarrow> bool" where
  "starts p s \<longleftrightarrow> take (length p) s = p"

text \<open>\<open>ReadHeader\<close>; \<open>line\<close> is \<open>None\<close> for a nil pointer.\<close>

definition ReadHeader :: "string option \<Rightarrow> bool \<Rightarrow> decoder \<Rightarrow> decoder yres" where
  "ReadHeader line chk d =
     (case Buf d of
        Some ls \<Rightarrow>
          (case dropWhile (\<lambda>s. \<not> starts ''=ybegin'' s) ls of
             [] \<Rightarrow> Inl EOF
           | s # rest \<Rightarrow> Inr (parse_header s (d\<lparr>Buf := Some rest\<rparr>)))
      | None \<Rightarrow>
      (case Dat d of
        Some ls \<Rightarrow>
          (case List.find (\<lambda>s. starts ''=ybegin'' s) ls of
             None \<Rightarrow> Inr (parse_header [] d)
           | Some s \<Rightarrow> Inr (parse_header s d))
      | None \<Rightarrow>
      (case line of
        None \<Rightarrow> Inl NoInput
      | Some s \<Rightarrow>
          if chk \<and> \<not> starts ''=ybegin '' s then Inl NotAHeader else Inr (parse_header s d))))"

definition part_field :: "string \<times> string \<Rightarrow> decoder \<Rightarrow> decoder" where
  "part_field kv d =
     (if fst kv = ''begin'' then d\<lparr>Part := (Part d)\<lparr>part_Begin := fst (parse_int (snd kv))\<rparr>\<rparr>
      else if fst kv = ''end'' then d\<lparr>Part := (Part d)\<lparr>part_End := fst (parse_int (snd kv))\<rparr>\<rparr>
      else d)"

text \<open>The slice \<open>s[6:]\<close> of a string that is too short panics.\<close>

definition parse_part_header :: "string \<Rightarrow> decoder \<Rightarrow> decoder yres go" where
  "parse_part_header s d =
     (if length s < 6 then Inl IndexOutOfRange
      else Inr (Inr (fold part_field (key_values (drop 6 s)) d)))"

definition ReadPartHeader :: "string \<Rightarrow> decoder \<Rightarrow> decoder yres go" where
  "ReadPartHeader line d =
     (case Buf d of
        Some ls \<Rightarrow>
          (case dropWhile (\<lambda>s. \<not> starts ''=ypart'' s) ls of
             [] \<Rightarrow> Inr (Inl EOF)
           | s # rest \<Rightarrow> parse_part_header s (d\<lparr>Buf := Some rest\<rparr>))
      | None \<Rightarrow>
      (case Dat d of
        Some ls \<Rightarrow>
          (case List.find (\<lambda>s. starts ''=ypart'' s) ls of
             None \<Rightarrow> parse_part_header line d
           | Some s \<Rightarrow> parse_part_header s d)
      | None \<Rightarrow>
          if length line > 6 \<and> starts ''=ypart '' line then parse_part_header line d
          else Inr (Inl NoInput)))"

definition trailer_field :: "string \<times> string \<Rightarrow> decoder \<Rightarrow> decoder yres" where
  "trailer_field kv d =
     (if fst kv = ''size'' then
        (case parse_int (snd kv) of (n, ok) \<Rightarrow>
           if ok then Inr (d\<lparr>Part := (Part d)\<lparr>part_Size := n\<rparr>\<rparr>) else Inl TrailerSyntax)
      else if fst kv = ''pcrc32'' then
        (case parse_hex32 (snd kv) of None \<Rightarrow> Inl TrailerSyntax
         | Some c \<Rightarrow> Inr (d\<lparr>Part := (Part d)\<lparr>Crc32 := c\<rparr>\<rparr>))
      else if fst kv = ''crc32'' then
        (case parse_hex32 (snd kv) of None \<Rightarrow> Inl TrailerSyntax
         | Some c \<Rightarrow> Inr (d\<lparr>Fullcrc32 := c\<rparr>))
      else if fst kv = ''part'' then
        (case parse_int (snd kv) of (n, ok) \<Rightarrow>
           if \<not> ok then Inl TrailerSyntax
           else if n \<noteq> part_Number (Part d) then Inl OutOfOrder else Inr d)
      else Inr d)"

fun trailer_fields :: "(string \<times> string) list \<Rightarrow> decoder \<Rightarrow> decoder yres" where
  "trailer_fields [] d = Inr d"
| "trailer_fields (kv # kvs) d =
     (case trailer_field kv d of Inl e \<Rightarrow> Inl e | Inr d' \<Rightarrow> trailer_fields kvs d')"

definition ParseTrailerNew :: "string \<Rightarrow> decoder \<Rightarrow> decoder yres" where
  "ParseTrailerNew line d = trailer_fields (key_values line) d"

section \<open>Bodies\<close>

definition trim_eol :: "string \<Rightarrow> string" where
  "trim_eol s = TrimRight s {CHR 0x0D, CHR 0x0A}"

text \<open>The loop of \<open>ReadBody\<close> over the buffered reader.\<close>

fun read_body_buf :: "string list \<Rightarrow> decoder \<Rightarrow> decoder yres" where
  "read_body_buf [] d = Inl EOF"
| "read_body_buf (l # ls) d =
     (let line = trim_eol l
      in if starts ''=yend'' line then ParseTrailerNew line (d\<lparr>Buf := Some ls\<rparr>)
         else (let (b, sp) = DecodeLine (awaitingSpecial d) line; p = Part d
               in read_body_buf ls (d\<lparr>awaitingSpecial := sp, dec_crcHash := crc_write (dec_crcHash d) b,
                    Part := p\<lparr>part_crcHash := map_option (\<lambda>c. crc_write c b) (part_crcHash p),
                               part_Body := part_Body p @ b\<rparr>\<rparr>)))"

text \<open>\<open>DecodeYenc\<close>: every line that is no control line is data.\<close>

fun DecodeYenc :: "string list \<Rightarrow> bytes \<Rightarrow> decoder \<Rightarrow> (bytes \<times> decoder) yres" where
  "DecodeYenc [] out d = Inr (out, d)"
| "DecodeYenc (l # ls) out d =
     (if starts ''=ybegin'' l \<or> starts ''=ypart'' l then DecodeYenc ls out d
      else if starts ''=yend'' l then
        (case ParseTrailerNew l d of Inl e \<Rightarrow> Inl e | Inr d' \<Rightarrow> DecodeYenc ls out d')
      else (case ydecode l of None \<Rightarrow> Inl IncompleteEscape | Some b \<Rightarrow> DecodeYenc ls (out @ b) d))"

text \<open>What \<open>ReadBody\<close> appends to the part, and to which checksums.\<close>

definition add_data :: "bool \<Rightarrow> bytes \<Rightarrow> decoder \<Rightarrow> decoder" where
  "add_data full b d =
     (let p = Part d
      in d\<lparr>Part := p\<lparr>part_crcHash := map_option (\<lambda>c. crc_write c b) (part_crcHash p), part_Body := part_Body p @ b\<rparr>,
           dec_crcHash := (if full then crc_write (dec_crcHash d) b else dec_crcHash d)\<rparr>)"

definition ReadBody :: "int \<Rightarrow> string \<Rightarrow> bool \<Rightarrow> decoder \<Rightarrow> decoder yres" where
  "ReadBody SimdMode line byline d =
     (let d0 = (if byline then d
                else d\<lparr>Part := (Part d)\<lparr>part_Body := [], part_crcHash := Some 0\<rparr>, awaitingSpecial := False\<rparr>)
      in case Buf d0 of
           Some ls \<Rightarrow> read_body_buf ls d0
         | None \<Rightarrow>
         (case Dat d0 of
           Some ls \<Rightarrow>
             (case DecodeYenc ls [] d0 of Inl e \<Rightarrow> Inl e | Inr (b, d1) \<Rightarrow> Inr (add_data True b d1))
         | None \<Rightarrow>
             if \<not> byline then Inl EOF
             else if starts ''=yend'' line then ParseTrailerNew line d0
             else if SimdMode = 0 then Inr (add_data False (DecodeLineNew line) d0)
             else if SimdMode = 1 then
               (case DecodeLineSIMD1 [] line of None \<Rightarrow> Inl IncompleteEscape | Some b \<Rightarrow> Inr (add_data True b d0))
             else if SimdMode = 2 then
               (case DecodeLineSIMD2 line of None \<Rightarrow> Inl IncompleteEscape | Some b \<Rightarrow> Inr (add_data True b d0))
             else Inl UnknownMode))"

section \<open>Validation and the whole decoder\<close>

text \<open>\<open>Part.Validate\<close>: the part it leaves, and its error.\<close>

definition part_Validate :: "part \<Rightarrow> part \<times> yerr option" where
  "part_Validate p =
     (if int (length (part_Body p)) \<noteq> part_Size p then (p, Some SizeMismatch)
      else if 0 < Crc32 p then
        (let h = (case part_crcHash p of None \<Rightarrow> crc32 (part_Body p) | Some c \<Rightarrow> c);
             p' = p\<lparr>part_crcHash := Some h\<rparr>
         in if h \<noteq> Crc32 p then (p'\<lparr>BadCRC := True, part_Body := []\<rparr>, None) else (p', None))
      else (p, Some NoCrc))"

definition decoder_Validate :: "decoder \<Rightarrow> yerr option" where
  "decoder_Validate d =
     (if 0 < Fullcrc32 d then (if dec_crcHash d \<noteq> Fullcrc32 d then Some FullCrcBad else None)
      else Some NoFullCrc)"

text \<open>
  The loop of \<open>run\<close>. \<open>seen\<close> is \<open>processed\<close>, \<open>chkd\<close> is \<open>checked\<close>. The result
  is the decoder, \<open>badcrc\<close> and the error; \<open>None\<close> means the fuel ran out. Every
  caller decodes with \<open>toCheck = 1\<close>, for which one unit is enough.
\<close>

fun run_loop ::
  "nat \<Rightarrow> (string \<times> int) set \<Rightarrow> int \<Rightarrow> decoder \<Rightarrow> (decoder \<times> bool \<times> yerr option) go option" where
  "run_loop 0 seen chkd d = None"
| "run_loop (Suc n) seen chkd d =
     (case ReadHeader None False (d\<lparr>Part := new_part\<rparr>) of
        Inl e \<Rightarrow> Some (Inr (d, False, Some e))
      | Inr d1 \<Rightarrow>
          if part_Name (Part d1) = [] then Some (Inr (d1, False, Some EmptyName))
          else if (part_Name (Part d1), part_Number (Part d1)) \<in> seen
          then Some (Inr (d1, False, Some AlreadyProcessed))
          else (case (if Multipart d1 then ReadPartHeader [] d1 else Inr (Inr d1)) of
             Inl p \<Rightarrow> Some (Inl p)
           | Inr (Inl e) \<Rightarrow> Some (Inr (d1, False, Some e))
           | Inr (Inr d2) \<Rightarrow>
               (case ReadBody 0 [] False d2 of
                  Inl e \<Rightarrow> Some (Inr (d2, False, Some e))
                | Inr d3 \<Rightarrow>
                    (case part_Validate (Part d3) of (p, err) \<Rightarrow>
                       if BadCRC p then Some (Inr (d3\<lparr>Part := p\<rparr>, True, None))
                       else case err of
                          Some e \<Rightarrow> Some (Inr (d3\<lparr>Part := p\<rparr>, False, Some e))
                        | None \<Rightarrow>
                            (let d4 = d3\<lparr>Part := p, Parts := Parts d3 @ [p]\<rparr>
                             in if 0 < toCheck d4 \<and> chkd + 1 = toCheck d4
                                then Some (Inr (d4, False, None))
                                else run_loop n (insert (part_Name (Part d1), part_Number (Part d1)) seen)
                                       (chkd + 1) d4)))))"

definition run_decoder :: "nat \<Rightarrow> decoder \<Rightarrow> (decoder \<times> bool \<times> yerr option) go option" where
  "run_decoder fuel d = run_loop fuel {} 0 (d\<lparr>dec_crcHash := 0\<rparr>)"

text \<open>The part of \<open>Decode\<close> and \<open>DecodeSlice\<close> after \<open>run\<close>: the part, \<open>badcrc\<close>, the
  error. They differ in how many parts they accept.\<close>

definition decode_result ::
  "(nat \<Rightarrow> bool) \<Rightarrow> decoder \<times> bool \<times> yerr option \<Rightarrow> part option \<times> bool \<times> yerr option" where
  "decode_result parts_ok r =
     (case r of (d, badcrc, err) \<Rightarrow>
        if err \<noteq> None \<and> err \<noteq> Some EOF \<and> \<not> badcrc then (None, False, err)
        else if badcrc then (None, True, None)
        else if \<not> parts_ok (length (Parts d)) then (None, False, Some NoParts)
        else if Multipart d \<and> length (Parts d) > 1 \<and>
                int (length (Parts d)) = part_Number (last (Parts d)) \<and> decoder_Validate d \<noteq> None
        then (None, False, decoder_Validate d)
        else (Some (hd (Parts d)), False, None))"

definition Decode :: "decoder \<Rightarrow> (part option \<times> bool \<times> yerr option) go option" where
  "Decode d = map_option (\<lambda>r. go_bind r (\<lambda>x. Inr (decode_result (\<lambda>n. n \<noteq> 0) x))) (run_decoder 1 d)"

definition DecodeSlice :: "decoder \<Rightarrow> (part option \<times> bool \<times> yerr option) go option" where
  "DecodeSlice d = map_option (\<lambda>r. go_bind r (\<lambda>x. Inr (decode_result (\<lambda>n. n = 1) x))) (run_decoder 1 d)"

section \<open>The encoder\<close>

definition lineLen :: nat where "lineLen = 128"

text \<open>One byte as \<open>yencLines\<close> writes it: \<open>at_start\<close> when the line is empty,
  \<open>at_end\<close> when it is nearly full or the byte is the last one.\<close>

definition yenc_char :: "bool \<Rightarrow> bool \<Rightarrow> 8 word \<Rightarrow> string" where
  "yenc_char at_start at_end c =
     (let e = c + 42;
          esc = (e = 0 \<or> e = 10 \<or> e = 13 \<or> e = 61) \<or> (at_start \<and> (e = 9 \<or> e = 32 \<or> e = 46)) \<or>
                (at_end \<and> (e = 9 \<or> e = 32))
      in if esc then [CHR ''='', char_of_byte (e + 64)] else [char_of_byte e])"

fun yenc_loop :: "string \<Rightarrow> bytes \<Rightarrow> string list" where
  "yenc_loop line [] = (if line = [] then [] else [line])"
| "yenc_loop line (c # cs) =
     (let line' = line @ yenc_char (line = []) (length line \<ge> lineLen - 1 \<or> cs = []) c
      in if length line' \<ge> lineLen then line' # yenc_loop [] cs else yenc_loop line' cs)"

definition yencLines :: "bytes \<Rightarrow> string list" where
  "yencLines bs = yenc_loop [] bs"

text \<open>The yEnc lines of \<open>encodeArticle\<close>; \<open>full\<close> is the file checksum of the last part.\<close>

record yarticle =
  a_part :: nat
  a_total :: nat
  a_size :: nat
  a_name :: string
  a_begin :: nat
  a_body :: bytes
  a_fcrc :: "32 word"

definition ybegin_line :: "yarticle \<Rightarrow> string" where
  "ybegin_line a = ''=ybegin part='' @ dec (a_part a) @ '' total='' @ dec (a_total a) @ '' line='' @ dec lineLen @
     '' size='' @ dec (a_size a) @ '' name='' @ a_name a"

definition ypart_line :: "yarticle \<Rightarrow> string" where
  "ypart_line a = ''=ypart begin='' @ dec (a_begin a) @ '' end='' @ dec (a_begin a + length (a_body a) - 1)"

definition yend_line :: "yarticle \<Rightarrow> string" where
  "yend_line a = ''=yend size='' @ dec (length (a_body a)) @ '' part='' @ dec (a_part a) @
     '' pcrc32='' @ hex8 (crc32 (a_body a)) @
     (if a_part a = a_total a then '' crc32='' @ hex8 (a_fcrc a) else [])"

definition yenc_article :: "yarticle \<Rightarrow> string list" where
  "yenc_article a = ybegin_line a # ypart_line a # yencLines (a_body a) @ [yend_line a]"

section \<open>Lemmas: encoded lines\<close>

lemma ydecode_append:
  "ydecode s = Some b \<Longrightarrow> ydecode (s @ t) = map_option (\<lambda>r. b @ r) (ydecode t)"
  by (induction s arbitrary: b rule: ydecode.induct)
    (auto simp: map_option_case split: if_splits list.splits option.splits)

lemma char_of_byte_eq: "char_of_byte b = c \<longleftrightarrow> b = byte_of c"
  by (metis byte_of_char_of_byte byte_of_inj)

lemma ydecode_yenc_char: "ydecode (yenc_char f l c) = Some [c]"
proof -
  have "c + 42 = 61 \<longleftrightarrow> char_of_byte (c + 42) = CHR ''=''"
    using byte_of_61[of "char_of_byte (c + 42)"] by simp
  then show ?thesis by (auto simp: yenc_char_def Let_def)
qed

text \<open>What a reader of the lines relies on: no line break and no zero byte, no
  leading dot, and no way to be taken for a control line.\<close>

definition data_line :: "string \<Rightarrow> bool" where
  "data_line l \<longleftrightarrow> set l \<inter> {CHR 0x00, CHR 0x0A, CHR 0x0D} = {} \<and> l \<noteq> [] \<and> hd l \<noteq> CHR ''.'' \<and>
     take 2 l \<noteq> ''=y'' \<and> l \<noteq> ''=''"

lemma byte_consts:
  "byte_of (CHR 0x00) = 0" "byte_of (CHR 0x0A) = 10" "byte_of (CHR 0x0D) = 13" "byte_of (CHR ''.'') = 46"
  "byte_of (CHR ''='') = 61" "byte_of (CHR ''y'') = 121"
  by (simp_all add: byte_of_def)

lemma eq_char_of_byte: "c = char_of_byte b \<longleftrightarrow> byte_of c = b"
  by (metis char_of_byte_eq)

lemma yenc_char_cases:
  "(\<exists>e. yenc_char f l c = [char_of_byte e] \<and> e \<notin> {0, 10, 13, 61} \<and> (f \<longrightarrow> e \<noteq> 46)) \<or>
   (\<exists>e. yenc_char f l c = [CHR ''='', char_of_byte e] \<and> e \<in> {64, 74, 77, 125, 73, 96, 110})"
proof -
  define e where "e = c + 42"
  show ?thesis
    unfolding yenc_char_def e_def[symmetric] Let_def by (auto simp del: minus_42_64)
qed

lemma yenc_char_safe:
  "set (yenc_char f l c) \<inter> {CHR 0x00, CHR 0x0A, CHR 0x0D} = {}"
  "f \<Longrightarrow> hd (yenc_char f l c) \<noteq> CHR ''.''"
  "yenc_char f l c = [CHR ''='', x] \<Longrightarrow> x \<noteq> CHR ''y''"
  "yenc_char f l c \<noteq> ''=''" "yenc_char f l c \<noteq> []" "length (yenc_char f l c) \<le> 2"
  "hd (yenc_char f l c) = CHR ''='' \<Longrightarrow> length (yenc_char f l c) = 2"
  using yenc_char_cases[of f l c]
  by (auto simp: char_of_byte_eq eq_char_of_byte byte_consts)

lemma data_line_append:
  assumes "l = [] \<or> data_line l" and "f \<longleftrightarrow> l = []"
  shows "data_line (l @ yenc_char f e c)"
proof (cases "l = []")
  case True
  let ?w = "yenc_char f e c"
  have "take 2 ?w \<noteq> ''=y''"
  proof
    assume y: "take 2 ?w = ''=y''"
    then have "?w = ''=y''" using yenc_char_safe(6)[of f e c] by simp
    then show False using yenc_char_safe(3)[of f e c "CHR ''y''"] by simp
  qed
  then show ?thesis
    using True assms(2) yenc_char_safe[of f e c] by (simp add: data_line_def)
next
  case False
  then have l: "data_line l" using assms(1) by simp
  have "take 2 (l @ yenc_char f e c) \<noteq> ''=y''"
  proof (cases l)
    case (Cons x r)
    then show ?thesis using l by (cases r) (auto simp: data_line_def)
  qed (use False in simp)
  then show ?thesis
    using l False yenc_char_safe(1)[of f e c] yenc_char_safe(5)[of f e c]
    by (auto simp: data_line_def append_eq_Cons_conv)
qed

lemma yenc_loop_spec:
  assumes "line = [] \<or> data_line line" and "ydecode line = Some b" and "length line < lineLen"
  shows "(\<forall>l \<in> set (yenc_loop line bs). data_line l \<and> ydecode l \<noteq> None \<and> length l \<le> lineLen + 1) \<and>
    b @ bs = concat (map (the \<circ> ydecode) (yenc_loop line bs))"
  using assms
proof (induction line bs arbitrary: b rule: yenc_loop.induct)
  case (1 line)
  then show ?case by (auto simp: lineLen_def)
next
  case (2 line c cs)
  let ?w = "yenc_char (line = []) (length line \<ge> lineLen - 1 \<or> cs = []) c"
  let ?line = "line @ ?w"
  have d: "data_line ?line" by (rule data_line_append) (use 2 in auto)
  have y: "ydecode ?line = Some (b @ [c])"
    using ydecode_append[OF 2(4)] by (simp add: ydecode_yenc_char)
  have len: "length ?line \<le> lineLen + 1"
    using yenc_char_safe(6)[of "line = []" "length line \<ge> lineLen - 1 \<or> cs = []" c] 2(5) by simp
  show ?case
  proof (cases "length ?line \<ge> lineLen")
    case True
    have e: "yenc_loop line (c # cs) = ?line # yenc_loop [] cs"
      using True by (simp add: Let_def)
    have "(\<forall>l \<in> set (yenc_loop [] cs). data_line l \<and> ydecode l \<noteq> None \<and> length l \<le> lineLen + 1) \<and>
        [] @ cs = concat (map (the \<circ> ydecode) (yenc_loop [] cs))"
      by (rule 2(1)[OF refl True]) (simp_all add: lineLen_def)
    then show ?thesis using d y len unfolding e by (simp add: o_def)
  next
    case False
    have e: "yenc_loop line (c # cs) = yenc_loop ?line cs"
      using False by (simp add: Let_def)
    have "(\<forall>l \<in> set (yenc_loop ?line cs). data_line l \<and> ydecode l \<noteq> None \<and> length l \<le> lineLen + 1) \<and>
        (b @ [c]) @ cs = concat (map (the \<circ> ydecode) (yenc_loop ?line cs))"
      by (rule 2(2)[OF refl False]) (use d y False in simp_all)
    then show ?thesis unfolding e by (simp add: o_def)
  qed
qed

lemma yencLines_spec:
  "\<forall>l \<in> set (yencLines bs). data_line l \<and> ydecode l \<noteq> None \<and> length l \<le> 129"
  "concat (map (the \<circ> ydecode) (yencLines bs)) = bs"
  using yenc_loop_spec[of "[]" "[]" bs] by (simp_all add: yencLines_def lineLen_def)

section \<open>Lemmas: control lines\<close>

definition word_ok :: "string \<Rightarrow> bool" where
  "word_ok w \<longleftrightarrow> w \<noteq> [] \<and> (\<forall>c \<in> set w. c \<noteq> CHR ''='' \<and> c \<notin> spaces)"

lemma digit_not_eq: "is_digit c \<Longrightarrow> c \<noteq> CHR ''=''"
  by (auto simp: is_digit_def)

lemma hex_not_eq: "is_hex c \<Longrightarrow> c \<noteq> CHR ''='' \<and> c \<notin> spaces"
  by (auto simp: is_hex_def hex_val_def spaces_def Let_def)

lemma word_ok_dec [simp]: "word_ok (dec n)"
  by (auto simp: word_ok_def dest: dec_digits digit_not_eq digit_not_space)

lemma word_ok_hex8 [simp]: "word_ok (hex8 w)"
proof -
  have "hex8 w \<noteq> []" using length_hexn[of 8 "unat w"] unfolding hex8_def by (metis list.size(3) zero_neq_numeral)
  then show ?thesis using hex_not_eq hexn_hex unfolding word_ok_def hex8_def by blast
qed

lemma word_last: "word_ok w \<Longrightarrow> last w \<notin> spaces"
  by (simp add: word_ok_def)

lemma TrimSpace_word:
  assumes "k \<noteq> []" and "hd k \<notin> spaces" and "last k \<notin> spaces" and "set t \<subseteq> spaces"
  shows "TrimSpace (k @ t) = k"
proof -
  have "TrimRight (k @ t) spaces = k"
    using assms by (simp add: TrimRight_append TrimRight_id)
  then show ?thesis
    using assms(1,2) by (cases k) (simp_all add: TrimSpace_def TrimLeft_def)
qed

lemma key_values_space: "key_values (CHR '' '' # s) = key_values s"
  by (simp add: key_values_def TrimSpace_def TrimRight_def TrimLeft_def)

lemma key_values_Nil [simp]: "key_values [] = []"
  by (simp add: key_values_def TrimSpace_def TrimRight_def TrimLeft_def)

lemma word_no: "word_ok w \<Longrightarrow> CHR ''='' \<notin> set w \<and> CHR '' '' \<notin> set w"
  unfolding word_ok_def spaces_def by blast

lemma split_kv:
  assumes "CHR ''='' \<notin> set k" and "word_ok v" and "k \<noteq> []" and "hd k \<notin> spaces" and "set t \<subseteq> spaces"
  shows "split_on CHR ''='' (TrimSpace (k @ CHR ''='' # v @ t)) = [k, v]"
proof -
  have "TrimSpace ((k @ CHR ''='' # v) @ t) = k @ CHR ''='' # v"
    by (rule TrimSpace_word) (use assms word_last[OF assms(2)] in \<open>auto simp: word_ok_def\<close>)
  then have "TrimSpace (k @ CHR ''='' # v @ t) = k @ CHR ''='' # v" by simp
  moreover have "CHR ''='' \<notin> set v" using word_no[OF assms(2)] ..
  ultimately show ?thesis
    using assms(1) by (simp add: split_on_append_sep split_on_no_sep)
qed

lemma spaces_simps [simp]:
  "CHR '' '' \<in> spaces" "CHR 0x0A \<in> spaces" "CHR 0x0D \<in> spaces"
  by (simp_all add: spaces_def)

lemma key_value:
  assumes "CHR ''='' \<notin> set k" and "word_ok v" and "k \<noteq> []" and "hd k \<notin> spaces" and "CHR '' '' \<notin> set k"
  shows "key_values (k @ CHR ''='' # v @ CHR '' '' # s) = (k, v) # key_values s"
proof -
  have "CHR '' '' \<notin> set (k @ CHR ''='' # v)"
    using assms(5) word_no[OF assms(2)] by simp
  then have "split_on CHR '' '' ((k @ CHR ''='' # v) @ CHR '' '' # s) =
      (k @ CHR ''='' # v) # split_on CHR '' '' s"
    by (rule split_on_append_sep)
  then have 1: "split_on CHR '' '' (k @ CHR ''='' # v @ CHR '' '' # s) =
      (k @ CHR ''='' # v) # split_on CHR '' '' s"
    by simp
  show ?thesis
    using split_kv[OF assms(1-4), of "[]"] unfolding key_values_def 1 by simp
qed

lemma key_value_last:
  assumes "CHR ''='' \<notin> set k" and "word_ok v" and "k \<noteq> []" and "hd k \<notin> spaces" and "CHR '' '' \<notin> set k"
    and "t = [] \<or> t = [CHR 0x0A]"
  shows "key_values (k @ CHR ''='' # v @ t) = [(k, v)]"
proof -
  have "CHR '' '' \<notin> set (k @ CHR ''='' # v @ t)"
    using assms(5,6) word_no[OF assms(2)] by auto
  then have 1: "split_on CHR '' '' (k @ CHR ''='' # v @ t) = [k @ CHR ''='' # v @ t]"
    by (rule split_on_no_sep)
  have t: "set t \<subseteq> spaces" using assms(6) by auto
  show ?thesis
    using split_kv[OF assms(1-4) t] unfolding key_values_def 1 by simp
qed

lemmas key_value_part = key_value[of "''part''", simplified]
  and key_value_total = key_value[of "''total''", simplified]
  and key_value_line = key_value[of "''line''", simplified]
  and key_value_size = key_value[of "''size''", simplified]
  and key_value_begin = key_value[of "''begin''", simplified]
  and key_value_pcrc = key_value[of "''pcrc32''", simplified]

text \<open>The name is split off at the first \<open>name=\<close>: nothing before it has an \<open>m\<close>.\<close>

lemma split_name:
  assumes "CHR ''m'' \<notin> set s" and "x \<noteq> CHR ''n''" and "y \<noteq> CHR ''n''" and "y \<noteq> CHR ''m''"
  shows "split_first ''name='' (s @ [x, y] @ ''name='' @ nm) = Some (s @ [x, y], nm)"
  using assms(1)
proof (induction s)
  case Nil
  then show ?case using assms by simp
next
  case (Cons c s)
  have "\<not> has_prefix ''name='' (c # s @ [x, y] @ ''name='' @ nm)"
  proof
    assume p: "has_prefix ''name='' (c # s @ [x, y] @ ''name='' @ nm)"
    show False
    proof (cases s)
      case Nil
      then show False using p assms(4) by simp
    next
      case (Cons d s')
      then show False using p Cons.prems assms(4) by (cases s') (use \<open>CHR ''m'' \<notin> set (c # s)\<close> in auto)
    qed
  qed
  then have "split_first ''name='' ((c # s) @ [x, y] @ ''name='' @ nm) =
      map_option (\<lambda>(a, b). (c # a, b)) (split_first ''name='' (s @ [x, y] @ ''name='' @ nm))"
    unfolding append_Cons[of c s] split_first.simps(2) by (simp only: if_False)
  then show ?case using Cons by simp
qed

lemma is_digit_consts: "\<not> is_digit (CHR ''m'')" "\<not> is_digit (CHR ''n'')"
  by (simp_all add: is_digit_def)

lemma dec_no_mn: "CHR ''m'' \<notin> set (dec n)" "CHR ''n'' \<notin> set (dec n)"
  using dec_digits is_digit_consts by blast+

definition name_ok :: "string \<Rightarrow> bool" where
  "name_ok n \<longleftrightarrow> n \<noteq> [] \<and> hd n \<notin> spaces \<and> last n \<notin> spaces \<and> CHR 0x0A \<notin> set n"

definition yarticle_ok :: "yarticle \<Rightarrow> bool" where
  "yarticle_ok a \<longleftrightarrow> name_ok (a_name a) \<and> a_part a < 2 ^ 63 \<and> a_total a < 2 ^ 63 \<and> a_size a < 2 ^ 63 \<and>
     a_begin a + length (a_body a) < 2 ^ 63 \<and> crc32 (a_body a) \<noteq> 0"

lemma split_ybegin:
  "split_first ''name='' (drop 7 (ybegin_line a @ t)) =
     Some ('' part='' @ dec (a_part a) @ '' total='' @ dec (a_total a) @ '' line='' @ dec lineLen @
       '' size='' @ dec (a_size a) @ '' '', a_name a @ t)"
proof -
  obtain r z where z: "dec (a_size a) = r @ [z]"
    by (metis dec_not_Nil append_butlast_last_id)
  have d: "c \<in> set (r @ [z]) \<Longrightarrow> c \<noteq> CHR ''m'' \<and> c \<noteq> CHR ''n''" for c
    using dec_no_mn[of "a_size a"] unfolding z by auto
  let ?s = "'' part='' @ dec (a_part a) @ '' total='' @ dec (a_total a) @ '' line='' @ dec lineLen @
     '' size='' @ r"
  have "split_first ''name='' (?s @ [z, CHR '' ''] @ ''name='' @ a_name a @ t) = Some (?s @ [z, CHR '' ''], a_name a @ t)"
    by (rule split_name) (use dec_no_mn d in auto)
  then show ?thesis by (simp add: ybegin_line_def z)
qed

lemma parse_ybegin:
  assumes "yarticle_ok a" and "t = [] \<or> t = [CHR 0x0A]"
  shows "parse_header (ybegin_line a @ t) d =
    d\<lparr>Part := (Part d)\<lparr>part_Name := a_name a, part_Number := int (a_part a), cols := 128, HeaderSize := int (a_size a)\<rparr>,
      Multipart := True, total_parts := int (a_total a)\<rparr>"
proof -
  have len: "\<not> length (ybegin_line a @ t) < 7"
    by (simp add: ybegin_line_def)
  have name: "TrimSpace (a_name a @ t) = a_name a"
    by (rule TrimSpace_word) (use assms in \<open>auto simp: yarticle_ok_def name_ok_def\<close>)
  have kv: "key_values ('' part='' @ dec (a_part a) @ '' total='' @ dec (a_total a) @ '' line='' @ dec lineLen @
       '' size='' @ dec (a_size a) @ '' '') =
     [(''part'', dec (a_part a)), (''total'', dec (a_total a)), (''line'', dec lineLen), (''size'', dec (a_size a))]"
    by (simp add: key_values_space key_value_part key_value_total key_value_line key_value_size spaces_def)
  have ll: "lineLen < 2 ^ 63" "int lineLen = 128" by (simp_all add: lineLen_def)
  have "a_part a < 2 ^ 63" "a_total a < 2 ^ 63" "a_size a < 2 ^ 63"
    using assms(1) by (simp_all add: yarticle_ok_def)
  then show ?thesis
    unfolding parse_header_def split_ybegin option.case prod.case kv using len ll(1)
    by (simp add: name header_field_def ll(2))
qed

lemma parse_ypart:
  assumes "yarticle_ok a" and "t = [] \<or> t = [CHR 0x0A]"
  shows "parse_part_header (ypart_line a @ t) d =
    Inr (Inr (d\<lparr>Part := (Part d)\<lparr>part_Begin := int (a_begin a),
      part_End := int (a_begin a + length (a_body a) - 1)\<rparr>\<rparr>))"
proof -
  have kv: "key_values (drop 6 (ypart_line a @ t)) =
    [(''begin'', dec (a_begin a)), (''end'', dec (a_begin a + length (a_body a) - 1))]"
    using key_value_last[of "''end''" "dec (a_begin a + length (a_body a) - 1)" t] assms(2)
    by (simp add: ypart_line_def key_values_space key_value_begin spaces_def)
  have "a_begin a + length (a_body a) < 2 ^ 63"
    using assms(1) by (simp add: yarticle_ok_def)
  then have "a_begin a + length (a_body a) - 1 < 2 ^ 63" "a_begin a < 2 ^ 63"
    by linarith+
  then show ?thesis
    unfolding parse_part_header_def kv by (simp add: part_field_def ypart_line_def)
qed

lemma parse_yend:
  assumes "yarticle_ok a" and "part_Number (Part d) = int (a_part a)"
  shows "ParseTrailerNew (yend_line a) d =
    Inr (d\<lparr>Part := (Part d)\<lparr>part_Size := int (length (a_body a)), Crc32 := crc32 (a_body a)\<rparr>,
      Fullcrc32 := (if a_part a = a_total a then a_fcrc a else Fullcrc32 d)\<rparr>)"
proof -
  let ?c = "crc32 (a_body a)"
  have yend: "key_values (''=yend '' @ s) = ([], ''yend'') # key_values s" for s
    by (simp add: key_values_def TrimSpace_def TrimRight_def TrimLeft_def spaces_def)
  have kv: "key_values (yend_line a) = ([], ''yend'') # (''size'', dec (length (a_body a))) # (''part'', dec (a_part a)) #
      (''pcrc32'', hex8 ?c) # (if a_part a = a_total a then [(''crc32'', hex8 (a_fcrc a))] else [])"
    using yend key_value_last[of "''pcrc32''" "hex8 ?c" "[]"] key_value_last[of "''crc32''" "hex8 (a_fcrc a)" "[]"]
    by (simp add: yend_line_def key_value_size key_value_part key_value_pcrc spaces_def)
  have "length (a_body a) < 2 ^ 63" "a_part a < 2 ^ 63"
    using assms(1) by (simp_all add: yarticle_ok_def)
  then show ?thesis
    unfolding ParseTrailerNew_def kv using assms(2) by (simp add: trailer_field_def)
qed

section \<open>Lemmas: whole articles\<close>

text \<open>The part every mode must produce.\<close>

definition decoded_part :: "yarticle \<Rightarrow> part" where
  "decoded_part a = \<lparr>part_Number = int (a_part a), HeaderSize = int (a_size a), part_Size = int (length (a_body a)),
     part_Begin = int (a_begin a), part_End = int (a_begin a + length (a_body a) - 1), part_Name = a_name a,
     cols = 128, Crc32 = crc32 (a_body a), part_crcHash = Some (crc32 (a_body a)), part_Body = a_body a, BadCRC = False\<rparr>"

definition with_nl :: "string list \<Rightarrow> string list" where
  "with_nl ls = map (\<lambda>l. l @ [CHR 0x0A]) ls"

lemma lines_of_line: "CHR 0x0A \<notin> set l \<Longrightarrow> lines_of (l @ CHR 0x0A # s) = (l @ [CHR 0x0A]) # lines_of s"
  by (induction l) auto

lemma lines_of_with_nl:
  "\<forall>l \<in> set ls. CHR 0x0A \<notin> set l \<Longrightarrow> lines_of (concat (with_nl ls) @ s) = with_nl ls @ lines_of s"
  by (induction ls) (simp_all add: with_nl_def lines_of_line)

lemma data_line_props:
  assumes "data_line l"
  shows "\<not> starts ''=yend'' l" "\<not> starts ''=ybegin'' l" "\<not> starts ''=ypart'' l"
    "trim_eol (l @ [CHR 0x0A]) = l" "CHR 0x0A \<notin> set l" "\<not> starts ''=ypart'' (l @ t)"
proof -
  obtain x y where l: "l = [x] \<and> x \<noteq> CHR ''='' \<or> (\<exists>r. l = x # y # r \<and> \<not> (x = CHR ''='' \<and> y = CHR ''y''))"
    using assms by (cases l; cases "tl l") (auto simp: data_line_def)
  then show "\<not> starts ''=yend'' l" "\<not> starts ''=ybegin'' l" "\<not> starts ''=ypart'' l" "\<not> starts ''=ypart'' (l @ t)"
    by (auto simp: starts_def)
  show "CHR 0x0A \<notin> set l" using assms by (auto simp: data_line_def)
  have "l \<noteq> []" "set l \<inter> {CHR 0x0A, CHR 0x0D} = {}"
    using assms by (auto simp: data_line_def)
  then have "l \<noteq> []" "last l \<notin> {CHR 0x0D, CHR 0x0A}"
    using last_in_set[of l] by blast+
  then show "trim_eol (l @ [CHR 0x0A]) = l"
    by (simp add: trim_eol_def TrimRight_append TrimRight_id)
qed

lemma read_body_data:
  assumes "\<forall>l \<in> set ls. data_line l \<and> ydecode l \<noteq> None" and "\<not> awaitingSpecial d"
  shows "read_body_buf (with_nl ls @ rest) d = read_body_buf rest (add_data True (concat (map (the \<circ> ydecode) ls)) d)"
  using assms
proof (induction ls arbitrary: d)
  case Nil
  have "map_option (\<lambda>c. c) x = x" for x :: "32 word option" by (cases x) simp_all
  then show ?case by (simp add: add_data_def Let_def with_nl_def)
next
  case (Cons l ls)
  then obtain b where b: "ydecode l = Some b" and l: "data_line l" by auto
  have "read_body_buf (with_nl (l # ls) @ rest) d = read_body_buf (with_nl ls @ rest) (add_data True b d)"
    using data_line_props(1,4)[OF l] DecodeLine_Some[OF b] Cons.prems(2)
    by (cases d) (simp add: with_nl_def add_data_def Let_def)
  also have "\<dots> = read_body_buf rest (add_data True (concat (map (the \<circ> ydecode) ls)) (add_data True b d))"
    using Cons by (intro Cons.IH) (simp_all add: add_data_def Let_def)
  finally show ?case
    by (simp add: b add_data_def Let_def crc_write_append option.map_comp o_def)
qed

lemma DecodeYenc_data:
  assumes "\<forall>l \<in> set ls. data_line l \<and> ydecode l \<noteq> None"
  shows "DecodeYenc (ls @ rest) out d = DecodeYenc rest (out @ concat (map (the \<circ> ydecode) ls)) d"
  using assms
proof (induction ls arbitrary: out)
  case (Cons l ls)
  then show ?case using data_line_props[of l] by (auto split: option.splits)
qed simp

lemma control_starts:
  "starts ''=ybegin'' (ybegin_line a @ t)" "starts ''=ypart'' (ypart_line a @ t)" "starts ''=yend'' (yend_line a)"
  "\<not> starts ''=ybegin'' (ypart_line a @ t)" "\<not> starts ''=ypart'' (ybegin_line a @ t)"
  "\<not> starts ''=ybegin'' (yend_line a)" "\<not> starts ''=ypart'' (yend_line a)"
  by (simp_all add: starts_def ybegin_line_def ypart_line_def yend_line_def)

lemma yend_no_nl: "CHR 0x0A \<notin> set (yend_line a)" "trim_eol (yend_line a @ [CHR 0x0A]) = yend_line a"
proof -
  have w: "word_ok v \<Longrightarrow> CHR 0x0A \<notin> set v \<and> CHR 0x0D \<notin> set v" for v
    using spaces_simps unfolding word_ok_def by blast
  have sub: "set (yend_line a) \<subseteq> - {CHR 0x0A, CHR 0x0D}"
    using w[OF word_ok_dec] w[OF word_ok_hex8] by (auto simp: yend_line_def)
  then show "CHR 0x0A \<notin> set (yend_line a)" by auto
  have "yend_line a \<noteq> []" by (simp add: yend_line_def)
  then have "last (yend_line a) \<notin> {CHR 0x0D, CHR 0x0A}"
    using sub last_in_set by blast
  then show "trim_eol (yend_line a @ [CHR 0x0A]) = yend_line a"
    by (simp add: trim_eol_def TrimRight_append TrimRight_id)
qed

lemma header_no_nl:
  assumes "yarticle_ok a"
  shows "CHR 0x0A \<notin> set (ybegin_line a)" "CHR 0x0A \<notin> set (ypart_line a)"
proof -
  have w: "CHR 0x0A \<notin> set (dec n)" for n
    using word_ok_dec[of n] spaces_simps unfolding word_ok_def by blast
  then show "CHR 0x0A \<notin> set (ybegin_line a)" "CHR 0x0A \<notin> set (ypart_line a)"
    using assms by (auto simp: ybegin_line_def ypart_line_def yarticle_ok_def name_ok_def)
qed

lemma decoded_part_valid:
  assumes "yarticle_ok a"
  shows "part_Validate (decoded_part a) = (decoded_part a, None)"
  using assms by (simp add: part_Validate_def decoded_part_def yarticle_ok_def Let_def word_gt_0)

lemma run_loop_one:
  assumes "ReadHeader None False (d\<lparr>Part := new_part\<rparr>) = Inr d1" and "part_Name (Part d1) \<noteq> []"
    and "Multipart d1" and "ReadPartHeader [] d1 = Inr (Inr d2)" and "ReadBody 0 [] False d2 = Inr d4"
    and "part_Validate (Part d4) = (p, None)" and "\<not> BadCRC p" and "toCheck d4 = 1" and "Parts d4 = []"
  shows "run_loop (Suc n) {} 0 d = Some (Inr (d4\<lparr>Part := p, Parts := [p]\<rparr>, False, None))"
  using assms by (simp add: Let_def)

declare run_loop.simps [simp del]

lemma run_mode1:
  assumes ok: "yarticle_ok a"
    and buf: "Buf d = Some (pre @ (ybegin_line a @ [CHR 0x0A]) # (ypart_line a @ [CHR 0x0A]) #
      with_nl (yencLines (a_body a)) @ (yend_line a @ [CHR 0x0A]) # post)"
    and d: "toCheck d = 1" "Parts d = []"
    and skip: "\<And>rest. dropWhile (\<lambda>s. \<not> starts ''=ybegin'' s) (pre @ (ybegin_line a @ [CHR 0x0A]) # rest) =
      (ybegin_line a @ [CHR 0x0A]) # rest"
  shows "\<exists>d'. run_loop (Suc n) {} 0 d = Some (Inr (d', False, None)) \<and> Parts d' = [decoded_part a]"
proof -
  let ?nl = "[CHR 0x0A]" and ?b = "a_body a"
  let ?r2 = "with_nl (yencLines ?b) @ (yend_line a @ ?nl) # post"
  let ?r1 = "(ypart_line a @ ?nl) # ?r2"
  let ?p1 = "new_part\<lparr>part_Name := a_name a, part_Number := int (a_part a), cols := 128, HeaderSize := int (a_size a)\<rparr>"
  let ?d1 = "d\<lparr>Part := ?p1, Buf := Some ?r1, Multipart := True, total_parts := int (a_total a)\<rparr>"
  let ?p2 = "?p1\<lparr>part_Begin := int (a_begin a), part_End := int (a_begin a + length ?b - 1)\<rparr>"
  let ?d2 = "?d1\<lparr>Part := ?p2, Buf := Some ?r2\<rparr>"
  have 1: "ReadHeader None False (d\<lparr>Part := new_part\<rparr>) = Inr ?d1"
    using buf skip parse_ybegin[OF ok, of ?nl] by (cases d) (simp add: ReadHeader_def)
  have 2: "ReadPartHeader [] ?d1 = Inr (Inr ?d2)"
    using control_starts(2)[of a ?nl] parse_ypart[OF ok, of ?nl] by (cases d) (simp add: ReadPartHeader_def)
  let ?d3 = "?d2\<lparr>Part := ?p2\<lparr>part_Body := [], part_crcHash := Some 0\<rparr>, awaitingSpecial := False\<rparr>"
  have "read_body_buf ?r2 ?d3 = read_body_buf ((yend_line a @ ?nl) # post) (add_data True ?b ?d3)"
    using read_body_data[of "yencLines ?b" ?d3] yencLines_spec[of ?b] by simp
  also have "\<dots> = ParseTrailerNew (yend_line a) ((add_data True ?b ?d3)\<lparr>Buf := Some post\<rparr>)"
    using yend_no_nl(2) control_starts(3) by (simp add: Let_def)
  finally have "ReadBody 0 [] False ?d2 = ParseTrailerNew (yend_line a) ((add_data True ?b ?d3)\<lparr>Buf := Some post\<rparr>)"
    by (simp add: ReadBody_def Let_def)
  then obtain d4 where 3: "ReadBody 0 [] False ?d2 = Inr d4" "Part d4 = decoded_part a"
      "toCheck d4 = 1" "Parts d4 = []"
    using parse_yend[OF ok, of "(add_data True ?b ?d3)\<lparr>Buf := Some post\<rparr>"] d
    by (simp add: add_data_def Let_def decoded_part_def new_part_def crc32_def)
  have n: "a_name a \<noteq> []" using ok by (simp add: yarticle_ok_def name_ok_def)
  have v: "part_Validate (Part d4) = (decoded_part a, None)"
    using decoded_part_valid[OF ok] by (simp only: 3)
  have "run_loop (Suc n) {} 0 d = Some (Inr (d4\<lparr>Part := decoded_part a, Parts := [decoded_part a]\<rparr>, False, None))" for n
    by (rule run_loop_one[OF 1 _ _ 2 3(1) v _ 3(3,4)]) (simp_all add: n decoded_part_def)
  then show ?thesis by simp
qed

lemma new_decoder_hash [simp]: "(NewDecoder in1 in2 n)\<lparr>dec_crcHash := 0\<rparr> = NewDecoder in1 in2 n"
  by (simp add: NewDecoder_def Let_def split: option.split)

lemma decode_of_run:
  assumes "run_loop (Suc 0) {} 0 (NewDecoder in1 in2 n) = Some (Inr (d', False, None))" and "Parts d' = [p]"
  shows "Decode (NewDecoder in1 in2 n) = Some (Inr (Some p, False, None))"
    and "DecodeSlice (NewDecoder in1 in2 n) = Some (Inr (Some p, False, None))"
  using assms by (simp_all add: Decode_def DecodeSlice_def run_decoder_def decode_result_def)

lemma yenc_article_mode1:
  assumes ok: "yarticle_ok a" and pre: "\<forall>l \<in> set pre. CHR 0x0A \<notin> set l \<and> \<not> starts ''=ybegin'' l"
    and post: "\<forall>l \<in> set post. CHR 0x0A \<notin> set l"
  shows "Decode (NewDecoder (Some (concat (with_nl (pre @ yenc_article a @ post)))) None 1) =
    Some (Inr (Some (decoded_part a), False, None))"
proof -
  note y = yencLines_spec[of "a_body a"]
  let ?b = "a_body a"
  have nl: "\<forall>l \<in> set (pre @ yenc_article a @ post). CHR 0x0A \<notin> set l"
    using pre post y(1) data_line_props(5) header_no_nl[OF ok] yend_no_nl(1) by (auto simp: yenc_article_def)
  have ls: "lines_of (concat (with_nl (pre @ yenc_article a @ post))) = with_nl (pre @ yenc_article a @ post)"
    using lines_of_with_nl[OF nl, of "[]"] by simp
  have skip: "dropWhile (\<lambda>s. \<not> starts ''=ybegin'' s) (with_nl pre @ (ybegin_line a @ [CHR 0x0A]) # rest) =
      (ybegin_line a @ [CHR 0x0A]) # rest" for rest
  proof -
    have "\<forall>l \<in> set (with_nl pre). \<not> starts ''=ybegin'' l"
    proof
      fix l assume "l \<in> set (with_nl pre)"
      then obtain k where k: "l = k @ [CHR 0x0A]" "\<not> starts ''=ybegin'' k" using pre by (auto simp: with_nl_def)
      then show "\<not> starts ''=ybegin'' l"
        by (cases "length k < 7") (auto simp: starts_def take_append split: if_splits dest!: arg_cong[of _ _ set])
    qed
    then show ?thesis using control_starts(1) by (simp add: dropWhile_append2)
  qed
  let ?d = "NewDecoder (Some (concat (with_nl (pre @ yenc_article a @ post)))) None 1"
  have buf: "Buf ?d = Some (with_nl pre @ (ybegin_line a @ [CHR 0x0A]) # (ypart_line a @ [CHR 0x0A]) #
      with_nl (yencLines ?b) @ (yend_line a @ [CHR 0x0A]) # with_nl post)"
  proof -
    have "Buf ?d = Some (lines_of (concat (with_nl (pre @ yenc_article a @ post))))"
      by (simp only: NewDecoder_def Let_def option.case decoder.simps)
    then show ?thesis unfolding ls by (simp add: yenc_article_def with_nl_def)
  qed
  have d: "toCheck ?d = 1" "Parts ?d = []" "dec_crcHash ?d = 0"
    by (simp_all add: NewDecoder_def Let_def)
  show ?thesis
    using run_mode1[OF ok buf d(1,2) skip, of 0] by (auto intro: decode_of_run(1))
qed

text \<open>Mode 2 reads the lines of the article alone: any other line is data to it.\<close>

lemma DecodeYenc_empty: "\<forall>l \<in> set ls. l = [] \<Longrightarrow> DecodeYenc (ls @ rest) out d = DecodeYenc rest out d"
  by (induction ls) (simp_all add: starts_def)

lemma find_append: "\<forall>x \<in> set xs. \<not> P x \<Longrightarrow> List.find P (xs @ ys) = List.find P ys"
  by (induction xs) simp_all

lemma run_mode2:
  assumes ok: "yarticle_ok a" and dat: "Buf d = None" "Dat d = Some (pre @ yenc_article a)"
    and pre: "\<forall>l \<in> set pre. l = []"
    and d: "toCheck d = 1" "Parts d = []"
  shows "\<exists>d'. run_loop (Suc n) {} 0 d = Some (Inr (d', False, None)) \<and> Parts d' = [decoded_part a]"
proof -
  let ?b = "a_body a" and ?ls = "yencLines (a_body a) @ [yend_line a]"
  let ?p1 = "new_part\<lparr>part_Name := a_name a, part_Number := int (a_part a), cols := 128, HeaderSize := int (a_size a)\<rparr>"
  let ?d1 = "d\<lparr>Part := ?p1, Multipart := True, total_parts := int (a_total a)\<rparr>"
  let ?p2 = "?p1\<lparr>part_Begin := int (a_begin a), part_End := int (a_begin a + length ?b - 1)\<rparr>"
  let ?d2 = "?d1\<lparr>Part := ?p2\<rparr>"
  let ?d3 = "?d2\<lparr>Part := ?p2\<lparr>part_Body := [], part_crcHash := Some 0\<rparr>, awaitingSpecial := False\<rparr>"
  note c = control_starts(1,2,4,5)[of a "[]", simplified] control_starts(3,6,7)[of a]
  have np: "\<forall>l \<in> set pre. \<not> starts ''=ybegin'' l" "\<forall>l \<in> set pre. \<not> starts ''=ypart'' l"
    using pre by (auto simp: starts_def)
  have 1: "ReadHeader None False (d\<lparr>Part := new_part\<rparr>) = Inr ?d1"
    using dat c parse_ybegin[OF ok, of "[]"] by (cases d) (simp add: ReadHeader_def yenc_article_def find_append[OF np(1)])
  have 2: "ReadPartHeader [] ?d1 = Inr (Inr ?d2)"
    using dat c parse_ypart[OF ok, of "[]"] by (cases d) (simp add: ReadPartHeader_def yenc_article_def find_append[OF np(2)])
  have "DecodeYenc (pre @ yenc_article a) [] ?d3 = DecodeYenc ?ls [] ?d3"
    using c by (simp add: yenc_article_def DecodeYenc_empty[OF pre])
  also have "\<dots> = DecodeYenc [yend_line a] ?b ?d3"
    using DecodeYenc_data[of "yencLines ?b" "[yend_line a]" "[]" ?d3] yencLines_spec[of ?b] by simp
  finally have body: "DecodeYenc (pre @ yenc_article a) [] ?d3 = DecodeYenc [yend_line a] ?b ?d3" .
  obtain d4 where 3: "ReadBody 0 [] False ?d2 = Inr d4" "Part d4 = decoded_part a"
      "toCheck d4 = 1" "Parts d4 = []"
    using body parse_yend[OF ok, of ?d3] d dat c
    by (simp add: ReadBody_def Let_def add_data_def decoded_part_def new_part_def crc32_def)
  have n: "a_name a \<noteq> []" using ok by (simp add: yarticle_ok_def name_ok_def)
  have v: "part_Validate (Part d4) = (decoded_part a, None)"
    using decoded_part_valid[OF ok] by (simp only: 3)
  have "run_loop (Suc n) {} 0 d = Some (Inr (d4\<lparr>Part := decoded_part a, Parts := [decoded_part a]\<rparr>, False, None))" for n
    by (rule run_loop_one[OF 1 _ _ 2 3(1) v _ 3(3,4)]) (simp_all add: n decoded_part_def)
  then show ?thesis by simp
qed

lemma yenc_article_mode2:
  assumes "yarticle_ok a" and "\<forall>l \<in> set pre. l = []"
  shows "DecodeSlice (NewDecoder None (Some (pre @ yenc_article a)) 1) = Some (Inr (Some (decoded_part a), False, None))"
proof -
  let ?d = "NewDecoder None (Some (pre @ yenc_article a)) 1"
  have "Buf ?d = None" "Dat ?d = Some (pre @ yenc_article a)" "toCheck ?d = 1" "Parts ?d = []"
    by (simp_all add: NewDecoder_def)
  then show ?thesis
    using run_mode2[OF assms(1) _ _ assms(2), of ?d 0] by (auto intro: decode_of_run(2))
qed

section \<open>Lemmas: what is accepted\<close>

definition hash_ok :: "decoder \<Rightarrow> bool" where
  "hash_ok d \<longleftrightarrow> part_crcHash (Part d) = Some (crc32 (part_Body (Part d)))"

definition part_intact :: "part \<Rightarrow> bool" where
  "part_intact p \<longleftrightarrow> crc32 (part_Body p) = Crc32 p \<and> Crc32 p \<noteq> 0 \<and>
     int (length (part_Body p)) = part_Size p \<and> \<not> BadCRC p"

lemma trailer_field_keeps:
  "trailer_field kv d = Inr d' \<Longrightarrow>
   part_Body (Part d') = part_Body (Part d) \<and> part_crcHash (Part d') = part_crcHash (Part d) \<and> Parts d' = Parts d"
  by (auto simp: trailer_field_def split: if_splits prod.splits option.splits)

lemma trailer_fields_keep:
  "trailer_fields kvs d = Inr d' \<Longrightarrow>
   part_Body (Part d') = part_Body (Part d) \<and> part_crcHash (Part d') = part_crcHash (Part d) \<and> Parts d' = Parts d"
  by (induction kvs arbitrary: d) (auto split: sum.splits dest: trailer_field_keeps)

lemma ParseTrailer_keeps:
  "ParseTrailerNew l d = Inr d' \<Longrightarrow> (hash_ok d \<longrightarrow> hash_ok d') \<and> Parts d' = Parts d"
  unfolding ParseTrailerNew_def by (drule trailer_fields_keep) (simp add: hash_ok_def)

lemma add_data_hash [simp]: "hash_ok d \<Longrightarrow> hash_ok (add_data full b d)" "Parts (add_data full b d) = Parts d"
  by (simp_all add: hash_ok_def add_data_def Let_def)

lemma read_body_buf_hash:
  "read_body_buf ls d = Inr d' \<Longrightarrow> hash_ok d \<Longrightarrow> hash_ok d' \<and> Parts d' = Parts d"
proof (induction ls arbitrary: d)
  case (Cons l ls)
  show ?case
  proof (cases "starts ''=yend'' (trim_eol l)")
    case True
    then have "ParseTrailerNew (trim_eol l) (d\<lparr>Buf := Some ls\<rparr>) = Inr d'"
      using Cons.prems(1) by (simp add: Let_def)
    then show ?thesis
      using Cons.prems(2) ParseTrailer_keeps by (fastforce simp: hash_ok_def)
  next
    case False
    obtain b sp where b: "DecodeLine (awaitingSpecial d) (trim_eol l) = (b, sp)" by (metis surj_pair)
    have "read_body_buf ls ((add_data True b d)\<lparr>awaitingSpecial := sp\<rparr>) = Inr d'"
      using Cons.prems(1) False b by (cases d) (simp add: Let_def add_data_def)
    moreover have "hash_ok ((add_data True b d)\<lparr>awaitingSpecial := sp\<rparr>)"
      using add_data_hash(1)[OF Cons.prems(2), of True b] by (simp add: hash_ok_def)
    ultimately show ?thesis using Cons.IH by simp
  qed
qed simp

lemma DecodeYenc_hash:
  "DecodeYenc ls out d = Inr (b, d') \<Longrightarrow> hash_ok d \<Longrightarrow> hash_ok d' \<and> Parts d' = Parts d"
proof (induction ls out d rule: DecodeYenc.induct)
  case (2 l ls out d)
  then show ?case
    using ParseTrailer_keeps[of l d] by (auto split: if_splits sum.splits option.splits)
qed simp

lemma ReadBody_hash:
  assumes "ReadBody m l byline d = Inr d'" and "byline \<Longrightarrow> hash_ok d"
  shows "hash_ok d' \<and> Parts d' = Parts d"
proof -
  define d0 where "d0 = (if byline then d
    else d\<lparr>Part := (Part d)\<lparr>part_Body := [], part_crcHash := Some 0\<rparr>, awaitingSpecial := False\<rparr>)"
  have d0: "hash_ok d0" "Parts d0 = Parts d"
    using assms(2) by (auto simp: d0_def hash_ok_def)
  show ?thesis
    using assms(1) d0 unfolding ReadBody_def d0_def[symmetric] Let_def
    by (auto split: option.splits sum.splits if_splits dest: read_body_buf_hash DecodeYenc_hash ParseTrailer_keeps)
qed

lemma part_Validate_intact:
  "part_crcHash p = Some (crc32 (part_Body p)) \<Longrightarrow> part_Validate p = (p', None) \<Longrightarrow> \<not> BadCRC p' \<Longrightarrow> part_intact p'"
  by (auto simp: part_Validate_def part_intact_def Let_def split: if_splits)

lemma Parts_kept:
  "ReadHeader l c d = Inr d' \<Longrightarrow> Parts d' = Parts d"
  "ReadPartHeader s d = Inr (Inr d') \<Longrightarrow> Parts d' = Parts d"
proof -
  have h: "Parts (fold header_field kvs d) = Parts d" for kvs d
    by (induction kvs arbitrary: d) (auto simp: header_field_def)
  have p: "Parts (fold part_field kvs d) = Parts d" for kvs d
    by (induction kvs arbitrary: d) (auto simp: part_field_def)
  show "ReadHeader l c d = Inr d' \<Longrightarrow> Parts d' = Parts d"
    by (auto simp: ReadHeader_def parse_header_def h split: option.splits list.splits if_splits prod.splits)
  show "ReadPartHeader s d = Inr (Inr d') \<Longrightarrow> Parts d' = Parts d"
    by (auto simp: ReadPartHeader_def parse_part_header_def p split: option.splits list.splits if_splits)
qed

lemma run_loop_intact:
  assumes "run_loop n seen chkd d = Some (Inr (d', False, err))" and "\<forall>p \<in> set (Parts d). part_intact p"
  shows "\<forall>p \<in> set (Parts d'). part_intact p"
  using assms
proof (induction n arbitrary: seen chkd d)
  case 0
  then show ?case by (simp add: run_loop.simps)
next
  case (Suc n)
  show ?case
  proof (cases "ReadHeader None False (d\<lparr>Part := new_part\<rparr>)")
    case (Inl e)
    then show ?thesis using Suc.prems by (simp add: run_loop.simps)
  next
    case h: (Inr d1)
    then have p1: "Parts d1 = Parts d" using Parts_kept(1)[OF h] by simp
    show ?thesis
    proof (cases "part_Name (Part d1) = [] \<or> (part_Name (Part d1), part_Number (Part d1)) \<in> seen")
      case True
      then show ?thesis using Suc.prems h p1 by (auto simp: run_loop.simps split: if_splits)
    next
      case named: False
      let ?ph = "if Multipart d1 then ReadPartHeader [] d1 else Inr (Inr d1)"
      show ?thesis
      proof (cases ?ph)
        case (Inl p)
        then show ?thesis using Suc.prems h named by (simp add: run_loop.simps)
      next
        case ph: (Inr r)
        show ?thesis
        proof (cases r)
          case (Inl e)
          then show ?thesis using Suc.prems h named ph p1 by (auto simp: run_loop.simps)
        next
          case r: (Inr d2)
          have p2: "Parts d2 = Parts d"
            using ph r p1 Parts_kept(2)[of "[]" d1 d2] by (auto split: if_splits)
          show ?thesis
          proof (cases "ReadBody 0 [] False d2")
            case (Inl e)
            then show ?thesis using Suc.prems h named ph r p2 by (auto simp: run_loop.simps)
          next
            case b: (Inr d3)
            have hash: "hash_ok d3" and p3: "Parts d3 = Parts d"
              using ReadBody_hash[OF b] p2 by auto
            obtain p v where v: "part_Validate (Part d3) = (p, v)" by (metis surj_pair)
            have good: "\<not> BadCRC p \<Longrightarrow> v = None \<Longrightarrow> \<forall>q \<in> set (Parts d3 @ [p]). part_intact q"
              using part_Validate_intact hash v Suc.prems(2) p3 unfolding hash_ok_def by auto
            show ?thesis
              using Suc.prems(1) h named ph r b v good Suc.prems(2) p3
                Suc.IH[of "insert (part_Name (Part d1), part_Number (Part d1)) seen" "chkd + 1"
                  "d3\<lparr>Part := p, Parts := Parts d3 @ [p]\<rparr>"]
              by (auto simp: run_loop.simps Let_def split: if_splits option.splits)
          qed
        qed
      qed
    qed
  qed
qed

lemma decode_result_part:
  assumes "decode_result ok (d, bad, err) = (Some p, b, e)" and "ok 0 = False"
  shows "\<not> bad \<and> \<not> b \<and> e = None \<and> p \<in> set (Parts d)"
proof -
  have "ok (length (Parts d))" "\<not> bad" "\<not> b" "e = None" "p = hd (Parts d)"
    using assms(1) by (auto simp: decode_result_def split: if_splits)
  then show ?thesis using assms(2) by (cases "Parts d") auto
qed

lemma run_decoder_intact:
  assumes "run_decoder n (NewDecoder in1 in2 k) = Some (Inr (d', False, err))"
  shows "\<forall>p \<in> set (Parts d'). part_intact p"
  using assms unfolding run_decoder_def new_decoder_hash
  by (rule run_loop_intact) (simp add: NewDecoder_def Let_def split: option.split)

lemma decode_intact:
  assumes "Decode (NewDecoder in1 in2 k) = Some (Inr (Some p, bad, err)) \<or>
    DecodeSlice (NewDecoder in1 in2 k) = Some (Inr (Some p, bad, err))"
  shows "part_intact p \<and> \<not> bad \<and> err = None"
proof -
  obtain ok d b e where run: "run_decoder 1 (NewDecoder in1 in2 k) = Some (Inr (d, b, e))"
    and r: "decode_result ok (d, b, e) = (Some p, bad, err)" and ok: "ok 0 = False"
    using assms by (fastforce simp: Decode_def DecodeSlice_def)
  have b: "\<not> b" "\<not> bad" "err = None" "p \<in> set (Parts d)"
    using decode_result_part[OF r ok] by blast+
  then show ?thesis
    using run_decoder_intact[of 1 in1 in2 k d e] run by simp
qed

section \<open>Properties\<close>

text \<open>C11: an encoded article comes back whole. The lines that the seeding tool
  writes for any name, numbers and data (whose checksum is not zero) are decoded by
  mode 1, also with other text before and after them, and by mode 2 to a part
  with exactly the header fields, the data and the checksum, and no error.\<close>

theorem yenc_roundtrip:
  assumes "yarticle_ok a" and "\<forall>l \<in> set pre. CHR 0x0A \<notin> set l \<and> \<not> starts ''=ybegin'' l"
    and "\<forall>l \<in> set post. CHR 0x0A \<notin> set l"
  shows "Decode (NewDecoder (Some (concat (with_nl (pre @ yenc_article a @ post)))) None 1) =
      Some (Inr (Some (decoded_part a), False, None)) \<and>
    DecodeSlice (NewDecoder None (Some (yenc_article a)) 1) =
      Some (Inr (Some (decoded_part a), False, None)) \<and>
    part_Body (decoded_part a) = a_body a"
  using yenc_article_mode1[OF assms] yenc_article_mode2[OF assms(1), of "[]"]
  by (simp_all add: decoded_part_def)

definition small_article :: yarticle where
  "small_article = \<lparr>a_part = 2, a_total = 3, a_size = 6, a_name = ''a.bin'', a_begin = 3, a_body = [19, 4],
     a_fcrc = 1\<rparr>"

lemma small_crc: "crc32 [19, 4] \<noteq> 0"
  by code_simp

lemma small_article_ok: "yarticle_ok small_article"
  using small_crc by (simp add: yarticle_ok_def small_article_def name_ok_def spaces_def)

theorem yenc_roundtrip_witness:
  "part_Body (decoded_part small_article) = [19, 4] \<and>
   DecodeSlice (NewDecoder None (Some (yenc_article small_article)) 1) =
     Some (Inr (Some (decoded_part small_article), False, None))"
  using yenc_roundtrip[OF small_article_ok, of "[]" "[]"] by (simp add: small_article_def)

text \<open>No damaged part is ever accepted. Whatever the input, when mode 1 or mode 2
  returns a part, it reports neither a bad checksum nor an error, the length of the
  data is the size in the trailer, and its CRC32 is the part checksum there.\<close>

theorem decoded_part_intact:
  assumes "Decode (NewDecoder in1 in2 k) = Some (Inr (Some p, bad, err)) \<or>
    DecodeSlice (NewDecoder in1 in2 k) = Some (Inr (Some p, bad, err))"
  shows "crc32 (part_Body p) = Crc32 p \<and> int (length (part_Body p)) = part_Size p \<and> \<not> BadCRC p \<and>
    \<not> bad \<and> err = None"
  using decode_intact[OF assms] by (simp add: part_intact_def)

theorem decoded_part_intact_witness:
  "crc32 (part_Body (decoded_part small_article)) = Crc32 (decoded_part small_article)"
proof -
  have "DecodeSlice (NewDecoder None (Some ([] @ yenc_article small_article)) 1) =
      Some (Inr (Some (decoded_part small_article), False, None))"
    by (rule yenc_article_mode2[OF small_article_ok]) simp
  from decoded_part_intact[OF disjI2[OF this]] show ?thesis by blast
qed

text \<open>Mode 2 crashes on a multipart article without its \<open>=ypart\<close> line: the
  search leaves the empty string, and slicing it panics.\<close>

theorem mode2_missing_ypart_panics:
  assumes "List.find (\<lambda>s. starts ''=ybegin'' s) ls = Some h" and "List.find (\<lambda>s. starts ''=ypart'' s) ls = None"
    and "Multipart (parse_header h (NewDecoder None (Some ls) 1))"
    and "part_Name (Part (parse_header h (NewDecoder None (Some ls) 1))) \<noteq> []"
  shows "DecodeSlice (NewDecoder None (Some ls) 1) = Some (Inl IndexOutOfRange)"
proof -
  let ?d = "NewDecoder None (Some ls) 1"
  let ?d1 = "parse_header h ?d"
  have d: "Buf ?d = None" "Dat ?d = Some ls" "?d\<lparr>Part := new_part\<rparr> = ?d"
    by (simp_all add: NewDecoder_def)
  have keep: "Buf (parse_header s x) = Buf x" "Dat (parse_header s x) = Dat x" for s x
  proof -
    have "Buf (fold header_field kvs y) = Buf y \<and> Dat (fold header_field kvs y) = Dat y" for kvs y
      by (induction kvs arbitrary: y) (auto simp: header_field_def)
    then show "Buf (parse_header s x) = Buf x" "Dat (parse_header s x) = Dat x"
      by (auto simp: parse_header_def split: option.splits prod.splits)
  qed
  have 1: "ReadHeader None False ?d = Inr ?d1"
    using assms(1) d by (simp add: ReadHeader_def)
  have 2: "ReadPartHeader [] ?d1 = Inl IndexOutOfRange"
    using assms(2) d keep by (simp add: ReadPartHeader_def parse_part_header_def)
  show ?thesis
    using assms(3,4) 1 2 d(3) by (simp add: DecodeSlice_def run_decoder_def run_loop.simps)
qed

theorem mode2_missing_ypart_panics_witness:
  "DecodeSlice (NewDecoder None (Some [''=ybegin part=1 line=128 size=1 name=a'', ''k'']) 1) =
     Some (Inl IndexOutOfRange)"
proof -
  let ?h = "''=ybegin part=1 line=128 size=1 name=a''"
  let ?d = "NewDecoder None (Some [?h, ''k'']) 1"
  have s: "split_first ''name='' (drop 7 ?h) = Some ('' part=1 line=128 size=1 '', ''a'')"
    by simp
  have kv: "key_values '' part=1 line=128 size=1 '' = [(''part'', ''1''), (''line'', ''128''), (''size'', ''1'')]"
    by (simp add: key_values_def TrimSpace_def TrimRight_def TrimLeft_def spaces_def)
  have "TrimSpace ''a'' = ''a''"
    by (simp add: TrimSpace_def TrimRight_def TrimLeft_def spaces_def)
  then have "Multipart (parse_header ?h ?d)" "part_Name (Part (parse_header ?h ?d)) \<noteq> []"
    unfolding parse_header_def s option.case prod.case kv by (simp_all add: header_field_def)
  then show ?thesis
    by (intro mode2_missing_ypart_panics[of _ ?h]) (simp_all add: starts_def)
qed

text \<open>A single-part article, whose trailer has the file checksum \<open>crc32\<close> and no
  \<open>pcrc32\<close>, is rejected even when it is intact: the part checksum stays zero, which
  \<open>Validate\<close> takes for a missing one.\<close>

theorem single_part_rejected:
  assumes "ParseTrailerNew t d = Inr d'" and "''pcrc32'' \<notin> fst ` set (key_values t)" and "Crc32 (Part d) = 0"
  shows "snd (part_Validate (Part d')) \<noteq> None"
proof -
  have "Crc32 (Part d2) = 0"
    if "trailer_fields kvs d1 = Inr d2" "''pcrc32'' \<notin> fst ` set kvs" "Crc32 (Part d1) = 0" for kvs d1 d2
    using that
  proof (induction kvs arbitrary: d1)
    case (Cons kv kvs)
    then show ?case
      by (auto simp: trailer_field_def split: sum.splits if_splits prod.splits option.splits)
  qed simp
  from this[OF assms(1)[unfolded ParseTrailerNew_def] assms(2,3)]
  show ?thesis by (simp add: part_Validate_def)
qed

definition single_lines :: "string list" where
  "single_lines = [''=ybegin line=128 size=2 name=a.bin'', ''=}.'', ''=yend size=2 crc32=2144df1c'']"

theorem single_part_rejected_witness:
  "snd (part_Validate (Part (projr (ParseTrailerNew (single_lines ! 2) (NewDecoder None None 1))))) \<noteq> None"
proof -
  let ?t = "single_lines ! 2" and ?d = "NewDecoder None None 1"
  have kv: "key_values ?t = [([], ''yend''), (''size'', ''2''), (''crc32'', ''2144df1c'')]"
    by (simp add: single_lines_def key_values_def TrimSpace_def TrimRight_def TrimLeft_def spaces_def)
  have "\<exists>d'. ParseTrailerNew ?t ?d = Inr d'"
    unfolding ParseTrailerNew_def kv by (simp add: trailer_field_def parse_int_def parse_hex32_def
        is_digit_def undec_def digit_val_def hex_val_def Let_def)
  then obtain d' where "ParseTrailerNew ?t ?d = Inr d'" ..
  moreover have "''pcrc32'' \<notin> fst ` set (key_values ?t)" unfolding kv by simp
  moreover have "Crc32 (Part ?d) = 0" by (simp add: NewDecoder_def new_part_def)
  ultimately show ?thesis
    using single_part_rejected[of ?t ?d d'] by simp
qed

end
