(* ===== verification/Nntp.thy ===== *)
theory Nntp
  imports Routines Yenc
begin

text \<open>
  \<open>NetConn.go\<close>: the commands of one NNTP connection, and \<open>readDotLines\<close>, which
  reads an article, cleans its header and checks its yEnc data on the way. The
  server is the list of lines it is going to send and the number of writes that
  are still going to succeed; what is written is kept. Line texts are without
  their line ends, as \<open>textproto\<close> returns them. The asynchronous line decoder
  of mode 3 runs between any two lines, as far as the argument \<open>sched\<close> says.
  Pooling of buffers, core limiters and deadlines have no effect here.
\<close>

section \<open>The connection\<close>

record nconn =
  incoming :: "string list"
  outgoing :: string
  writes_left :: nat
  hung_up :: bool

datatype nerr = NilConn | WriteFailed | ReadFailed | ShortResponse | InvalidCode | WrongCode int
  | MultiLineResponse | UnknownCode int | EmptyArticle | TooLarge | UnknownCommand

definition CRLF :: string where "CRLF = [CHR 0x0D, CHR 0x0A]"
definition DOT :: string where "DOT = ''.''"

text \<open>\<open>io.WriteString\<close> and \<open>Flush\<close> on the connection's writer.\<close>

definition WriteString :: "string \<Rightarrow> nconn \<Rightarrow> nconn option" where
  "WriteString s c =
     (if writes_left c = 0 then None
      else Some (c\<lparr>outgoing := outgoing c @ s, writes_left := writes_left c - 1\<rparr>))"

text \<open>\<open>textproto\<close>: \<open>Cmd\<close>, and \<open>ReadCodeLine\<close> with its check of the expected code.\<close>

definition Cmd :: "string \<Rightarrow> nconn \<Rightarrow> nconn option" where
  "Cmd s c = WriteString (s @ CRLF) c"

definition wrong_code :: "int \<Rightarrow> int \<Rightarrow> bool" where
  "wrong_code expected code \<longleftrightarrow>
     1 \<le> expected \<and> expected < 10 \<and> code div 100 \<noteq> expected \<or>
     10 \<le> expected \<and> expected < 100 \<and> code div 10 \<noteq> expected \<or>
     100 \<le> expected \<and> expected < 1000 \<and> code \<noteq> expected"

definition parse_code_line :: "int \<Rightarrow> string \<Rightarrow> int \<times> string \<times> nerr option" where
  "parse_code_line expected l =
     (if length l < 4 \<or> l ! 3 \<noteq> CHR '' '' \<and> l ! 3 \<noteq> CHR ''-'' then (0, [], Some ShortResponse)
      else case parse_int (take 3 l) of (code, ok) \<Rightarrow>
        if \<not> ok \<or> code < 100 then (code, [], Some InvalidCode)
        else (code, drop 4 l,
              if wrong_code expected code then Some (WrongCode code)
              else if l ! 3 = CHR ''-'' then Some MultiLineResponse else None))"

definition ReadCodeLine :: "int \<Rightarrow> nconn \<Rightarrow> (int \<times> string \<times> nerr option) \<times> nconn" where
  "ReadCodeLine expected c =
     (case incoming c of
        [] \<Rightarrow> ((0, [], Some ReadFailed), c)
      | l # ls \<Rightarrow> (parse_code_line expected l, c\<lparr>incoming := ls\<rparr>))"

text \<open>\<open>provider.ConnPool.CloseConn\<close> as far as this connection goes.\<close>

definition hang_up :: "nconn \<Rightarrow> nconn" where
  "hang_up c = c\<lparr>hung_up := True\<rparr>"

section \<open>\<open>STAT\<close>\<close>

text \<open>\<open>None\<close> stands for a nil connection or one without its reader.\<close>

definition CMD_STAT :: "string \<Rightarrow> nconn option \<Rightarrow> (int \<times> string \<times> nerr option) \<times> nconn option" where
  "CMD_STAT mid co =
     (case co of None \<Rightarrow> ((0, [], Some NilConn), None)
      | Some c \<Rightarrow>
     (case Cmd (''STAT '' @ mid) c of None \<Rightarrow> ((0, [], Some WriteFailed), co)
      | Some c1 \<Rightarrow>
     (case ReadCodeLine 223 c1 of ((code, msg, err), c2) \<Rightarrow>
        (if code = 223 \<or> code = 430 \<or> code = 451 then (code, msg, None)
         else (code, msg, Some (UnknownCode code)), Some c2))))"

section \<open>Sending an article\<close>

text \<open>The dot-stuffing of the sending loops, and the loops themselves: the bytes
  written so far, and whether every write succeeded.\<close>

definition stuff :: "string \<Rightarrow> string" where
  "stuff line = (if has_prefix ''.'' line then CHR ''.'' # line else line)"

fun send_lines :: "string list \<Rightarrow> 64 word \<Rightarrow> nconn \<Rightarrow> nconn \<times> 64 word \<times> bool" where
  "send_lines [] txb c = (c, txb, True)"
| "send_lines (l # ls) txb c =
     (case WriteString (stuff l @ CRLF) c of
        None \<Rightarrow> (c, txb, False)
      | Some c' \<Rightarrow> send_lines ls (txb + of_nat (length (stuff l @ CRLF))) c')"

text \<open>The whole article: the lines, the final dot, and the flush.\<close>

definition send_article :: "string list \<Rightarrow> nconn \<Rightarrow> nconn \<times> 64 word \<times> bool" where
  "send_article ls c =
     (case send_lines ls 0 c of (c1, txb, ok) \<Rightarrow>
        if \<not> ok then (c1, txb, False)
        else case WriteString (DOT @ CRLF) c1 of
          None \<Rightarrow> (c1, txb, False)
        | Some c2 \<Rightarrow>
            (case WriteString [] c2 of None \<Rightarrow> (c2, txb, False) | Some c3 \<Rightarrow> (c3, txb, True)))"

definition CMD_IHAVE :: "item \<Rightarrow> nconn option \<Rightarrow> (int \<times> string \<times> 64 word \<times> nerr option) \<times> nconn option" where
  "CMD_IHAVE it co =
     (case co of None \<Rightarrow> ((0, [], 0, Some NilConn), None)
      | Some c \<Rightarrow>
     (case Cmd (''IHAVE '' @ seg_id it) c of None \<Rightarrow> ((0, [], 0, Some WriteFailed), co)
      | Some c1 \<Rightarrow>
     (case ReadCodeLine 335 c1 of ((code, msg, err), c2) \<Rightarrow>
        if err \<noteq> None \<and> code = 0 then ((code, msg, 0, err), Some c2)
        else if code = 435 \<or> code = 436 then ((code, msg, 0, None), Some c2)
        else if code \<noteq> 335 then ((code, msg, 0, Some (UnknownCode code)), Some c2)
        else if article it = [] then ((0, msg, 0, Some EmptyArticle), Some c2)
        else case send_article (article it) c2 of (c3, txb, ok) \<Rightarrow>
          if \<not> ok then ((0, msg, txb, Some WriteFailed), Some c3)
          else case ReadCodeLine 235 c3 of ((code2, msg2, err2), c4) \<Rightarrow>
            (if err2 \<noteq> None then (code2, msg2, txb, err2)
             else if code2 = 235 \<or> code2 = 436 \<or> code2 = 437 then (code2, msg2, txb, None)
             else (code2, msg2, txb, Some (UnknownCode code2)), Some c4))))"

definition CMD_POST :: "item \<Rightarrow> nconn option \<Rightarrow> (int \<times> string \<times> 64 word \<times> nerr option) \<times> nconn option" where
  "CMD_POST it co =
     (case co of None \<Rightarrow> ((0, [], 0, Some NilConn), None)
      | Some c \<Rightarrow>
     (case Cmd ''POST'' c of None \<Rightarrow> ((0, [], 0, Some WriteFailed), co)
      | Some c1 \<Rightarrow>
     (case ReadCodeLine 340 c1 of ((code, msg, err), c2) \<Rightarrow>
        if code = 440 then ((code, [], 0, None), Some c2)
        else if code \<noteq> 340 then ((code, [], 0, err), Some c2)
        else case send_article (article it) c2 of (c3, txb, ok) \<Rightarrow>
          if \<not> ok then ((0, [], txb, Some WriteFailed), Some c3)
          else case ReadCodeLine 240 c3 of ((code2, msg2, err2), c4) \<Rightarrow>
            (if code2 = 240 \<or> code2 = 441 then (code2, msg2, txb, None)
             else (code2, msg2, txb, Some (UnknownCode code2)), Some c4))))"

section \<open>Commands\<close>

definition cmdARTICLE :: string where "cmdARTICLE = ''ARTICLE''"
definition cmdHEAD :: string where "cmdHEAD = ''HEAD''"
definition cmdBODY :: string where "cmdBODY = ''BODY''"

definition itemReadLineCommands :: "string list" where
  "itemReadLineCommands = [cmdARTICLE, cmdHEAD, cmdBODY]"

definition otherReadLineCommands :: "string list" where
  "otherReadLineCommands = [''LIST'', ''LISTGROUP'', ''XHDR'', ''HDR'', ''XOVER'', ''OVER'', ''XPAT'', ''XPATH'',
     ''NEWNEWS'', ''NEWGROUPS'']"

definition IsItemCommand :: "string \<Rightarrow> bool" where
  "IsItemCommand what \<longleftrightarrow> upper what \<in> set itemReadLineCommands"

definition IsOtherCommand :: "string \<Rightarrow> bool" where
  "IsOtherCommand what \<longleftrightarrow> upper what \<in> set otherReadLineCommands"

definition cleanHeader :: "string list" where
  "cleanHeader = [''X-'', ''Date:'', ''Nntp-'', ''Path:'', ''Xref:'', ''Cancel-'', ''Injection-'',
     ''User-Agent:'', ''Organization:'']"

text \<open>The headers a re-upload must keep, and the file that can replace the list of
  those it drops: \<open>content\<close> is the file's lines, \<open>None\<close> when no file is named.\<close>

definition needHeaders :: "string list" where
  "needHeaders = [''From:'', ''Subject:'', ''Newsgroups:'', ''Message-Id:'']"

definition LoadHeadersFromFile :: "string list option \<Rightarrow> string list option go" where
  "LoadHeadersFromFile file =
     (case file of None \<Rightarrow> Inr None
      | Some text \<Rightarrow>
          (let lines = filter (\<lambda>l. l \<noteq> []) text
           in if list_ex (\<lambda>line. list_ex (\<lambda>hdr. has_prefix hdr line) needHeaders) lines then Inl ProcessExit
              else Inr (Some (if list_ex (has_prefix ''Date:'') lines then lines else lines @ [''Date:'']))))"

text \<open>The options that \<open>readDotLines\<close> reads, the globals \<open>proxy\<close>,
  \<open>yenc.SimdMode\<close> and \<open>cleanHeader\<close>; \<open>WriteParts\<close> is \<open>cfg.opt.YencWrite && cacheON\<close>.\<close>

record netopt =
  MaxArtSize :: nat
  CleanHeaders :: bool
  YencCRC :: bool
  YencTest :: int
  DoubleCheck :: bool
  WriteParts :: bool
  net_proxy :: bool
  SimdMode :: int
  cleanKeys :: "string list"

section \<open>Reading an article\<close>

text \<open>
  The variables of \<open>readDotLines\<close>. \<open>lineQueue\<close> is \<open>decodeBodyChan\<close> of mode 3,
  \<open>asyncBroken\<close> and \<open>asyncOK\<close> are what its goroutine has counted under \<open>ERR\<close>
  and \<open>OK\<close>.
\<close>

record rdl =
  parseHeader :: bool
  ignoreNext :: bool
  gotYencHeader :: bool
  gotMultipart :: bool
  brokenYenc :: bool
  sawYbegin :: bool
  content :: "string list"
  rxb :: nat
  ydec :: string
  ydat :: "string list"
  ybuf :: string
  ydecoder :: decoder
  lineQueue :: "string list"
  asyncBroken :: bool
  asyncOK :: nat
  sentLines :: nat

definition rdl_start :: "string \<Rightarrow> rdl" where
  "rdl_start command = \<lparr>parseHeader = (command = cmdARTICLE \<or> command = cmdHEAD), ignoreNext = False,
     gotYencHeader = False, gotMultipart = False, brokenYenc = False, sawYbegin = False, content = [], rxb = 0,
     ydec = [], ydat = [], ybuf = [], ydecoder = NewDecoder None None 1, lineQueue = [], asyncBroken = False,
     asyncOK = 0, sentLines = 0\<rparr>"

text \<open>One line taken from the channel by the decoder goroutine.\<close>

definition decode_queued :: "int \<Rightarrow> string \<Rightarrow> rdl \<Rightarrow> rdl" where
  "decode_queued simd line st =
     (if asyncBroken st then st
      else case ReadBody simd line True (ydecoder st) of
        Inl _ \<Rightarrow> st\<lparr>asyncBroken := True\<rparr>
      | Inr d \<Rightarrow> st\<lparr>ydecoder := d, asyncOK := asyncOK st + 1\<rparr>)"

text \<open>The goroutine takes up to \<open>k\<close> lines.\<close>

definition run_async :: "int \<Rightarrow> nat \<Rightarrow> rdl \<Rightarrow> rdl" where
  "run_async simd k st =
     fold (decode_queued simd) (take k (lineQueue st)) (st\<lparr>lineQueue := drop k (lineQueue st)\<rparr>)"

text \<open>The end of the header; \<open>date\<close> is the new \<open>Date\<close> line.\<close>

definition end_header :: "netopt \<Rightarrow> string \<Rightarrow> string \<Rightarrow> string \<Rightarrow> rdl \<Rightarrow> rdl" where
  "end_header opt date command line st =
     (if parseHeader st \<and> line = [] \<or> command = cmdHEAD \<and> line = ''.''
      then st\<lparr>parseHeader := False,
              content := (if net_proxy opt then content st else content st @ [date, ''Path: not-for-mail''])\<rparr>
      else st)"

definition is_spaced :: "string \<Rightarrow> bool" where
  "is_spaced line \<longleftrightarrow> line \<noteq> [] \<and> (hd line = CHR '' '' \<or> hd line = CHR 0x09)"

definition cleaned :: "netopt \<Rightarrow> string \<Rightarrow> bool" where
  "cleaned opt line \<longleftrightarrow>
     CleanHeaders opt \<and> \<not> net_proxy opt \<and> list_ex (\<lambda>key. has_prefix key line) (cleanKeys opt)"

definition header_line :: "netopt \<Rightarrow> string \<Rightarrow> rdl \<Rightarrow> rdl" where
  "header_line opt line st =
     (let st1 = (if \<not> is_spaced line \<and> ignoreNext st then st\<lparr>ignoreNext := False\<rparr> else st)
      in if is_spaced line \<and> ignoreNext st1 then st1
         else if cleaned opt line then st1\<lparr>ignoreNext := True\<rparr>
         else st1\<lparr>content := content st1 @ [line]\<rparr>)"

definition unstuff :: "string \<Rightarrow> string" where
  "unstuff line = (if has_prefix ''..'' line then tl line else line)"

text \<open>Mode 3: the header lines of the yEnc block here, the others into the channel.\<close>

definition mode3_line :: "string \<Rightarrow> rdl \<Rightarrow> rdl go" where
  "mode3_line line st =
     (if gotYencHeader st then
        (if Multipart (ydecoder st) \<and> \<not> gotMultipart st then
           (case ReadPartHeader line (ydecoder st) of
              Inl p \<Rightarrow> Inl p
            | Inr (Inl _) \<Rightarrow> Inr (st\<lparr>brokenYenc := True\<rparr>)
            | Inr (Inr d) \<Rightarrow> Inr (st\<lparr>ydecoder := d, gotMultipart := True\<rparr>))
         else if asyncBroken st then Inr (st\<lparr>brokenYenc := True\<rparr>)
         else Inr (st\<lparr>lineQueue := lineQueue st @ [line], sentLines := sentLines st + 1\<rparr>))
      else if length line < 7 \<or> \<not> has_prefix ''=ybegin '' line then Inr st
      else case ReadHeader (Some line) False (ydecoder st) of
        Inl _ \<Rightarrow> Inr (st\<lparr>brokenYenc := True\<rparr>)
      | Inr d \<Rightarrow>
          if part_Name (Part d) = [] then Inr (st\<lparr>ydecoder := d, brokenYenc := True\<rparr>)
          else Inr (st\<lparr>ydecoder := d, gotYencHeader := True\<rparr>))"

definition is_body_cmd :: "string \<Rightarrow> bool" where
  "is_body_cmd command \<longleftrightarrow> command = cmdARTICLE \<or> command = cmdBODY"

definition yenc_line :: "netopt \<Rightarrow> string \<Rightarrow> rdl \<Rightarrow> rdl go" where
  "yenc_line opt line st0 =
     (let st = (if has_prefix ''=ybegin '' line then st0\<lparr>sawYbegin := True\<rparr> else st0)
      in if YencTest opt = 1 then Inr (st\<lparr>ydec := ydec st @ line @ [CHR 0x0A]\<rparr>)
         else if YencTest opt = 2 then Inr (st\<lparr>ydat := ydat st @ [line]\<rparr>)
         else if YencTest opt = 4
         then Inr (st\<lparr>ybuf := ybuf st @ (if has_prefix ''.'' line then ''.'' else []) @ line @ CRLF\<rparr>)
         else if YencTest opt = 3 then mode3_line line st
         else Inr st)"

definition body_line :: "netopt \<Rightarrow> string \<Rightarrow> string \<Rightarrow> rdl \<Rightarrow> rdl go" where
  "body_line opt command raw st =
     (let line = (if is_body_cmd command then unstuff raw else raw);
          st1 = (if is_body_cmd command \<or> IsOtherCommand command
                 then st\<lparr>content := content st @ [line]\<rparr> else st)
      in if YencCRC opt \<and> \<not> brokenYenc st1 \<and> is_body_cmd command then yenc_line opt line st1 else Inr st1)"

text \<open>One turn of the loop that did not meet the final dot or the size limit.\<close>

definition keep_line :: "netopt \<Rightarrow> string \<Rightarrow> string \<Rightarrow> rdl \<Rightarrow> rdl go" where
  "keep_line opt command line st =
     (if parseHeader st then Inr (header_line opt line st)
      else if command \<noteq> cmdHEAD then body_line opt command line st
      else Inr st)"

datatype read_end = Finished rdl | Broken nat nerr

text \<open>The loop \<open>readlines\<close>; \<open>sched\<close> tells how many queued lines the decoder
  goroutine takes before each line. The connection is closed when the article is too long.\<close>

fun readlines ::
  "netopt \<Rightarrow> string \<Rightarrow> string \<Rightarrow> (nat \<Rightarrow> nat) \<Rightarrow> nat \<Rightarrow> string list \<Rightarrow> rdl \<Rightarrow> (read_end \<times> string list) go" where
  "readlines opt date command sched i [] st = Inr (Broken (rxb st) ReadFailed, [])"
| "readlines opt date command sched i (line # rest) st0 =
     (let st1 = run_async (SimdMode opt) (sched i) st0;
          st2 = st1\<lparr>rxb := rxb st1 + length line\<rparr>
      in if IsItemCommand command \<and> rxb st2 > MaxArtSize opt then Inr (Broken (rxb st2) TooLarge, rest)
         else let st3 = end_header opt date command line st2
         in if line = ''.'' then Inr (Finished st3, rest)
         else go_bind (keep_line opt command line st3) (readlines opt date command sched (i + 1) rest))"

section \<open>After the final dot\<close>

text \<open>
  What the yEnc check finds: nothing to check, a broken or damaged article, or a
  part that passed. \<open>rapid\<close> is the \<open>rapidyenc\<close> decoder applied to the whole body:
  the data, the name and the checksum, or \<open>None\<close> for its error.
\<close>

datatype ycheck = NotYenc | BadYenc | GoodPart part

text \<open>Modes 1 and 2, from the result of \<open>Decode\<close> or \<open>DecodeSlice\<close>.\<close>

definition check_decoded :: "(part option \<times> bool \<times> yerr option) go option \<Rightarrow> ycheck go" where
  "check_decoded r =
     (case r of None \<Rightarrow> Inr BadYenc
      | Some (Inl p) \<Rightarrow> Inl p
      | Some (Inr (yPart, bad, err)) \<Rightarrow>
          Inr (if bad \<or> err \<noteq> None then BadYenc
               else case yPart of None \<Rightarrow> BadYenc | Some p \<Rightarrow> GoodPart p))"

definition check_part :: "part \<Rightarrow> ycheck" where
  "check_part p = (case part_Validate p of (p', err) \<Rightarrow>
     if err \<noteq> None \<or> BadCRC p' then BadYenc else GoodPart p')"

definition mode3_end :: "netopt \<Rightarrow> rdl \<Rightarrow> ycheck" where
  "mode3_end opt st0 =
     (let st = run_async (SimdMode opt) (length (lineQueue st0)) st0
      in if asyncOK st \<noteq> sentLines st then BadYenc
         else if \<not> gotYencHeader st then NotYenc
         else check_part (Part (ydecoder st)))"

definition mode4_end ::
  "netopt \<Rightarrow> (string \<Rightarrow> (bytes \<times> string \<times> 32 word) option) \<Rightarrow> int \<Rightarrow> rdl \<Rightarrow> ycheck" where
  "mode4_end opt rapid num st =
     (case rapid (ybuf st @ DOT @ CRLF) of
        None \<Rightarrow> if sawYbegin st then BadYenc else NotYenc
      | Some (b, name, h) \<Rightarrow>
          (let p = new_part\<lparr>part_Number := num, part_Size := int (length b), part_Name := name, Crc32 := h,
                            part_Body := b\<rparr>
           in if DoubleCheck opt then check_part p else GoodPart p))"

definition yenc_end ::
  "netopt \<Rightarrow> (string \<Rightarrow> (bytes \<times> string \<times> 32 word) option) \<Rightarrow> int \<Rightarrow> string \<Rightarrow> rdl \<Rightarrow> ycheck go" where
  "yenc_end opt rapid num command st =
     (if \<not> YencCRC opt \<or> \<not> is_body_cmd command then Inr NotYenc
      else if brokenYenc st then Inr BadYenc
      else if YencTest opt = 4 then Inr (mode4_end opt rapid num st)
      else if YencTest opt = 3 then Inr (mode3_end opt st)
      else if YencTest opt = 1 \<and> sawYbegin st
      then check_decoded (Decode (NewDecoder (if ydec st = [] then None else Some (ydec st)) None 1))
      else if YencTest opt = 2 \<and> sawYbegin st
      then check_decoded (DecodeSlice (NewDecoder None (if ydat st = [] then None else Some (ydat st)) 1))
      else Inr NotYenc)"

text \<open>The lines become the item's, unless there are none.\<close>

definition store_lines :: "string \<Rightarrow> rdl \<Rightarrow> item \<Rightarrow> item \<times> nerr option" where
  "store_lines command st it =
     (if content st = [] then (it, None)
      else if command = cmdARTICLE
      then (it\<lparr>article := content st, item_size := rxb st, dlcnt := dlcnt it + 1\<rparr>, None)
      else if command = cmdBODY then (it\<lparr>item_body := content st, bodysize := rxb st\<rparr>, None)
      else if command = cmdHEAD then (it\<lparr>item_head := content st, headsize := rxb st\<rparr>, None)
      else if IsOtherCommand command then (it, None)
      else (it, Some UnknownCommand))"

text \<open>
  \<open>readDotLines\<close> with an item: its code (1, or 99932 for a damaged article), the
  bytes read and the error; the item, the connection, and the part handed to
  \<open>cache.WriteYenc\<close>. A command that is none of the item commands ends the process.
\<close>

definition readDotLines ::
  "netopt \<Rightarrow> string \<Rightarrow> (nat \<Rightarrow> nat) \<Rightarrow> (string \<Rightarrow> (bytes \<times> string \<times> 32 word) option) \<Rightarrow> int \<Rightarrow> string \<Rightarrow>
   item \<Rightarrow> nconn \<Rightarrow> ((int \<times> nat \<times> nerr option) \<times> item \<times> nconn \<times> part option) go" where
  "readDotLines opt date sched rapid num command it c =
     (if \<not> IsItemCommand command \<or> IsOtherCommand command then Inl ProcessExit
      else go_bind (readlines opt date command sched 0 (incoming c) (rdl_start command)) (\<lambda>(r, rest).
        let c1 = c\<lparr>incoming := rest\<rparr> in
        case r of
          Broken n e \<Rightarrow> Inr ((0, n, Some e), it, if e = TooLarge then hang_up c1 else c1, None)
        | Finished st \<Rightarrow> go_bind (yenc_end opt rapid num command st) (\<lambda>y.
            if y = BadYenc then Inr ((99932, rxb st, None), it\<lparr>badcrc := badcrc it + 1\<rparr>, c1, None)
            else case store_lines command st it of (it', e) \<Rightarrow>
              Inr ((if e = None then 1 else 0, rxb st, e), it', c1,
                   case y of GoodPart p \<Rightarrow> if WriteParts opt then Some p else None | _ \<Rightarrow> None))))"

definition CMD ::
  "netopt \<Rightarrow> string \<Rightarrow> (nat \<Rightarrow> nat) \<Rightarrow> (string \<Rightarrow> (bytes \<times> string \<times> 32 word) option) \<Rightarrow> int \<Rightarrow> string \<Rightarrow>
   item \<Rightarrow> nconn option \<Rightarrow> ((int \<times> string \<times> 64 word \<times> nerr option) \<times> item \<times> nconn option \<times> part option) go" where
  "CMD opt date sched rapid num command it co =
     (let expected = (if command = cmdARTICLE then 220 else if command = cmdHEAD then 221
                      else if command = cmdBODY then 222 else 0)
      in case co of None \<Rightarrow> Inr ((0, [], 0, Some NilConn), it, None, None)
      | Some c \<Rightarrow>
     (case Cmd (command @ '' '' @ seg_id it) c of None \<Rightarrow> Inr ((0, [], 0, Some WriteFailed), it, co, None)
      | Some c1 \<Rightarrow>
     (case ReadCodeLine expected c1 of ((code, msg, err), c2) \<Rightarrow>
        if code = 220 \<or> code = 221 \<or> code = 222
        then go_bind (readDotLines opt date sched rapid num command it c2) (\<lambda>((rcode, n, e), it', c3, w).
          if e \<noteq> None then Inr ((code, [], of_nat n, e), it', Some c3, w)
          else Inr ((if rcode = 99932 then 99932 else code, msg, of_nat n, None), it', Some c3, w))
        else if code = 430 \<or> code = 451 then Inr ((code, msg, 0, None), it, Some c2, None)
        else Inr ((code, msg, 0, Some (UnknownCode code)), it, Some c2, None))))"

section \<open>Lemmas: the asynchronous decoder\<close>

text \<open>The goroutine's own state: the decoder, whether a line failed, the lines done.\<close>

fun astep :: "int \<Rightarrow> string \<Rightarrow> decoder \<times> bool \<times> nat \<Rightarrow> decoder \<times> bool \<times> nat" where
  "astep simd l (d, br, n) =
     (if br then (d, br, n)
      else case ReadBody simd l True d of Inl _ \<Rightarrow> (d, True, n) | Inr d' \<Rightarrow> (d', False, n + 1))"

definition async_of :: "rdl \<Rightarrow> decoder \<times> bool \<times> nat" where
  "async_of st = (ydecoder st, asyncBroken st, asyncOK st)"

definition put_async :: "decoder \<times> bool \<times> nat \<Rightarrow> rdl \<Rightarrow> rdl" where
  "put_async a st = (case a of (d, br, n) \<Rightarrow> st\<lparr>ydecoder := d, asyncBroken := br, asyncOK := n\<rparr>)"

lemma put_async_of [simp]: "async_of (put_async a st) = a"
  by (simp add: async_of_def put_async_def split: prod.splits)

lemma put_async_same [simp]: "put_async (async_of st) st = st"
  by (simp add: async_of_def put_async_def)

lemma put_async_twice [simp]: "put_async a (put_async b st) = put_async a st"
  by (simp add: put_async_def split: prod.splits)

lemma put_async_sel [simp]:
  "parseHeader (put_async a st) = parseHeader st" "ignoreNext (put_async a st) = ignoreNext st"
  "gotYencHeader (put_async a st) = gotYencHeader st" "gotMultipart (put_async a st) = gotMultipart st"
  "brokenYenc (put_async a st) = brokenYenc st" "sawYbegin (put_async a st) = sawYbegin st"
  "content (put_async a st) = content st" "rxb (put_async a st) = rxb st" "ydec (put_async a st) = ydec st"
  "ydat (put_async a st) = ydat st" "ybuf (put_async a st) = ybuf st"
  "lineQueue (put_async a st) = lineQueue st" "sentLines (put_async a st) = sentLines st"
  by (simp_all add: put_async_def split: prod.splits)

lemma decode_queued_astep: "decode_queued simd l st = put_async (astep simd l (async_of st)) st"
  by (simp add: decode_queued_def put_async_def async_of_def split: sum.splits)

lemma fold_decode_queued: "fold (decode_queued simd) ls st = put_async (fold (astep simd) ls (async_of st)) st"
  by (induction ls arbitrary: st) (simp_all add: decode_queued_astep)

lemma run_async_eq:
  "run_async simd k st =
    (put_async (fold (astep simd) (take k (lineQueue st)) (async_of st)) st)\<lparr>lineQueue := drop k (lineQueue st)\<rparr>"
  by (simp add: run_async_def fold_decode_queued put_async_def async_of_def split: prod.splits)

text \<open>What the goroutine ends in when it has taken every queued line.\<close>

definition settled :: "int \<Rightarrow> rdl \<Rightarrow> decoder \<times> bool \<times> nat" where
  "settled simd st = fold (astep simd) (lineQueue st) (async_of st)"

lemma settled_run_async [simp]: "settled simd (run_async simd k st) = settled simd st"
proof -
  have "fold (astep simd) (lineQueue st) a =
      fold (astep simd) (drop k (lineQueue st)) (fold (astep simd) (take k (lineQueue st)) a)" for a
    by (metis append_take_drop_id fold_append comp_apply)
  then show ?thesis
    by (simp add: settled_def run_async_eq async_of_def put_async_def split: prod.splits)
qed

text \<open>Everything the goroutine does not touch.\<close>

definition base :: "rdl \<Rightarrow> rdl" where
  "base st = (put_async (NewDecoder None None 1, False, 0) st)\<lparr>lineQueue := []\<rparr>"

lemma base_run_async [simp]: "base (run_async simd k st) = base st"
  by (simp add: base_def run_async_eq put_async_def split: prod.splits)

lemma base_sel:
  assumes "base a = base b"
  shows "parseHeader a = parseHeader b" "ignoreNext a = ignoreNext b" "gotYencHeader a = gotYencHeader b"
    "gotMultipart a = gotMultipart b" "brokenYenc a = brokenYenc b" "sawYbegin a = sawYbegin b"
    "content a = content b" "rxb a = rxb b" "ydec a = ydec b" "ydat a = ydat b" "ybuf a = ybuf b"
    "sentLines a = sentLines b"
  using arg_cong[OF assms, of parseHeader] arg_cong[OF assms, of ignoreNext] arg_cong[OF assms, of gotYencHeader]
    arg_cong[OF assms, of gotMultipart] arg_cong[OF assms, of brokenYenc] arg_cong[OF assms, of sawYbegin]
    arg_cong[OF assms, of content] arg_cong[OF assms, of rxb] arg_cong[OF assms, of ydec]
    arg_cong[OF assms, of ydat] arg_cong[OF assms, of ybuf] arg_cong[OF assms, of sentLines]
  by (simp_all add: base_def)

lemma same_state:
  assumes "base a = base b" and "async_of a = async_of b" and "lineQueue a = lineQueue b"
  shows "a = b"
  using base_sel[OF assms(1)] assms(2,3) by (cases a; cases b) (simp add: async_of_def)

lemma ParseTrailer_Multipart: "ParseTrailerNew l d = Inr d' \<Longrightarrow> Multipart d' = Multipart d"
proof -
  have one: "trailer_field kv d = Inr d' \<Longrightarrow> Multipart d' = Multipart d" for kv d d'
    by (auto simp: trailer_field_def split: if_splits prod.splits option.splits)
  have "trailer_fields kvs d = Inr d' \<Longrightarrow> Multipart d' = Multipart d" for kvs
    by (induction kvs arbitrary: d) (auto dest: one split: sum.splits)
  then show "ParseTrailerNew l d = Inr d' \<Longrightarrow> Multipart d' = Multipart d"
    by (simp add: ParseTrailerNew_def)
qed

text \<open>A decoder for single lines: it has neither a buffer nor a list of lines, and
  its part's checksum is the one of the data so far.\<close>

definition line_decoder :: "decoder \<Rightarrow> bool" where
  "line_decoder d \<longleftrightarrow> Buf d = None \<and> Dat d = None \<and> hash_ok d"

lemma ParseTrailer_input: "ParseTrailerNew l d = Inr d' \<Longrightarrow> Buf d' = Buf d \<and> Dat d' = Dat d"
proof -
  have one: "trailer_field kv d = Inr d' \<Longrightarrow> Buf d' = Buf d \<and> Dat d' = Dat d" for kv d d'
    by (auto simp: trailer_field_def split: if_splits prod.splits option.splits)
  have "trailer_fields kvs d = Inr d' \<Longrightarrow> Buf d' = Buf d \<and> Dat d' = Dat d" for kvs
    by (induction kvs arbitrary: d) (auto dest: one split: sum.splits)
  then show "ParseTrailerNew l d = Inr d' \<Longrightarrow> Buf d' = Buf d \<and> Dat d' = Dat d"
    by (simp add: ParseTrailerNew_def)
qed

lemma ReadBody_line:
  assumes "line_decoder d" and "ReadBody simd l True d = Inr d'"
  shows "line_decoder d' \<and> Multipart d' = Multipart d"
proof -
  have "hash_ok d'" using ReadBody_hash[OF assms(2)] assms(1) by (simp add: line_decoder_def)
  moreover have "Buf d' = Buf d \<and> Dat d' = Dat d \<and> Multipart d' = Multipart d"
    using assms ParseTrailer_Multipart[of l d d'] ParseTrailer_input[of l d d']
    by (auto simp: ReadBody_def line_decoder_def add_data_def Let_def split: if_splits option.splits)
  ultimately show ?thesis using assms(1) by (simp add: line_decoder_def)
qed

lemma fold_astep_broken: "fold (astep simd) ls (d, True, n) = (d, True, n)"
  by (induction ls) simp_all

lemma fold_astep:
  assumes "fold (astep simd) ls (d, br, n) = (d', br', n')" and "line_decoder d"
  shows "line_decoder d' \<and> Multipart d' = Multipart d \<and> (br \<longrightarrow> br') \<and> n' \<le> n + length ls \<and>
    (br' \<and> \<not> br \<longrightarrow> n' < n + length ls) \<and> (\<not> br' \<longrightarrow> n' = n + length ls)"
  using assms
proof (induction ls arbitrary: d br n)
  case (Cons l ls)
  show ?case
  proof (cases "br \<or> (\<exists>e. ReadBody simd l True d = Inl e)")
    case True
    then have "fold (astep simd) (l # ls) (d, br, n) = (d, True, n)"
      by (auto simp: fold_astep_broken)
    then show ?thesis using Cons.prems by auto
  next
    case False
    then obtain d1 where d1: "\<not> br" "ReadBody simd l True d = Inr d1"
      by (cases "ReadBody simd l True d") auto
    then have "fold (astep simd) ls (d1, False, n + 1) = (d', br', n')" using Cons.prems(1) by simp
    moreover have "line_decoder d1 \<and> Multipart d1 = Multipart d"
      using ReadBody_line[OF Cons.prems(2) d1(2)] .
    ultimately show ?thesis using Cons.IH[of d1 False "n + 1"] d1(1) by auto
  qed
qed simp

definition rdl_inv :: "rdl \<Rightarrow> bool" where
  "rdl_inv st \<longleftrightarrow> line_decoder (ydecoder st) \<and>
     asyncOK st + length (lineQueue st) + of_bool (asyncBroken st) \<le> sentLines st \<and>
     (\<not> gotYencHeader st \<or> Multipart (ydecoder st) \<and> \<not> gotMultipart st \<longrightarrow>
        lineQueue st = [] \<and> \<not> asyncBroken st)"

lemma rdl_inv_run_async:
  assumes "rdl_inv st"
  shows "rdl_inv (run_async simd k st)"
proof -
  obtain d br n where a: "fold (astep simd) (take k (lineQueue st)) (ydecoder st, asyncBroken st, asyncOK st) = (d, br, n)"
    using prod_cases3 by blast
  have r: "run_async simd k st =
      st\<lparr>ydecoder := d, asyncBroken := br, asyncOK := n, lineQueue := drop k (lineQueue st)\<rparr>"
    using a by (simp add: run_async_eq put_async_def async_of_def)
  have f: "line_decoder d \<and> Multipart d = Multipart (ydecoder st) \<and> (asyncBroken st \<longrightarrow> br) \<and>
      n \<le> asyncOK st + length (take k (lineQueue st)) \<and>
      (br \<and> \<not> asyncBroken st \<longrightarrow> n < asyncOK st + length (take k (lineQueue st))) \<and>
      (\<not> br \<longrightarrow> n = asyncOK st + length (take k (lineQueue st)))"
    using fold_astep[OF a] assms by (simp add: rdl_inv_def)
  have "n + length (drop k (lineQueue st)) + of_bool br \<le> asyncOK st + length (lineQueue st) + of_bool (asyncBroken st)"
  proof -
    have "length (take k (lineQueue st)) + length (drop k (lineQueue st)) = length (lineQueue st)"
      by (metis append_take_drop_id length_append)
    then show ?thesis using f by (cases br; cases "asyncBroken st") simp_all
  qed
  moreover have "lineQueue st = [] \<Longrightarrow> br = asyncBroken st" using a by simp
  ultimately show ?thesis
    using assms f unfolding r rdl_inv_def by (cases br; cases "asyncBroken st") auto
qed

lemma mode3_line_inv:
  assumes "rdl_inv st" and "mode3_line line st = Inr st'"
  shows "rdl_inv st'"
proof -
  have p: "line_decoder d \<Longrightarrow> ReadPartHeader line d = Inr (Inr d') \<Longrightarrow> line_decoder d' \<and> Multipart d' = Multipart d" for d d'
  proof -
    have one: "line_decoder (fold part_field kvs d) = line_decoder d \<and> Multipart (fold part_field kvs d) = Multipart d" for kvs d
      by (induction kvs arbitrary: d) (simp_all add: part_field_def line_decoder_def hash_ok_def)
    show "line_decoder d \<Longrightarrow> ReadPartHeader line d = Inr (Inr d') \<Longrightarrow> line_decoder d' \<and> Multipart d' = Multipart d"
      using one by (auto simp: ReadPartHeader_def parse_part_header_def line_decoder_def split: if_splits)
  qed
  have one: "line_decoder (fold header_field kvs d) = line_decoder d" for kvs d
    by (induction kvs arbitrary: d) (simp_all add: header_field_def line_decoder_def hash_ok_def)
  have q: "line_decoder (parse_header line d) = line_decoder d" for d
    using one[of _ "d\<lparr>Part := (Part d)\<lparr>part_Name := nm\<rparr>\<rparr>" for nm] unfolding parse_header_def
    by (cases "split_first ''name='' (drop 7 line)")
      (simp_all add: one line_decoder_def [of "d\<lparr>Part := p\<rparr>" for p] line_decoder_def [of d] hash_ok_def
        split: prod.splits)
  have h: "line_decoder d \<Longrightarrow> ReadHeader (Some line) False d = Inr d' \<Longrightarrow> line_decoder d'" for d d'
    using q[of d] by (simp add: ReadHeader_def line_decoder_def)
  have ld: "line_decoder (ydecoder st)" using assms(1) by (simp add: rdl_inv_def)
  consider (part) "gotYencHeader st" "Multipart (ydecoder st) \<and> \<not> gotMultipart st"
    | (data) "gotYencHeader st" "\<not> (Multipart (ydecoder st) \<and> \<not> gotMultipart st)"
    | (before) "\<not> gotYencHeader st" by blast
  then show ?thesis
  proof cases
    case part
    then show ?thesis
      using assms p[OF ld] unfolding mode3_line_def
      by (cases "ReadPartHeader line (ydecoder st)") (auto simp: rdl_inv_def split: sum.splits)
  next
    case data
    then have "st' = (if asyncBroken st then st\<lparr>brokenYenc := True\<rparr>
        else st\<lparr>lineQueue := lineQueue st @ [line], sentLines := sentLines st + 1\<rparr>)"
      using assms(2) by (auto simp: mode3_line_def split: if_splits)
    then show ?thesis using assms(1) data by (auto simp: rdl_inv_def)
  next
    case before
    show ?thesis
    proof (cases "length line < 7 \<or> \<not> has_prefix ''=ybegin '' line")
      case True
      then show ?thesis using assms before by (simp only: mode3_line_def if_False if_True sum.inject)
    next
      case False
      then show ?thesis
        using assms before h[OF ld] unfolding mode3_line_def
        by (cases "ReadHeader (Some line) False (ydecoder st)") (auto simp: rdl_inv_def split: if_splits)
    qed
  qed
qed

definition front :: "rdl \<Rightarrow> bool \<times> bool \<times> string list \<times> nat" where
  "front st = (parseHeader st, ignoreNext st, content st, rxb st)"

text \<open>The article is going to be rejected, whatever the goroutine does next.\<close>

definition doomed :: "netopt \<Rightarrow> string \<Rightarrow> rdl \<Rightarrow> bool" where
  "doomed opt command st \<longleftrightarrow> YencCRC opt \<and> is_body_cmd command \<and> YencTest opt = 3 \<and>
     (brokenYenc st \<or> fst (snd (settled (SimdMode opt) st)))"

text \<open>Two runs agree up to the lines that are still queued, or both are doomed.\<close>

definition agree :: "netopt \<Rightarrow> string \<Rightarrow> rdl \<Rightarrow> rdl \<Rightarrow> bool" where
  "agree opt command a b \<longleftrightarrow> rdl_inv a \<and> rdl_inv b \<and>
     (base a = base b \<and> settled (SimdMode opt) a = settled (SimdMode opt) b \<or>
      front a = front b \<and> doomed opt command a \<and> doomed opt command b)"

text \<open>Fields that neither the goroutine nor the invariant looks at.\<close>

definition tweak :: "(rdl \<Rightarrow> rdl) \<Rightarrow> bool" where
  "tweak f \<longleftrightarrow> (\<forall>st. lineQueue (f st) = lineQueue st \<and> async_of (f st) = async_of st \<and>
     gotYencHeader (f st) = gotYencHeader st \<and> gotMultipart (f st) = gotMultipart st \<and>
     sentLines (f st) = sentLines st \<and> brokenYenc (f st) = brokenYenc st) \<and>
   (\<forall>a b. base a = base b \<longrightarrow> base (f a) = base (f b)) \<and> (\<forall>a b. front a = front b \<longrightarrow> front (f a) = front (f b))"

lemma tweak_agree:
  assumes "tweak f" and "agree opt command a b"
  shows "agree opt command (f a) (f b)"
proof -
  have "rdl_inv (f st) = rdl_inv st" "settled simd (f st) = settled simd st" "brokenYenc (f st) = brokenYenc st" for st simd
    using assms(1) by (auto simp: tweak_def rdl_inv_def settled_def async_of_def)
  then have same: "rdl_inv (f st) = rdl_inv st" "settled simd (f st) = settled simd st"
      "doomed opt command (f st) = doomed opt command st" for st simd
    by (simp_all add: doomed_def)
  have "base a = base b \<Longrightarrow> base (f a) = base (f b)" "front a = front b \<Longrightarrow> front (f a) = front (f b)"
    using assms(1) unfolding tweak_def by blast+
  then show ?thesis
    using assms(2) unfolding agree_def same by blast
qed

lemma base_iff: "base a = base b \<longleftrightarrow>
    front a = front b \<and> gotYencHeader a = gotYencHeader b \<and> gotMultipart a = gotMultipart b \<and>
    brokenYenc a = brokenYenc b \<and> sawYbegin a = sawYbegin b \<and> ydec a = ydec b \<and> ydat a = ydat b \<and>
    ybuf a = ybuf b \<and> sentLines a = sentLines b"
  by (cases a; cases b) (auto simp: base_def front_def put_async_def)

lemma tweaks:
  "tweak (\<lambda>st. st\<lparr>rxb := rxb st + n\<rparr>)" "tweak (end_header opt date command line)"
  "tweak (header_line opt line)" "tweak (\<lambda>st. st\<lparr>content := content st @ ls\<rparr>)"
  "tweak (\<lambda>st. st\<lparr>sawYbegin := True\<rparr>)" "tweak (\<lambda>st. st\<lparr>ydec := ydec st @ s\<rparr>)"
  "tweak (\<lambda>st. st\<lparr>ydat := ydat st @ ls\<rparr>)" "tweak (\<lambda>st. st\<lparr>ybuf := ybuf st @ s\<rparr>)"
  by (auto simp: tweak_def base_iff front_def async_of_def end_header_def header_line_def Let_def)

lemma run_async_agree:
  assumes "agree opt command a b"
  shows "agree opt command (run_async (SimdMode opt) j a) (run_async (SimdMode opt) k b)"
proof -
  have "front (run_async simd k st) = front st" for simd k st
    by (simp add: front_def run_async_eq)
  moreover have "brokenYenc (run_async simd k st) = brokenYenc st" for simd k st
    by (simp add: run_async_eq)
  ultimately show ?thesis
    using assms by (simp add: agree_def doomed_def rdl_inv_run_async)
qed

lemma ReadPartHeader_no_panic: "line_decoder d \<Longrightarrow> ReadPartHeader line d \<noteq> Inl p"
  by (simp add: ReadPartHeader_def line_decoder_def parse_part_header_def)

lemma mode3_line_total:
  assumes "rdl_inv st"
  shows "\<exists>st'. mode3_line line st = Inr st' \<and> front st' = front st \<and> (brokenYenc st \<longrightarrow> brokenYenc st')"
proof -
  have "ReadPartHeader line (ydecoder st) \<noteq> Inl p" for p
    using assms by (intro ReadPartHeader_no_panic) (simp add: rdl_inv_def)
  then show ?thesis
    by (cases "ReadPartHeader line (ydecoder st)"; cases "ReadHeader (Some line) False (ydecoder st)")
      (simp_all add: mode3_line_def front_def split: sum.splits)
qed

text \<open>The state of a reader inside the data, and one that still reads header lines.\<close>

lemma mode3_data:
  assumes "gotYencHeader st" and "\<not> (Multipart (ydecoder st) \<and> \<not> gotMultipart st)"
  shows "mode3_line line st = Inr (if asyncBroken st then st\<lparr>brokenYenc := True\<rparr>
        else st\<lparr>lineQueue := lineQueue st @ [line], sentLines := sentLines st + 1\<rparr>)"
  unfolding mode3_line_def by (simp only: assms if_True if_False if_distrib [of Inr])

lemma settled_queued:
  "settled simd (st\<lparr>lineQueue := lineQueue st @ [line], sentLines := k\<rparr>) = astep simd line (settled simd st)"
  "settled simd (st\<lparr>brokenYenc := br\<rparr>) = settled simd st"
  by (simp_all add: settled_def async_of_def)

lemma settled_broken:
  assumes "asyncBroken st"
  shows "fst (snd (settled simd st))"
  using assms by (simp add: settled_def async_of_def fold_astep_broken)

lemma settled_Multipart:
  assumes "rdl_inv st"
  shows "Multipart (fst (settled simd st)) = Multipart (ydecoder st)"
proof -
  obtain d br n where s: "settled simd st = (d, br, n)" using prod_cases3 by blast
  then show ?thesis
    using fold_astep[of simd "lineQueue st" "ydecoder st" "asyncBroken st" "asyncOK st" d br n] assms
    by (simp add: settled_def async_of_def rdl_inv_def)
qed

lemma astep_stays_broken: "fst (snd a) \<Longrightarrow> fst (snd (astep simd l a))"
  by (cases a) simp

lemma agree_refl: "rdl_inv st \<Longrightarrow> agree opt command st st"
  by (simp add: agree_def)

lemma agreeI_doomed:
  assumes "rdl_inv a" "rdl_inv b" "front a = front b"
    and "YencCRC opt \<and> is_body_cmd command \<and> YencTest opt = 3"
    and "brokenYenc a \<or> fst (snd (settled (SimdMode opt) a))" "brokenYenc b \<or> fst (snd (settled (SimdMode opt) b))"
  shows "agree opt command a b"
  using assms by (simp add: agree_def doomed_def)

lemma mode3_line_doomed:
  assumes "rdl_inv st" and "\<not> brokenYenc st" and "fst (snd (settled simd st))" and "mode3_line line st = Inr st'"
  shows "brokenYenc st' \<or> fst (snd (settled simd st'))"
proof -
  have "lineQueue st \<noteq> [] \<or> asyncBroken st"
    using assms(3) by (auto simp: settled_def async_of_def)
  then have "gotYencHeader st" "\<not> (Multipart (ydecoder st) \<and> \<not> gotMultipart st)"
    using assms(1) by (auto simp: rdl_inv_def)
  from mode3_data[OF this, of line] show ?thesis
    using assms(3,4) by (auto simp: settled_queued astep_stays_broken split: if_splits simp del: astep.simps)
qed

lemma mode3_line_agree:
  assumes opt: "YencCRC opt \<and> is_body_cmd command \<and> YencTest opt = 3"
    and inv: "rdl_inv a" "rdl_inv b" and nb: "\<not> brokenYenc a" "\<not> brokenYenc b"
    and same: "base a = base b" "settled (SimdMode opt) a = settled (SimdMode opt) b"
    and run: "mode3_line line a = Inr a'" "mode3_line line b = Inr b'"
  shows "agree opt command a' b'"
proof -
  have inv': "rdl_inv a'" "rdl_inv b'"
    using mode3_line_inv[OF inv(1) run(1)] mode3_line_inv[OF inv(2) run(2)] .
  have m: "Multipart (ydecoder a) = Multipart (ydecoder b)"
    using settled_Multipart[OF inv(1)] settled_Multipart[OF inv(2)] same(2) by metis
  note sel = base_sel[OF same(1)]
  show ?thesis
  proof (cases "gotYencHeader a \<and> \<not> (Multipart (ydecoder a) \<and> \<not> gotMultipart a)")
    case False
    then have "lineQueue a = []" "lineQueue b = []"
      using inv m sel(3,4) unfolding rdl_inv_def by metis+
    then have "a = b"
      using same by - (rule same_state, simp_all add: settled_def)
    then show ?thesis using run inv' agree_refl by simp
  next
    case True
    then have b: "gotYencHeader b" "\<not> (Multipart (ydecoder b) \<and> \<not> gotMultipart b)"
      using m sel by auto
    show ?thesis
    proof (cases "asyncBroken a \<or> asyncBroken b")
      case True
      then have "fst (snd (settled (SimdMode opt) a))" "fst (snd (settled (SimdMode opt) b))"
        using settled_broken[of a "SimdMode opt"] settled_broken[of b "SimdMode opt"] same(2) by auto
      then have d: "brokenYenc a' \<or> fst (snd (settled (SimdMode opt) a'))" "brokenYenc b' \<or> fst (snd (settled (SimdMode opt) b'))"
        using mode3_line_doomed inv nb run by blast+
      have "front a' = front a" "front b' = front b"
        using mode3_line_total[OF inv(1), of line] mode3_line_total[OF inv(2), of line] run by auto
      then have "front a' = front b'" using same(1) by (simp add: base_iff)
      then show ?thesis using agreeI_doomed inv' opt d by blast
    next
      case False
      then have q: "a' = a\<lparr>lineQueue := lineQueue a @ [line], sentLines := sentLines a + 1\<rparr>"
          "b' = b\<lparr>lineQueue := lineQueue b @ [line], sentLines := sentLines b + 1\<rparr>"
        using run mode3_data[of a line] mode3_data[OF b, of line] True by auto
      have "settled (SimdMode opt) a' = settled (SimdMode opt) b'"
        unfolding q settled_queued same(2) ..
      moreover have "base a' = base b'"
        using same(1) unfolding q base_iff by (simp add: front_def)
      ultimately show ?thesis using inv' by (simp add: agree_def)
    qed
  qed
qed

lemma tweak_id: "tweak (\<lambda>st. st)"
  unfolding tweak_def by blast

lemma tweakD:
  assumes "tweak f"
  shows "lineQueue (f st) = lineQueue st" "async_of (f st) = async_of st" "gotYencHeader (f st) = gotYencHeader st"
    "gotMultipart (f st) = gotMultipart st" "sentLines (f st) = sentLines st" "brokenYenc (f st) = brokenYenc st"
    "base a = base b \<Longrightarrow> base (f a) = base (f b)" "front a = front b \<Longrightarrow> front (f a) = front (f b)"
  using assms unfolding tweak_def by blast+

lemma tweak_comp:
  assumes f: "tweak f" and g: "tweak g"
  shows "tweak (\<lambda>st. f (g st))"
proof -
  have "base a = base b \<Longrightarrow> base (f (g a)) = base (f (g b))" "front a = front b \<Longrightarrow> front (f (g a)) = front (f (g b))" for a b
    using tweakD(7,8)[OF f] tweakD(7,8)[OF g] by blast+
  then show ?thesis
    unfolding tweak_def tweakD(1-6)[OF f] tweakD(1-6)[OF g] by blast
qed

lemma sawYbegin_tweak: "tweak (\<lambda>st. if c then st\<lparr>sawYbegin := True\<rparr> else st)"
  using tweaks(5) tweak_id by (cases c) (simp_all only: if_True if_False)

lemma yenc_line_tweak:
  assumes "YencTest opt \<noteq> 3"
  shows "\<exists>f. tweak f \<and> (\<forall>st. yenc_line opt line st = Inr (f st))"
proof -
  let ?s = "\<lambda>st. if has_prefix ''=ybegin '' line then st\<lparr>sawYbegin := True\<rparr> else st"
  have comp: "tweak f \<Longrightarrow> tweak (\<lambda>st. f (?s st))" for f
    using tweak_comp[OF _ sawYbegin_tweak] .
  consider "YencTest opt = 1" | "YencTest opt = 2" | "YencTest opt = 4" | "YencTest opt \<notin> {1,2,4}" by blast
  then show ?thesis
  proof cases
    case 1
    then show ?thesis using comp[OF tweaks(6)[of "line @ [CHR 0x0A]"]]
      by (intro exI conjI) (assumption, simp add: yenc_line_def)
  next
    case 2
    then show ?thesis using comp[OF tweaks(7)[of "[line]"]]
      by (intro exI conjI) (assumption, simp add: yenc_line_def)
  next
    case 3
    then show ?thesis
      using comp[OF tweaks(8)[of "(if has_prefix ''.'' line then ''.'' else []) @ line @ CRLF"]]
      by (intro exI conjI) (assumption, simp add: yenc_line_def)
  next
    case 4
    then show ?thesis using assms sawYbegin_tweak[of "has_prefix ''=ybegin '' line"]
      by (intro exI conjI) (assumption, simp add: yenc_line_def)
  qed
qed


lemma yenc_line_agree:
  assumes opt: "YencCRC opt" "is_body_cmd command" and ag: "agree opt command a b"
    and nb: "\<not> brokenYenc a" "\<not> brokenYenc b" and same: "base a = base b" "settled (SimdMode opt) a = settled (SimdMode opt) b"
  shows "\<exists>a' b'. yenc_line opt line a = Inr a' \<and> yenc_line opt line b = Inr b' \<and> agree opt command a' b'"
proof (cases "YencTest opt = 3")
  case False
  then show ?thesis
    using yenc_line_tweak[of opt line] tweak_agree[OF _ ag] by blast
next
  case True
  let ?s = "\<lambda>st. if has_prefix ''=ybegin '' line then st\<lparr>sawYbegin := True\<rparr> else st"
  note t = sawYbegin_tweak[of "has_prefix ''=ybegin '' line"]
  have eq: "yenc_line opt line st = mode3_line line (?s st)" for st
    using True by (simp add: yenc_line_def Let_def)
  have i: "rdl_inv (?s a)" "rdl_inv (?s b)" using tweak_agree[OF t ag] by (simp_all add: agree_def)
  obtain a' b' where r: "mode3_line line (?s a) = Inr a'" "mode3_line line (?s b) = Inr b'"
    using mode3_line_total[OF i(1), of line] mode3_line_total[OF i(2), of line] by blast
  have "settled simd (?s st) = settled simd st" for simd st by (simp add: settled_def async_of_def)
  then have "agree opt command a' b'"
    using mode3_line_agree[OF _ i _ _ tweakD(7)[OF t same(1)] _ r] opt True nb same(2) by simp
  then show ?thesis using r eq by auto
qed

lemma body_line_agree:
  assumes ag: "agree opt command a b"
  shows "\<exists>a' b'. body_line opt command raw a = Inr a' \<and> body_line opt command raw b = Inr b' \<and> agree opt command a' b'"
proof -
  define line where "line = (if is_body_cmd command then unstuff raw else raw)"
  define f :: "rdl \<Rightarrow> rdl" where "f = (\<lambda>st. if is_body_cmd command \<or> IsOtherCommand command
                 then st\<lparr>content := content st @ [line]\<rparr> else st)"
  have eq: "body_line opt command raw st =
      (if YencCRC opt \<and> \<not> brokenYenc st \<and> is_body_cmd command then yenc_line opt line (f st) else Inr (f st))" for st
    by (simp add: body_line_def Let_def line_def f_def)
  have t: "tweak f" unfolding f_def using tweaks(4) tweak_id by (cases "is_body_cmd command \<or> IsOtherCommand command") (simp_all only: if_True if_False)
  note agf = tweak_agree[OF t ag]
  show ?thesis
  proof (cases "YencCRC opt \<and> is_body_cmd command \<and> \<not> (brokenYenc a \<and> brokenYenc b)")
    case False
    then show ?thesis using eq agf by auto
  next
    case True
    show ?thesis
    proof (cases "base a = base b \<and> settled (SimdMode opt) a = settled (SimdMode opt) b")
      case same: True
      have "settled simd (f st) = settled simd st" for simd st
        by (simp only: settled_def tweakD(1,2)[OF t])
      then have "base (f a) = base (f b)" "settled (SimdMode opt) (f a) = settled (SimdMode opt) (f b)"
        using tweakD(7)[OF t, of a b] same by simp_all
      moreover have "brokenYenc a = brokenYenc b" using same base_sel(5) by blast
      ultimately show ?thesis
        using yenc_line_agree[OF _ _ agf] True tweakD(6)[OF t] eq by simp
    next
      case dif: False
      then have d: "front a = front b" "doomed opt command a" "doomed opt command b" "rdl_inv a" "rdl_inv b"
        using ag by (auto simp: agree_def)
      then have m3: "YencCRC opt \<and> is_body_cmd command \<and> YencTest opt = 3" by (simp add: doomed_def)
      have one: "\<exists>st'. body_line opt command raw st = Inr st' \<and> front st' = front (f st) \<and> rdl_inv st' \<and>
          (brokenYenc st' \<or> fst (snd (settled (SimdMode opt) st')))"
        if dm: "doomed opt command st" and iv: "rdl_inv st" for st
      proof -
        have fst_ok: "rdl_inv (f st)" "doomed opt command (f st)"
          using iv dm tweakD(1-6)[OF t, of st] by (simp_all add: rdl_inv_def doomed_def settled_def async_of_def)
        show ?thesis
        proof (cases "brokenYenc st")
          case True
          then show ?thesis using eq m3 fst_ok tweakD(6)[OF t, of st] by simp
        next
          case False
          let ?s = "if has_prefix ''=ybegin '' line then (f st)\<lparr>sawYbegin := True\<rparr> else f st"
          have s: "rdl_inv ?s" "\<not> brokenYenc ?s" "fst (snd (settled (SimdMode opt) ?s))" "front ?s = front (f st)"
            using fst_ok False tweakD(6)[OF t, of st]
            by (simp_all add: rdl_inv_def doomed_def settled_def async_of_def front_def)
          obtain st' where r: "mode3_line line ?s = Inr st'" "front st' = front ?s"
            using mode3_line_total[OF s(1), of line] by blast
          have "body_line opt command raw st = Inr st'"
            using eq m3 False r(1) by (simp add: yenc_line_def Let_def)
          then show ?thesis
            using mode3_line_inv[OF s(1) r(1)] mode3_line_doomed[OF s(1,2,3) r(1)] r(2) s(4) by auto
        qed
      qed
      show ?thesis
        using one[OF d(2,4)] one[OF d(3,5)] tweakD(8)[OF t d(1)] agreeI_doomed[OF _ _ _ m3] by metis
    qed
  qed
qed

lemma keep_line_agree:
  assumes "agree opt command a b"
  shows "\<exists>a' b'. keep_line opt command line a = Inr a' \<and> keep_line opt command line b = Inr b' \<and> agree opt command a' b'"
proof -
  have "parseHeader a = parseHeader b"
    using assms by (auto simp: agree_def front_def dest: base_sel(1))
  then show ?thesis
    using body_line_agree[OF assms, of line] tweak_agree[OF tweaks(3)[of opt line] assms] assms
    unfolding keep_line_def by (cases "parseHeader b"; cases "command = cmdHEAD") simp_all
qed


fun same_end :: "netopt \<Rightarrow> string \<Rightarrow> read_end \<times> string list \<Rightarrow> read_end \<times> string list \<Rightarrow> bool" where
  "same_end opt command (Finished a, r) (Finished b, r') \<longleftrightarrow> agree opt command a b \<and> r = r'"
| "same_end opt command (Broken n e, r) (Broken n' e', r') \<longleftrightarrow> n = n' \<and> e = e' \<and> r = r'"
| "same_end opt command _ _ \<longleftrightarrow> False"

lemma readlines_agree:
  assumes "agree opt command a b"
  shows "\<exists>x y. readlines opt date command s i ls a = Inr x \<and> readlines opt date command t j ls b = Inr y \<and>
    same_end opt command x y"
  using assms
proof (induction ls arbitrary: a b i j)
  case Nil
  then show ?case by (auto simp: agree_def front_def dest: base_sel(8))
next
  case (Cons line ls)
  let ?n = "\<lambda>st. st\<lparr>rxb := rxb st + length line\<rparr>"
  let ?a = "?n (run_async (SimdMode opt) (s i) a)" and ?b = "?n (run_async (SimdMode opt) (t j) b)"
  have 1: "agree opt command ?a ?b"
    by (rule tweak_agree[OF tweaks(1) run_async_agree[OF Cons.prems]])
  then have x: "rxb ?a = rxb ?b"
    by (auto simp: agree_def front_def dest: base_sel(8) simp del: base_run_async)
  let ?h = "end_header opt date command line"
  have 2: "agree opt command (?h ?a) (?h ?b)"
    by (rule tweak_agree[OF tweaks(2) 1])
  obtain a' b' where k: "keep_line opt command line (?h ?a) = Inr a'" "keep_line opt command line (?h ?b) = Inr b'"
    and 3: "agree opt command a' b'"
    using keep_line_agree[OF 2] by blast
  have ra: "readlines opt date command s i (line # ls) a =
      (if IsItemCommand command \<and> rxb ?a > MaxArtSize opt then Inr (Broken (rxb ?a) TooLarge, ls)
       else if line = ''.'' then Inr (Finished (?h ?a), ls) else readlines opt date command s (i + 1) ls a')"
    using k(1) by (simp add: Let_def)
  have rb: "readlines opt date command t j (line # ls) b =
      (if IsItemCommand command \<and> rxb ?b > MaxArtSize opt then Inr (Broken (rxb ?b) TooLarge, ls)
       else if line = ''.'' then Inr (Finished (?h ?b), ls) else readlines opt date command t (j + 1) ls b')"
    using k(2) by (simp add: Let_def)
  show ?case
    unfolding ra rb using x 2 Cons.IH[OF 3, of "i + 1" "j + 1"] by (auto simp del: readlines.simps)
qed

lemma mode3_end_settled:
  "mode3_end opt st =
     (case settled (SimdMode opt) st of (d, br, n) \<Rightarrow>
        if n \<noteq> sentLines st then BadYenc else if \<not> gotYencHeader st then NotYenc else check_part (Part d))"
  by (simp add: mode3_end_def run_async_eq settled_def put_async_def Let_def split: prod.splits)

lemma settled_count:
  assumes "rdl_inv st" and "settled simd st = (d, br, n)"
  shows "br \<longrightarrow> n < sentLines st"
  using fold_astep[of simd "lineQueue st" "ydecoder st" "asyncBroken st" "asyncOK st" d br n] assms
    fold_astep_broken[of simd "lineQueue st" "ydecoder st" "asyncOK st"]
  by (cases "asyncBroken st") (auto simp: settled_def async_of_def rdl_inv_def)

lemma yenc_end_doomed:
  assumes "rdl_inv st" and "doomed opt command st"
  shows "yenc_end opt rapid num command st = Inr BadYenc"
proof -
  obtain d br n where s: "settled (SimdMode opt) st = (d, br, n)" using prod_cases3 by blast
  then show ?thesis
    using assms settled_count[OF assms(1) s] by (auto simp: yenc_end_def mode3_end_settled doomed_def)
qed

lemma yenc_end_agree:
  assumes "agree opt command a b"
  shows "yenc_end opt rapid num command a = yenc_end opt rapid num command b"
proof (cases "base a = base b \<and> settled (SimdMode opt) a = settled (SimdMode opt) b")
  case True
  note sel = base_sel[OF conjunct1[OF True]]
  have "mode3_end opt a = mode3_end opt b" "mode4_end opt rapid num a = mode4_end opt rapid num b"
    unfolding mode3_end_settled mode4_end_def sel(3,6,11,12) using True by simp_all
  then show ?thesis unfolding yenc_end_def sel(5,6,9,10) by simp
next
  case False
  then show ?thesis
    using assms yenc_end_doomed[of a opt command] yenc_end_doomed[of b opt command] by (auto simp: agree_def)
qed

lemma line_decoder_new: "rdl_inv (rdl_start command)"
  by (simp add: rdl_inv_def rdl_start_def line_decoder_def hash_ok_def NewDecoder_def new_part_def Let_def)

lemma readDotLines_schedule:
  "readDotLines opt date s rapid num command it c = readDotLines opt date t rapid num command it c"
proof -
  obtain x y where r: "readlines opt date command s 0 (incoming c) (rdl_start command) = Inr x"
      "readlines opt date command t 0 (incoming c) (rdl_start command) = Inr y" and e: "same_end opt command x y"
    using readlines_agree[OF agree_refl[OF line_decoder_new]] by metis
  show ?thesis
  proof (cases "\<exists>a b r. x = (Finished a, r) \<and> y = (Finished b, r)")
    case True
    then obtain a b q where xy: "x = (Finished a, q)" "y = (Finished b, q)" by blast
    then have ag: "agree opt command a b" using e by simp
    then have "front a = front b" by (auto simp: agree_def base_iff)
    then have "rxb a = rxb b" "store_lines command a it = store_lines command b it"
      by (simp_all add: front_def store_lines_def)
    note eqs = this yenc_end_agree[OF ag, of rapid num]
    show ?thesis
      unfolding readDotLines_def r xy go_bind_simps prod.case read_end.case eqs ..
  next
    case False
    then have "x = y" using e by (cases "(opt, command, x, y)" rule: same_end.cases) auto
    then show ?thesis unfolding readDotLines_def r by simp
  qed
qed

section \<open>Lemmas: the lines of an article\<close>

text \<open>
  What \<open>readDotLines\<close> makes of an article, said without its flags: the header is
  a list of fields, each with its continuation lines; the fields on the
  cleaning list go, two new ones follow, and the body loses its dot-stuffing.
\<close>

lemma length_dropWhile_Suc [termination_simp]: "length (dropWhile P xs) < Suc (length xs)"
  by (simp add: length_dropWhile_le less_Suc_eq_le)

fun fields :: "string list \<Rightarrow> string list list" where
  "fields [] = []"
| "fields (l # ls) = (l # takeWhile is_spaced ls) # fields (dropWhile is_spaced ls)"

definition kept_fields :: "netopt \<Rightarrow> string list \<Rightarrow> string list" where
  "kept_fields opt h = concat (filter (\<lambda>f. \<not> cleaned opt (hd f)) (fields h))"

definition new_headers :: "netopt \<Rightarrow> string \<Rightarrow> string list" where
  "new_headers opt date = (if net_proxy opt then [] else [date, ''Path: not-for-mail''])"

definition header_of :: "string list \<Rightarrow> string list" where
  "header_of ls = takeWhile (\<lambda>l. l \<noteq> []) ls"

definition body_of :: "string list \<Rightarrow> string list" where
  "body_of ls = dropWhile (\<lambda>l. l \<noteq> []) ls"

definition article_of :: "netopt \<Rightarrow> string \<Rightarrow> string list \<Rightarrow> string list" where
  "article_of opt date ls = kept_fields opt (header_of ls) @
     (if body_of ls = [] then [] else new_headers opt date @ map unstuff (body_of ls))"

text \<open>One line's effect on the header flags and the content.\<close>

fun line_step :: "netopt \<Rightarrow> string \<Rightarrow> string \<Rightarrow> bool \<times> bool \<times> string list \<Rightarrow> bool \<times> bool \<times> string list" where
  "line_step opt date l (p, ig, ct) =
     (if \<not> p then (p, ig, ct @ [unstuff l])
      else if l = [] then (False, ig, ct @ new_headers opt date @ [[]])
      else if is_spaced l \<and> ig then (p, ig, ct)
      else if cleaned opt l then (p, True, ct)
      else (p, False, ct @ [l]))"

definition flags_of :: "rdl \<Rightarrow> bool \<times> bool \<times> string list" where
  "flags_of st = (parseHeader st, ignoreNext st, content st)"

lemma mode3_line_flags: "mode3_line line st = Inr st' \<Longrightarrow> flags_of st' = flags_of st \<and> rxb st' = rxb st"
  by (auto simp: mode3_line_def flags_of_def split: if_splits sum.splits)

lemma yenc_line_flags: "yenc_line opt line st = Inr st' \<Longrightarrow> flags_of st' = flags_of st \<and> rxb st' = rxb st"
  by (auto simp: yenc_line_def flags_of_def Let_def dest!: mode3_line_flags split: if_splits)

lemma article_not_other [simp]:
  "\<not> IsOtherCommand cmdARTICLE" "IsItemCommand cmdARTICLE" "is_body_cmd cmdARTICLE" "cmdARTICLE \<noteq> cmdHEAD"
  "cmdARTICLE \<noteq> cmdBODY"
  by code_simp+

lemma unstuff_Nil [simp]: "unstuff [] = []"
  by (simp add: unstuff_def)

lemma keep_line_flags:
  assumes "keep_line opt cmdARTICLE line (end_header opt date cmdARTICLE line st) = Inr st'"
  shows "flags_of st' = line_step opt date line (flags_of st) \<and> rxb st' = rxb st"
proof (cases "parseHeader st \<and> line \<noteq> []")
  case True
  then show ?thesis
    using assms by (cases "ignoreNext st")
      (auto simp: keep_line_def end_header_def header_line_def flags_of_def Let_def)
next
  case False
  let ?st = "end_header opt date cmdARTICLE line st"
  have e: "flags_of ?st = (if parseHeader st then (False, ignoreNext st, content st @ new_headers opt date) else flags_of st)"
      "rxb ?st = rxb st" "\<not> parseHeader ?st"
    using False by (auto simp: end_header_def flags_of_def new_headers_def)
  have "body_line opt cmdARTICLE line ?st = Inr st'"
    using assms e(3) by (simp add: keep_line_def)
  then have "flags_of st' = flags_of (?st\<lparr>content := content ?st @ [unstuff line]\<rparr>) \<and> rxb st' = rxb ?st"
    by (auto simp: body_line_def Let_def flags_of_def dest!: yenc_line_flags split: if_splits)
  then show ?thesis
    using False e by (auto simp: flags_of_def split: if_splits)
qed

lemma run_async_flags: "flags_of (run_async simd k st) = flags_of st" "rxb (run_async simd k st) = rxb st"
  by (simp_all add: flags_of_def run_async_eq)

lemma readlines_article:
  assumes "readlines opt date cmdARTICLE sched i (ls @ ''.'' # rest) st = Inr (Finished st', rest')"
    and "''.'' \<notin> set ls"
  shows "content st' = snd (snd (fold (line_step opt date) ls (flags_of st))) \<and> rest' = rest \<and>
    rxb st' = rxb st + sum_list (map length ls) + 1 \<and> rxb st' \<le> MaxArtSize opt"
  using assms(1,2)
proof (induction ls arbitrary: st i)
  case Nil
  then show ?case
    using run_async_flags(1)[of "SimdMode opt" "sched i" st]
    by (auto simp: Let_def end_header_def flags_of_def run_async_flags(2) split: if_splits)
next
  case (Cons l ls)
  let ?st = "(run_async (SimdMode opt) (sched i) st)\<lparr>rxb := rxb (run_async (SimdMode opt) (sched i) st) + length l\<rparr>"
  have f: "flags_of ?st = flags_of st" "rxb ?st = rxb st + length l"
    using run_async_flags(1)[of "SimdMode opt" "sched i" st] by (simp_all add: flags_of_def run_async_flags(2))
  obtain st1 where k: "keep_line opt cmdARTICLE l (end_header opt date cmdARTICLE l ?st) = Inr st1"
    and r: "readlines opt date cmdARTICLE sched (i + 1) (ls @ ''.'' # rest) st1 = Inr (Finished st', rest')"
    using Cons.prems by (auto simp: Let_def split: if_splits)
  have k1: "flags_of st1 = line_step opt date l (flags_of st) \<and> rxb st1 = rxb st + length l"
    using keep_line_flags[OF k] f by simp
  show ?case
    using Cons.IH[OF r] Cons.prems(2) k1 by simp
qed


text \<open>No entry of the list starts with a space, which the default list and a proxy satisfy.\<close>

definition keys_ok :: "netopt \<Rightarrow> bool" where
  "keys_ok opt \<longleftrightarrow> net_proxy opt \<or> list_all (\<lambda>key. key \<noteq> [] \<and> \<not> is_spaced key) (cleanKeys opt)"

lemma spaced_not_cleaned:
  assumes "keys_ok opt" and "is_spaced l"
  shows "\<not> cleaned opt l"
proof -
  have "key \<noteq> [] \<Longrightarrow> has_prefix key l \<Longrightarrow> is_spaced key" for key
    using assms(2) by (auto simp: is_spaced_def has_prefix_iff)
  then show ?thesis using assms(1) by (auto simp: keys_ok_def cleaned_def list_all_iff list_ex_iff)
qed

lemma fold_spaced:
  assumes ok: "keys_ok opt" and "\<forall>l \<in> set ls. is_spaced l"
  shows "fold (line_step opt date) ls (True, ig, ct) = (True, ig, if ig then ct else ct @ ls)"
  using assms(2)
proof (induction ls arbitrary: ct)
  case (Cons l ls)
  then have "l \<noteq> []" "\<not> cleaned opt l" using spaced_not_cleaned[OF ok, of l] by (auto simp: is_spaced_def)
  then show ?case using Cons by (cases ig) simp_all
qed simp

lemma fold_header:
  assumes ok: "keys_ok opt" and "[] \<notin> set h" and "h = [] \<or> \<not> (is_spaced (hd h) \<and> ig)"
  shows "\<exists>ig'. fold (line_step opt date) h (True, ig, ct) = (True, ig', ct @ kept_fields opt h)"
  using assms(2,3)
proof (induction h arbitrary: ig ct rule: fields.induct)
  case 1
  then show ?case by (simp add: kept_fields_def)
next
  case (2 l ls)
  let ?sp = "takeWhile is_spaced ls" and ?more = "dropWhile is_spaced ls"
  have l: "l \<noteq> []" "\<not> (is_spaced l \<and> ig)" using "2.prems" by auto
  let ?kept = "if cleaned opt l then [] else l # ?sp"
  have sp: "\<forall>l \<in> set ?sp. is_spaced l" by (meson set_takeWhileD)
  have "fold (line_step opt date) (l # ?sp) (True, ig, ct) = (True, cleaned opt l, ct @ ?kept)"
    using l fold_spaced[OF ok sp, of date] by auto
  moreover have "[] \<notin> set ?more" using "2.prems"(1) by (auto dest: set_dropWhileD)
  moreover have "?more = [] \<or> \<not> (is_spaced (hd ?more) \<and> cleaned opt l)"
    using hd_dropWhile[of is_spaced ls] by blast
  ultimately obtain ig' where "fold (line_step opt date) ?more (fold (line_step opt date) (l # ?sp) (True, ig, ct)) =
      (True, ig', (ct @ ?kept) @ kept_fields opt ?more)"
    using "2.IH"[of "cleaned opt l" "ct @ ?kept"] by metis
  then have "fold (line_step opt date) ((l # ?sp) @ ?more) (True, ig, ct) = (True, ig', (ct @ ?kept) @ kept_fields opt ?more)"
    unfolding fold_append comp_apply .
  moreover have "(l # ?sp) @ ?more = l # ls" by simp
  moreover have "kept_fields opt (l # ls) = ?kept @ kept_fields opt ?more" by (simp add: kept_fields_def)
  ultimately show ?case by (metis append.assoc)
qed

lemma fold_body: "fold (line_step opt date) b (False, ig, ct) = (False, ig, ct @ map unstuff b)"
  by (induction b arbitrary: ct) simp_all

lemma fold_article:
  assumes "keys_ok opt"
  shows "snd (snd (fold (line_step opt date) ls (True, False, []))) = article_of opt date ls"
proof -
  have "\<forall>l \<in> set (header_of ls). l \<noteq> []" unfolding header_of_def using set_takeWhileD by fastforce
  then obtain ig where h: "fold (line_step opt date) (header_of ls) (True, False, []) =
      (True, ig, kept_fields opt (header_of ls))"
    using fold_header[OF assms, of "header_of ls" False date "[]"] by auto
  have "fold (line_step opt date) (body_of ls) (True, ig, ct) =
      (body_of ls = [], ig, ct @ (if body_of ls = [] then [] else new_headers opt date @ map unstuff (body_of ls)))" for ct
  proof (cases "body_of ls")
    case (Cons b bs)
    then have "b = []" using hd_dropWhile[of "\<lambda>l. l \<noteq> []" ls] by (simp add: body_of_def)
    then show ?thesis using Cons by (simp add: fold_body)
  qed simp
  then have "fold (line_step opt date) (header_of ls @ body_of ls) (True, False, []) =
      (body_of ls = [], ig, article_of opt date ls)"
    unfolding fold_append comp_apply h by (simp add: article_of_def)
  moreover have "header_of ls @ body_of ls = ls" by (simp add: header_of_def body_of_def)
  ultimately show ?thesis by simp
qed

lemma rdl_start_flags [simp]: "flags_of (rdl_start cmdARTICLE) = (True, False, [])" "rxb (rdl_start command) = 0"
  by (simp_all add: flags_of_def rdl_start_def)

lemma article_content:
  assumes "readlines opt date cmdARTICLE sched 0 (ls @ ''.'' # rest) (rdl_start cmdARTICLE) = Inr (Finished st, rest')"
    and "''.'' \<notin> set ls"
  shows "keys_ok opt \<Longrightarrow> content st = article_of opt date ls" "rest' = rest" "rxb st = sum_list (map length ls) + 1"
    "rxb st \<le> MaxArtSize opt"
  using readlines_article[OF assms] by (simp_all add: fold_article)


lemma CMD_article:
  assumes "CMD opt date sched rapid num cmdARTICLE it (Some c) = Inr ((220, msg, n, None), it', Some c', w)"
    and "incoming c = r # ls @ ''.'' # rest" and "''.'' \<notin> set ls"
  obtains st y where "readlines opt date cmdARTICLE sched 0 (ls @ ''.'' # rest) (rdl_start cmdARTICLE) = Inr (Finished st, rest)"
    "yenc_end opt rapid num cmdARTICLE st = Inr y" "y \<noteq> BadYenc" "it' = fst (store_lines cmdARTICLE st it)"
    "incoming c' = rest" "keys_ok opt \<Longrightarrow> content st = article_of opt date ls" "n = of_nat (rxb st)"
    "rxb st = sum_list (map length ls) + 1" "rxb st \<le> MaxArtSize opt"
    "w = (case y of GoodPart p \<Rightarrow> if WriteParts opt then Some p else None | _ \<Rightarrow> None)"
proof -
  let ?inc = "ls @ ''.'' # rest"
  let ?c2 = "c\<lparr>outgoing := outgoing c @ (cmdARTICLE @ '' '' @ seg_id it) @ CRLF, writes_left := writes_left c - 1,
    incoming := ?inc\<rparr>"
  have "\<exists>rcode m. readDotLines opt date sched rapid num cmdARTICLE it ?c2 = Inr ((rcode, m, None), it', c', w) \<and>
      rcode \<noteq> 99932 \<and> n = of_nat m"
    using assms(1,2) by (auto simp: CMD_def Let_def Cmd_def WriteString_def ReadCodeLine_def split: if_splits prod.splits)
  moreover obtain c2 where c2: "c2 = ?c2" by simp
  ultimately obtain rcode m c3 where d: "readDotLines opt date sched rapid num cmdARTICLE it c2 = Inr ((rcode, m, None), it', c3, w)"
      "rcode \<noteq> 99932" "n = of_nat m" "c' = c3"
    by blast
  have p: "incoming c2 = ?inc" by (simp add: c2)
  obtain re rest' where l: "readlines opt date cmdARTICLE sched 0 ?inc (rdl_start cmdARTICLE) = Inr (re, rest')"
    using d(1) p by (auto simp: readDotLines_def split: if_splits)
  obtain st where f: "re = Finished st"
    using d(1) p l by (cases re) (auto simp: readDotLines_def Let_def)
  note a = article_content[OF l[unfolded f] assms(3)]
  obtain y where y: "yenc_end opt rapid num cmdARTICLE st = Inr y"
    using d(1) p l f by (auto simp: readDotLines_def Let_def)
  have good: "y \<noteq> BadYenc"
    using d(1,2) p l f y by (auto simp: readDotLines_def Let_def)
  have s: "store_lines cmdARTICLE st it = (fst (store_lines cmdARTICLE st it), None)"
    by (simp add: store_lines_def)
  have res: "it' = fst (store_lines cmdARTICLE st it)" "c3 = c2\<lparr>incoming := rest'\<rparr>" "m = rxb st"
      "w = (case y of GoodPart p \<Rightarrow> if WriteParts opt then Some p else None | _ \<Rightarrow> None)"
    using d(1) p l f y good s by (auto simp: readDotLines_def Let_def split: prod.splits)
  show ?thesis
    by (rule that[of st y]) (use l f y good res a d in simp_all)
qed

lemma store_article: "fst (store_lines cmdARTICLE st it) =
    (if content st = [] then it
     else it\<lparr>article := content st, item_size := rxb st, dlcnt := dlcnt it + 1\<rparr>)"
  by (simp add: store_lines_def)

section \<open>Lemmas: articles on the wire\<close>

text \<open>The bytes an article is sent as, and the lines \<open>textproto\<close> reads from them.\<close>

definition wire_of :: "string list \<Rightarrow> string" where
  "wire_of ls = concat (map (\<lambda>l. stuff l @ CRLF) ls) @ DOT @ CRLF"

definition wire_lines :: "string \<Rightarrow> string list" where
  "wire_lines s = map strip_cr (butlast (split_on CHR 0x0A s))"

lemma wire_lines_concat:
  assumes "\<forall>l \<in> set ls. CHR 0x0A \<notin> set l"
  shows "wire_lines (concat (map (\<lambda>l. l @ CRLF) ls)) = ls"
  using assms
proof (induction ls)
  case (Cons l ls)
  have "split_on CHR 0x0A ((l @ [CHR 0x0D]) @ CHR 0x0A # s) = (l @ [CHR 0x0D]) # split_on CHR 0x0A s" for s
    using Cons.prems by (intro split_on_append_sep) simp
  then show ?case
    using Cons by (simp add: wire_lines_def CRLF_def strip_cr_def)
qed (simp add: wire_lines_def)

lemma unstuff_stuff [simp]: "unstuff (stuff l) = l"
  by (cases l) (auto simp: stuff_def unstuff_def)

lemma stuff_not_dot: "stuff l \<noteq> ''.''"
  by (cases l) (auto simp: stuff_def)

lemma stuff_plain: "\<not> has_prefix ''.'' l \<Longrightarrow> stuff l = l"
  by (simp add: stuff_def)

lemma stuff_Nil [simp]: "stuff l = [] \<longleftrightarrow> l = []"
  by (auto simp: stuff_def)

lemma wire_lines_wire_of:
  assumes "\<forall>l \<in> set ls. CHR 0x0A \<notin> set l"
  shows "wire_lines (wire_of ls) = map stuff ls @ [''.'']"
proof -
  have "wire_of ls = concat (map (\<lambda>l. l @ CRLF) (map stuff ls @ [''.'']))"
    by (simp add: wire_of_def DOT_def o_def)
  moreover have "\<forall>l \<in> set (map stuff ls @ [''.'']). CHR 0x0A \<notin> set l"
    using assms by (auto simp: stuff_def)
  ultimately show ?thesis using wire_lines_concat by metis
qed

lemma send_lines_bytes:
  assumes "send_lines ls txb c = (c', txb', True)"
  shows "outgoing c' = outgoing c @ concat (map (\<lambda>l. stuff l @ CRLF) ls) \<and> incoming c' = incoming c \<and>
    txb' = txb + of_nat (length (concat (map (\<lambda>l. stuff l @ CRLF) ls)))"
  using assms
proof (induction ls arbitrary: txb c)
  case (Cons l ls)
  then obtain c1 where w: "WriteString (stuff l @ CRLF) c = Some c1"
      and s: "send_lines ls (txb + of_nat (length (stuff l @ CRLF))) c1 = (c', txb', True)"
    by (auto split: option.splits)
  have "outgoing c1 = outgoing c @ stuff l @ CRLF" "incoming c1 = incoming c"
    using w by (auto simp: WriteString_def split: if_splits)
  then show ?case using Cons.IH[OF s] by (simp add: add.assoc)
qed simp

lemma send_article_bytes:
  assumes "send_article ls c = (c', txb, True)"
  shows "outgoing c' = outgoing c @ wire_of ls" "incoming c' = incoming c" "txb = of_nat (length (wire_of ls) - 3)"
proof -
  obtain c1 where s: "send_lines ls 0 c = (c1, txb, True)" and w: "outgoing c' = outgoing c1 @ DOT @ CRLF" "incoming c' = incoming c1"
    using assms by (auto simp: send_article_def WriteString_def split: prod.splits if_splits option.splits)
  note b = send_lines_bytes[OF s]
  show "outgoing c' = outgoing c @ wire_of ls" "incoming c' = incoming c" "txb = of_nat (length (wire_of ls) - 3)"
    using b w by (simp_all add: wire_of_def DOT_def CRLF_def)
qed

lemma header_of_stuff:
  assumes "\<forall>l \<in> set (header_of ls). \<not> has_prefix ''.'' l"
  shows "header_of (map stuff ls) = header_of ls" "body_of (map stuff ls) = map stuff (body_of ls)"
  using assms by (induction ls) (auto simp: header_of_def body_of_def stuff_plain split: if_splits)

lemma kept_fields_all:
  assumes "net_proxy opt"
  shows "kept_fields opt h = h"
proof -
  have "filter (\<lambda>f. \<not> cleaned opt (hd f)) fs = fs" for fs
    using assms by (simp add: cleaned_def)
  moreover have "concat (fields h) = h" by (induction h rule: fields.induct) simp_all
  ultimately show ?thesis by (simp add: kept_fields_def)
qed

lemma article_of_stuffed:
  assumes "net_proxy opt" and "\<forall>l \<in> set (header_of ls). \<not> has_prefix ''.'' l"
  shows "article_of opt date (map stuff ls) = ls"
proof -
  have "header_of ls @ body_of ls = ls" by (simp add: header_of_def body_of_def)
  then show ?thesis
    using assms unfolding article_of_def header_of_stuff[OF assms(2)] kept_fields_all[OF assms(1)]
    by (cases "body_of ls") (simp_all add: new_headers_def o_def)
qed

section \<open>Lemmas: the yEnc check\<close>

lemma CMD_schedule:
  "CMD opt date s rapid num command it co = CMD opt date t rapid num command it co"
  unfolding CMD_def readDotLines_schedule[of opt date s rapid num command it _ t] ..

lemma run_async_0 [simp]: "run_async simd 0 st = st"
  by (simp add: run_async_def)

definition set_front :: "bool \<times> bool \<times> string list \<times> nat \<Rightarrow> rdl \<Rightarrow> rdl" where
  "set_front f st = (case f of (p, ig, ct, n) \<Rightarrow>
     st\<lparr>parseHeader := p, ignoreNext := ig, content := ct, rxb := n\<rparr>)"

lemma set_front_sel [simp]:
  "gotYencHeader (set_front f st) = gotYencHeader st" "gotMultipart (set_front f st) = gotMultipart st"
  "brokenYenc (set_front f st) = brokenYenc st" "sawYbegin (set_front f st) = sawYbegin st"
  "ydec (set_front f st) = ydec st" "ydat (set_front f st) = ydat st" "ybuf (set_front f st) = ybuf st"
  "ydecoder (set_front f st) = ydecoder st" "lineQueue (set_front f st) = lineQueue st"
  "asyncBroken (set_front f st) = asyncBroken st" "asyncOK (set_front f st) = asyncOK st"
  "sentLines (set_front f st) = sentLines st"
  by (simp_all add: set_front_def split: prod.splits)

lemma set_front_same [simp]: "set_front (front st) st = st" "set_front f (set_front g st) = set_front f st"
  by (simp_all add: set_front_def front_def split: prod.splits)

lemma set_front_upd:
  "set_front f st\<lparr>gotYencHeader := b\<rparr> = set_front f (st\<lparr>gotYencHeader := b\<rparr>)"
  "set_front f st\<lparr>gotMultipart := b\<rparr> = set_front f (st\<lparr>gotMultipart := b\<rparr>)"
  "set_front f st\<lparr>brokenYenc := b\<rparr> = set_front f (st\<lparr>brokenYenc := b\<rparr>)"
  "set_front f st\<lparr>sawYbegin := b\<rparr> = set_front f (st\<lparr>sawYbegin := b\<rparr>)"
  "set_front f st\<lparr>ydec := s\<rparr> = set_front f (st\<lparr>ydec := s\<rparr>)"
  "set_front f st\<lparr>ydat := ls\<rparr> = set_front f (st\<lparr>ydat := ls\<rparr>)"
  "set_front f st\<lparr>ybuf := s\<rparr> = set_front f (st\<lparr>ybuf := s\<rparr>)"
  "set_front f st\<lparr>ydecoder := d\<rparr> = set_front f (st\<lparr>ydecoder := d\<rparr>)"
  "set_front f st\<lparr>lineQueue := ls\<rparr> = set_front f (st\<lparr>lineQueue := ls\<rparr>)"
  "set_front f st\<lparr>sentLines := n\<rparr> = set_front f (st\<lparr>sentLines := n\<rparr>)"
  by (simp_all add: set_front_def split: prod.splits)

lemma mode3_line_front: "mode3_line l (set_front f st) = map_sum id (set_front f) (mode3_line l st)"
  by (auto simp: mode3_line_def set_front_upd split: sum.splits)

lemma yenc_line_front: "yenc_line opt l (set_front f st) = map_sum id (set_front f) (yenc_line opt l st)"
proof -
  let ?s = "\<lambda>st. if has_prefix ''=ybegin '' l then st\<lparr>sawYbegin := True\<rparr> else st"
  have "?s (set_front f st) = set_front f (?s st)" by (simp add: set_front_upd)
  then show ?thesis
    unfolding yenc_line_def Let_def by (simp add: mode3_line_front set_front_upd del: has_prefix_Cons)
qed

text \<open>The yEnc side of the loop on its own: the lines of the body, one after the other.\<close>

fun yrun :: "netopt \<Rightarrow> string list \<Rightarrow> rdl \<Rightarrow> rdl go" where
  "yrun opt [] st = Inr st"
| "yrun opt (l # ls) st = go_bind (if brokenYenc st then Inr st else yenc_line opt l st) (yrun opt ls)"

lemma yrun_front: "yrun opt ls (set_front f st) = map_sum id (set_front f) (yrun opt ls st)"
proof (induction ls arbitrary: st)
  case (Cons l ls)
  show ?case
  proof (cases "brokenYenc st")
    case False
    then show ?thesis
      using Cons.IH by (cases "yenc_line opt l st") (simp_all add: yenc_line_front)
  qed (simp add: Cons.IH)
qed simp

lemma map_sum_Inr: "map_sum id f x = Inr y \<longleftrightarrow> (\<exists>z. x = Inr z \<and> y = f z)"
  by (cases x) auto

lemma header_step_yenc:
  assumes "keep_line opt cmdARTICLE l (end_header opt date cmdARTICLE l st) = Inr st1" and "parseHeader st \<and> l \<noteq> []"
  shows "\<exists>f. st1 = set_front f st" "parseHeader st1"
proof -
  have "st1 = header_line opt l st" using assms by (simp add: keep_line_def end_header_def)
  then have "st1 = set_front (True, ignoreNext st1, content st1, rxb st1) st" "parseHeader st1"
    using assms(2) by (cases "ignoreNext st"; simp add: header_line_def set_front_def Let_def)+
  then show "\<exists>f. st1 = set_front f st" "parseHeader st1" by blast+
qed

lemma body_step_yenc:
  assumes "keep_line opt cmdARTICLE l (end_header opt date cmdARTICLE l st) = Inr st1" and "\<not> (parseHeader st \<and> l \<noteq> [])"
    and "YencCRC opt"
  shows "\<exists>f z. (if brokenYenc st then Inr st else yenc_line opt (unstuff l) st) = Inr z \<and> st1 = set_front f z"
    "\<not> parseHeader st1"
proof -
  let ?st = "end_header opt date cmdARTICLE l st"
  let ?c = "?st\<lparr>content := content ?st @ [unstuff l]\<rparr>"
  have p: "\<not> parseHeader ?st" using assms(2) by (auto simp: end_header_def)
  then have b: "(if brokenYenc st then Inr ?c else yenc_line opt (unstuff l) ?c) = Inr st1"
    using assms(1,3) by (simp add: keep_line_def body_line_def Let_def end_header_def split: if_splits)
  have c: "?c = set_front (front ?c) st"
    by (simp add: set_front_def front_def end_header_def)
  obtain f where f: "?c = set_front f st" using c by blast
  have "(if brokenYenc st then Inr (set_front f st) else yenc_line opt (unstuff l) (set_front f st)) = Inr st1"
    using b unfolding f .
  then show "\<exists>f z. (if brokenYenc st then Inr st else yenc_line opt (unstuff l) st) = Inr z \<and> st1 = set_front f z"
    by (cases "brokenYenc st") (auto simp: yenc_line_front map_sum_Inr simp del: split_paired_Ex)
  have "flags_of st1 = flags_of ?c"
    using b by (auto dest: yenc_line_flags split: if_splits)
  then show "\<not> parseHeader st1" using p by (simp add: flags_of_def)
qed

lemma readlines_yenc:
  assumes "readlines opt date cmdARTICLE (\<lambda>_. 0) i (ls @ ''.'' # rest) st = Inr (Finished st', rest')"
    and "''.'' \<notin> set ls" and "YencCRC opt"
  shows "\<exists>f z. yrun opt (map unstuff (if parseHeader st then body_of ls else ls)) st = Inr z \<and> st' = set_front f z"
  using assms(1,2)
proof (induction ls arbitrary: st i)
  case Nil
  have "\<exists>f. st' = set_front f st"
    using Nil by (intro exI[of _ "front st'"])
      (auto simp: end_header_def front_def set_front_def Let_def split: if_splits)
  then show ?case by (simp add: body_of_def)
next
  case (Cons l ls)
  let ?st = "st\<lparr>rxb := rxb st + length l\<rparr>"
  obtain st1 where k: "keep_line opt cmdARTICLE l (end_header opt date cmdARTICLE l ?st) = Inr st1"
    and r: "readlines opt date cmdARTICLE (\<lambda>_. 0) (i + 1) (ls @ ''.'' # rest) st1 = Inr (Finished st', rest')"
    using Cons.prems by (auto simp: Let_def split: if_splits)
  obtain f z where z: "yrun opt (map unstuff (if parseHeader st1 then body_of ls else ls)) st1 = Inr z" "st' = set_front f z"
    using Cons.IH[OF r] Cons.prems(2) by auto
  have "?st = set_front (front ?st) st" by (simp add: set_front_def front_def)
  then obtain h where s: "?st = set_front h st" by blast
  have ph: "parseHeader ?st = parseHeader st" by simp
  show ?case
  proof (cases "parseHeader st \<and> l \<noteq> []")
    case True
    then obtain g where g: "st1 = set_front g st" "parseHeader st1"
      using header_step_yenc[OF k] unfolding s ph[unfolded s] by auto
    then have "body_of (l # ls) = body_of ls" using True by (simp add: body_of_def)
    then show ?thesis
      using z g True by (auto simp: yrun_front map_sum_Inr simp del: split_paired_Ex)
  next
    case False
    then obtain g y where y: "(if brokenYenc ?st then Inr ?st else yenc_line opt (unstuff l) ?st) = Inr y"
      and g: "st1 = set_front g y" "\<not> parseHeader st1"
      using body_step_yenc[OF k _ assms(3)] unfolding ph using False by blast
    obtain y0 where y0: "(if brokenYenc st then Inr st else yenc_line opt (unstuff l) st) = Inr y0"
        "y = set_front h y0"
      using y unfolding s by (cases "brokenYenc st") (auto simp: yenc_line_front map_sum_Inr)
    have "(if parseHeader st then body_of (l # ls) else l # ls) = l # ls"
      using False by (auto simp: body_of_def)
    then show ?thesis
      using z g y0 by (auto simp: yrun_front map_sum_Inr simp del: split_paired_Ex)
  qed
qed


definition ybegin_in :: "string list \<Rightarrow> bool" where
  "ybegin_in ls \<longleftrightarrow> list_ex (has_prefix ''=ybegin '') ls"

lemma mode3_line_keeps:
  "mode3_line l st = Inr st' \<Longrightarrow> sawYbegin st' = sawYbegin st \<and> (gotYencHeader st \<longrightarrow> gotYencHeader st') \<and>
     (has_prefix ''=ybegin '' l \<longrightarrow> gotYencHeader st' \<or> brokenYenc st')"
proof -
  have "has_prefix ''=ybegin '' l \<Longrightarrow> \<not> length l < 7"
    by (auto simp: has_prefix_iff)
  then show "mode3_line l st = Inr st' \<Longrightarrow> sawYbegin st' = sawYbegin st \<and> (gotYencHeader st \<longrightarrow> gotYencHeader st') \<and>
     (has_prefix ''=ybegin '' l \<longrightarrow> gotYencHeader st' \<or> brokenYenc st')"
    by (auto simp: mode3_line_def split: if_splits sum.splits)
qed

lemma yrun_saw:
  assumes "yrun opt ls st = Inr z"
  shows "brokenYenc z \<or> (sawYbegin z \<longleftrightarrow> sawYbegin st \<or> ybegin_in ls)"
  using assms
proof (induction ls arbitrary: st)
  case (Cons l ls)
  obtain st1 where s: "(if brokenYenc st then Inr st else yenc_line opt l st) = Inr st1" and r: "yrun opt ls st1 = Inr z"
    using Cons.prems by (auto split: if_splits)
  have keep: "brokenYenc st \<Longrightarrow> yrun opt ls st = Inr z \<Longrightarrow> z = st" for st
    by (induction ls) auto
  show ?case
  proof (cases "brokenYenc st")
    case True
    then show ?thesis using s r keep[of st1] by simp
  next
    case False
    let ?s = "if has_prefix ''=ybegin '' l then st\<lparr>sawYbegin := True\<rparr> else st"
    have "sawYbegin st1 = sawYbegin ?s"
      using s False mode3_line_keeps[of l ?s st1] by (auto simp: yenc_line_def Let_def split: if_splits)
    then show ?thesis
      using Cons.IH[OF r] by (cases "has_prefix ''=ybegin '' l") (simp_all add: ybegin_in_def)
  qed
qed (simp add: ybegin_in_def)

lemma yrun_got:
  assumes "yrun opt ls st = Inr z" and "YencTest opt = 3" and "sawYbegin st \<longrightarrow> gotYencHeader st \<or> brokenYenc st"
  shows "sawYbegin z \<longrightarrow> gotYencHeader z \<or> brokenYenc z"
  using assms(1,3)
proof (induction ls arbitrary: st)
  case (Cons l ls)
  obtain st1 where s: "(if brokenYenc st then Inr st else yenc_line opt l st) = Inr st1" and r: "yrun opt ls st1 = Inr z"
    using Cons.prems(1) by (auto split: if_splits)
  have "sawYbegin st1 \<longrightarrow> gotYencHeader st1 \<or> brokenYenc st1"
  proof (cases "brokenYenc st")
    case True
    then show ?thesis using s by simp
  next
    case False
    let ?s = "if has_prefix ''=ybegin '' l then st\<lparr>sawYbegin := True\<rparr> else st"
    have "mode3_line l ?s = Inr st1"
      using s False assms(2) by (simp add: yenc_line_def Let_def)
    from mode3_line_keeps[OF this] show ?thesis
      using False Cons.prems(2) by (auto split: if_splits)
  qed
  then show ?case using Cons.IH[OF r] by simp
qed simp

lemma part_Validate_plain:
  "part_crcHash p = None \<Longrightarrow> part_Validate p = (p', None) \<Longrightarrow> \<not> BadCRC p' \<Longrightarrow> part_intact p'"
  by (auto simp: part_Validate_def part_intact_def Let_def split: if_splits)

lemma check_part_intact:
  assumes "check_part p = GoodPart p'" and "part_crcHash p = None \<or> part_crcHash p = Some (crc32 (part_Body p))"
  shows "part_intact p'"
  using assms part_Validate_plain[of p p'] part_Validate_intact[of p p']
  by (auto simp: check_part_def split: prod.splits if_splits)

text \<open>The modes in which a stored part has been compared with its checksum.\<close>

definition crc_mode :: "netopt \<Rightarrow> bool" where
  "crc_mode opt \<longleftrightarrow> YencTest opt = 1 \<or> YencTest opt = 2 \<or> YencTest opt = 3 \<or> YencTest opt = 4 \<and> DoubleCheck opt"

lemma yenc_end_intact:
  assumes "rdl_inv st" and "yenc_end opt rapid num command st = Inr (GoodPart p)" and "crc_mode opt"
  shows "part_intact p"
proof -
  have m12: "check_decoded r = Inr (GoodPart p) \<Longrightarrow> r = Some (Inr (Some p, False, None))" for r
    by (auto simp: check_decoded_def split: option.splits sum.splits prod.splits if_splits)
  consider (dec) in1 in2 where "Decode (NewDecoder in1 in2 1) = Some (Inr (Some p, False, None)) \<or>
      DecodeSlice (NewDecoder in1 in2 1) = Some (Inr (Some p, False, None))"
    | (m3) "mode3_end opt st = GoodPart p" | (m4) "mode4_end opt rapid num st = GoodPart p" "DoubleCheck opt"
    using assms(2,3) m12 by (auto simp: yenc_end_def crc_mode_def split: if_splits)
  then show ?thesis
  proof cases
    case dec
    then show ?thesis using decode_intact by blast
  next
    case m3
    obtain d br n where s: "settled (SimdMode opt) st = (d, br, n)" using prod_cases3 by blast
    have "line_decoder d"
      using fold_astep[of "SimdMode opt" "lineQueue st" "ydecoder st" "asyncBroken st" "asyncOK st" d br n] assms(1) s
      by (simp add: settled_def async_of_def rdl_inv_def)
    then have "hash_ok d" by (simp add: line_decoder_def)
    moreover have "check_part (Part d) = GoodPart p"
      using m3 s by (simp add: mode3_end_settled split: if_splits)
    ultimately show ?thesis using check_part_intact[of "Part d" p] by (simp add: hash_ok_def)
  next
    case m4
    then show ?thesis
      by (auto simp: mode4_end_def new_part_def Let_def split: option.splits prod.splits if_splits
          intro: check_part_intact)
  qed
qed

lemma readlines_inv:
  assumes "readlines opt date command sched i ls st = Inr (Finished st', rest)" and "rdl_inv st"
  shows "rdl_inv st'"
  using readlines_agree[OF agree_refl[OF assms(2)], of opt date command sched i ls sched i] assms(1)
  by (auto simp: agree_def)

lemma no_part_means_plain:
  assumes "yenc_end opt rapid num cmdARTICLE st = Inr NotYenc" and "YencCRC opt" and "YencTest opt \<in> {1, 2, 3, 4}"
    and "YencTest opt = 3 \<longrightarrow> sawYbegin st \<longrightarrow> gotYencHeader st \<or> brokenYenc st"
  shows "\<not> sawYbegin st"
proof -
  have "check_decoded r \<noteq> Inr NotYenc" for r
    by (auto simp: check_decoded_def split: option.splits sum.splits)
  moreover have "check_part p \<noteq> NotYenc" for p by (simp add: check_part_def split: prod.splits)
  ultimately show ?thesis
    using assms by (auto simp: yenc_end_def mode4_end_def mode3_end_settled Let_def split: if_splits option.splits prod.splits)
qed

text \<open>An article that was taken over with the check on.\<close>

lemma stored_article_checked:
  assumes "CMD opt date sched rapid num cmdARTICLE it (Some c) = Inr ((220, msg, n, None), it', Some c', w)"
    and "incoming c = r # ls @ ''.'' # rest" and "''.'' \<notin> set ls"
    and crc: "YencCRC opt" "crc_mode opt" "WriteParts opt" and "ybegin_in (map unstuff (body_of ls))"
  shows "\<exists>p. w = Some p \<and> part_intact p"
proof -
  have cmd: "CMD opt date (\<lambda>_. 0) rapid num cmdARTICLE it (Some c) = Inr ((220, msg, n, None), it', Some c', w)"
    using assms(1) CMD_schedule by metis
  obtain st y where r: "readlines opt date cmdARTICLE (\<lambda>_. 0) 0 (ls @ ''.'' # rest) (rdl_start cmdARTICLE) = Inr (Finished st, rest)"
    and y: "yenc_end opt rapid num cmdARTICLE st = Inr y" "y \<noteq> BadYenc"
    and w: "w = (case y of GoodPart p \<Rightarrow> if WriteParts opt then Some p else None | _ \<Rightarrow> None)"
    using CMD_article[OF cmd assms(2,3)] by metis
  have inv: "rdl_inv st" using readlines_inv[OF r line_decoder_new] .
  obtain f z where z: "yrun opt (map unstuff (body_of ls)) (rdl_start cmdARTICLE) = Inr z" "st = set_front f z"
    using readlines_yenc[OF r assms(3) crc(1)] by (auto simp: rdl_start_def simp del: split_paired_Ex)
  have saw: "brokenYenc st \<or> sawYbegin st"
    using yrun_saw[OF z(1)] assms(7) z(2) by auto
  have got: "YencTest opt = 3 \<longrightarrow> sawYbegin st \<longrightarrow> gotYencHeader st \<or> brokenYenc st"
    using yrun_got[OF z(1)] z(2) by (simp add: rdl_start_def)
  have nb: "\<not> brokenYenc st" using y crc by (auto simp: yenc_end_def)
  have "y \<noteq> NotYenc"
    using no_part_means_plain[of opt rapid num st] y(1) crc got saw nb by (auto simp: crc_mode_def)
  then obtain p where p: "y = GoodPart p" using y(2) by (cases y) auto
  then show ?thesis using yenc_end_intact[OF inv _ crc(2)] y(1) w crc(3) by simp
qed


section \<open>Lemmas: an encoded article passes\<close>

lemma yrun_append: "yrun opt (xs @ ys) st = go_bind (yrun opt xs st) (yrun opt ys)"
proof (induction xs arbitrary: st)
  case (Cons x xs)
  then show ?case by (cases "brokenYenc st"; cases "yenc_line opt x st") simp_all
qed simp

lemma yrun_one: "\<not> brokenYenc st \<Longrightarrow> yrun opt [l] st = yenc_line opt l st"
  by (cases "yenc_line opt l st") simp_all

lemma yrun_mode1:
  assumes "YencTest opt = 1" and "\<not> brokenYenc st"
  shows "\<exists>z. yrun opt ls st = Inr z \<and> ydec z = ydec st @ concat (with_nl ls) \<and> \<not> brokenYenc z \<and>
    sawYbegin z = (sawYbegin st \<or> ybegin_in ls)"
  using assms(2)
proof (induction ls arbitrary: st)
  case (Cons l ls)
  let ?s = "(if has_prefix ''=ybegin '' l then st\<lparr>sawYbegin := True\<rparr> else st)\<lparr>ydec := ydec st @ l @ [CHR 0x0A]\<rparr>"
  have "yenc_line opt l st = Inr ?s" using assms(1) by (simp add: yenc_line_def)
  moreover have "\<not> brokenYenc ?s" using Cons.prems by simp
  ultimately show ?case
    using Cons.IH[of ?s] Cons.prems by (auto simp: with_nl_def ybegin_in_def)
qed (simp add: with_nl_def ybegin_in_def)

lemma yrun_mode2:
  assumes "YencTest opt = 2" and "\<not> brokenYenc st"
  shows "\<exists>z. yrun opt ls st = Inr z \<and> ydat z = ydat st @ ls \<and> \<not> brokenYenc z \<and>
    sawYbegin z = (sawYbegin st \<or> ybegin_in ls)"
  using assms(2)
proof (induction ls arbitrary: st)
  case (Cons l ls)
  let ?s = "(if has_prefix ''=ybegin '' l then st\<lparr>sawYbegin := True\<rparr> else st)\<lparr>ydat := ydat st @ [l]\<rparr>"
  have "yenc_line opt l st = Inr ?s" using assms(1) by (simp add: yenc_line_def)
  moreover have "\<not> brokenYenc ?s" using Cons.prems by simp
  ultimately show ?case
    using Cons.IH[of ?s] Cons.prems by (auto simp: ybegin_in_def)
qed (simp add: ybegin_in_def)

lemma yrun_mode3_data:
  assumes "YencTest opt = 3" and "\<not> brokenYenc st" and "sawYbegin st" and "gotYencHeader st"
    and "gotMultipart st" and "\<not> asyncBroken st"
  shows "yrun opt ls st = Inr (st\<lparr>lineQueue := lineQueue st @ ls, sentLines := sentLines st + length ls\<rparr>)"
  using assms(2-)
proof (induction ls arbitrary: st)
  case (Cons l ls)
  let ?s = "st\<lparr>lineQueue := lineQueue st @ [l], sentLines := sentLines st + 1\<rparr>"
  have same: "(if has_prefix ''=ybegin '' l then st\<lparr>sawYbegin := True\<rparr> else st) = st"
    using Cons.prems by simp
  have "yenc_line opt l st = Inr ?s"
    unfolding yenc_line_def Let_def same using assms(1) Cons.prems mode3_data[of st l] by simp
  then show ?case using Cons.IH[of ?s] Cons.prems by simp
qed simp

lemma ReadBody_data:
  assumes "Buf d = None" "Dat d = None" and "data_line l" and "ydecode l = Some b" and "simd \<in> {0, 1, 2}"
  shows "ReadBody simd l True d = Inr (add_data (simd \<noteq> 0) b d)"
  using assms data_line_props(1)[OF assms(3)]
  by (auto simp: ReadBody_def DecodeLineNew_def decode_new_ydecode SIMD1_ydecode SIMD2_ydecode)

lemma fold_astep_data:
  assumes "Buf d = None" "Dat d = None" and "\<forall>l \<in> set ls. data_line l \<and> ydecode l \<noteq> None" and "simd \<in> {0, 1, 2}"
  shows "fold (astep simd) ls (d, False, n) =
    (add_data (simd \<noteq> 0) (concat (map (the \<circ> ydecode) ls)) d, False, n + length ls)"
  using assms(1-3)
proof (induction ls arbitrary: d n)
  case Nil
  have "map_option (\<lambda>c. c) x = x" for x :: "32 word option" by (cases x) simp_all
  then show ?case by (simp add: add_data_def Let_def)
next
  case (Cons l ls)
  then obtain b where b: "ydecode l = Some b" and l: "data_line l" by auto
  have keep: "Buf (add_data f b d) = None" "Dat (add_data f b d) = None" for f
    using Cons.prems by (simp_all add: add_data_def Let_def)
  have "fold (astep simd) (l # ls) (d, False, n) = fold (astep simd) ls (add_data (simd \<noteq> 0) b d, False, n + 1)"
    using ReadBody_data[OF Cons.prems(1,2) l b assms(4)] by simp
  also have "\<dots> = (add_data (simd \<noteq> 0) (concat (map (the \<circ> ydecode) ls)) (add_data (simd \<noteq> 0) b d), False, n + 1 + length ls)"
    using Cons.prems(3) keep by (intro Cons.IH) simp_all
  finally show ?case
    by (simp add: b add_data_def Let_def crc_write_append option.map_comp o_def)
qed

lemma mode3_article:
  assumes ok: "yarticle_ok a" and m: "YencTest opt = 3" "SimdMode opt \<in> {0, 1, 2}"
  shows "\<exists>z. yrun opt ([] # yenc_article a) (rdl_start cmdARTICLE) = Inr z \<and> \<not> brokenYenc z \<and>
    mode3_end opt z = GoodPart (decoded_part a)"
proof -
  let ?b = "a_body a" and ?st = "rdl_start cmdARTICLE" and ?d = "NewDecoder None None 1"
  let ?ls = "yencLines ?b @ [yend_line a]"
  let ?p1 = "new_part\<lparr>part_Name := a_name a, part_Number := int (a_part a), cols := 128, HeaderSize := int (a_size a),
    part_crcHash := Some 0\<rparr>"
  let ?d1 = "?d\<lparr>Part := ?p1, Multipart := True, total_parts := int (a_total a)\<rparr>"
  let ?d2 = "?d1\<lparr>Part := ?p1\<lparr>part_Begin := int (a_begin a), part_End := int (a_begin a + length ?b - 1)\<rparr>\<rparr>"
  let ?s1 = "?st\<lparr>sawYbegin := True, ydecoder := ?d1, gotYencHeader := True\<rparr>"
  let ?s2 = "?s1\<lparr>ydecoder := ?d2, gotMultipart := True\<rparr>"
  let ?z = "?s2\<lparr>lineQueue := ?ls, sentLines := length ?ls\<rparr>"
  have d: "Buf ?d = None" "Dat ?d = None" by (simp_all add: NewDecoder_def)
  have n: "a_name a \<noteq> []" using ok by (simp add: yarticle_ok_def name_ok_def)
  have 0: "yrun opt [[]] ?st = Inr ?st"
    using m by (simp add: yenc_line_def mode3_line_def rdl_start_def)
  have yb: "has_prefix ''=ybegin '' (ybegin_line a)" "\<not> length (ybegin_line a) < 7"
    by (simp_all add: ybegin_line_def)
  have "ReadHeader (Some (ybegin_line a)) False ?d = Inr ?d1"
    using d parse_ybegin[OF ok, of "[]" ?d] by (simp add: ReadHeader_def NewDecoder_def new_part_def)
  then have 1: "yrun opt [ybegin_line a] ?st = Inr ?s1"
    using yb m n by (simp add: yenc_line_def mode3_line_def rdl_start_def)
  have yp: "length (ypart_line a) > 6" "starts ''=ypart '' (ypart_line a)" "\<not> has_prefix ''=ybegin '' (ypart_line a)"
    by (simp_all add: ypart_line_def starts_def)
  have "ReadPartHeader (ypart_line a) ?d1 = Inr (Inr ?d2)"
    using yp parse_ypart[OF ok, of "[]" ?d1] by (simp add: ReadPartHeader_def NewDecoder_def)
  then have 2: "yrun opt [ypart_line a] ?s1 = Inr ?s2"
    using yp(3) m by (simp add: yenc_line_def mode3_line_def rdl_start_def)
  have 3: "yrun opt ?ls ?s2 = Inr ?z"
    using yrun_mode3_data[OF m(1), of ?s2 ?ls] by (simp add: rdl_start_def)
  have run: "yrun opt ([] # yenc_article a) ?st = Inr ?z"
    using 0 1 2 3 yrun_append[of opt "[[]]" "[ybegin_line a] @ [ypart_line a] @ ?ls" ?st]
      yrun_append[of opt "[ybegin_line a]" "[ypart_line a] @ ?ls" ?st] yrun_append[of opt "[ypart_line a]" ?ls ?s1]
    by (simp add: yenc_article_def del: yrun.simps)
  let ?d3 = "add_data (SimdMode opt \<noteq> 0) ?b ?d2"
  have data: "fold (astep (SimdMode opt)) (yencLines ?b) (?d2, False, 0) = (?d3, False, length (yencLines ?b))"
    using fold_astep_data[of ?d2 "yencLines ?b" "SimdMode opt" 0] d yencLines_spec[of ?b] m(2) by simp
  have "Buf ?d3 = None" "Dat ?d3 = None" "part_Number (Part ?d3) = int (a_part a)"
    using d by (simp_all add: add_data_def Let_def)
  then obtain d4 where d4: "ReadBody (SimdMode opt) (yend_line a) True ?d3 = Inr d4" "Part d4 = decoded_part a"
    using parse_yend[OF ok, of ?d3] control_starts(3)[of a]
    by (simp add: ReadBody_def add_data_def Let_def decoded_part_def new_part_def crc32_def)
  have "settled (SimdMode opt) ?z = (d4, False, length ?ls)"
    using data d4(1) by (simp add: settled_def async_of_def rdl_start_def)
  moreover have "BadCRC (decoded_part a) = False" by (simp add: decoded_part_def)
  ultimately have "mode3_end opt ?z = GoodPart (decoded_part a)"
    using d4(2) decoded_part_valid[OF ok] by (simp add: mode3_end_settled check_part_def)
  moreover have "\<not> brokenYenc ?z" by (simp add: rdl_start_def)
  ultimately show ?thesis using run by blast
qed


lemma yenc_end_article:
  assumes ok: "yarticle_ok a" and opt: "YencCRC opt" "YencTest opt \<in> {1, 2, 3}" "SimdMode opt \<in> {0, 1, 2}"
  shows "\<exists>z. yrun opt ([] # yenc_article a) (rdl_start cmdARTICLE) = Inr z \<and>
    yenc_end opt rapid num cmdARTICLE (set_front f z) = Inr (GoodPart (decoded_part a))"
proof -
  let ?ls = "[] # yenc_article a" and ?st = "rdl_start cmdARTICLE"
  have yb: "ybegin_in ?ls" by (simp add: ybegin_in_def yenc_article_def ybegin_line_def)
  have st: "\<not> brokenYenc ?st" "ydec ?st = []" "ydat ?st = []" by (simp_all add: rdl_start_def)
  consider "YencTest opt = 1" | "YencTest opt = 2" | "YencTest opt = 3" using opt(2) by blast
  then show ?thesis
  proof cases
    case 1
    obtain z where z: "yrun opt ?ls ?st = Inr z" "ydec z = concat (with_nl ?ls)" "\<not> brokenYenc z" "sawYbegin z"
      using yrun_mode1[OF 1 st(1), of ?ls] st(2) yb by auto
    have "Decode (NewDecoder (Some (ydec z)) None 1) = Some (Inr (Some (decoded_part a), False, None))"
      using yenc_article_mode1[OF ok, of "[[]]" "[]"] z(2) by (simp add: starts_def)
    moreover have "ydec z \<noteq> []" using z(2) by (simp add: with_nl_def)
    ultimately have "yenc_end opt rapid num cmdARTICLE (set_front f z) = Inr (GoodPart (decoded_part a))"
      using z(3,4) 1 opt(1) by (simp add: yenc_end_def check_decoded_def)
    then show ?thesis using z(1) by blast
  next
    case 2
    obtain z where z: "yrun opt ?ls ?st = Inr z" "ydat z = ?ls" "\<not> brokenYenc z" "sawYbegin z"
      using yrun_mode2[OF 2 st(1), of ?ls] st(3) yb by auto
    have "DecodeSlice (NewDecoder None (Some (ydat z)) 1) = Some (Inr (Some (decoded_part a), False, None))"
      using yenc_article_mode2[OF ok, of "[[]]"] z(2) by simp
    then have "yenc_end opt rapid num cmdARTICLE (set_front f z) = Inr (GoodPart (decoded_part a))"
      using z(2,3,4) 2 opt(1) by (simp add: yenc_end_def check_decoded_def)
    then show ?thesis using z(1) by blast
  next
    case 3
    obtain z where z: "yrun opt ?ls ?st = Inr z" "\<not> brokenYenc z" "mode3_end opt z = GoodPart (decoded_part a)"
      using mode3_article[OF ok 3 opt(3)] by blast
    have "mode3_end opt (set_front f z) = mode3_end opt z"
      unfolding mode3_end_settled settled_def async_of_def set_front_sel ..
    then have "yenc_end opt rapid num cmdARTICLE (set_front f z) = Inr (GoodPart (decoded_part a))"
      using z(2,3) 3 opt(1) by (simp add: yenc_end_def)
    then show ?thesis using z(1) by blast
  qed
qed

lemma readlines_finishes:
  assumes "rdl_inv st" and "rxb st + sum_list (map length ls) + 1 \<le> MaxArtSize opt" and "''.'' \<notin> set ls"
  shows "\<exists>st'. readlines opt date cmdARTICLE sched i (ls @ ''.'' # rest) st = Inr (Finished st', rest)"
  using assms
proof (induction ls arbitrary: st i)
  case Nil
  then show ?case by (simp add: Let_def run_async_flags)
next
  case (Cons l ls)
  let ?st = "(run_async (SimdMode opt) (sched i) st)\<lparr>rxb := rxb (run_async (SimdMode opt) (sched i) st) + length l\<rparr>"
  have 1: "agree opt cmdARTICLE (end_header opt date cmdARTICLE l ?st) (end_header opt date cmdARTICLE l ?st)"
    by (intro tweak_agree[OF tweaks(2)] tweak_agree[OF tweaks(1)] agree_refl rdl_inv_run_async Cons.prems)
  obtain st1 where k: "keep_line opt cmdARTICLE l (end_header opt date cmdARTICLE l ?st) = Inr st1" and i: "rdl_inv st1"
    using keep_line_agree[OF 1, of l] by (auto simp: agree_def)
  have x: "rxb st1 = rxb st + length l"
    using keep_line_flags[OF k] by (simp add: run_async_flags)
  have "\<exists>st'. readlines opt date cmdARTICLE sched (i + 1) (ls @ ''.'' # rest) st1 = Inr (Finished st', rest)"
    using Cons.prems x by (intro Cons.IH[OF i]) simp_all
  then show ?case
    using k Cons.prems by (auto simp: Let_def run_async_flags)
qed

lemma CMD_article_run:
  assumes "writes_left c > 0" and "incoming c = r # ls @ ''.'' # rest" and "parse_code_line 220 r = (220, msg, e)"
    and "readlines opt date cmdARTICLE sched 0 (ls @ ''.'' # rest) (rdl_start cmdARTICLE) = Inr (Finished st, rest)"
    and "yenc_end opt rapid num cmdARTICLE st = Inr y" and "y \<noteq> BadYenc"
  shows "\<exists>c'. CMD opt date sched rapid num cmdARTICLE it (Some c) =
      Inr ((220, msg, of_nat (rxb st), None), fst (store_lines cmdARTICLE st it), Some c',
        case y of GoodPart p \<Rightarrow> if WriteParts opt then Some p else None | _ \<Rightarrow> None) \<and>
    incoming c' = rest \<and> outgoing c' = outgoing c @ cmdARTICLE @ '' '' @ seg_id it @ CRLF"
proof -
  let ?c1 = "c\<lparr>outgoing := outgoing c @ cmdARTICLE @ '' '' @ seg_id it @ CRLF, writes_left := writes_left c - 1\<rparr>"
  obtain it' where s: "store_lines cmdARTICLE st it = (it', None)"
    by (cases "content st = []") (auto simp: store_lines_def)
  have d: "readDotLines opt date sched rapid num cmdARTICLE it (?c1\<lparr>incoming := ls @ ''.'' # rest\<rparr>) =
      Inr ((1, rxb st, None), fst (store_lines cmdARTICLE st it), ?c1\<lparr>incoming := rest\<rparr>,
        case y of GoodPart p \<Rightarrow> if WriteParts opt then Some p else None | _ \<Rightarrow> None)"
    unfolding readDotLines_def using assms(4-6) s by (simp add: Let_def)
  then show ?thesis
    using assms(1-3) by (simp add: CMD_def Cmd_def WriteString_def ReadCodeLine_def Let_def)
qed

lemma body_of_article: "\<forall>l \<in> set hdr. l \<noteq> [] \<Longrightarrow> body_of (hdr @ [] # ls) = [] # ls"
  by (induction hdr) (auto simp: body_of_def)

lemma article_stored_run:
  assumes "writes_left c > 0" and "incoming c = r # ls @ ''.'' # rest" and "parse_code_line 220 r = (220, msg, e)"
    and "''.'' \<notin> set ls" and "sum_list (map length ls) < MaxArtSize opt"
    and "\<And>st. readlines opt date cmdARTICLE (\<lambda>_. 0) 0 (ls @ ''.'' # rest) (rdl_start cmdARTICLE) = Inr (Finished st, rest) \<Longrightarrow>
      yenc_end opt rapid num cmdARTICLE st = Inr y" and "y \<noteq> BadYenc"
  shows "\<exists>it' c'. CMD opt date sched rapid num cmdARTICLE it (Some c) =
      Inr ((220, msg, of_nat (sum_list (map length ls) + 1), None), it', Some c',
        case y of GoodPart p \<Rightarrow> if WriteParts opt then Some p else None | _ \<Rightarrow> None) \<and>
    incoming c' = rest \<and> (keys_ok opt \<and> article_of opt date ls \<noteq> [] \<longrightarrow> article it' = article_of opt date ls)"
proof -
  obtain st where r: "readlines opt date cmdARTICLE (\<lambda>_. 0) 0 (ls @ ''.'' # rest) (rdl_start cmdARTICLE) = Inr (Finished st, rest)"
    using readlines_finishes[OF line_decoder_new, of cmdARTICLE ls opt date "\<lambda>_. 0" 0 rest] assms(4,5) by auto
  note a = article_content[OF r assms(4)]
  obtain c' where "CMD opt date (\<lambda>_. 0) rapid num cmdARTICLE it (Some c) =
      Inr ((220, msg, of_nat (rxb st), None), fst (store_lines cmdARTICLE st it), Some c',
        case y of GoodPart p \<Rightarrow> if WriteParts opt then Some p else None | _ \<Rightarrow> None)" "incoming c' = rest"
    using CMD_article_run[OF assms(1-3) r assms(6)[OF r] assms(7)] by blast
  then show ?thesis
    using a CMD_schedule[of opt date sched rapid num cmdARTICLE it "Some c" "\<lambda>_. 0"]
    by (auto simp: store_article)
qed


section \<open>The download and upload routines with these commands\<close>

text \<open>The commands as the arguments of \<open>GoDownsRoutine\<close> and \<open>GoReupsRoutine\<close>. A
  crash inside \<open>CMD\<close> is kept as an error here; with modes other than 2 there is none.\<close>

definition go_err :: "nerr option \<Rightarrow> goerr option" where
  "go_err e = map_option (\<lambda>_. ErrOther) e"

definition download_reply ::
  "netopt \<Rightarrow> string \<Rightarrow> (nat \<Rightarrow> nat) \<Rightarrow> (string \<Rightarrow> (bytes \<times> string \<times> 32 word) option) \<Rightarrow> int \<Rightarrow> nconn option \<Rightarrow>
   item \<Rightarrow> item \<times> int \<times> 64 word \<times> goerr option" where
  "download_reply opt date sched rapid num co it =
     (case CMD opt date sched rapid num cmdARTICLE it co of
        Inl _ \<Rightarrow> (it, 0, 0, Some ErrOther)
      | Inr ((code, msg, n, e), it', _, _) \<Rightarrow> (it', code, n, go_err e))"

definition upload_reply :: "item \<Rightarrow> nconn option \<Rightarrow> nat \<Rightarrow> int \<times> 64 word \<times> goerr option" where
  "upload_reply it co cmd =
     (case fst (if cmd = 1 then CMD_POST it co else CMD_IHAVE it co) of (code, msg, txb, e) \<Rightarrow> (code, txb, go_err e))"

lemma CMD_empty_article:
  assumes "writes_left c > 0" and "incoming c = r # ''.'' # rest" and "parse_code_line 220 r = (220, msg, e)"
    and "0 < MaxArtSize opt" and "YencTest opt \<noteq> 4"
  shows "\<exists>c'. CMD opt date sched rapid num cmdARTICLE it (Some c) = Inr ((220, msg, 1, None), it, Some c', None)"
proof -
  have r: "readlines opt date cmdARTICLE sched 0 ([] @ ''.'' # rest) (rdl_start cmdARTICLE) =
      Inr (Finished ((rdl_start cmdARTICLE)\<lparr>rxb := 1\<rparr>), rest)"
    using assms(4) by (simp add: Let_def end_header_def rdl_start_def run_async_def)
  have y: "yenc_end opt rapid num cmdARTICLE ((rdl_start cmdARTICLE)\<lparr>rxb := 1\<rparr>) = Inr NotYenc"
    using assms(5) by (simp add: yenc_end_def rdl_start_def mode3_end_settled settled_def async_of_def)
  have i: "incoming c = r # [] @ ''.'' # rest" using assms(2) by simp
  show ?thesis
    using CMD_article_run[OF assms(1) i assms(3) r y, of it] by (auto simp: store_lines_def rdl_start_def)
qed

lemma up_unwanted_loop_fails:
  "fails (fst (up_unwanted_loop ps g pids it)) = fails it \<and> flaginUP (fst (up_unwanted_loop ps g pids it)) = flaginUP it"
  by (induction ps g pids it rule: up_unwanted_loop.induct) auto

lemma CMD_IHAVE_235:
  assumes "CMD_IHAVE it (Some c) = ((235, msg, txb, None), Some c')"
  shows "article it \<noteq> []" "outgoing c' = outgoing c @ ''IHAVE '' @ seg_id it @ CRLF @ wire_of (article it)"
    "txb = of_nat (length (wire_of (article it)) - 3)"
proof -
  obtain x xs where i: "incoming c = x # xs"
    using assms by (cases "incoming c") (auto simp: CMD_IHAVE_def Cmd_def WriteString_def ReadCodeLine_def split: if_splits)
  let ?c2 = "c\<lparr>outgoing := outgoing c @ ''IHAVE '' @ seg_id it @ CRLF, writes_left := writes_left c - 1, incoming := xs\<rparr>"
  have "article it \<noteq> [] \<and> (\<exists>c3. send_article (article it) ?c2 = (c3, txb, True) \<and> outgoing c' = outgoing c3)"
    using assms i by (auto simp: CMD_IHAVE_def Cmd_def WriteString_def ReadCodeLine_def
        split: if_splits option.splits prod.splits list.splits)
  then obtain c3 where a: "article it \<noteq> []" and s: "send_article (article it) ?c2 = (c3, txb, True)" "outgoing c' = outgoing c3"
    by blast
  then show "article it \<noteq> []" "outgoing c' = outgoing c @ ''IHAVE '' @ seg_id it @ CRLF @ wire_of (article it)"
      "txb = of_nat (length (wire_of (article it)) - 3)"
    using send_article_bytes[OF s(1)] by simp_all
qed

lemma CMD_IHAVE_435:
  assumes "writes_left c > 0" and "incoming c = r # rest" and "parse_code_line 335 r = (435, msg, e)"
  shows "\<exists>c'. CMD_IHAVE it (Some c) = ((435, msg, 0, None), Some c')"
  using assms by (simp add: CMD_IHAVE_def Cmd_def WriteString_def ReadCodeLine_def)

lemma yenc_article_run:
  assumes ok: "yarticle_ok a" and opt: "YencCRC opt" "YencTest opt \<in> {1, 2, 3}" "SimdMode opt \<in> {0, 1, 2}" "WriteParts opt"
    and hdr: "\<forall>l \<in> set hdr. l \<noteq> [] \<and> l \<noteq> ''.''" and ls: "ls = hdr @ [] # map stuff (yenc_article a)"
    and c: "writes_left c > 0" "incoming c = r # ls @ ''.'' # rest" "parse_code_line 220 r = (220, msg, e)"
    and size: "sum_list (map length ls) < MaxArtSize opt"
  shows "\<exists>n it' c'. CMD opt date sched rapid num cmdARTICLE it (Some c) =
      Inr ((220, msg, n, None), it', Some c', Some (decoded_part a)) \<and>
    (keys_ok opt \<longrightarrow> article it' = article_of opt date ls) \<and> part_Body (decoded_part a) = a_body a"
proof -
  have nd: "''.'' \<notin> set ls" using hdr stuff_not_dot [symmetric] by (auto simp: ls)
  have bd: "body_of ls = [] # map stuff (yenc_article a)" using hdr by (simp add: ls body_of_article)
  then have body: "map unstuff (body_of ls) = [] # yenc_article a" by (simp add: o_def)
  have y: "yenc_end opt rapid num cmdARTICLE st = Inr (GoodPart (decoded_part a))"
    if r: "readlines opt date cmdARTICLE (\<lambda>_. 0) 0 (ls @ ''.'' # rest) (rdl_start cmdARTICLE) = Inr (Finished st, rest)" for st
  proof -
    have "parseHeader (rdl_start cmdARTICLE)" by (simp add: rdl_start_def)
    then obtain f z where "yrun opt ([] # yenc_article a) (rdl_start cmdARTICLE) = Inr z" "st = set_front f z"
      using readlines_yenc[OF r nd opt(1)] body by (auto simp del: split_paired_Ex yrun.simps)
    then show ?thesis
      using yenc_end_article[OF ok opt(1-3), of rapid num f] by (auto simp del: yrun.simps)
  qed
  have "article_of opt date ls \<noteq> []" using bd by (simp add: article_of_def)
  moreover have "part_Body (decoded_part a) = a_body a" by (simp add: decoded_part_def)
  ultimately show ?thesis
    using article_stored_run[OF c nd size, where date = date and sched = sched and it = it, OF y] opt(4) by auto
qed

section \<open>Properties\<close>


text \<open>What a re-upload client stores. An article that \<open>ARTICLE\<close> delivered is
  the server's header fields except those on the cleaning list, each dropped with its
  continuation lines, two new header lines, and the body with the dot-stuffing
  taken off; its size is the number of characters read, within the limit; and
  the next command starts at the line after the final dot.\<close>

theorem article_stored:
  assumes "CMD opt date sched rapid num cmdARTICLE it (Some c) = Inr ((220, msg, n, None), it', Some c', w)"
    and "incoming c = r # ls @ ''.'' # rest" and "''.'' \<notin> set ls" and "keys_ok opt"
  shows "article it' = (if article_of opt date ls = [] then article it else article_of opt date ls) \<and>
    n = of_nat (sum_list (map length ls) + 1) \<and> sum_list (map length ls) + 1 \<le> MaxArtSize opt \<and> incoming c' = rest \<and>
    (article_of opt date ls \<noteq> [] \<longrightarrow> item_size it' = sum_list (map length ls) + 1 \<and> dlcnt it' = dlcnt it + 1)"
  by (rule CMD_article[OF assms(1-3)]) (simp add: store_article assms(4))

text \<open>The asynchronous decoder makes no difference. Whatever lines the
  decoder goroutine of mode 3 has got to when the reader looks at its error
  count, a command ends with the same code, item, connection and part.\<close>

theorem async_schedule_irrelevant:
  "CMD opt date s rapid num command it co = CMD opt date t rapid num command it co"
  by (rule CMD_schedule)


text \<open>C14: an intact article is never rejected. A server that sends any header, an
  empty line and the encoded part, dot-stuffed, is answered in the modes 1, 2 and 3,
  with every line decoder, by storing the article and handing on the part with
  exactly the encoded data.\<close>

theorem yenc_article_accepted:
  assumes ok: "yarticle_ok a" and opt: "YencCRC opt" "YencTest opt \<in> {1, 2, 3}" "SimdMode opt \<in> {0, 1, 2}" "WriteParts opt"
    and hdr: "\<forall>l \<in> set hdr. l \<noteq> [] \<and> l \<noteq> ''.''" and ls: "ls = hdr @ [] # map stuff (yenc_article a)"
    and c: "writes_left c > 0" "incoming c = r # ls @ ''.'' # rest" "parse_code_line 220 r = (220, msg, e)"
    and size: "sum_list (map length ls) < MaxArtSize opt"
  shows "\<exists>n it' c'. CMD opt date sched rapid num cmdARTICLE it (Some c) =
      Inr ((220, msg, n, None), it', Some c', Some (decoded_part a)) \<and>
    (keys_ok opt \<longrightarrow> article it' = article_of opt date ls) \<and> part_Body (decoded_part a) = a_body a"
  using yenc_article_run[OF assms] .

text \<open>A server can end the program. When it answers \<open>ARTICLE\<close> with code 220 and
  then at once the final dot, the item's size stays 0 and \<open>GoDownsRoutine\<close> exits
  the process.\<close>

theorem empty_article_exits:
  assumes "writes_left c > 0" and "incoming c = r # ''.'' # rest" and "parse_code_line 220 r = (220, msg, e)"
    and "0 < MaxArtSize opt" and "YencTest opt \<noteq> 4"
    and "item_size (r_item st) = 0" and "\<not> down (ps ! pid)" and "\<not> cacheON o1"
  shows "GoDownsRoutine o1 ps nzb pid ConnOk cached (download_reply opt date sched rapid num (Some c)) now st =
    Inl ProcessExit"
proof -
  have "download_reply opt date sched rapid num (Some c) (r_item st) = (r_item st, 220, 1, None)"
    using CMD_empty_article[OF assms(1-5), of date sched rapid num "r_item st"] by (auto simp: download_reply_def go_err_def)
  then show ?thesis using assms(6-8) by (simp add: GoDownsRoutine_def Let_def)
qed

text \<open>The ordinary answer 435, "article not wanted", to \<open>IHAVE\<close> is handled as a
  failure: \<open>CMD_IHAVE\<close> reports no error, but the upload routine makes one of it,
  counts a failure of the item and closes the connection. After code 437 it keeps both.\<close>

theorem ihave_435_counts_as_failure:
  assumes "writes_left c > 0" and "incoming c = r # rest" and "parse_code_line 335 r = (435, msg, e)"
    and "\<not> down (ps ! pid)" and "0 < memlocked (r_item st)" and "select_cmd (ps ! pid) = Some 2"
  shows "\<exists>m' st'. GoReupsRoutine ps pid i stop ConnOk (upload_reply (r_item st) (Some c)) now (m, st) =
      Some ((m', st'), 0, Some ErrOther, ConnClosed) \<and> fails (r_item st') = fails (r_item st) + 1"
proof -
  have r: "upload_reply (r_item st) (Some c) 2 = (435, 0, None)"
    using CMD_IHAVE_435[OF assms(1-3), of "r_item st"] by (auto simp: upload_reply_def go_err_def)
  obtain it' others where u: "up_unwanted_loop ps (Group (ps ! pid)) [0..<length ps] (r_item st) = (it', others)"
    by (metis surj_pair)
  then have "fails it' = fails (r_item st)"
    using up_unwanted_loop_fails[of ps "Group (ps ! pid)" "[0..<length ps]" "r_item st"] by simp
  then show ?thesis
    using assms(4-6) r u
    by (simp add: GoReupsRoutine_def finish_upload_def judge_upload_def up_unwanted_def FlagError_def Let_def)
qed


section \<open>Witnesses\<close>

definition relay_opt :: netopt where
  "relay_opt = \<lparr>MaxArtSize = 1000, CleanHeaders = True, YencCRC = False, YencTest = 1, DoubleCheck = False,
     WriteParts = True, net_proxy = True, SimdMode = 0, cleanKeys = cleanHeader\<rparr>"

definition relay_item :: item where
  "relay_item = blank_item\<lparr>article := [''Subject: x'', [], ''.dot'', ''end'']\<rparr>"

definition server :: "string list \<Rightarrow> nconn" where
  "server ls = \<lparr>incoming = ls, outgoing = [], writes_left = 20, hung_up = False\<rparr>"

abbreviation no_rapid :: "string \<Rightarrow> (bytes \<times> string \<times> 32 word) option" where
  "no_rapid \<equiv> \<lambda>_. None"

lemma code_lines:
  "parse_code_line 335 ''335 go'' = (335, ''go'', None)" "parse_code_line 235 ''235 ok'' = (235, ''ok'', None)"
  "parse_code_line 220 ''220 here'' = (220, ''here'', None)" "parse_code_line 335 ''435 no'' = (435, ''no'', Some (WrongCode 435))"
  by (simp_all add: parse_code_line_def parse_int_def Let_def undec_def digit_val_def is_digit_def wrong_code_def)

lemma relay_sent: "\<exists>txb c'. CMD_IHAVE relay_item (Some (server [''335 go'', ''235 ok''])) = ((235, ''ok'', txb, None), Some c')"
  by (simp add: CMD_IHAVE_def Cmd_def WriteString_def ReadCodeLine_def server_def code_lines relay_item_def send_article_def)


definition clean_opt :: netopt where
  "clean_opt = relay_opt\<lparr>net_proxy := False\<rparr>"

theorem article_stored_witness:
  "\<exists>n it' c'. CMD clean_opt ''Date: now'' (\<lambda>_. 0) no_rapid 1 cmdARTICLE blank_item
      (Some (server [''220 here'', ''X-A: a'', '' more'', ''Subject: x'', [], ''..dot'', ''.'', ''next''])) =
      Inr ((220, ''here'', n, None), it', Some c', None) \<and>
    article it' = [''Subject: x'', ''Date: now'', ''Path: not-for-mail'', [], ''.dot''] \<and> incoming c' = [''next'']"
proof -
  let ?ls = "[''X-A: a'', '' more'', ''Subject: x'', [], ''..dot'']"
  let ?c = "server [''220 here'', ''X-A: a'', '' more'', ''Subject: x'', [], ''..dot'', ''.'', ''next'']"
  have c: "writes_left ?c > 0" "incoming ?c = ''220 here'' # ?ls @ ''.'' # [''next'']" by (simp_all add: server_def)
  have y: "yenc_end clean_opt no_rapid 1 cmdARTICLE st = Inr NotYenc" for st
    by (simp add: yenc_end_def clean_opt_def relay_opt_def)
  have nd: "''.'' \<notin> set ?ls" by simp
  have size: "sum_list (map length ?ls) < MaxArtSize clean_opt" by (simp add: clean_opt_def relay_opt_def)
  have a: "article_of clean_opt ''Date: now'' ?ls = [''Subject: x'', ''Date: now'', ''Path: not-for-mail'', [], ''.dot'']"
    by code_simp
  obtain n it' c' where run: "CMD clean_opt ''Date: now'' (\<lambda>_. 0) no_rapid 1 cmdARTICLE blank_item (Some ?c) =
      Inr ((220, ''here'', n, None), it', Some c', None)"
    using article_stored_run[OF c code_lines(3) nd size, where date = "''Date: now''" and it = blank_item and sched = "\<lambda>_. 0", OF y]
    by auto
  have "keys_ok clean_opt" by code_simp
  from article_stored[OF run c(2) nd this] show ?thesis using run a by auto
qed

definition crc_opt :: "int \<Rightarrow> netopt" where
  "crc_opt mode = \<lparr>MaxArtSize = 100000, CleanHeaders = True, YencCRC = True, YencTest = mode, DoubleCheck = False,
     WriteParts = True, net_proxy = False, SimdMode = 2, cleanKeys = cleanHeader\<rparr>"

definition small_lines :: "string list" where
  "small_lines = ''Subject: x'' # [] # map stuff (yenc_article small_article)"

definition small_opt :: "int \<Rightarrow> netopt" where
  "small_opt mode = (crc_opt mode)\<lparr>MaxArtSize := Suc (sum_list (map length small_lines))\<rparr>"

lemma small_opt_sel [simp]:
  "YencCRC (small_opt m)" "YencTest (small_opt m) = m" "SimdMode (small_opt m) = 2" "WriteParts (small_opt m)"
  "sum_list (map length small_lines) < MaxArtSize (small_opt m)"
  by (simp_all add: small_opt_def crc_opt_def)

lemma small_server:
  "writes_left (server (''220 here'' # small_lines @ [''.'', ''next''])) > 0"
  "incoming (server (''220 here'' # small_lines @ [''.'', ''next''])) = ''220 here'' # small_lines @ ''.'' # [''next'']"
  "small_lines = [''Subject: x''] @ [] # map stuff (yenc_article small_article)" "''.'' \<notin> set small_lines"
  using stuff_not_dot [symmetric] by (auto simp: server_def small_lines_def)

theorem yenc_article_accepted_witness:
  "\<exists>n it' c'. CMD (small_opt 3) ''Date: now'' (\<lambda>_. 0) no_rapid 1 cmdARTICLE blank_item
      (Some (server (''220 here'' # small_lines @ [''.'', ''next'']))) =
      Inr ((220, ''here'', n, None), it', Some c', Some (decoded_part small_article)) \<and>
    part_Body (decoded_part small_article) = [19, 4]"
  using yenc_article_accepted[OF small_article_ok, of "small_opt 3" "[''Subject: x'']" small_lines
      "server (''220 here'' # small_lines @ [''.'', ''next''])" "''220 here''" "[''next'']" "''here''" None
      "''Date: now''" "\<lambda>_. 0" no_rapid 1 blank_item]
    small_server code_lines(3) by (auto simp: small_article_def)


theorem empty_article_exits_witness:
  "GoDownsRoutine plain_options two_providers ''n'' 0 ConnOk None
     (download_reply (crc_opt 1) ''Date: now'' (\<lambda>_. 0) no_rapid 1 (Some (server [''220 here'', ''.'']))) 0
     (blank_state blank_item) = Inl ProcessExit"
  by (rule empty_article_exits[where r = "''220 here''" and rest = "[]" and msg = "''here''" and e = None])
    (simp_all add: server_def code_lines crc_opt_def blank_state_def blank_item_def two_providers_def
      plain_provider_def plain_options_def)

theorem ihave_435_counts_as_failure_witness:
  "\<exists>m' st'. GoReupsRoutine [(plain_provider ''A'')\<lparr>cap_post := False, cap_ihave := True\<rparr>] 0 5 False ConnOk
      (upload_reply (relay_item\<lparr>memlocked := 1\<rparr>) (Some (server [''435 no'']))) 0
      (NewMemLimiter 2, blank_state (relay_item\<lparr>memlocked := 1\<rparr>)) = Some ((m', st'), 0, Some ErrOther, ConnClosed) \<and>
    fails (r_item st') = 1"
  using ihave_435_counts_as_failure[of "server [''435 no'']" "''435 no''" "[]" "''no''" "Some (WrongCode 435)"
      "[(plain_provider ''A'')\<lparr>cap_post := False, cap_ihave := True\<rparr>]" 0 "blank_state (relay_item\<lparr>memlocked := 1\<rparr>)"
      5 False 0 "NewMemLimiter 2"]
  by (simp add: server_def code_lines blank_state_def plain_provider_def select_cmd_def relay_item_def blank_item_def)

end
