(* ===== verification/Cache.thy ===== *)
theory Cache
  imports Divider Sessions Machine
begin

text \<open>
  \<open>Cache.go\<close>, \<open>Yenc.go\<close> and the file helpers of \<open>Utils.go\<close>: the article cache on
  disk, the writer of decoded yEnc parts with its queue, and the merging of
  the parts into a file. The disk maps paths to contents; what the
  operating system refuses is an argument. \<open>sha\<close> is \<open>SHA256str\<close>. The queue of
  the part writer is a step relation over the goroutines that send to it and
  take from it.
\<close>

section \<open>The disk\<close>

record disk =
  disk_files :: "string \<rightharpoonup> string"
  disk_dirs :: "string set"

definition FileExists :: "string \<Rightarrow> disk \<Rightarrow> bool" where
  "FileExists p d \<longleftrightarrow> disk_files d p \<noteq> None"

definition DirExists :: "string \<Rightarrow> disk \<Rightarrow> bool" where
  "DirExists p d \<longleftrightarrow> p \<in> disk_dirs d"

definition Mkdir :: "bool \<Rightarrow> string \<Rightarrow> disk \<Rightarrow> disk \<times> bool" where
  "Mkdir ok p d = (if ok then (d\<lparr>disk_dirs := insert p (disk_dirs d)\<rparr>, True) else (d, False))"

text \<open>
  \<open>os.OpenFile(O_CREATE|O_WRONLY)\<close> keeps what is in the file: the bytes written
  replace the first ones. With \<open>O_APPEND\<close> they go to its end.
\<close>

definition old_bytes :: "string \<Rightarrow> disk \<Rightarrow> string" where
  "old_bytes p d = (case disk_files d p of None \<Rightarrow> [] | Some s \<Rightarrow> s)"

definition overwrite :: "string \<Rightarrow> string \<Rightarrow> disk \<Rightarrow> disk" where
  "overwrite p s d =
     d\<lparr>disk_files := (disk_files d)(p \<mapsto> s @ drop (length s) (old_bytes p d))\<rparr>"

definition append_to :: "string \<Rightarrow> string \<Rightarrow> disk \<Rightarrow> disk" where
  "append_to p s d = d\<lparr>disk_files := (disk_files d)(p \<mapsto> old_bytes p d @ s)\<rparr>"

definition Rename :: "string \<Rightarrow> string \<Rightarrow> disk \<Rightarrow> disk" where
  "Rename a b d = d\<lparr>disk_files := (disk_files d)(b := disk_files d a, a := None)\<rparr>"

definition Remove :: "string \<Rightarrow> disk \<Rightarrow> disk" where
  "Remove p d = d\<lparr>disk_files := (disk_files d)(p := None)\<rparr>"

text \<open>
  Which call fails: none, the creation of the directory or the file, the
  writing after some bytes went out, the renaming, the closing.
\<close>

datatype disk_io = IoOk | NoMkdir | NoOpen | ShortWrite nat | NoRename | NoClose

text \<open>
  Both writers open a temporary file, write, and rename. The result tells
  whether the renaming was reached; nothing is renamed when a call before it failed.
\<close>

definition write_renamed :: "disk_io \<Rightarrow> string \<Rightarrow> string \<Rightarrow> string \<Rightarrow> disk \<Rightarrow> disk \<times> bool" where
  "write_renamed io tmp f text d =
     (case io of
        NoOpen \<Rightarrow> (d, False)
      | ShortWrite k \<Rightarrow> (overwrite tmp (take k text) d, False)
      | NoRename \<Rightarrow> (overwrite tmp text d, False)
      | _ \<Rightarrow> (Rename tmp f (overwrite tmp text d), True))"

section \<open>The article cache\<close>

definition art_path :: "string \<Rightarrow> string \<Rightarrow> item \<Rightarrow> string" where
  "art_path cachedir nzb it = path_join (path_join cachedir nzb) (hashedId it @ ''.art'')"

definition hash_id :: "(string \<Rightarrow> string) \<Rightarrow> item \<Rightarrow> item" where
  "hash_id sha it =
     (if hashedId it = [] then it\<lparr>hashedId := sha (''<'' @ seg_id it @ ''>'')\<rparr> else it)"

definition article_text :: "string list \<Rightarrow> string" where
  "article_text ls = concat (map (\<lambda>l. l @ [CHR 0x0A]) ls)"

definition CacheWriter ::
  "(string \<Rightarrow> string) \<Rightarrow> options \<Rightarrow> counter \<Rightarrow> string \<Rightarrow> string \<Rightarrow> disk_io \<Rightarrow> item \<times> disk \<Rightarrow> (item \<times> disk) \<times> nat" where
  "CacheWriter sha opt c cachedir nzb io st =
     (case st of (it0, d) \<Rightarrow>
      if article it0 = [] then ((it0, d), 0)
      else
      let it = hash_id sha it0;
          dir = path_join cachedir nzb;
          f = art_path cachedir nzb it;
          (d1, ok) = (if DirExists dir d then (d, True) else Mkdir (io \<noteq> NoMkdir) dir d)
      in if \<not> ok then ((it, d1), 0)
         else if FileExists f d1 then ((it\<lparr>flagCache := True\<rparr>, d1), 0)
         else case write_renamed io (f @ ''.tmp'') f (article_text (article it)) d1 of
           (d2, False) \<Rightarrow> ((it, d2), 0)
         | (d2, True) \<Rightarrow>
             ((it\<lparr>flagCache := True, flaginDL := False,
                  article := (if GetValue c ''postProviders'' = 0 \<or> UploadLater opt then [] else article it)\<rparr>, d2),
              length (article_text (article it))))"

text \<open>The bodies of the three cache goroutines, for one item.\<close>

definition GoCacheChecker :: "string \<Rightarrow> string \<Rightarrow> item \<Rightarrow> disk \<Rightarrow> item \<times> bool" where
  "GoCacheChecker cachedir nzb it d =
     (let exists = FileExists (art_path cachedir nzb it) d
      in (CheckCache exists it, exists))"

definition GoCacheReader :: "(string \<Rightarrow> string) \<Rightarrow> string \<Rightarrow> string \<Rightarrow> item \<Rightarrow> disk \<Rightarrow> item \<times> nat" where
  "GoCacheReader sha cachedir nzb it d =
     (let it1 = hash_id sha it in CacheReader (disk_files d (art_path cachedir nzb it1)) it1)"

definition GoCacheWriter ::
  "(string \<Rightarrow> string) \<Rightarrow> options \<Rightarrow> string \<Rightarrow> string \<Rightarrow> disk_io \<Rightarrow> nat \<Rightarrow> slotstate \<times> disk \<Rightarrow> slotstate \<times> disk" where
  "GoCacheWriter sha opt cachedir nzb io i st =
     (case st of ((c, m, it), d) \<Rightarrow>
      case CacheWriter sha opt c cachedir nzb io (it, d) of ((it', d'), _) \<Rightarrow>
        (afterCacheWrite opt i (c, m, it'), d'))"

section \<open>Decoded parts\<close>

text \<open>What names a part's file: the file's name and subject and the part's number
  from the NZB, and the width \<open>s.D\<close>.\<close>

record yfile =
  y_filename :: string
  y_subject :: string
  y_number :: int
  y_bytes :: int
  y_digits :: nat

text \<open>The verb \<open>%0wd\<close>.\<close>

definition pad_zeros :: "nat \<Rightarrow> string \<Rightarrow> string" where
  "pad_zeros w s = replicate (w - length s) (CHR ''0'') @ s"

definition padded :: "nat \<Rightarrow> int \<Rightarrow> string" where
  "padded w n =
     (if n < 0 then CHR ''-'' # pad_zeros (w - 1) (dec (nat (- n))) else pad_zeros w (dec (nat n)))"

text \<open>The directory, the part's path and its temporary path.\<close>

definition GetYenc :: "(string \<Rightarrow> string) \<Rightarrow> string \<Rightarrow> string \<Rightarrow> yfile \<Rightarrow> string \<times> string \<times> string" where
  "GetYenc sha cachedir nzb y =
     (let base = (case safeFileName (y_filename y) of (b, ok) \<Rightarrow> if ok then b else sha (y_subject y));
          filename = base @ ''.'' @ padded (y_digits y) (y_number y);
          yencdir = path_join (path_join cachedir nzb) ''yenc''
      in (yencdir, path_join yencdir filename, path_join yencdir (filename @ ''.tmp'')))"

definition resetYencFlagsOnErr :: "item \<Rightarrow> item" where
  "resetYencFlagsOnErr it = it\<lparr>flaginYenc := False, flagisYenc := False\<rparr>"

definition YencWriter ::
  "(string \<Rightarrow> string) \<Rightarrow> string \<Rightarrow> string \<Rightarrow> disk_io \<Rightarrow> yfile \<Rightarrow> string \<Rightarrow> item \<times> disk \<Rightarrow> (item \<times> disk) \<times> nat" where
  "YencWriter sha cachedir nzb io y body st =
     (case st of (it0, d) \<Rightarrow>
      let it = hash_id sha it0 in
      case GetYenc sha cachedir nzb y of (dir, fp, tmp) \<Rightarrow>
      if FileExists fp d then ((it\<lparr>flaginYenc := False, flagisYenc := True\<rparr>, d), 0)
      else case Mkdir (io \<noteq> NoMkdir) dir d of (d1, ok) \<Rightarrow>
      if \<not> ok then ((resetYencFlagsOnErr it, d1), 0)
      else case write_renamed io tmp fp body d1 of (d2, renamed) \<Rightarrow>
        if \<not> renamed \<or> io = NoClose then ((resetYencFlagsOnErr it, d2), 0)
        else ((it\<lparr>flaginYenc := False, flagisYenc := True\<rparr>, d2), length body))"

text \<open>\<open>WriteYenc\<close> up to its send: whether the part goes to the queue. \<open>complete\<close> says
  that the item has its session, file and NZB name.\<close>

definition WriteYenc :: "bool \<Rightarrow> bool \<Rightarrow> bool \<Rightarrow> string \<Rightarrow> item \<Rightarrow> item \<times> bool" where
  "WriteYenc prox complete writer body it =
     (if prox \<or> \<not> complete \<or> \<not> writer \<or> body = [] then (it, False)
      else (it\<lparr>flaginYenc := True\<rparr>, True))"

section \<open>The queue of the part writer\<close>

text \<open>
  A sender is in \<open>WriteYenc\<close>: it waits for room in the channel, has sent and not
  yet counted, or is done. A writer waits for a part, writes one, or has written
  it and is about to lower the count, which \<open>YencWriter\<close> defers to its return.
  \<open>yq_in\<close> is the items' \<open>flaginYenc\<close>.
\<close>

datatype send_pc = Sending | Sent | Counted
datatype write_pc = WriterIdle | Writing nat | Written

record yencq =
  yq_cap :: nat
  yq_buf :: "nat list"
  yq_count :: counter
  yq_in :: "nat \<Rightarrow> bool"
  yq_senders :: "(nat \<times> send_pc) list"
  yq_writers :: "write_pc list"

definition yq_value :: "yencq \<Rightarrow> nat" where
  "yq_value s = unat (GetValue (yq_count s) ''yencQueueCnt'')"

inductive yqstep :: "yencq \<Rightarrow> yencq \<Rightarrow> bool" where
  WriteYenc: "yqstep s (s\<lparr>yq_in := (yq_in s)(i := True), yq_senders := yq_senders s @ [(i, Sending)]\<rparr>)"
| Send: "k < length (yq_senders s) \<Longrightarrow> yq_senders s ! k = (i, Sending) \<Longrightarrow> length (yq_buf s) < yq_cap s \<Longrightarrow>
    yqstep s (s\<lparr>yq_buf := yq_buf s @ [i], yq_senders := (yq_senders s)[k := (i, Sent)]\<rparr>)"
| Count: "k < length (yq_senders s) \<Longrightarrow> yq_senders s ! k = (i, Sent) \<Longrightarrow>
    yqstep s (s\<lparr>yq_count := bump (bump (yq_count s) ''yencQueueCnt'') ''TOTAL_yencQueueCnt'',
                 yq_senders := (yq_senders s)[k := (i, Counted)]\<rparr>)"
| Take: "w < length (yq_writers s) \<Longrightarrow> yq_writers s ! w = WriterIdle \<Longrightarrow> yq_buf s = i # rest \<Longrightarrow>
    yqstep s (s\<lparr>yq_buf := rest, yq_writers := (yq_writers s)[w := Writing i]\<rparr>)"
| Write: "w < length (yq_writers s) \<Longrightarrow> yq_writers s ! w = Writing i \<Longrightarrow>
    yqstep s (s\<lparr>yq_in := (yq_in s)(i := False), yq_writers := (yq_writers s)[w := Written]\<rparr>)"
| Decr: "w < length (yq_writers s) \<Longrightarrow> yq_writers s ! w = Written \<Longrightarrow>
    yqstep s (s\<lparr>yq_count := unbump (yq_count s) ''yencQueueCnt'', yq_writers := (yq_writers s)[w := WriterIdle]\<rparr>)"

text \<open>\<open>NewCache\<close>: a channel of \<open>crw\<close> entries and as many writers.\<close>

definition yq_start :: "nat \<Rightarrow> yencq" where
  "yq_start crw = \<lparr>yq_cap = crw, yq_buf = [], yq_count = NewCounter, yq_in = (\<lambda>_. False), yq_senders = [],
     yq_writers = replicate crw WriterIdle\<rparr>"

section \<open>Merging the parts\<close>

definition AppendFileBytes :: "int \<Rightarrow> string \<Rightarrow> disk \<Rightarrow> disk option" where
  "AppendFileBytes n p d =
     (if n \<le> 0 \<or> p = [] then None else Some (append_to p (replicate (nat n) (CHR 0x00)) d))"

definition AppendFile :: "string \<Rightarrow> string \<Rightarrow> bool \<Rightarrow> disk \<Rightarrow> disk option" where
  "AppendFile src dst delsrc d =
     (if src = [] \<or> dst = [] then None
      else case disk_files d src of None \<Rightarrow> None
      | Some s \<Rightarrow> Some (if delsrc then Remove src (append_to dst s d) else append_to dst s d))"

text \<open>
  The loop over the parts of one file. \<open>fp\<close> is where a part is, \<open>par\<close> whether the
  file's name ends in \<open>.par\<close> or \<open>.par2\<close>. The result tells whether the loop went through
  to its end, and \<open>deleted\<close>.
\<close>

fun merge_items :: "(yfile \<Rightarrow> string) \<Rightarrow> bool \<Rightarrow> bool \<Rightarrow> string \<Rightarrow> yfile list \<Rightarrow> bool \<times> disk \<Rightarrow> bool \<times> bool \<times> disk" where
  "merge_items fp par del tmp [] (deleted, d) = (True, deleted, d)"
| "merge_items fp par del tmp (y # ys) (deleted, d) =
     (if \<not> FileExists (fp y) d
      then (if par
            then merge_items fp par del tmp ys
                   (True, if \<not> deleted \<and> FileExists tmp d then Remove tmp d else d)
            else case AppendFileBytes (y_bytes y) tmp d of
              None \<Rightarrow> (False, deleted, d)
            | Some d' \<Rightarrow> merge_items fp par del tmp ys (deleted, d'))
      else case AppendFile (fp y) tmp del d of
        None \<Rightarrow> (False, deleted, d)
      | Some d' \<Rightarrow> merge_items fp par del tmp ys (deleted, d'))"

text \<open>One file of \<open>YencMerge\<close>. \<open>hash_ok\<close> is the check of the file names with a known
  SHA256 sum, true of every other name.\<close>

definition merge_file ::
  "(string \<Rightarrow> string) \<Rightarrow> (string \<Rightarrow> string \<Rightarrow> bool) \<Rightarrow> bool \<Rightarrow> string \<Rightarrow> string \<Rightarrow> yfile list \<Rightarrow> string \<Rightarrow> disk \<Rightarrow> disk" where
  "merge_file sha hash_ok del cachedir nzb segments filename d =
     (case safeFileName filename of (safe, ok) \<Rightarrow>
      let target = path_join (path_join (path_join cachedir nzb) ''yenc'') safe;
          tmp = target @ ''.tmp'';
          fp = (\<lambda>y. fst (snd (GetYenc sha cachedir nzb y)));
          items = filter (\<lambda>y. y_filename y = filename) segments
      in if \<not> ok \<or> FileExists target d \<or> items = [] then d
         else case merge_items fp (has_suffix ''.par'' filename \<or> has_suffix ''.par2'' filename) del tmp items (False, d) of
           (through, deleted, d') \<Rightarrow>
             if \<not> through then d'
             else if \<not> hash_ok filename (old_bytes tmp d') then Remove tmp d'
             else if deleted then d' else Rename tmp target d')"

text \<open>Every file name of the segments, at its first occurrence. The files are merged
  in parallel in the code; each has paths of its own.\<close>

definition merge_names :: "yfile list \<Rightarrow> string list" where
  "merge_names ys = rev (remdups (rev (map y_filename ys)))"

definition YencMerge ::
  "(string \<Rightarrow> string) \<Rightarrow> (string \<Rightarrow> string \<Rightarrow> bool) \<Rightarrow> bool \<Rightarrow> bool \<Rightarrow> string \<Rightarrow> string \<Rightarrow> yfile list \<Rightarrow> disk \<Rightarrow> disk" where
  "YencMerge sha hash_ok enabled del cachedir nzb segments d =
     (if \<not> enabled then d else fold (merge_file sha hash_ok del cachedir nzb segments) (merge_names segments) d)"

section \<open>Lemmas: the article cache\<close>

lemma article_text_join: "ls \<noteq> [] \<Longrightarrow> article_text ls = join_with (CHR 0x0A) ls @ [CHR 0x0A]"
  unfolding article_text_def by (induction ls rule: join_with.induct[of _ "CHR 0x0A"]) auto

lemma article_text_not_Nil [simp]: "article_text ls = [] \<longleftrightarrow> ls = []"
  by (cases ls) (simp_all add: article_text_def)

lemma split_article_text:
  "ls \<noteq> [] \<Longrightarrow> \<forall>l \<in> set ls. CHR 0x0A \<notin> set l \<Longrightarrow> split_on (CHR 0x0A) (butlast (article_text ls)) = ls"
  by (simp add: article_text_join split_join)

lemma hash_id_fields [simp]:
  "article (hash_id sha it) = article it" "seg_id (hash_id sha it) = seg_id it"
  "hashedId (hash_id sha it) = (if hashedId it = [] then sha (''<'' @ seg_id it @ ''>'') else hashedId it)"
  by (simp_all add: hash_id_def)

lemma art_path_eq: "hashedId it = hashedId it' \<Longrightarrow> art_path cachedir nzb it = art_path cachedir nzb it'"
  by (simp add: art_path_def)

lemma Mkdir_files [simp]: "disk_files (fst (Mkdir ok p d)) = disk_files d"
  by (simp add: Mkdir_def)

lemma disk_files_simps [simp]:
  "disk_files (Rename a b d) = (disk_files d)(b := disk_files d a, a := None)"
  "disk_files (Remove a d) = (disk_files d)(a := None)"
  "disk_files (append_to a s d) = (disk_files d)(a \<mapsto> old_bytes a d @ s)"
  "disk_files (overwrite a s d) = (disk_files d)(a \<mapsto> s @ drop (length s) (old_bytes a d))"
  by (simp_all add: Rename_def Remove_def append_to_def overwrite_def)

lemma write_renamed_files:
  assumes "write_renamed io tmp f text d = (d', done)" and "f \<noteq> tmp"
  shows "disk_files d' f = (if done then Some (text @ drop (length text) (old_bytes tmp d)) else disk_files d f)"
    "done \<Longrightarrow> disk_files d' tmp = None" "done \<Longrightarrow> p \<noteq> f \<Longrightarrow> p \<noteq> tmp \<Longrightarrow> disk_files d' p = disk_files d p"
  using assms by (auto simp: write_renamed_def split: disk_io.splits)

lemma old_bytes_Mkdir [simp]: "old_bytes p (fst (Mkdir ok q d)) = old_bytes p d"
  by (simp add: old_bytes_def)

text \<open>What a write of the article leaves at its path.\<close>

lemma CacheWriter_disk:
  assumes "CacheWriter sha opt c cachedir nzb io (it, d) = ((it', d'), n)"
  defines "f \<equiv> art_path cachedir nzb (hash_id sha it)"
  shows "disk_files d' f = disk_files d f \<and> n = 0 \<or>
    disk_files d f = None \<and> n = length (article_text (article it)) \<and> article it \<noteq> [] \<and> flagCache it' \<and>
    disk_files d' f = Some (article_text (article it) @
      drop (length (article_text (article it))) (old_bytes (f @ ''.tmp'') d))"
proof -
  let ?dir = "path_join cachedir nzb"
  define d1 where "d1 = (if DirExists ?dir d then d else fst (Mkdir (io \<noteq> NoMkdir) ?dir d))"
  have d1: "disk_files d1 = disk_files d" by (simp add: d1_def)
  have dir: "(if DirExists ?dir d then (d, True) else Mkdir (io \<noteq> NoMkdir) ?dir d) =
      (d1, DirExists ?dir d \<or> io \<noteq> NoMkdir)"
    by (simp add: d1_def Mkdir_def)
  obtain d2 ok where w: "write_renamed io (f @ ''.tmp'') f (article_text (article it)) d1 = (d2, ok)"
    by (cases "write_renamed io (f @ ''.tmp'') f (article_text (article it)) d1") auto
  note wf = write_renamed_files[OF w, simplified]
  show ?thesis
    using assms(1) w wf(1) d1
    by (cases ok) (auto simp: CacheWriter_def Let_def dir FileExists_def f_def [symmetric] old_bytes_def split: if_splits)
qed


section \<open>Lemmas: the part queue\<close>

definition sent_uncounted :: "yencq \<Rightarrow> nat" where
  "sent_uncounted s = count_if (\<lambda>p. snd p = Sent) (yq_senders s)"

definition being_written :: "yencq \<Rightarrow> nat" where
  "being_written s = count_if (\<lambda>w. w \<noteq> WriterIdle) (yq_writers s)"

text \<open>The items of the parts in the channel and in a writer's hands.\<close>

fun writing_item :: "write_pc \<Rightarrow> nat list" where
  "writing_item (Writing i) = [i]"
| "writing_item _ = []"

definition waiting_senders :: "(nat \<times> send_pc) list \<Rightarrow> nat list" where
  "waiting_senders xs = map fst (filter (\<lambda>p. snd p = Sending) xs)"

definition open_parts :: "yencq \<Rightarrow> nat multiset" where
  "open_parts s = mset (waiting_senders (yq_senders s)) + mset (yq_buf s) +
     mset (concat (map writing_item (yq_writers s)))"

text \<open>As long as fewer than \<open>2 ^ 64\<close> parts are sent the count is at least the parts
  in the queue and in writing, less those not yet counted; and every item in between
  has its flag, if each is sent once.\<close>

definition yq_inv :: "yencq \<Rightarrow> bool" where
  "yq_inv s \<longleftrightarrow> yq_count s \<noteq> None \<and>
     (length (yq_senders s) < 2 ^ 64 \<longrightarrow>
        yq_value s \<le> count_if (\<lambda>p. snd p = Counted) (yq_senders s) \<and>
        length (yq_buf s) + being_written s \<le> yq_value s + sent_uncounted s) \<and>
     open_parts s \<subseteq># mset (map fst (yq_senders s)) \<and>
     (distinct (map fst (yq_senders s)) \<longrightarrow> (\<forall>i \<in># open_parts s. yq_in s i))"

lemma yq_value_bump:
  assumes "yq_count s \<noteq> None" and "yq_value s + 1 < 2 ^ 64"
  shows "unat (GetValue (bump (bump (yq_count s) ''yencQueueCnt'') ''TOTAL_yencQueueCnt'') ''yencQueueCnt'') = yq_value s + 1"
  using assms by (simp add: GetValue_bump yq_value_def unat_plus_1)

lemma yq_value_unbump:
  assumes "yq_count s \<noteq> None"
  shows "unat (GetValue (unbump (yq_count s) ''yencQueueCnt'') ''yencQueueCnt'') = yq_value s - 1"
  using assms by (auto simp: GetValue_unbump yq_value_def unat_minus_1 word_gt_0 not_less)

lemma waiting_senders_update:
  assumes "k < length xs" and "xs ! k = (i, q)"
  shows "mset (waiting_senders (xs[k := (i, p)])) + (if q = Sending then {#i#} else {#}) =
    mset (waiting_senders xs) + (if p = Sending then {#i#} else {#})"
  using assms
proof (induction xs arbitrary: k)
  case (Cons a xs)
  then show ?case by (cases k) (auto simp: waiting_senders_def)
qed simp

lemma senders_fst_update: "k < length xs \<Longrightarrow> xs ! k = (i, q) \<Longrightarrow> map fst (xs[k := (i, p)]) = map fst xs"
  by (metis fst_conv list_update_id map_update)

lemma open_parts_step:
  "yqstep s s' \<Longrightarrow>
     open_parts s' = open_parts s \<and> map fst (yq_senders s') = map fst (yq_senders s) \<and> yq_in s' = yq_in s \<or>
     (\<exists>i. open_parts s' = open_parts s + {#i#} \<and> map fst (yq_senders s') = map fst (yq_senders s) @ [i] \<and>
        yq_in s' = (yq_in s)(i := True)) \<or>
     (\<exists>i. open_parts s = open_parts s' + {#i#} \<and> map fst (yq_senders s') = map fst (yq_senders s) \<and>
        yq_in s' = (yq_in s)(i := False))"
proof (induction rule: yqstep.induct)
  case (WriteYenc s i)
  then show ?case by (auto simp: open_parts_def waiting_senders_def)
next
  case (Send k s i)
  then show ?case
    using waiting_senders_update[OF Send(1,2), of Sent] senders_fst_update[OF Send(1,2), of Sent]
    by (auto simp: open_parts_def)
next
  case (Count k s i)
  then show ?case
    using waiting_senders_update[OF Count(1,2), of Counted] senders_fst_update[OF Count(1,2), of Counted]
    by (auto simp: open_parts_def)
next
  case (Take w s i rest)
  then show ?case
    using mset_concat_update[OF Take(1), of writing_item "Writing i"] by (auto simp: open_parts_def)
next
  case (Write w s i)
  then show ?case
    using mset_concat_update[OF Write(1), of writing_item Written]
    by (intro disjI2 exI[of _ i]) (simp add: open_parts_def)
next
  case (Decr w s)
  then show ?case
    using mset_concat_update[OF Decr(1), of writing_item WriterIdle] by (auto simp: open_parts_def)
qed

lemma yq_inv_start: "s = yq_start crw \<Longrightarrow> yq_inv s"
  by (simp add: yq_inv_def yq_start_def NewCounter_live open_parts_def waiting_senders_def being_written_def
      count_if_def yq_value_def GetValue_New)

lemma yq_inv_step:
  assumes "yq_inv s" and "yqstep s s'"
  shows "yq_inv s'"
proof -
  have old: "open_parts s \<subseteq># mset (map fst (yq_senders s))"
      "distinct (map fst (yq_senders s)) \<Longrightarrow> \<forall>i \<in># open_parts s. yq_in s i"
    using assms(1) by (simp_all add: yq_inv_def)
  have parts: "open_parts s' \<subseteq># mset (map fst (yq_senders s')) \<and>
      (distinct (map fst (yq_senders s')) \<longrightarrow> (\<forall>i \<in># open_parts s'. yq_in s' i))"
    using open_parts_step[OF assms(2)]
  proof (elim disjE exE conjE)
    fix i assume st: "open_parts s' = open_parts s + {#i#}" "map fst (yq_senders s') = map fst (yq_senders s) @ [i]"
      "yq_in s' = (yq_in s)(i := True)"
    show ?thesis using old unfolding st by auto
  next
    fix i assume st: "open_parts s = open_parts s' + {#i#}" "map fst (yq_senders s') = map fst (yq_senders s)"
      "yq_in s' = (yq_in s)(i := False)"
    have "i \<notin># open_parts s'" if "distinct (map fst (yq_senders s))"
    proof -
      have "count (open_parts s) i \<le> count (mset (map fst (yq_senders s))) i"
        using old(1) by (simp only: mset_subset_eq_count)
      moreover have "count (mset (map fst (yq_senders s))) i \<le> 1"
        using that unfolding distinct_count_atmost_1 by (metis le_refl zero_le_one)
      ultimately show ?thesis unfolding st(1) by (simp add: not_in_iff)
    qed
    moreover have "open_parts s' \<subseteq># mset (map fst (yq_senders s))"
      using old(1) unfolding st(1) by (rule subset_mset.order_trans[OF mset_subset_eq_add_left])
    ultimately show ?thesis
      using old(2) unfolding st by auto
  qed (use old in simp)
  have "yq_count s' \<noteq> None \<and> (length (yq_senders s') < 2 ^ 64 \<longrightarrow>
      yq_value s' \<le> count_if (\<lambda>p. snd p = Counted) (yq_senders s') \<and>
      length (yq_buf s') + being_written s' \<le> yq_value s' + sent_uncounted s')"
    using assms(2,1)
  proof (cases rule: yqstep.cases)
    case (WriteYenc i)
    then show ?thesis using assms(1) by (simp add: yq_inv_def yq_value_def sent_uncounted_def being_written_def)
  next
    case (Send k i)
    then show ?thesis using assms(1) count_if_update[OF Send(2), of "\<lambda>p. snd p = Sent" "(i, Sent)"]
        count_if_update[OF Send(2), of "\<lambda>p. snd p = Counted" "(i, Sent)"]
      by (simp add: yq_inv_def yq_value_def sent_uncounted_def being_written_def)
  next
    case (Count k i)
    have live: "yq_count s \<noteq> None" using assms(1) by (simp add: yq_inv_def)
    have "yq_value s + 1 < 2 ^ 64" if "length (yq_senders s) < 2 ^ 64"
    proof -
      have "yq_value s \<le> count_if (\<lambda>p. snd p = Counted) (yq_senders s)"
        using assms(1) that by (simp add: yq_inv_def)
      also have "\<dots> < count_if (\<lambda>p. snd p = Counted) ((yq_senders s)[k := (i, Counted)])"
        using count_if_update[OF Count(2), of "\<lambda>p. snd p = Counted" "(i, Counted)"] Count(3) by simp
      also have "\<dots> \<le> length (yq_senders s)"
        using count_if_le by (metis length_list_update)
      finally show ?thesis using that by linarith
    qed
    then have "yq_value s' = yq_value s + 1" if "length (yq_senders s) < 2 ^ 64"
      using that yq_value_bump[OF live] Count(1) by (simp add: yq_value_def)
    then show ?thesis using assms(1) live Count count_if_update[OF Count(2), of "\<lambda>p. snd p = Sent" "(i, Counted)"]
        count_if_update[OF Count(2), of "\<lambda>p. snd p = Counted" "(i, Counted)"]
      by (cases "length (yq_senders s) < 2 ^ 64") (auto simp: yq_inv_def sent_uncounted_def being_written_def)
  next
    case (Take w i rest)
    then show ?thesis using assms(1) count_if_update[OF Take(2), of "\<lambda>w. w \<noteq> WriterIdle" "Writing i"]
      by (simp add: yq_inv_def yq_value_def sent_uncounted_def being_written_def)
  next
    case (Write w i)
    then show ?thesis using assms(1) count_if_update[OF Write(2), of "\<lambda>w. w \<noteq> WriterIdle" Written]
      by (simp add: yq_inv_def yq_value_def sent_uncounted_def being_written_def)
  next
    case (Decr w)
    then show ?thesis using assms(1) count_if_update[OF Decr(2), of "\<lambda>w. w \<noteq> WriterIdle" WriterIdle]
        yq_value_unbump[of s]
      by (auto simp: yq_inv_def yq_value_def sent_uncounted_def being_written_def)
  qed
  then show ?thesis using parts by (simp add: yq_inv_def)
qed

interpretation part_queue: machine "\<lambda>s. s = yq_start crw" yqstep yq_inv for crw
  by unfold_locales (auto intro: yq_inv_start yq_inv_step)

section \<open>Lemmas: paths and merging\<close>

definition part_path :: "(string \<Rightarrow> string) \<Rightarrow> string \<Rightarrow> string \<Rightarrow> yfile \<Rightarrow> string" where
  "part_path sha cachedir nzb y = fst (snd (GetYenc sha cachedir nzb y))"

definition yenc_target :: "string \<Rightarrow> string \<Rightarrow> string \<Rightarrow> string" where
  "yenc_target cachedir nzb safe = path_join (path_join (path_join cachedir nzb) ''yenc'') safe"

lemma safe_plain: "safeFileName name = (b, True) \<Longrightarrow> plain_name b"
  using path_base_no_slash by (auto simp: safeFileName_def plain_name_def Let_def split: if_splits)

lemma plain_name_ext: "plain_name b \<Longrightarrow> CHR ''/'' \<notin> set e \<Longrightarrow> 2 < length (b @ e) \<Longrightarrow> plain_name (b @ e)"
proof -
  assume a: "plain_name b" "CHR ''/'' \<notin> set e" "2 < length (b @ e)"
  have "length ''.'' = 1" "length ''..'' = 2" by simp_all
  then have "b @ e \<noteq> ''.''" "b @ e \<noteq> ''..''" using a(3) by (metis less_irrefl one_less_numeral_iff semiring_norm(76) order_less_trans)+
  then show ?thesis using a(1,2) by (simp add: plain_name_def)
qed

lemma padded_chars: "c \<in> set (padded w n) \<Longrightarrow> c = CHR ''-'' \<or> is_digit c"
  by (auto simp: padded_def pad_zeros_def is_digit_def dest: dec_digits split: if_splits)

lemma padded_no_slash: "CHR ''/'' \<notin> set (padded w n)" "padded w n \<noteq> ''tmp''" "padded w n \<noteq> []"
proof -
  show "CHR ''/'' \<notin> set (padded w n)" using padded_chars[of "CHR ''/''" w n] by (auto simp: is_digit_def)
  have "CHR ''t'' \<notin> set (padded w n)" using padded_chars[of "CHR ''t''" w n] by (auto simp: is_digit_def)
  then show "padded w n \<noteq> ''tmp''" by auto
  show "padded w n \<noteq> []" by (simp add: padded_def pad_zeros_def)
qed

text \<open>The paths of a file, its temporary file and its parts differ.\<close>

lemma yenc_paths:
  fixes cachedir nzb
  assumes "safeFileName (y_filename y) = (safe, True)"
  defines "target \<equiv> yenc_target cachedir nzb safe"
  shows "part_path sha cachedir nzb y \<noteq> target" "part_path sha cachedir nzb y \<noteq> target @ ''.tmp''"
    "part_path sha cachedir nzb y \<noteq> []"
proof -
  let ?dir = "path_join (path_join cachedir nzb) ''yenc''"
  let ?n = "safe @ ''.'' @ padded (y_digits y) (y_number y)"
  obtain pre where pre: "\<And>b. plain_name b \<Longrightarrow> path_join ?dir b = pre @ b"
    using path_join_prefix[of ?dir] by blast
  have safe: "plain_name safe" using assms(1) by (rule safe_plain)
  have n: "plain_name ?n"
    using safe padded_no_slash[of "y_digits y" "y_number y"]
    by (intro plain_name_ext) (auto simp: plain_name_def Suc_le_eq simp flip: length_greater_0_conv)
  have p: "part_path sha cachedir nzb y = pre @ ?n"
    using pre[OF n] assms(1) by (simp add: part_path_def GetYenc_def Let_def)
  have t: "target = pre @ safe" using pre[OF safe] by (simp add: target_def yenc_target_def)
  show "part_path sha cachedir nzb y \<noteq> target" "part_path sha cachedir nzb y \<noteq> target @ ''.tmp''"
      "part_path sha cachedir nzb y \<noteq> []"
    using padded_no_slash(2) by (auto simp: p t)
qed

text \<open>The bytes a part gives to the file: its own, or as many zeros as the NZB says
  the encoded segment has.\<close>

definition part_content :: "(yfile \<Rightarrow> string) \<Rightarrow> disk \<Rightarrow> yfile \<Rightarrow> string" where
  "part_content fp d y =
     (case disk_files d (fp y) of Some s \<Rightarrow> s | None \<Rightarrow> replicate (nat (y_bytes y)) (CHR 0x00))"

lemma merge_items_all:
  assumes "\<forall>y \<in> set ys. fp y \<noteq> tmp \<and> fp y \<noteq> [] \<and> 0 < y_bytes y" and "distinct (map fp ys)" and "tmp \<noteq> []"
  shows "\<exists>d'. merge_items fp False del tmp ys (False, d) = (True, False, d') \<and>
    old_bytes tmp d' = old_bytes tmp d @ concat (map (part_content fp d) ys) \<and>
    (ys \<noteq> [] \<longrightarrow> disk_files d' tmp \<noteq> None) \<and> (disk_files d tmp \<noteq> None \<longrightarrow> disk_files d' tmp \<noteq> None) \<and>
    (\<forall>p. p \<noteq> tmp \<and> p \<notin> fp ` set ys \<longrightarrow> disk_files d' p = disk_files d p)"
  using assms
proof (induction ys arbitrary: d)
  case (Cons y ys)
  let ?s = "part_content fp d y"
  obtain d1 where step: "merge_items fp False del tmp (y # ys) (False, d) = merge_items fp False del tmp ys (False, d1)"
    and d1: "disk_files d1 tmp = Some (old_bytes tmp d @ ?s)"
      "\<forall>p. p \<noteq> tmp \<and> p \<noteq> fp y \<longrightarrow> disk_files d1 p = disk_files d p"
    using Cons.prems
    by (cases "disk_files d (fp y)")
      (auto simp: FileExists_def AppendFileBytes_def AppendFile_def part_content_def old_bytes_def)
  have "disk_files d1 (fp x) = disk_files d (fp x)" if "x \<in> set ys" for x
  proof -
    have "fp x \<noteq> tmp" "fp x \<noteq> fp y" using that Cons.prems(1,2) by (simp_all, metis image_eqI)
    then show ?thesis using d1(2) by simp
  qed
  then have same: "map (part_content fp d1) ys = map (part_content fp d) ys"
    by (simp add: part_content_def)
  obtain d' where d': "merge_items fp False del tmp ys (False, d1) = (True, False, d')"
    "old_bytes tmp d' = old_bytes tmp d1 @ concat (map (part_content fp d1) ys)"
    "disk_files d' tmp \<noteq> None" "\<forall>p. p \<noteq> tmp \<and> p \<notin> fp ` set ys \<longrightarrow> disk_files d' p = disk_files d1 p"
    using Cons.IH[of d1] Cons.prems d1(1) by auto
  have "old_bytes tmp d1 = old_bytes tmp d @ ?s" using d1(1) by (simp add: old_bytes_def)
  then have "old_bytes tmp d' = old_bytes tmp d @ concat (map (part_content fp d) (y # ys))"
    using d'(2) same by simp
  moreover have "\<forall>p. p \<noteq> tmp \<and> p \<notin> fp ` set (y # ys) \<longrightarrow> disk_files d' p = disk_files d p"
    using d'(4) d1(2) by auto
  ultimately show ?case using step d'(1,3) by auto
qed simp

section \<open>Properties\<close>


text \<open>Merged files. When the parts of a file have paths of their own and it is
  no \<open>.par\<close> or \<open>.par2\<close> file, merging leaves at the target the contents of the
  parts in their order, and no temporary file. Two things are not as one would
  want: the result starts with what an interrupted merge left in the temporary
  file, and a missing part is filled with as many zeros as the \<open>encoded\<close>
  segment has bytes, which is more than the part had, so what follows is displaced.\<close>

theorem merged_file:
  assumes fn: "\<not> (has_suffix ''.par'' fn \<or> has_suffix ''.par2'' fn)" "safeFileName fn = (safe, True)"
      "filter (\<lambda>y. y_filename y = fn) segments = ys" "ys \<noteq> []"
    and new: "disk_files d (yenc_target cachedir nzb safe) = None" "\<And>s. hash_ok fn s"
    and parts: "\<forall>y \<in> set ys. 0 < y_bytes y" "distinct (map (part_path sha cachedir nzb) ys)"
  shows "disk_files (merge_file sha hash_ok del cachedir nzb segments fn d) (yenc_target cachedir nzb safe) =
      Some (old_bytes (yenc_target cachedir nzb safe @ ''.tmp'') d @
        concat (map (part_content (part_path sha cachedir nzb) d) ys)) \<and>
    disk_files (merge_file sha hash_ok del cachedir nzb segments fn d) (yenc_target cachedir nzb safe @ ''.tmp'') = None"
proof -
  let ?t = "yenc_target cachedir nzb safe"
  have "\<forall>y \<in> set ys. y_filename y = fn" using fn(3) by auto
  then have fp: "\<forall>y \<in> set ys. part_path sha cachedir nzb y \<noteq> ?t @ ''.tmp'' \<and> part_path sha cachedir nzb y \<noteq> [] \<and>
      0 < y_bytes y"
    using yenc_paths fn(2) parts(1) by metis
  then obtain d' where m: "merge_items (part_path sha cachedir nzb) False del (?t @ ''.tmp'') ys (False, d) = (True, False, d')"
    and d': "old_bytes (?t @ ''.tmp'') d' = old_bytes (?t @ ''.tmp'') d @
        concat (map (part_content (part_path sha cachedir nzb) d) ys)" "disk_files d' (?t @ ''.tmp'') \<noteq> None"
    using merge_items_all[OF fp parts(2), of del d] fn(4) by auto
  then have "disk_files d' (?t @ ''.tmp'') = Some (old_bytes (?t @ ''.tmp'') d')" by (auto simp: old_bytes_def)
  then have "merge_file sha hash_ok del cachedir nzb segments fn d = Rename (?t @ ''.tmp'') ?t d'"
    using fn new m unfolding part_path_def yenc_target_def
    by (simp add: merge_file_def Let_def FileExists_def)
  then show ?thesis using d' by (auto simp: old_bytes_def)
qed

text \<open>A temporary file of a write that was cut off spoils the next one. The
  file is opened without truncation, so when the article written next is
  shorter than what the temporary file holds, the rest stays behind it: the
  cached file is complete and renamed, and wrong.\<close>

theorem stale_temporary_file:
  assumes "CacheWriter sha opt c cachedir nzb io (it, d) = ((it', d'), n)" and "0 < n"
    and "disk_files d (art_path cachedir nzb (hash_id sha it) @ ''.tmp'') = Some old" and "n < length old"
  shows "flagCache it' \<and>
    disk_files d' (art_path cachedir nzb (hash_id sha it)) = Some (article_text (article it) @ drop n old) \<and>
    snd (GoCacheReader sha cachedir nzb (hash_id sha it\<lparr>article := []\<rparr>) d') = length old"
proof -
  have "art_path cachedir nzb (hash_id sha (hash_id sha it\<lparr>article := []\<rparr>)) = art_path cachedir nzb (hash_id sha it)"
    by (rule art_path_eq) (simp add: hash_id_def)
  then show ?thesis
    using CacheWriter_disk[OF assms(1)] assms(2-4)
    by (auto simp: old_bytes_def GoCacheReader_def Let_def CacheReader_def)
qed


text \<open>But the count can stay up. A sender counts after the send, so a writer
  may be done before: its decrement finds zero and is dropped, and the increment that
  follows is never undone. Nothing is queued, in writing or flagged any more, and the
  divider still never finishes: it goes on until its watchdog fires.\<close>

theorem yenc_count_sticks:
  "\<exists>s. yqstep\<^sup>*\<^sup>* (yq_start 1) s \<and> yq_senders s = [(7, Counted)] \<and> yq_writers s = [WriterIdle] \<and> yq_buf s = [] \<and>
     \<not> yq_in s 7 \<and> yq_value s = 1 \<and>
     (decide opt now (ob\<lparr>o_yeQ := yq_value s\<rparr>) l = Quit ''noProgress'' \<or>
      goes_on (decide opt now (ob\<lparr>o_yeQ := yq_value s\<rparr>) l))"
proof -
  define s1 where "s1 = (yq_start 1)\<lparr>yq_in := (\<lambda>_. False)(7 := True), yq_senders := [(7, Sending)]\<rparr>"
  define s2 where "s2 = s1\<lparr>yq_buf := [7], yq_senders := [(7, Sent)]\<rparr>"
  define s3 where "s3 = s2\<lparr>yq_buf := [], yq_writers := [Writing 7]\<rparr>"
  define s4 where "s4 = s3\<lparr>yq_in := (yq_in s3)(7 := False), yq_writers := [Written]\<rparr>"
  define s5 where "s5 = s4\<lparr>yq_count := unbump NewCounter ''yencQueueCnt'', yq_writers := [WriterIdle]\<rparr>"
  define s6 where "s6 = s5\<lparr>yq_count := bump (bump (yq_count s5) ''yencQueueCnt'') ''TOTAL_yencQueueCnt'',
      yq_senders := [(7, Counted)]\<rparr>"
  note defs = s1_def s2_def s3_def s4_def s5_def s6_def yq_start_def
  have "yqstep (yq_start 1) s1" using WriteYenc[of "yq_start 1" 7] by (simp add: defs)
  moreover have "yqstep s1 s2" using Send[of 0 s1 7] by (simp add: defs)
  moreover have "yqstep s2 s3" using Take[of 0 s2 7 "[]"] by (simp add: defs)
  moreover have "yqstep s3 s4" using Write[of 0 s3 7] by (simp add: defs)
  moreover have "yqstep s4 s5" using Decr[of 0 s4] by (simp add: defs)
  moreover have "yqstep s5 s6" using Count[of 0 s5 7] by (simp add: defs)
  ultimately have "yqstep\<^sup>*\<^sup>* (yq_start 1) s6" by (meson converse_rtranclp_into_rtranclp rtranclp.rtrancl_refl)
  moreover have v: "yq_value s6 = 1"
    by (simp add: yq_value_def defs GetValue_bump GetValue_unbump)
  moreover have "decide opt now (ob\<lparr>o_yeQ := yq_value s6\<rparr>) l = Quit ''noProgress'' \<or>
      goes_on (decide opt now (ob\<lparr>o_yeQ := yq_value s6\<rparr>) l)"
    unfolding v by (simp add: decide_def Let_def quiet_def)
  ultimately show ?thesis by (intro exI[of _ s6]) (simp add: defs)
qed

section \<open>Concrete runs\<close>

definition two_lines :: item where
  "two_lines = blank_item\<lparr>hashedId := ''h'', article := [''ab'', []]\<rparr>"

definition empty_disk :: disk where
  "empty_disk = \<lparr>disk_files = (\<lambda>_. None), disk_dirs = {}\<rparr>"

lemma h_path: "art_path ''c'' ''n'' (it\<lparr>hashedId := ''h''\<rparr>) = ''c/n/h.art''"
  by (simp add: art_path_def path_join_def path_clean_def Let_def)

lemma two_lines_path: "art_path ''c'' ''n'' (hash_id id two_lines) = ''c/n/h.art''"
  using h_path[of blank_item] art_path_eq[of "hash_id id two_lines" "blank_item\<lparr>hashedId := ''h''\<rparr>"]
  by (simp add: two_lines_def)

lemma two_lines_text: "article_text (article two_lines) = ''ab'' @ [CHR 0x0A, CHR 0x0A]"
  by (simp add: two_lines_def article_text_def)

lemma two_lines_written:
  assumes "disk_files d ''c/n/h.art'' = None"
  shows "\<exists>d' it'. CacheWriter id plain_options NewCounter ''c'' ''n'' IoOk (two_lines, d) = ((it', d'), 4)"
proof -
  have "length (article_text (article two_lines)) = 4" by (simp add: two_lines_text)
  moreover have "article two_lines \<noteq> []" by (simp add: two_lines_def)
  ultimately show ?thesis
    using assms by (auto simp: CacheWriter_def Let_def two_lines_path FileExists_def Mkdir_def write_renamed_def)
qed


theorem stale_temporary_file_witness:
  "\<exists>it' d'. CacheWriter id plain_options NewCounter ''c'' ''n'' IoOk
      (two_lines, empty_disk\<lparr>disk_files := [''c/n/h.art.tmp'' \<mapsto> ''rest''  @ ''old'']\<rparr>) = ((it', d'), 4) \<and>
    disk_files d' ''c/n/h.art'' = Some (''ab'' @ [CHR 0x0A, CHR 0x0A] @ ''old'')"
proof -
  let ?d = "empty_disk\<lparr>disk_files := [''c/n/h.art.tmp'' \<mapsto> ''rest''  @ ''old'']\<rparr>"
  obtain it' d' where w: "CacheWriter id plain_options NewCounter ''c'' ''n'' IoOk (two_lines, ?d) = ((it', d'), 4)"
    using two_lines_written[of ?d] by (auto simp: empty_disk_def)
  show ?thesis
    using stale_temporary_file[OF w, of "''restold''"] w by (simp add: two_lines_path two_lines_text)
qed

definition two_parts :: "yfile list" where
  "two_parts = [\<lparr>y_filename = ''f'', y_subject = [], y_number = 1, y_bytes = 3, y_digits = 2\<rparr>,
     \<lparr>y_filename = ''f'', y_subject = [], y_number = 2, y_bytes = 3, y_digits = 2\<rparr>]"

definition part_disk :: disk where
  "part_disk = \<lparr>disk_files = [''c/n/yenc/f.02'' \<mapsto> ''xy''], disk_dirs = {}\<rparr>"

lemma two_parts_paths:
  "map (part_path id ''c'' ''n'') two_parts = [''c/n/yenc/f.01'', ''c/n/yenc/f.02'']"
  "yenc_target ''c'' ''n'' ''f'' = ''c/n/yenc/f''"
  by (simp_all add: two_parts_def part_path_def GetYenc_def safeFileName_def replace_char_def path_base_def
      TrimRight_def padded_def pad_zeros_def dec.simps digit_chars[unfolded One_nat_def] path_join_def path_clean_def yenc_target_def Let_def)

theorem merged_file_witness:
  "disk_files (merge_file id (\<lambda>_ _. True) False ''c'' ''n'' two_parts ''f'' part_disk) ''c/n/yenc/f'' =
     Some ([CHR 0x00, CHR 0x00, CHR 0x00] @ ''xy'')"
proof -
  have "map (part_content (part_path id ''c'' ''n'') part_disk) two_parts = [replicate 3 (CHR 0x00), ''xy'']"
    using two_parts_paths(1) by (simp add: two_parts_def part_content_def part_disk_def)
  moreover have "safeFileName ''f'' = (''f'', True)"
    by (simp add: safeFileName_def replace_char_def path_base_def TrimRight_def Let_def)
  ultimately show ?thesis
    using merged_file[of "''f''" "''f''" two_parts two_parts part_disk "''c''" "''n''" "\<lambda>_ _. True" id False]
      two_parts_paths
    by (auto simp: two_parts_def part_disk_def has_suffix_def has_prefix_def old_bytes_def numeral_3_eq_3)
qed


end
