(* ===== verification/ConnPool.thy ===== *)
theory ConnPool
  imports Nntp Machine
begin

text \<open>
  \<open>ConnPool.go\<close>: the connections to one provider. The login of a new
  connection is a conversation with the server; the pool is a step relation over
  the goroutines that ask for connections, hold and give them back, so that
  every interleaving of the sections under \<open>c.mux\<close> and of the channel operations
  is covered. How long a connection was parked is left open: an idle connection
  may be fresh, expired or too old. Also here: what a session learns of a provider before it
  boots (\<open>loadProviderList\<close> of \<open>Utils.go\<close>, \<open>checkCapabilities\<close> of \<open>NetConn.go\<close>).
\<close>

section \<open>The login\<close>

datatype conn_error = ErrDial | Banner int "nerr option" | LoginFailed nerr | ErrStopped | AllEstablished | OverLimit

record credentials =
  Username :: string
  Password :: string

definition nntpWelcomeCodeMin :: int where "nntpWelcomeCodeMin = 200"
definition nntpWelcomeCodeMax :: int where "nntpWelcomeCodeMax = 201"
definition nntpMoreInfoCode :: int where "nntpMoreInfoCode = 381"
definition nntpAuthSuccess :: int where "nntpAuthSuccess = 281"

definition wants_auth :: "credentials \<Rightarrow> bool" where
  "wants_auth cr \<longleftrightarrow> Username cr \<noteq> [] \<and> Password cr \<noteq> []"

text \<open>One command of the login and its expected answer; the connection is closed
  when either fails.\<close>

definition auth_step :: "string \<Rightarrow> int \<Rightarrow> nconn \<Rightarrow> nconn \<times> nerr option" where
  "auth_step line expected c =
     (case Cmd line c of
        None \<Rightarrow> (hang_up c, Some WriteFailed)
      | Some c1 \<Rightarrow>
          (case ReadCodeLine expected c1 of ((_, _, err), c2) \<Rightarrow>
             if err \<noteq> None then (hang_up c2, err) else (c2, None)))"

definition auth :: "credentials \<Rightarrow> nconn \<Rightarrow> nconn \<times> nerr option" where
  "auth cr c =
     (case auth_step (''AUTHINFO USER '' @ Username cr) nntpMoreInfoCode c of
        (c1, Some e) \<Rightarrow> (c1, Some e)
      | (c1, None) \<Rightarrow> auth_step (''AUTHINFO PASS '' @ Password cr) nntpAuthSuccess c1)"

text \<open>\<open>connect\<close> after its turn at \<open>dialSem\<close>; \<open>dial\<close> is the connection the dialer
  returned, \<open>None\<close> when it failed.\<close>

definition connect :: "credentials \<Rightarrow> nconn option \<Rightarrow> nconn option \<times> conn_error option" where
  "connect cr dial =
     (case dial of
        None \<Rightarrow> (None, Some ErrDial)
      | Some c \<Rightarrow>
     (case ReadCodeLine 2 c of ((code, msg, err), c1) \<Rightarrow>
        if err \<noteq> None \<or> code < nntpWelcomeCodeMin \<or> code > nntpWelcomeCodeMax
        then (Some (hang_up c1), Some (Banner code err))
        else if \<not> wants_auth cr then (Some c1, None)
        else (case auth cr c1 of (c2, err) \<Rightarrow> (Some c2, map_option LoginFailed err))))"

section \<open>The pool\<close>

text \<open>
  Connections are numbered as they are made. \<open>cp_live\<close> are those whose \<open>conn\<close> is
  not nil, \<open>cp_idle\<close> is the channel \<open>pool\<close> with room for \<open>MaxConns\<close>.
\<close>

record connpool =
  openConns :: int
  nextconnId :: nat
  poolMax :: int
  maxConnErrors :: int
  pool_idle :: "nat list"
  pool_live :: "nat set"
  provider_down :: bool
  pool_proxy :: bool
  sess_stop :: bool

definition markDown :: "connpool \<Rightarrow> connpool" where
  "markDown c = c\<lparr>provider_down := True\<rparr>"

definition isDown :: "connpool \<Rightarrow> bool" where
  "isDown c = provider_down c"

text \<open>The two sections of \<open>NewConn\<close>: a slot is taken before dialing and given back
  when that fails. A connection gets its number from \<open>newconnid\<close>.\<close>

definition reserve :: "connpool \<Rightarrow> conn_error + connpool" where
  "reserve c =
     (if openConns c = poolMax c then Inl AllEstablished
      else if openConns c < poolMax c then Inr (c\<lparr>openConns := openConns c + 1\<rparr>)
      else Inl OverLimit)"

definition unreserve :: "connpool \<Rightarrow> connpool" where
  "unreserve c = c\<lparr>openConns := openConns c - 1\<rparr>"

definition newconnid :: "connpool \<Rightarrow> connpool \<times> nat" where
  "newconnid c = (c\<lparr>nextconnId := nextconnId c + 1\<rparr>, nextconnId c + 1)"

definition connected :: "connpool \<Rightarrow> connpool \<times> nat" where
  "connected c = (case newconnid c of (c', i) \<Rightarrow> (c'\<lparr>pool_live := insert i (pool_live c')\<rparr>, i))"

definition closeConnOnce :: "nat \<Rightarrow> connpool \<Rightarrow> connpool" where
  "closeConnOnce i c = c\<lparr>pool_live := pool_live c - {i}, openConns := openConns c - 1\<rparr>"

definition CloseConn :: "nat \<Rightarrow> connpool \<Rightarrow> connpool" where
  "CloseConn i c = (if i \<in> pool_live c then closeConnOnce i c else c)"

definition ParkConn :: "nat \<Rightarrow> connpool \<Rightarrow> connpool" where
  "ParkConn i c =
     (if int (length (pool_idle c)) < poolMax c then c\<lparr>pool_idle := pool_idle c @ [i]\<rparr>
      else CloseConn i c)"

definition GetStats :: "connpool \<Rightarrow> int \<times> nat" where
  "GetStats c = (openConns c, length (pool_idle c))"

definition NewConnPool :: "int \<Rightarrow> int \<Rightarrow> bool \<Rightarrow> connpool" where
  "NewConnPool maxconns tries prox = \<lparr>openConns = 0, nextconnId = 0, poolMax = maxconns, maxConnErrors = tries,
     pool_idle = [], pool_live = {}, provider_down = False, pool_proxy = prox, sess_stop = False\<rparr>"

text \<open>
  Where a goroutine is. In \<open>GetConn\<close>, with its count of retries: at the head of the
  loop, with an idle connection whose age it looks at, after the channel ran
  empty, waiting for a connection to come back, about to call \<open>NewConn\<close> (from the
  branch of expired connections or not), dialing, after a failed dial. Then:
  holding a connection, done with it, or without one. \<open>KillConnPool\<close> drains the
  channel.
\<close>

datatype gpc =
    LoopHead nat | LookAt nat nat | RanEmpty nat | Waiting | WillDial nat bool | Dialing nat bool
  | DialFailed nat bool | Holding nat | Finished | NoConn

record cpsys =
  cp :: connpool
  cp_threads :: "gpc list"

definition cat :: "cpsys \<Rightarrow> nat \<Rightarrow> gpc \<Rightarrow> bool" where
  "cat s t p \<longleftrightarrow> t < length (cp_threads s) \<and> cp_threads s ! t = p"

definition cgo :: "nat \<Rightarrow> gpc \<Rightarrow> connpool \<Rightarrow> cpsys \<Rightarrow> cpsys" where
  "cgo t p c s = s\<lparr>cp := c, cp_threads := (cp_threads s)[t := p]\<rparr>"

text \<open>After a failed \<open>NewConn\<close>; \<open>dial\<close> tells whether its error is \<open>errDial\<close>.\<close>

definition after_failure :: "nat \<Rightarrow> bool \<Rightarrow> connpool \<Rightarrow> gpc \<times> connpool" where
  "after_failure r dial c =
     (if int (r + 1) \<ge> maxConnErrors c
      then (NoConn, if dial \<and> \<not> pool_proxy c then markDown c else c)
      else (LoopHead (r + 1), c))"

inductive cpstep :: "cpsys \<Rightarrow> cpsys \<Rightarrow> bool" where
  GetConn: "cpstep s (s\<lparr>cp_threads := cp_threads s @ [LoopHead 0]\<rparr>)"
| Idle: "cat s t (LoopHead r) \<Longrightarrow> pool_idle (cp s) = i # rest \<Longrightarrow>
    cpstep s (cgo t (LookAt r i) ((cp s)\<lparr>pool_idle := rest\<rparr>) s)"
| TooOld: "cat s t (LookAt r i) \<Longrightarrow> cpstep s (cgo t (LoopHead r) (CloseConn i (cp s)) s)"
| Expired: "cat s t (LookAt r i) \<Longrightarrow> cpstep s (cgo t (WillDial r True) (CloseConn i (cp s)) s)"
| Fresh: "cat s t (LookAt r i) \<Longrightarrow> cpstep s (cgo t (Holding i) (cp s) s)"
| Empty: "cat s t (LoopHead r) \<Longrightarrow> pool_idle (cp s) = [] \<Longrightarrow> cpstep s (cgo t (RanEmpty r) (cp s) s)"
| Over: "cat s t (RanEmpty r) \<Longrightarrow> openConns (cp s) > poolMax (cp s) \<Longrightarrow> cpstep s (cgo t NoConn (cp s) s)"
| Full: "cat s t (RanEmpty r) \<Longrightarrow> openConns (cp s) = poolMax (cp s) \<Longrightarrow> cpstep s (cgo t Waiting (cp s) s)"
| Room: "cat s t (RanEmpty r) \<Longrightarrow> openConns (cp s) < poolMax (cp s) \<Longrightarrow>
    cpstep s (cgo t (if sess_stop (cp s) then NoConn else WillDial r False) (cp s) s)"
| GotParked: "cat s t Waiting \<Longrightarrow> pool_idle (cp s) = i # rest \<Longrightarrow>
    cpstep s (cgo t (Holding i) ((cp s)\<lparr>pool_idle := rest\<rparr>) s)"
| WaitStopped: "cat s t Waiting \<Longrightarrow> sess_stop (cp s) \<Longrightarrow> cpstep s (cgo t NoConn (cp s) s)"
| Reserve: "cat s t (WillDial r b) \<Longrightarrow> reserve (cp s) = Inr c \<Longrightarrow> cpstep s (cgo t (Dialing r b) c s)"
| NotReserved: "cat s t (WillDial r b) \<Longrightarrow> reserve (cp s) = Inl e \<Longrightarrow>
    cpstep s (cgo t (if b then LoopHead r else DialFailed r False) (cp s) s)"
| Connected: "cat s t (Dialing r b) \<Longrightarrow> connected (cp s) = (c, i) \<Longrightarrow> cpstep s (cgo t (Holding i) c s)"
| NotConnected: "cat s t (Dialing r b) \<Longrightarrow>
    cpstep s (cgo t (if b then LoopHead r else DialFailed r dial) (unreserve (cp s)) s)"
| Retry: "cat s t (DialFailed r dial) \<Longrightarrow> after_failure r dial (cp s) = (p, c) \<Longrightarrow> cpstep s (cgo t p c s)"
| Park: "cat s t (Holding i) \<Longrightarrow> i \<in> pool_live (cp s) \<Longrightarrow> cpstep s (cgo t Finished (ParkConn i (cp s)) s)"
| HangUp: "cat s t (Holding i) \<Longrightarrow> cpstep s (cgo t (Holding i) (CloseConn i (cp s)) s)"
| Close: "cat s t (Holding i) \<Longrightarrow> cpstep s (cgo t Finished (CloseConn i (cp s)) s)"
| Stop: "cpstep s (s\<lparr>cp := (cp s)\<lparr>sess_stop := True\<rparr>\<rparr>)"
| Drain: "pool_idle (cp s) = i # rest \<Longrightarrow> cpstep s (s\<lparr>cp := CloseConn i ((cp s)\<lparr>pool_idle := rest\<rparr>)\<rparr>)"

definition cp_start :: "int \<Rightarrow> int \<Rightarrow> bool \<Rightarrow> cpsys" where
  "cp_start maxconns tries prox = \<lparr>cp = NewConnPool maxconns tries prox, cp_threads = []\<rparr>"

section \<open>Lemmas: the accounting of connections\<close>

text \<open>The connections that goroutines have, of these the ones looked at, and the dials under way.\<close>

fun held :: "gpc \<Rightarrow> nat list" where
  "held (LookAt r i) = [i]"
| "held (Holding i) = [i]"
| "held _ = []"

fun looked_at :: "gpc \<Rightarrow> nat list" where
  "looked_at (LookAt r i) = [i]"
| "looked_at _ = []"

definition is_dialing :: "gpc \<Rightarrow> bool" where
  "is_dialing p \<longleftrightarrow> (\<exists>r b. p = Dialing r b)"

lemma is_dialing_simps [simp]:
  "is_dialing (Dialing r b)" "\<not> is_dialing (LoopHead r)" "\<not> is_dialing (LookAt r i)" "\<not> is_dialing (RanEmpty r)"
  "\<not> is_dialing Waiting" "\<not> is_dialing (WillDial r b)" "\<not> is_dialing (DialFailed r b)" "\<not> is_dialing (Holding i)"
  "\<not> is_dialing Finished" "\<not> is_dialing NoConn"
  by (simp_all add: is_dialing_def)

definition all_held :: "gpc list \<Rightarrow> nat multiset" where
  "all_held ts = mset (concat (map held ts))"

definition all_looked_at :: "gpc list \<Rightarrow> nat multiset" where
  "all_looked_at ts = mset (concat (map looked_at ts))"

definition single :: "nat multiset \<Rightarrow> bool" where
  "single M \<longleftrightarrow> (\<forall>i. count M i \<le> 1)"

lemma single_simps [simp]: "single {#}" "single (add_mset i M) \<longleftrightarrow> i \<notin># M \<and> single M"
proof -
  show "single (add_mset i M) \<longleftrightarrow> i \<notin># M \<and> single M"
  proof
    assume s: "single (add_mset i M)"
    have "count (add_mset i M) i \<le> 1" using s by (simp only: single_def)
    moreover have "count M j \<le> 1" for j
      using s[unfolded single_def, rule_format, of j] by (auto split: if_splits)
    ultimately show "i \<notin># M \<and> single M" by (simp add: not_in_iff single_def)
  qed (auto simp: single_def not_in_iff)
qed (simp add: single_def)

text \<open>Every open connection is in the channel or with exactly one goroutine, those in
  the channel and those looked at are open, and the open ones and the dials are what
  \<open>openConns\<close> counts, within the limit.\<close>

definition pool_ok :: "connpool \<Rightarrow> nat multiset \<Rightarrow> nat multiset \<Rightarrow> nat \<Rightarrow> bool" where
  "pool_ok c T L D \<longleftrightarrow> finite (pool_live c) \<and> distinct (pool_idle c) \<and> single T \<and> set (pool_idle c) \<inter> set_mset T = {} \<and>
     pool_live c \<subseteq> set (pool_idle c) \<union> set_mset T \<and> set (pool_idle c) \<union> set_mset L \<subseteq> pool_live c \<and> L \<subseteq># T \<and>
     (\<forall>i \<in> set (pool_idle c) \<union> set_mset T. i \<le> nextconnId c) \<and>
     openConns c = int (card (pool_live c) + D) \<and> openConns c \<le> poolMax c"

lemma sub_add_mset: "L \<subseteq># T \<Longrightarrow> L \<subseteq># add_mset i T"
  by (metis add_mset_add_single mset_subset_eq_add_left subset_mset.order_trans)

lemma pool_ok_take:
  assumes "pool_ok c T L D" and "pool_idle c = i # rest"
  shows "pool_ok (c\<lparr>pool_idle := rest\<rparr>) (add_mset i T) (add_mset i L) D"
    and "pool_ok (c\<lparr>pool_idle := rest\<rparr>) (add_mset i T) L D" and "i \<in> pool_live c"
  using assms by (auto simp: pool_ok_def sub_add_mset)

lemma pool_ok_close:
  assumes "pool_ok c (add_mset i T) L D" and "L \<subseteq># T"
  shows "pool_ok (CloseConn i c) T L D" and "pool_ok (CloseConn i c) (add_mset i T) L D"
proof -
  have "i \<notin># L" using assms by (auto simp: pool_ok_def dest: mset_subset_eqD)
  then show "pool_ok (CloseConn i c) T L D" "pool_ok (CloseConn i c) (add_mset i T) L D"
    using assms card_Diff_mem[of "pool_live c" i]
    by (auto simp: pool_ok_def CloseConn_def closeConnOnce_def split: if_splits)
qed

lemma pool_ok_reserve: "pool_ok c T L D \<Longrightarrow> reserve c = Inr c' \<Longrightarrow> pool_ok c' T L (Suc D)"
  by (auto simp: pool_ok_def reserve_def split: if_splits)

lemma pool_ok_unreserve: "pool_ok c T L (Suc D) \<Longrightarrow> pool_ok (unreserve c) T L D"
  by (auto simp: pool_ok_def unreserve_def)

lemma pool_ok_connected:
  assumes "pool_ok c T L (Suc D)" and "connected c = (c', i)"
  shows "pool_ok c' (add_mset i T) L D"
proof -
  have i: "i = nextconnId c + 1" and c': "c' = c\<lparr>nextconnId := i, pool_live := insert i (pool_live c)\<rparr>"
    using assms(2) by (auto simp: connected_def newconnid_def)
  have new: "i \<notin> set (pool_idle c)" "i \<notin># T"
    using assms(1) unfolding i pool_ok_def by force+
  then have "i \<notin> pool_live c" using assms(1) by (auto simp: pool_ok_def)
  then show ?thesis
    using assms(1) new unfolding c' pool_ok_def by (auto simp: i sub_add_mset intro: le_SucI)
qed

lemma pool_ok_park:
  assumes "pool_ok c (add_mset i T) L D" and "L \<subseteq># T" and "i \<in> pool_live c"
  shows "pool_ok (ParkConn i c) T L D" and "ParkConn i c = c\<lparr>pool_idle := pool_idle c @ [i]\<rparr>"
proof -
  have "length (pool_idle c) = card (set (pool_idle c))" using assms(1) by (simp add: pool_ok_def distinct_card)
  also have "\<dots> < card (pool_live c)"
    using assms(1,3) by (intro psubset_card_mono) (auto simp: pool_ok_def)
  finally have "int (length (pool_idle c)) < poolMax c" using assms(1) by (simp add: pool_ok_def)
  then show eq: "ParkConn i c = c\<lparr>pool_idle := pool_idle c @ [i]\<rparr>" by (simp add: ParkConn_def)
  show "pool_ok (ParkConn i c) T L D"
    unfolding eq using assms by (auto simp: pool_ok_def)
qed

text \<open>How a goroutine's move changes what is held.\<close>

definition cp_inv :: "cpsys \<Rightarrow> bool" where
  "cp_inv s \<longleftrightarrow> pool_ok (cp s) (all_held (cp_threads s)) (all_looked_at (cp_threads s))
     (count_if is_dialing (cp_threads s))"

lemma looked_at_held: "mset (looked_at p) \<subseteq># mset (held p)"
  by (cases p) simp_all

lemma all_looked_at_held: "all_looked_at ts \<subseteq># all_held ts"
  unfolding all_looked_at_def all_held_def
  by (induction ts) (auto intro: subset_mset.add_mono looked_at_held)

text \<open>What the other goroutines hold.\<close>

lemma cgo_others:
  assumes "cat s t q"
  obtains T L D where "all_held (cp_threads s) = T + mset (held q)" "all_looked_at (cp_threads s) = L + mset (looked_at q)"
    "count_if is_dialing (cp_threads s) = D + of_bool (is_dialing q)" "L \<subseteq># T"
    "\<And>p c. cp_inv (cgo t p c s) \<longleftrightarrow> pool_ok c (T + mset (held p)) (L + mset (looked_at p)) (D + of_bool (is_dialing p))"
proof -
  let ?ts = "cp_threads s"
  have t: "t < length ?ts" "?ts ! t = q" using assms by (simp_all add: cat_def)
  define T where "T = all_held (?ts[t := Finished])"
  define L where "L = all_looked_at (?ts[t := Finished])"
  define D where "D = count_if is_dialing (?ts[t := Finished])"
  have h: "all_held (?ts[t := p]) = T + mset (held p)" for p
    using mset_concat_update[of t "?ts[t := p]" held Finished] t by (simp add: T_def all_held_def)
  have l: "all_looked_at (?ts[t := p]) = L + mset (looked_at p)" for p
    using mset_concat_update[of t "?ts[t := p]" looked_at Finished] t by (simp add: L_def all_looked_at_def)
  have d: "count_if is_dialing (?ts[t := p]) = D + of_bool (is_dialing p)" for p
    using count_if_update[of t "?ts[t := p]" is_dialing Finished] t by (simp add: D_def)
  have q: "?ts[t := q] = ?ts" using t by auto
  have "L \<subseteq># T" unfolding L_def T_def by (rule all_looked_at_held)
  then show thesis
    using that[of T L D] h[of q] l[of q] d[of q] h l d by (simp add: q cp_inv_def cgo_def)
qed

lemma cp_inv_others:
  assumes "cp_inv s" and "cat s t q"
  obtains T L D where "pool_ok (cp s) (T + mset (held q)) (L + mset (looked_at q)) (D + of_bool (is_dialing q))"
    "L \<subseteq># T"
    "\<And>p c. cp_inv (cgo t p c s) \<longleftrightarrow> pool_ok c (T + mset (held p)) (L + mset (looked_at p)) (D + of_bool (is_dialing p))"
  using cgo_others[OF assms(2)] assms(1) unfolding cp_inv_def by metis

lemma pool_ok_look:
  "pool_ok c (add_mset i T) (add_mset i L) D \<Longrightarrow> pool_ok c (add_mset i T) L D \<and> i \<in> pool_live c"
  by (auto simp: pool_ok_def dest: mset_subset_eq_insertD intro: sub_add_mset subset_mset.less_imp_le)

lemma pool_ok_cong:
  "pool_ok c T L D \<Longrightarrow> pool_live c' = pool_live c \<Longrightarrow> pool_idle c' = pool_idle c \<Longrightarrow> nextconnId c' = nextconnId c \<Longrightarrow>
   openConns c' = openConns c \<Longrightarrow> poolMax c' = poolMax c \<Longrightarrow> pool_ok c' T L D"
  by (simp add: pool_ok_def)

lemma after_failure_ok:
  assumes "pool_ok c T L D" and "after_failure r dial c = (p, c')"
  shows "pool_ok c' T L D" and "held p = []" and "looked_at p = []" and "\<not> is_dialing p"
  using assms(2) pool_ok_cong[OF assms(1), of c']
  by (auto simp: after_failure_def markDown_def split: if_splits)

lemma cp_inv_start: "0 \<le> m \<Longrightarrow> s = cp_start m tries prox \<Longrightarrow> cp_inv s"
  by (simp add: cp_inv_def cp_start_def NewConnPool_def pool_ok_def all_held_def all_looked_at_def)

lemma cp_inv_step:
  assumes "cp_inv s" and "cpstep s s'"
  shows "cp_inv s'"
  using assms(2,1)
proof (induction rule: cpstep.induct)
  case (GetConn s)
  then show ?case by (simp add: cp_inv_def all_held_def all_looked_at_def)
next
  case (Idle s t r i rest)
  show ?case by (rule cp_inv_others[OF Idle(3,1)]) (simp add: pool_ok_take[OF _ Idle(2)])
next
  case (TooOld s t r i)
  show ?case by (rule cp_inv_others[OF TooOld(2,1)]) (auto dest: pool_ok_look pool_ok_close)
next
  case (Expired s t r i)
  show ?case by (rule cp_inv_others[OF Expired(2,1)]) (auto dest: pool_ok_look pool_ok_close)
next
  case (Fresh s t r i)
  show ?case by (rule cp_inv_others[OF Fresh(2,1)]) (auto dest: pool_ok_look)
next
  case (Empty s t r)
  show ?case by (rule cp_inv_others[OF Empty(3,1)]) simp
next
  case (Over s t r)
  show ?case by (rule cp_inv_others[OF Over(3,1)]) simp
next
  case (Full s t r)
  show ?case by (rule cp_inv_others[OF Full(3,1)]) simp
next
  case (Room s t r)
  show ?case by (rule cp_inv_others[OF Room(3,1)]) simp
next
  case (GotParked s t i rest)
  show ?case by (rule cp_inv_others[OF GotParked(3,1)]) (simp add: pool_ok_take[OF _ GotParked(2)])
next
  case (WaitStopped s t)
  show ?case by (rule cp_inv_others[OF WaitStopped(3,1)]) simp
next
  case (Reserve s t r b c)
  show ?case by (rule cp_inv_others[OF Reserve(3,1)]) (simp add: pool_ok_reserve[OF _ Reserve(2)])
next
  case (NotReserved s t r b e)
  show ?case by (rule cp_inv_others[OF NotReserved(3,1)]) simp
next
  case (Connected s t r b c i)
  show ?case by (rule cp_inv_others[OF Connected(3,1)]) (simp add: pool_ok_connected[OF _ Connected(2)])
next
  case (NotConnected s t r b dial)
  show ?case by (rule cp_inv_others[OF NotConnected(2,1)]) (simp add: pool_ok_unreserve)
next
  case (Retry s t r dial p c)
  show ?case by (rule cp_inv_others[OF Retry(3,1)]) (simp add: after_failure_ok[OF _ Retry(2)])
next
  case (Park s t i)
  show ?case by (rule cp_inv_others[OF Park(3,1)]) (simp add: pool_ok_park(1) Park(2))
next
  case (HangUp s t i)
  show ?case by (rule cp_inv_others[OF HangUp(2,1)]) (simp add: pool_ok_close)
next
  case (Close s t i)
  show ?case by (rule cp_inv_others[OF Close(2,1)]) (simp add: pool_ok_close)
next
  case (Stop s)
  then show ?case by (auto simp: cp_inv_def intro: pool_ok_cong)
next
  case (Drain s i rest)
  then show ?case
    using pool_ok_take(2)[of "cp s" "all_held (cp_threads s)"] all_looked_at_held
    by (auto simp: cp_inv_def intro!: pool_ok_close(1))
qed

interpretation conn_pool: machine "\<lambda>s. 0 \<le> m \<and> s = cp_start m tries prox" cpstep cp_inv for m tries prox
  by unfold_locales (auto intro: cp_inv_start cp_inv_step)

section \<open>What a session learns of its providers\<close>

text \<open>\<open>loadProviderList\<close> after the file is parsed: the providers and groups so far, the
  names seen, and the groups known to take no downloads or no uploads. \<open>None\<close> is the
  error for a name that occurs twice.\<close>

record provload =
  pl_list :: "provider list"
  pl_groups :: "string list"
  pl_names :: "string set"
  acl_NoDownload :: "string set"
  acl_NoUpload :: "string set"

definition load_provider :: "provider \<Rightarrow> provload \<Rightarrow> provload option go" where
  "load_provider p a =
     (if \<not> Enabled p \<or> MaxConns p \<le> 0 then Inr (Some a)
      else if Name p \<in> pl_names a then Inr None
      else let g = (if Group p = [] then Name p else Group p)
      in if \<not> NoDownload p \<and> g \<in> acl_NoDownload a \<or> \<not> NoUpload p \<and> g \<in> acl_NoUpload a
         then Inl ProcessExit
         else Inr (Some (a\<lparr>pl_list := pl_list a @ [p\<lparr>Group := g\<rparr>],
                           pl_groups := (if g \<in> set (pl_groups a) then pl_groups a else pl_groups a @ [g]),
                           pl_names := insert (Name p) (pl_names a),
                           acl_NoDownload := (if NoDownload p then insert g (acl_NoDownload a) else acl_NoDownload a),
                           acl_NoUpload := (if NoUpload p then insert g (acl_NoUpload a) else acl_NoUpload a)\<rparr>)))"

fun load_providers :: "provider list \<Rightarrow> provload \<Rightarrow> provload option go" where
  "load_providers [] a = Inr (Some a)"
| "load_providers (p # ps) a =
     go_bind (load_provider p a) (\<lambda>r. case r of None \<Rightarrow> Inr None | Some a' \<Rightarrow> load_providers ps a')"

definition no_providers :: provload where
  "no_providers = \<lparr>pl_list = [], pl_groups = [], pl_names = {}, acl_NoDownload = {}, acl_NoUpload = {}\<rparr>"

text \<open>The providers and their groups.\<close>

definition loadProviderList :: "provider list \<Rightarrow> (provider list \<times> string list) option go" where
  "loadProviderList ps =
     go_bind (load_providers ps no_providers) (\<lambda>r. Inr (map_option (\<lambda>a. (pl_list a, pl_groups a)) r))"

text \<open>\<open>textproto\<close>'s \<open>ReadDotLines\<close>.\<close>

fun ReadDotLines :: "string list \<Rightarrow> string list option \<times> string list" where
  "ReadDotLines [] = (None, [])"
| "ReadDotLines (l # ls) =
     (if l = ''.'' then (Some [], ls)
      else case ReadDotLines ls of
        (None, rest) \<Rightarrow> (None, rest)
      | (Some xs, rest) \<Rightarrow> (Some ((if has_prefix ''.'' l then tl l else l) # xs), rest))"

text \<open>\<open>msg2srv\<close> writes past the buffered writer.\<close>

definition msg2srv :: "string \<Rightarrow> nconn \<Rightarrow> nconn option" where
  "msg2srv m c = map_option (\<lambda>c'. if lower m = ''quit'' then hang_up c' else c') (WriteString (m @ CRLF) c)"

record capabilities =
  ca_check :: bool
  ca_ihave :: bool
  ca_post :: bool
  ca_stream :: bool
  ca_posts :: nat

definition read_capability :: "string \<Rightarrow> capabilities \<Rightarrow> capabilities" where
  "read_capability line ca =
     (let l = lower line
      in if l = ''check'' then ca\<lparr>ca_check := True\<rparr>
         else if l = ''ihave'' then ca\<lparr>ca_ihave := True, ca_posts := ca_posts ca + 1\<rparr>
         else if l = ''post'' then ca\<lparr>ca_post := True, ca_posts := ca_posts ca + 1\<rparr>
         else if l = ''takethis'' \<or> l = ''streaming'' then ca\<lparr>ca_stream := True, ca_posts := ca_posts ca + 1\<rparr>
         else ca)"

definition no_capabilities :: capabilities where
  "no_capabilities = \<lparr>ca_check = False, ca_ihave = False, ca_post = False, ca_stream = False, ca_posts = 0\<rparr>"

text \<open>Whether it succeeded; the connection is closed in any case.\<close>

definition checkCapabilities :: "options \<Rightarrow> counter \<times> provider \<Rightarrow> nconn \<Rightarrow> ((counter \<times> provider) \<times> bool) \<times> nconn" where
  "checkCapabilities opt st c =
     (if CheckOnly opt then ((st, True), c)
      else case msg2srv ''CAPABILITIES'' c of
        None \<Rightarrow> ((st, False), hang_up c)
      | Some c1 \<Rightarrow>
     (case ReadCodeLine 101 c1 of ((code, msg, err), c2) \<Rightarrow>
        if code \<noteq> 101 then ((st, False), hang_up c2)
        else (case ReadDotLines (incoming c2) of
          (None, rest) \<Rightarrow> ((st, False), hang_up (c2\<lparr>incoming := rest\<rparr>))
        | (Some lines, rest) \<Rightarrow>
            (let c3 = c2\<lparr>incoming := rest\<rparr>; ca = fold read_capability lines no_capabilities
             in case msg2srv ''QUIT'' c3 of
               None \<Rightarrow> ((st, False), hang_up c3)
             | Some c4 \<Rightarrow>
                 (case st of (cnt, p) \<Rightarrow>
                   (((if 0 < ca_posts ca then bump cnt ''postProviders'' else cnt,
                      p\<lparr>cap_check := ca_check ca, cap_ihave := ca_ihave ca, cap_post := ca_post ca,
                        cap_stream := ca_stream ca, NoUpload := \<not> ca_ihave ca \<and> \<not> ca_post ca \<and> \<not> ca_stream ca\<rparr>),
                     True), hang_up c4))))))"

section \<open>Lemmas: providers\<close>

definition load_inv :: "provload \<Rightarrow> bool" where
  "load_inv a \<longleftrightarrow> distinct (map Name (pl_list a)) \<and> pl_names a = Name ` set (pl_list a) \<and>
     distinct (pl_groups a) \<and> set (pl_groups a) = Group ` set (pl_list a) \<and>
     acl_NoDownload a = Group ` {p \<in> set (pl_list a). NoDownload p} \<and>
     acl_NoUpload a = Group ` {p \<in> set (pl_list a). NoUpload p} \<and>
     (\<forall>p \<in> set (pl_list a). Enabled p \<and> 0 < MaxConns p \<and> (Name p \<noteq> [] \<longrightarrow> Group p \<noteq> [])) \<and>
     (\<forall>j < length (pl_list a). \<forall>i < j. Group (pl_list a ! i) = Group (pl_list a ! j) \<longrightarrow>
        (NoDownload (pl_list a ! i) \<longrightarrow> NoDownload (pl_list a ! j)) \<and>
        (NoUpload (pl_list a ! i) \<longrightarrow> NoUpload (pl_list a ! j)))"

lemma Collect_insert: "{x. (x = q \<or> x \<in> S) \<and> P x} = (if P q then insert q {x \<in> S. P x} else {x \<in> S. P x})"
  by auto

lemma load_provider_inv:
  assumes "load_inv a" and "load_provider p a = Inr (Some a')"
  shows "load_inv a'"
proof (cases "a' = a")
  case False
  let ?g = "if Group p = [] then Name p else Group p"
  have acl: "NoDownload p \<or> ?g \<notin> acl_NoDownload a" "NoUpload p \<or> ?g \<notin> acl_NoUpload a" "Enabled p" "0 < MaxConns p"
      "Name p \<notin> pl_names a"
    and a': "a' = a\<lparr>pl_list := pl_list a @ [p\<lparr>Group := ?g\<rparr>],
                 pl_groups := (if ?g \<in> set (pl_groups a) then pl_groups a else pl_groups a @ [?g]),
                 pl_names := insert (Name p) (pl_names a),
                 acl_NoDownload := (if NoDownload p then insert ?g (acl_NoDownload a) else acl_NoDownload a),
                 acl_NoUpload := (if NoUpload p then insert ?g (acl_NoUpload a) else acl_NoUpload a)\<rparr>"
    using assms(2) False by (auto simp: load_provider_def Let_def split: if_splits)
  note inv = assms(1)[unfolded load_inv_def]
  have "NoDownload p" if "i < length (pl_list a)" "Group (pl_list a ! i) = ?g" "NoDownload (pl_list a ! i)" for i
    using acl(1) inv that by (metis (mono_tags, lifting) imageI mem_Collect_eq nth_mem)
  moreover have "NoUpload p" if "i < length (pl_list a)" "Group (pl_list a ! i) = ?g" "NoUpload (pl_list a ! i)" for i
    using acl(2) inv that by (metis (mono_tags, lifting) imageI mem_Collect_eq nth_mem)
  ultimately show ?thesis
    using inv acl(3-5) unfolding a' load_inv_def
    by (intro conjI) (auto simp: nth_append less_Suc_eq Collect_insert)
qed (use assms(1) in simp)

lemma load_providers_inv: "load_inv a \<Longrightarrow> load_providers ps a = Inr (Some a') \<Longrightarrow> load_inv a'"
proof (induction ps arbitrary: a)
  case (Cons p ps)
  then show ?case by (auto split: option.splits dest: load_provider_inv)
qed simp

text \<open>The capabilities that let a provider take articles.\<close>

definition upload_words :: "string set" where
  "upload_words = {''ihave'', ''post'', ''takethis'', ''streaming''}"

lemma no_upload_words:
  "X \<inter> upload_words = {} \<longleftrightarrow> ''ihave'' \<notin> X \<and> ''post'' \<notin> X \<and> ''takethis'' \<notin> X \<and> ''streaming'' \<notin> X"
  by (simp add: upload_words_def)

lemma count_if_image: "0 < count_if (\<lambda>l. f l \<in> A) ls \<longleftrightarrow> f ` set ls \<inter> A \<noteq> {}"
  by (auto simp: count_if_def filter_empty_conv)

lemma count_upload_words: "0 < count_if (\<lambda>l. lower l \<in> upload_words) ls \<longleftrightarrow> lower ` set ls \<inter> upload_words \<noteq> {}"
  by (rule count_if_image)

lemma fold_capability:
  "fold read_capability ls ca = \<lparr>ca_check = (ca_check ca \<or> ''check'' \<in> lower ` set ls),
     ca_ihave = (ca_ihave ca \<or> ''ihave'' \<in> lower ` set ls), ca_post = (ca_post ca \<or> ''post'' \<in> lower ` set ls),
     ca_stream = (ca_stream ca \<or> ''takethis'' \<in> lower ` set ls \<or> ''streaming'' \<in> lower ` set ls),
     ca_posts = ca_posts ca + count_if (\<lambda>l. lower l \<in> upload_words) ls\<rparr>"
  by (induction ls arbitrary: ca) (auto simp: read_capability_def upload_words_def Let_def)

section \<open>Lemmas: the login\<close>

lemma auth_step_result:
  "auth_step line expected c = (c', e) \<Longrightarrow> (case e of
     Some _ \<Rightarrow> hung_up c'
   | None \<Rightarrow> \<exists>r. incoming c = r # incoming c' \<and> snd (snd (parse_code_line expected r)) = None \<and>
       outgoing c' = outgoing c @ line @ CRLF \<and> hung_up c' = hung_up c)"
  by (auto simp: auth_step_def Cmd_def WriteString_def ReadCodeLine_def hang_up_def
      split: option.splits prod.splits list.splits if_splits)

lemma no_error_code:
  assumes "snd (snd (parse_code_line expected l)) = None" and "100 \<le> expected" and "expected < 1000"
  shows "fst (parse_code_line expected l) = expected"
  using assms by (auto simp: parse_code_line_def wrong_code_def split: if_splits prod.splits)

lemma connect_conversation:
  assumes "connect cr (Some c) = (r, e)" and "\<not> hung_up c"
  shows "\<exists>c'. r = Some c' \<and> (hung_up c' \<longleftrightarrow> e \<noteq> None) \<and> (e = None \<longrightarrow>
    (\<exists>g gs. incoming c = g # gs \<and> fst (parse_code_line 2 g) \<in> {200, 201} \<and>
      (if wants_auth cr
       then \<exists>u p. gs = u # p # incoming c' \<and> fst (parse_code_line 381 u) = 381 \<and> fst (parse_code_line 281 p) = 281 \<and>
         outgoing c' = outgoing c @ ''AUTHINFO USER '' @ Username cr @ CRLF @ ''AUTHINFO PASS '' @ Password cr @ CRLF
       else gs = incoming c' \<and> outgoing c' = outgoing c)))"
proof -
  obtain code msg err c1 where rd: "ReadCodeLine 2 c = ((code, msg, err), c1)" by (metis prod.collapse)
  have c1: "outgoing c1 = outgoing c" "hung_up c1 = hung_up c"
    "err = None \<Longrightarrow> \<exists>g. incoming c = g # incoming c1 \<and> fst (parse_code_line 2 g) = code"
    using rd by (auto simp: ReadCodeLine_def split: list.splits)
  show ?thesis
  proof (cases "err \<noteq> None \<or> code < nntpWelcomeCodeMin \<or> code > nntpWelcomeCodeMax")
    case True
    then show ?thesis using assms(1) rd by (auto simp: connect_def hang_up_def)
  next
    case False
    then have code: "code \<in> {200, 201}" "err = None" by (auto simp: nntpWelcomeCodeMin_def nntpWelcomeCodeMax_def)
    show ?thesis
    proof (cases "wants_auth cr")
      case False
      then show ?thesis using assms rd code c1 by (auto simp: connect_def nntpWelcomeCodeMin_def nntpWelcomeCodeMax_def)
    next
      case True
      obtain c2 ae where a: "auth cr c1 = (c2, ae)" by fastforce
      have re: "r = Some c2" "e = map_option LoginFailed ae"
        using assms(1) rd code True a by (auto simp: connect_def nntpWelcomeCodeMin_def nntpWelcomeCodeMax_def)
      obtain cu ue where u: "auth_step (''AUTHINFO USER '' @ Username cr) nntpMoreInfoCode c1 = (cu, ue)" by fastforce
      show ?thesis
      proof (cases ue)
        case (Some e1)
        then show ?thesis using a u re auth_step_result[OF u] by (auto simp: auth_def)
      next
        case None
        then have p: "auth_step (''AUTHINFO PASS '' @ Password cr) nntpAuthSuccess cu = (c2, ae)"
          using a u by (simp add: auth_def)
        show ?thesis
          using auth_step_result[OF u] auth_step_result[OF p] None re True code c1 assms(2)
          by (cases ae) (auto simp: nntpMoreInfoCode_def nntpAuthSuccess_def no_error_code)
      qed
    qed
  qed
qed

section \<open>Lemmas: what the invariant gives\<close>

text \<open>Whether goroutine \<open>t\<close> can move by itself.\<close>

definition can_go :: "cpsys \<Rightarrow> nat \<Rightarrow> bool" where
  "can_go s t \<longleftrightarrow> (\<exists>s'. cpstep s s' \<and> cp_threads s' ! t \<noteq> cp_threads s ! t)"

lemma cat_cgo: "cat (cgo u p c s) t q \<longleftrightarrow> t < length (cp_threads s) \<and> (if u = t then p = q else cp_threads s ! t = q)"
  by (auto simp: cat_def cgo_def)

lemma cat_held: "cat s t q \<Longrightarrow> set (held q) \<subseteq> set_mset (all_held (cp_threads s))"
  by (auto simp: cat_def all_held_def) (metis nth_mem)

lemma one_holder:
  assumes "cp_inv s" and "cat s t (Holding i)" and "u \<noteq> t"
  shows "\<not> cat s u (Holding i)"
proof
  assume u: "cat s u (Holding i)"
  let ?ts = "cp_threads s"
  have "all_held (?ts[t := Finished]) + {#i#} = all_held ?ts"
    using mset_concat_update[of t ?ts held Finished] assms(2) by (simp add: cat_def all_held_def)
  moreover have "cat (s\<lparr>cp_threads := ?ts[t := Finished]\<rparr>) u (Holding i)"
    using u assms(3) by (simp add: cat_def)
  then have "i \<in># all_held (?ts[t := Finished])" using cat_held by fastforce
  moreover have "single (all_held ?ts)" using assms(1) by (simp add: cp_inv_def pool_ok_def)
  ultimately show False by (metis add_mset_add_single single_simps(2))
qed

lemma looked_at_open: "cp_inv s \<Longrightarrow> cat s t (LookAt r i) \<Longrightarrow> i \<in> pool_live (cp s)"
  by (rule cp_inv_others[of s t "LookAt r i"]) (auto dest: pool_ok_look)

lemma handed_out_open:
  assumes "cp_inv s" and "cpstep s s'" and "cat s' t (Holding i)" and "\<not> cat s t (Holding i)"
  shows "i \<in> pool_live (cp s')"
  using assms(2-4)
proof (cases rule: cpstep.cases)
  case (Fresh u r j)
  then show ?thesis using assms(3,4) looked_at_open[OF assms(1), of u r j]
    by (auto simp: cat_cgo cgo_def cat_def nth_list_update split: if_splits)
next
  case (GotParked u j rest)
  then show ?thesis using assms(1,3,4)
    by (auto simp: cat_cgo cgo_def cat_def nth_list_update cp_inv_def pool_ok_def split: if_splits)
next
  case (Connected u r b c j)
  then show ?thesis using assms(3,4)
    by (auto simp: cat_cgo cgo_def cat_def nth_list_update connected_def newconnid_def split: if_splits)
qed (use assms(3,4) in \<open>auto simp: cat_cgo cat_def cgo_def after_failure_def nth_append nth_list_update split: if_splits\<close>)

lemma cp_inv_facts:
  assumes "cp_inv s"
  shows "openConns (cp s) = int (card (pool_live (cp s)) + count_if is_dialing (cp_threads s)) \<and>
    openConns (cp s) \<le> poolMax (cp s) \<and>
    set (pool_idle (cp s)) \<subseteq> pool_live (cp s) \<and>
    (\<forall>i \<in> pool_live (cp s). count (mset (pool_idle (cp s)) + all_held (cp_threads s)) i = 1) \<and>
    (\<forall>i \<in># all_held (cp_threads s). i \<in> pool_live (cp s) \<longrightarrow>
       ParkConn i (cp s) = (cp s)\<lparr>pool_idle := pool_idle (cp s) @ [i]\<rparr>)"
proof -
  let ?c = "cp s" and ?T = "all_held (cp_threads s)"
  have ok: "pool_ok ?c ?T (all_looked_at (cp_threads s)) (count_if is_dialing (cp_threads s))"
    using assms by (simp add: cp_inv_def)
  have "count (mset (pool_idle ?c) + ?T) i = 1" if "i \<in> pool_live ?c" for i
  proof -
    have "single ?T" "distinct (pool_idle ?c)" "i \<in> set (pool_idle ?c) \<longleftrightarrow> i \<notin># ?T"
      using ok that by (auto simp: pool_ok_def)
    then show ?thesis
      using le_antisym[of "count ?T i" 1] by (auto simp: single_def distinct_count_atmost_1 not_in_iff Suc_le_eq)
  qed
  moreover have "ParkConn i ?c = ?c\<lparr>pool_idle := pool_idle ?c @ [i]\<rparr>" if "i \<in># ?T" "i \<in> pool_live ?c" for i
    using pool_ok_park(2)[of ?c i "?T - {#i#}" "{#}"] ok that by (auto simp: pool_ok_def)
  ultimately show ?thesis using ok by (simp add: pool_ok_def)
qed

lemma waiting_stuck:
  assumes "cp_threads s = [Finished, Waiting]" and "pool_idle (cp s) = []" and "\<not> sess_stop (cp s)"
  shows "\<not> can_go s 1"
  using assms by (auto simp: can_go_def cat_def cgo_def less_Suc_eq elim!: cpstep.cases)

lemma capabilities_result:
  assumes "checkCapabilities opt (cnt, p) c = (((cnt', p'), ok), c')" and "\<not> CheckOnly opt"
  shows "hung_up c' \<and> (if ok
    then \<exists>r ls lines. incoming c = r # ls \<and> ReadDotLines ls = (Some lines, incoming c') \<and>
      cap_check p' = (''check'' \<in> lower ` set lines) \<and> cap_ihave p' = (''ihave'' \<in> lower ` set lines) \<and>
      cap_post p' = (''post'' \<in> lower ` set lines) \<and>
      NoUpload p' = (lower ` set lines \<inter> upload_words = {}) \<and>
      cnt' = (if NoUpload p' then cnt else bump cnt ''postProviders'')
    else cnt' = cnt \<and> p' = p)"
proof (cases ok)
  case False
  then show ?thesis using assms
    by (auto simp: checkCapabilities_def hang_up_def Let_def split: option.splits prod.splits if_splits)
next
  case True
  then obtain c1 c2 c4 msg err lines rest where
    c1: "msg2srv ''CAPABILITIES'' c = Some c1" and c2: "ReadCodeLine 101 c1 = ((101, msg, err), c2)" and
    ls: "ReadDotLines (incoming c2) = (Some lines, rest)" and
    c4: "msg2srv ''QUIT'' (c2\<lparr>incoming := rest\<rparr>) = Some c4" and c': "c' = hang_up c4" and
    res: "(cnt', p') = (let ca = fold read_capability lines no_capabilities in
      (if 0 < ca_posts ca then bump cnt ''postProviders'' else cnt,
       p\<lparr>cap_check := ca_check ca, cap_ihave := ca_ihave ca, cap_post := ca_post ca,
         cap_stream := ca_stream ca, NoUpload := \<not> ca_ihave ca \<and> \<not> ca_post ca \<and> \<not> ca_stream ca\<rparr>))"
    using assms by (auto simp: checkCapabilities_def Let_def split: option.splits prod.splits if_splits)
  obtain r where r: "incoming c = r # incoming c2"
    using c1 c2 by (auto simp: msg2srv_def WriteString_def ReadCodeLine_def lower_def hang_up_def split: list.splits if_splits)
  have rest: "incoming c' = rest"
    using c4 c' by (auto simp: msg2srv_def WriteString_def hang_up_def split: if_splits)
  have caps: "NoUpload p' = (lower ` set lines \<inter> upload_words = {})"
    "cap_check p' = (''check'' \<in> lower ` set lines)" "cap_ihave p' = (''ihave'' \<in> lower ` set lines)"
    "cap_post p' = (''post'' \<in> lower ` set lines)" "cnt' = (if NoUpload p' then cnt else bump cnt ''postProviders'')"
    using res count_upload_words[of lines] no_upload_words[of "lower ` set lines"]
    by (simp_all add: fold_capability no_capabilities_def Let_def split: if_splits)
  show ?thesis
    using True r ls rest caps c' by (auto simp: hang_up_def)
qed

section \<open>Properties\<close>

text \<open>C17: connections are neither lost nor counted wrong. In every interleaving of
  goroutines that get, park, close and dial connections, \<open>openConns\<close> is the number of
  open connections and of dials under way and within \<open>MaxConns\<close>; every open connection
  is in the channel or with exactly one goroutine, and those in the channel are open.
  So \<open>ParkConn\<close> never finds the channel full, and the branch of \<open>GetConn\<close> for
  too many connections is dead.\<close>

theorem connpool_conserves:
  assumes "cpstep\<^sup>*\<^sup>* (cp_start m tries prox) s" and "0 \<le> m"
  shows "openConns (cp s) = int (card (pool_live (cp s)) + count_if is_dialing (cp_threads s)) \<and>
    openConns (cp s) \<le> poolMax (cp s) \<and>
    set (pool_idle (cp s)) \<subseteq> pool_live (cp s) \<and>
    (\<forall>i \<in> pool_live (cp s). count (mset (pool_idle (cp s)) + all_held (cp_threads s)) i = 1) \<and>
    (\<forall>i \<in># all_held (cp_threads s). i \<in> pool_live (cp s) \<longrightarrow>
       ParkConn i (cp s) = (cp s)\<lparr>pool_idle := pool_idle (cp s) @ [i]\<rparr>)"
  using conn_pool.inv_reach[of m, OF _ assms(1)] assms(2) cp_inv_facts[of s] by blast

text \<open>\<open>GetConn\<close> hands out open connections only, to one goroutine.\<close>

theorem GetConn_open:
  assumes "cpstep\<^sup>*\<^sup>* (cp_start m tries prox) s" and "0 \<le> m" and "cpstep s s'"
    and "cat s' t (Holding i)" and "\<not> cat s t (Holding i)"
  shows "i \<in> pool_live (cp s') \<and> (\<forall>u. u \<noteq> t \<longrightarrow> \<not> cat s' u (Holding i))"
  using handed_out_open[OF _ assms(3-5)] conn_pool.inv_reach[of m, OF _ assms(1)] assms(2)
    one_holder[of s' t i] conn_pool.inv_reach[of m, OF _ rtranclp.rtrancl_into_rtrancl[OF assms(1,3)]] assms(4)
  by blast

text \<open>A goroutine can wait for ever. \<open>GetConn\<close> waits for a parked connection when
  all are in use; when the last one is closed instead, nothing wakes it, although
  there is now room for a new connection. It goes on only when another goroutine
  opens and parks one, or the session stops, which the proxy's never does.\<close>

theorem GetConn_waits_for_closed_connection:
  "\<exists>s. cpstep\<^sup>*\<^sup>* (cp_start 1 tries prox) s \<and> cp_threads s = [Finished, Waiting] \<and> \<not> sess_stop (cp s) \<and>
     openConns (cp s) = 0 \<and> pool_live (cp s) = {} \<and> \<not> can_go s 1"
proof -
  define t where "t = (\<lambda>p q c. \<lparr>cp = c, cp_threads = [p, q]\<rparr>)"
  define c0 where "c0 = NewConnPool 1 tries prox"
  define c1 where "c1 = c0\<lparr>openConns := 1\<rparr>"
  define c2 where "c2 = c1\<lparr>nextconnId := 1, pool_live := {1}\<rparr>"
  define c3 where "c3 = CloseConn 1 c2"
  note cs = t_def c0_def c1_def c2_def c3_def NewConnPool_def cp_start_def cat_def cgo_def
  have "cpstep (cp_start 1 tries prox) \<lparr>cp = c0, cp_threads = [LoopHead 0]\<rparr>"
    using GetConn[of "cp_start 1 tries prox"] by (simp add: cs)
  moreover have "cpstep \<lparr>cp = c0, cp_threads = [LoopHead 0]\<rparr> (t (LoopHead 0) (LoopHead 0) c0)"
    using GetConn[of "\<lparr>cp = c0, cp_threads = [LoopHead 0]\<rparr>"] by (simp add: cs)
  moreover have "cpstep (t (LoopHead 0) (LoopHead 0) c0) (t (RanEmpty 0) (LoopHead 0) c0)"
    using Empty[of "t (LoopHead 0) (LoopHead 0) c0" 0 0] by (simp add: cs)
  moreover have "cpstep (t (RanEmpty 0) (LoopHead 0) c0) (t (WillDial 0 False) (LoopHead 0) c0)"
    using Room[of "t (RanEmpty 0) (LoopHead 0) c0" 0 0] by (simp add: cs)
  moreover have "cpstep (t (WillDial 0 False) (LoopHead 0) c0) (t (Dialing 0 False) (LoopHead 0) c1)"
    using Reserve[of "t (WillDial 0 False) (LoopHead 0) c0" 0 0 False c1] by (simp add: cs reserve_def)
  moreover have "cpstep (t (Dialing 0 False) (LoopHead 0) c1) (t (Holding 1) (LoopHead 0) c2)"
    using Connected[of "t (Dialing 0 False) (LoopHead 0) c1" 0 0 False c2 1]
    by (simp add: cs connected_def newconnid_def)
  moreover have "cpstep (t (Holding 1) (LoopHead 0) c2) (t (Holding 1) (RanEmpty 0) c2)"
    using Empty[of "t (Holding 1) (LoopHead 0) c2" 1 0] by (simp add: cs)
  moreover have "cpstep (t (Holding 1) (RanEmpty 0) c2) (t (Holding 1) Waiting c2)"
    using Full[of "t (Holding 1) (RanEmpty 0) c2" 1 0] by (simp add: cs)
  moreover have "cpstep (t (Holding 1) Waiting c2) (t Finished Waiting c3)"
    using Close[of "t (Holding 1) Waiting c2" 0 1] by (simp add: cs)
  ultimately have "cpstep\<^sup>*\<^sup>* (cp_start 1 tries prox) (t Finished Waiting c3)"
    by (meson converse_rtranclp_into_rtranclp rtranclp.rtrancl_refl)
  moreover have "\<not> can_go (t Finished Waiting c3) 1"
    by (rule waiting_stuck) (simp_all add: cs CloseConn_def closeConnOnce_def)
  ultimately show ?thesis
    by (intro exI[of _ "t Finished Waiting c3"]) (simp add: cs CloseConn_def closeConnOnce_def)
qed

text \<open>A connection is handed out only after a greeting of 200 or 201 and, when
  user and password are set, after 381 to the user name and 281 to the password,
  which are all that was sent; any other conversation leaves the connection closed.\<close>

theorem connect_logged_in:
  assumes "connect cr (Some c) = (r, e)" and "\<not> hung_up c"
  shows "\<exists>c'. r = Some c' \<and> (hung_up c' \<longleftrightarrow> e \<noteq> None) \<and> (e = None \<longrightarrow>
    (\<exists>g gs. incoming c = g # gs \<and> fst (parse_code_line 2 g) \<in> {200, 201} \<and>
      (if wants_auth cr
       then \<exists>u p. gs = u # p # incoming c' \<and> fst (parse_code_line 381 u) = 381 \<and> fst (parse_code_line 281 p) = 281 \<and>
         outgoing c' = outgoing c @ ''AUTHINFO USER '' @ Username cr @ CRLF @ ''AUTHINFO PASS '' @ Password cr @ CRLF
       else gs = incoming c' \<and> outgoing c' = outgoing c)))"
  by (rule connect_conversation[OF assms])

text \<open>An accepted provider list. Every provider is enabled, has connections and a
  name of its own; the groups are the providers' groups, each once; and within a
  group, once a provider takes no downloads (or no uploads) none after it does.\<close>

theorem providers_accepted:
  assumes "loadProviderList ps = Inr (Some (xs, gs))"
  shows "distinct (map Name xs) \<and> distinct gs \<and> set gs = Group ` set xs \<and>
    (\<forall>p \<in> set xs. Enabled p \<and> 0 < MaxConns p \<and> (Name p \<noteq> [] \<longrightarrow> Group p \<noteq> [])) \<and>
    (\<forall>j < length xs. \<forall>i < j. Group (xs ! i) = Group (xs ! j) \<longrightarrow>
      (NoDownload (xs ! i) \<longrightarrow> NoDownload (xs ! j)) \<and> (NoUpload (xs ! i) \<longrightarrow> NoUpload (xs ! j)))"
proof -
  obtain a where "load_providers ps no_providers = Inr (Some a)" "xs = pl_list a" "gs = pl_groups a"
    using assms by (auto simp: loadProviderList_def)
  moreover have "load_inv no_providers" by (simp add: load_inv_def no_providers_def)
  ultimately show ?thesis using load_providers_inv[of no_providers ps a] by (simp add: load_inv_def)
qed

text \<open>The check of a group's settings depends on the order. Two providers of one group
  that differ in \<open>NoDownload\<close> are refused in one order and accepted in the other.\<close>

theorem provider_order_matters:
  "loadProviderList [(plain_provider ''A'')\<lparr>Group := ''g'', NoDownload := True\<rparr>,
      (plain_provider ''B'')\<lparr>Group := ''g''\<rparr>] = Inl ProcessExit \<and>
   loadProviderList [(plain_provider ''B'')\<lparr>Group := ''g''\<rparr>,
      (plain_provider ''A'')\<lparr>Group := ''g'', NoDownload := True\<rparr>] =
     Inr (Some ([(plain_provider ''B'')\<lparr>Group := ''g''\<rparr>,
      (plain_provider ''A'')\<lparr>Group := ''g'', NoDownload := True\<rparr>], [''g'']))"
  by (simp add: loadProviderList_def load_provider_def no_providers_def plain_provider_def Let_def)

text \<open>What a provider can do is what its reply lists, in any case of letters; a
  provider that lists nothing for sending articles gets no uploads and is not counted; and
  whatever goes wrong, nothing of the provider changes. The connection ends closed.\<close>

theorem capabilities_exact:
  assumes "checkCapabilities opt (cnt, p) c = (((cnt', p'), ok), c')" and "\<not> CheckOnly opt"
  shows "hung_up c' \<and> (if ok
    then \<exists>r ls lines. incoming c = r # ls \<and> ReadDotLines ls = (Some lines, incoming c') \<and>
      cap_check p' = (''check'' \<in> lower ` set lines) \<and> cap_ihave p' = (''ihave'' \<in> lower ` set lines) \<and>
      cap_post p' = (''post'' \<in> lower ` set lines) \<and>
      NoUpload p' = (lower ` set lines \<inter> upload_words = {}) \<and>
      cnt' = (if NoUpload p' then cnt else bump cnt ''postProviders'')
    else cnt' = cnt \<and> p' = p)"
  using capabilities_result[OF assms] by blast

section \<open>Concrete runs\<close>

lemma pool_start_step: "cpstep (cp_start m tries prox) \<lparr>cp = NewConnPool m tries prox, cp_threads = [LoopHead 0]\<rparr>"
  using GetConn[of "cp_start m tries prox"] by (simp add: cp_start_def)

theorem connpool_conserves_witness:
  "openConns (cp \<lparr>cp = NewConnPool 2 3 False, cp_threads = [LoopHead 0]\<rparr>) = 0"
proof -
  have "cpstep\<^sup>*\<^sup>* (cp_start 2 3 False) \<lparr>cp = NewConnPool 2 3 False, cp_threads = [LoopHead 0]\<rparr>"
    using pool_start_step by blast
  from connpool_conserves[OF this] show ?thesis by (simp add: NewConnPool_def)
qed

definition one_dial :: cpsys where
  "one_dial = \<lparr>cp = (NewConnPool 1 3 False)\<lparr>openConns := 1\<rparr>, cp_threads = [Dialing 0 False]\<rparr>"

lemma reach_dial: "cpstep\<^sup>*\<^sup>* (cp_start 1 3 False) one_dial"
proof -
  let ?s = "\<lambda>p. \<lparr>cp = NewConnPool 1 3 False, cp_threads = [p]\<rparr>"
  have "cpstep (?s (LoopHead 0)) (?s (RanEmpty 0))"
    using Empty[of "?s (LoopHead 0)" 0 0] by (simp add: cat_def cgo_def NewConnPool_def)
  moreover have "cpstep (?s (RanEmpty 0)) (?s (WillDial 0 False))"
    using Room[of "?s (RanEmpty 0)" 0 0] by (simp add: cat_def cgo_def NewConnPool_def)
  moreover have "cpstep (?s (WillDial 0 False)) one_dial"
    using Reserve[of "?s (WillDial 0 False)" 0 0 False] by (simp add: cat_def cgo_def NewConnPool_def reserve_def one_dial_def)
  ultimately show ?thesis
    using pool_start_step[of 1 3 False] by (meson converse_rtranclp_into_rtranclp rtranclp.rtrancl_refl)
qed

theorem GetConn_open_witness:
  "\<exists>s'. cpstep one_dial s' \<and> cat s' 0 (Holding 1) \<and> 1 \<in> pool_live (cp s')"
proof -
  define s' where "s' = cgo 0 (Holding 1) (fst (connected (cp one_dial))) one_dial"
  have "cpstep one_dial s'"
    unfolding s'_def using Connected[of one_dial 0 0 False]
    by (simp add: cat_def one_dial_def connected_def newconnid_def NewConnPool_def)
  moreover have "cat s' 0 (Holding 1)" "\<not> cat one_dial 0 (Holding 1)"
    by (simp_all add: s'_def one_dial_def cat_def cgo_def)
  ultimately show ?thesis using GetConn_open[OF reach_dial] by auto
qed

lemma login_lines:
  "parse_code_line 2 ''200 hi'' = (200, ''hi'', None)" "parse_code_line 381 ''381 pw'' = (381, ''pw'', None)"
  "parse_code_line 281 ''281 ok'' = (281, ''ok'', None)" "parse_code_line 101 ''101 list'' = (101, ''list'', None)"
  by (simp_all add: parse_code_line_def wrong_code_def parse_int_def parse_nat_def undec_def digit_val_def is_digit_def)

theorem connect_logged_in_witness:
  "\<exists>c'. connect \<lparr>Username = ''u'', Password = ''p''\<rparr> (Some (server [''200 hi'', ''381 pw'', ''281 ok''])) = (Some c', None) \<and>
     incoming c' = []"
proof -
  obtain r e where run: "connect \<lparr>Username = ''u'', Password = ''p''\<rparr> (Some (server [''200 hi'', ''381 pw'', ''281 ok''])) = (r, e)"
    by fastforce
  then have "e = None"
    by (simp add: connect_def ReadCodeLine_def server_def login_lines wants_auth_def auth_def auth_step_def Cmd_def
        WriteString_def nntpWelcomeCodeMin_def nntpWelcomeCodeMax_def nntpMoreInfoCode_def nntpAuthSuccess_def)
  then show ?thesis using connect_logged_in[OF run] run by (auto simp: server_def wants_auth_def)
qed

theorem providers_accepted_witness:
  "\<exists>xs gs. loadProviderList two_providers = Inr (Some (xs, gs)) \<and> distinct (map Name xs) \<and> set gs = Group ` set xs"
proof -
  obtain xs gs where l: "loadProviderList two_providers = Inr (Some (xs, gs))"
    by (simp add: loadProviderList_def load_provider_def no_providers_def two_providers_def plain_provider_def Let_def)
  show ?thesis using providers_accepted[OF l] l by blast
qed

lemma lower_words:
  "lower ''CAPABILITIES'' = ''capabilities''" "lower ''QUIT'' = ''quit''" "lower ''IHAVE'' = ''ihave''"
  by code_simp+

theorem capabilities_exact_witness:
  "\<exists>cnt p c. checkCapabilities plain_options (NewCounter, plain_provider ''A'') (server [''101 list'', ''IHAVE'', ''.'']) =
     (((cnt, p), True), c) \<and> cap_ihave p \<and> hung_up c"
proof -
  obtain cnt p ok c where run: "checkCapabilities plain_options (NewCounter, plain_provider ''A'')
      (server [''101 list'', ''IHAVE'', ''.'']) = (((cnt, p), ok), c)" by (metis prod.collapse)
  then have "ok"
    by (simp add: checkCapabilities_def plain_options_def msg2srv_def WriteString_def server_def ReadCodeLine_def login_lines
        lower_words Let_def)
  then show ?thesis
    using capabilities_exact[OF run] run by (auto simp: plain_options_def server_def lower_words upload_words_def)
qed

end
