(* ===== verification/Passwd.thy ===== *)
theory Passwd
  imports Cache
begin

text \<open>
  \<open>passwd.go\<close>: the files of users, one per line, that the proxy and the web
  server read. A file is its text; \<open>bcrypt\<close> is given by the function that
  compares a hash with a password and by the hash made for a new user. Texts
  are ASCII: \<open>TrimSpace\<close> and \<open>ToLower\<close> know no other spaces and letters.
\<close>

section \<open>Data\<close>

record UserData =
  u_name :: string
  u_hash :: string
  u_maxconns :: int
  u_expire :: int
  u_posting :: bool

definition minUsernameLen :: nat where "minUsernameLen = 10"

section \<open>Reading a file\<close>

text \<open>
  \<open>bufio.Scanner\<close> with lines: a line of 65536 bytes or more is an error, which
  leaves no users at all.
\<close>

definition scan_lines :: "string \<Rightarrow> string list option" where
  "scan_lines s =
     (let ls = split_on CHR 0x0A s; ls' = (if last ls = [] then butlast ls else ls)
      in if list_all (\<lambda>l. length l < 65536) ls' then Some (map strip_cr ls') else None)"

text \<open>One line: \<open>None\<close> when it is skipped before the search for duplicates.\<close>

definition passwd_entry :: "bool \<Rightarrow> int \<Rightarrow> string \<Rightarrow> UserData option" where
  "passwd_entry neverExpires now l =
     (let line = TrimSpace l in
      if line = [] \<or> has_prefix ''#'' line then None
      else case SplitN 5 CHR ''|'' line of
        [p0, p1, p2, p3, p4] \<Rightarrow>
          (case parse_int p2 of (maxconns, ok2) \<Rightarrow>
           case parse_int p3 of (expireAt, ok3) \<Rightarrow>
             if \<not> ok2 \<or> \<not> ok3 then None
             else if \<not> (expireAt = 0 \<and> neverExpires) \<and> expireAt < now then None
             else if length (TrimSpace p0) < minUsernameLen \<or> length p1 < 60 then None
             else Some \<lparr>u_name = TrimSpace p0, u_hash = p1, u_maxconns = maxconns, u_expire = expireAt,
                        u_posting = has_prefix ''post'' (lower p4)\<rparr>)
      | _ \<Rightarrow> None)"

text \<open>The maps \<open>users\<close> and \<open>dupes\<close>: a name listed twice is taken out for good.\<close>

definition add_entry :: "UserData \<Rightarrow> (string \<rightharpoonup> UserData) \<times> string set \<Rightarrow> (string \<rightharpoonup> UserData) \<times> string set" where
  "add_entry u st =
     (case st of (users, dupes) \<Rightarrow>
        if u_name u \<in> dupes then (users, dupes)
        else if users (u_name u) \<noteq> None then (users(u_name u := None), insert (u_name u) dupes)
        else (users(u_name u \<mapsto> u), dupes))"

definition read_line :: "bool \<Rightarrow> int \<Rightarrow> string \<Rightarrow> (string \<rightharpoonup> UserData) \<times> string set \<Rightarrow> (string \<rightharpoonup> UserData) \<times> string set" where
  "read_line never now l st = (case passwd_entry never now l of None \<Rightarrow> st | Some u \<Rightarrow> add_entry u st)"

definition parsePasswdFile :: "bool \<Rightarrow> int \<Rightarrow> string option \<Rightarrow> (string \<rightharpoonup> UserData) option" where
  "parsePasswdFile never now file =
     (case file of None \<Rightarrow> None
      | Some s \<Rightarrow> map_option (\<lambda>ls. fst (fold (read_line never now) ls (Map.empty, {}))) (scan_lines s))"

section \<open>Checking a password\<close>

text \<open>\<open>bcrypt h p\<close> is \<open>CompareHashAndPassword\<close>. The second result is the hash that
  was compared: there is one comparison in every case.\<close>

definition verifyUser ::
  "(string \<Rightarrow> string \<Rightarrow> bool) \<Rightarrow> string \<Rightarrow> int \<Rightarrow> (string \<rightharpoonup> UserData) \<Rightarrow> string \<Rightarrow> string \<Rightarrow> UserData option \<times> string" where
  "verifyUser bcrypt dummy now users user pw =
     (let hash = (case users user of None \<Rightarrow> dummy | Some u \<Rightarrow> u_hash u);
          matches = bcrypt hash pw
      in (case users user of
            None \<Rightarrow> None
          | Some u \<Rightarrow>
              (if \<not> matches then None
               else if u_expire u \<noteq> 0 \<and> u_expire u < now then None
               else Some u), hash))"

section \<open>Writing users\<close>

text \<open>The verb \<open>%d\<close>.\<close>

definition dec_int :: "int \<Rightarrow> string" where
  "dec_int n = (if n < 0 then CHR ''-'' # dec (nat (- n)) else dec (nat n))"

definition passwd_line :: "string \<Rightarrow> UserData \<Rightarrow> string" where
  "passwd_line hashed u =
     u_name u @ ''|'' @ hashed @ ''|'' @ dec_int (u_maxconns u) @ ''|'' @ dec_int (u_expire u) @ ''|'' @
     (if u_posting u then ''post'' else ''nopost'') @ [CHR 0x0A]"

text \<open>\<open>u_hash\<close> of the new user is the plain password; \<open>gen\<close> is \<open>GenerateFromPassword\<close>.
  \<open>io\<close> says which system call fails.\<close>

definition appendPasswdUser ::
  "(string \<Rightarrow> string option) \<Rightarrow> disk_io \<Rightarrow> UserData \<Rightarrow> string \<Rightarrow> disk \<Rightarrow> disk \<times> bool" where
  "appendPasswdUser gen io u file d =
     (if u_hash u = [] then (d, False)
      else case gen (u_hash u) of None \<Rightarrow> (d, False)
      | Some hashed \<Rightarrow>
          (case io of
             NoOpen \<Rightarrow> (d, False)
           | ShortWrite k \<Rightarrow> (append_to file (take k (passwd_line hashed u)) d, False)
           | NoClose \<Rightarrow> (append_to file (passwd_line hashed u) d, False)
           | _ \<Rightarrow> (append_to file (passwd_line hashed u) d, True)))"

text \<open>
  \<open>mergeNewPasswdFiles\<close>: every entry of the directory with the prefix is appended
  to the file and removed. \<open>entries\<close> are the names \<open>ReadDir\<close> returns, with the
  mark of a directory, \<open>None\<close> when it fails; \<open>io\<close> what happens to each one.
\<close>

definition merge_new :: "(string \<Rightarrow> disk_io) \<Rightarrow> string \<Rightarrow> string \<Rightarrow> disk \<Rightarrow> disk" where
  "merge_new io file newfile d =
     (case disk_files d newfile of None \<Rightarrow> d
      | Some s \<Rightarrow>
          (case io newfile of
             NoOpen \<Rightarrow> d
           | ShortWrite k \<Rightarrow> append_to file (take k s) d
           | NoClose \<Rightarrow> append_to file s d
           | _ \<Rightarrow> Remove newfile (append_to file s d)))"

definition mergeNewPasswdFiles :: "(string \<Rightarrow> disk_io) \<Rightarrow> (string \<times> bool) list option \<Rightarrow> string \<Rightarrow> disk \<Rightarrow> disk" where
  "mergeNewPasswdFiles io entries file d =
     (case entries of None \<Rightarrow> d
      | Some es \<Rightarrow>
          fold (\<lambda>(name, isdir) d.
              if isdir \<or> \<not> has_prefix (path_base file @ ''.new.'') name then d
              else merge_new io file (path_join (path_dir file) name) d) es d)"

section \<open>Lemmas: reading\<close>

text \<open>The entries of a file, duplicates included.\<close>

definition entries_of :: "bool \<Rightarrow> int \<Rightarrow> string list \<Rightarrow> UserData list" where
  "entries_of never now ls = concat (map (\<lambda>l. case passwd_entry never now l of None \<Rightarrow> [] | Some u \<Rightarrow> [u]) ls)"

lemma entries_of_iff: "u \<in> set (entries_of never now ls) \<longleftrightarrow> (\<exists>l \<in> set ls. passwd_entry never now l = Some u)"
  by (force simp: entries_of_def split: option.splits)

definition named :: "string \<Rightarrow> UserData list \<Rightarrow> UserData list" where
  "named n us = filter (\<lambda>u. u_name u = n) us"

lemma named_simps [simp]:
  "named n [] = []" "named n (us @ vs) = named n us @ named n vs"
  "named n (u # us) = (if u_name u = n then u # named n us else named n us)"
  by (simp_all add: named_def)

lemma entries_append [simp]: "entries_of never now (ls @ ks) = entries_of never now ls @ entries_of never now ks"
  by (simp add: entries_of_def)

lemma read_lines_entries:
  "fold (read_line never now) ls st = fold add_entry (entries_of never now ls) st"
  by (induction ls arbitrary: st) (simp_all add: entries_of_def read_line_def split: option.splits)

text \<open>What the two maps hold after some entries.\<close>

definition only :: "'a list \<Rightarrow> 'a option" where
  "only xs = (case xs of [x] \<Rightarrow> Some x | _ \<Rightarrow> None)"

lemma only_simps [simp]: "only [] = None" "only [x] = Some x" "only (x # y # xs) = None"
  by (simp_all add: only_def)

lemma only_Some: "only xs = Some x \<longleftrightarrow> xs = [x]"
  by (auto simp: only_def split: list.splits)

lemma only_snoc: "only (xs @ [x]) = (if xs = [] then Some x else None)"
  by (cases xs) (auto simp: only_def split: list.splits)

lemma add_entries:
  "fold add_entry us (Map.empty, {}) = ((\<lambda>n. only (named n us)), {n. 2 \<le> length (named n us)})"
proof (induction us rule: rev_induct)
  case (snoc u us)
  have shape: "named n us = [] \<or> (\<exists>v. named n us = [v]) \<or> 2 \<le> length (named n us)" for n
    by (cases "named n us" rule: list.exhaust; cases "tl (named n us)") auto
  show ?case
    using snoc shape[of "u_name u"]
    by (auto simp: add_entry_def fun_eq_iff only_snoc only_def numeral_2_eq_2 Suc_le_eq split: list.splits)
qed simp

lemma parse_entries:
  assumes "scan_lines s = Some ls"
  shows "parsePasswdFile never now (Some s) = Some (\<lambda>n. only (named n (entries_of never now ls)))"
  using assms by (simp add: parsePasswdFile_def read_lines_entries add_entries)

section \<open>Lemmas: lines of a file\<close>

text \<open>A file whose last line is ended.\<close>

definition ended :: "string \<Rightarrow> bool" where
  "ended s \<longleftrightarrow> s = [] \<or> last s = CHR 0x0A"

lemma split_on_sep: "split_on c (s @ c # t) = split_on c s @ split_on c t"
  by (induction s) (auto split: list.splits)

lemma split_ended:
  assumes "ended s"
  shows "\<exists>ls. split_on CHR 0x0A s = ls @ [[]] \<and> (\<forall>t. split_on CHR 0x0A (s @ t) = ls @ split_on CHR 0x0A t)"
proof (cases "s = []")
  case False
  then have "s = butlast s @ [CHR 0x0A]"
    using assms by (metis append_butlast_last_id ended_def)
  then show ?thesis
    using split_on_sep[of "CHR 0x0A" "butlast s"] by (metis append.assoc append_Cons append_Nil split_on.simps(1))
qed simp

lemma scan_append:
  assumes "ended s" and "scan_lines s = Some ls" and "CHR 0x0A \<notin> set l" and "length l < 65536"
  shows "scan_lines (s @ l @ [CHR 0x0A]) = Some (ls @ [strip_cr l])"
proof -
  obtain ks where ks: "split_on CHR 0x0A s = ks @ [[]]" "split_on CHR 0x0A (s @ t) = ks @ split_on CHR 0x0A t" for t
    using split_ended[OF assms(1)] by blast
  have "split_on CHR 0x0A (l @ [CHR 0x0A]) = [l, []]"
    using split_on_append_sep[OF assms(3), of "[]"] by simp
  then have "split_on CHR 0x0A (s @ l @ [CHR 0x0A]) = ks @ [l, []]"
    using ks(2) by simp
  then show ?thesis
    using assms(2,4) ks(1) by (auto simp: scan_lines_def Let_def butlast_append split: if_splits)
qed

section \<open>Lemmas: writing and reading\<close>

lemma parse_int_dec_int [simp]:
  assumes "- (2 ^ 63) \<le> n" and "n < 2 ^ 63"
  shows "parse_int (dec_int n) = (n, True)"
proof (cases "n < 0")
  case True
  then show ?thesis
    using assms by (simp add: dec_int_def parse_int_def has_prefix_def Let_def list_all_iff dec_digits)
next
  case False
  then have "nat n < 2 ^ 63" using assms(2) by (simp add: nat_less_iff)
  then show ?thesis using False by (simp add: dec_int_def)
qed

lemma dec_int_chars: "c \<in> set (dec_int n) \<Longrightarrow> is_digit c \<or> c = CHR ''-''"
  by (auto simp: dec_int_def dec_digits split: if_splits)

lemma dec_int_plain: "CHR ''|'' \<notin> set (dec_int n)" "CHR 0x0A \<notin> set (dec_int n)"
  by (auto dest!: dec_int_chars simp: is_digit_def)

text \<open>What a name and a hash must be like for their line to be read again.\<close>

definition good_name :: "string \<Rightarrow> bool" where
  "good_name n \<longleftrightarrow> minUsernameLen \<le> length n \<and> CHR ''|'' \<notin> set n \<and> CHR 0x0A \<notin> set n \<and>
     hd n \<notin> spaces \<and> last n \<notin> spaces \<and> hd n \<noteq> CHR ''#''"

definition good_hash :: "string \<Rightarrow> bool" where
  "good_hash h \<longleftrightarrow> 60 \<le> length h \<and> CHR ''|'' \<notin> set h \<and> CHR 0x0A \<notin> set h"

definition good_user :: "bool \<Rightarrow> int \<Rightarrow> UserData \<Rightarrow> bool" where
  "good_user never now u \<longleftrightarrow> good_name (u_name u) \<and>
     - (2 ^ 63) \<le> u_maxconns u \<and> u_maxconns u < 2 ^ 63 \<and> - (2 ^ 63) \<le> u_expire u \<and> u_expire u < 2 ^ 63 \<and>
     (now \<le> u_expire u \<or> never \<and> u_expire u = 0)"

definition passwd_text :: "string \<Rightarrow> UserData \<Rightarrow> string" where
  "passwd_text h u =
     u_name u @ ''|'' @ h @ ''|'' @ dec_int (u_maxconns u) @ ''|'' @ dec_int (u_expire u) @ ''|'' @
     (if u_posting u then ''post'' else ''nopost'')"

lemma passwd_line_text: "passwd_line h u = passwd_text h u @ [CHR 0x0A]"
  by (simp add: passwd_line_def passwd_text_def)

lemma SplitN_one: "SplitN (Suc (Suc n)) c (w @ [c] @ s) = w # SplitN (Suc n) c s" if "c \<notin> set w"
  using SplitN_word[OF that] by simp

lemma passwd_split:
  assumes "good_name (u_name u)" and "good_hash h"
  shows "SplitN 5 CHR ''|'' (passwd_text h u) =
    [u_name u, h, dec_int (u_maxconns u), dec_int (u_expire u), if u_posting u then ''post'' else ''nopost'']"
proof -
  have "CHR ''|'' \<notin> set (u_name u)" "CHR ''|'' \<notin> set h"
    using assms by (auto simp: good_name_def good_hash_def)
  then show ?thesis
    by (simp add: passwd_text_def eval_nat_numeral SplitN_word dec_int_plain)
qed

lemma passwd_text_ends:
  assumes "good_name (u_name u)"
  shows "passwd_text h u \<noteq> []" "hd (passwd_text h u) = hd (u_name u)" "last (passwd_text h u) = CHR ''t''"
proof -
  have "u_name u \<noteq> []" using assms by (auto simp: good_name_def minUsernameLen_def)
  then show "passwd_text h u \<noteq> []" "hd (passwd_text h u) = hd (u_name u)" "last (passwd_text h u) = CHR ''t''"
    by (simp_all add: passwd_text_def)
qed

lemma lower_posts: "has_prefix ''post'' (lower ''post'')" "\<not> has_prefix ''post'' (lower ''nopost'')"
  by code_simp+

lemma passwd_entry_text:
  assumes "good_user never now u" and "good_hash h"
  shows "passwd_entry never now (passwd_text h u) = Some (u\<lparr>u_hash := h\<rparr>)"
proof -
  have n: "good_name (u_name u)" using assms(1) by (simp add: good_user_def)
  have trim: "TrimSpace (passwd_text h u) = passwd_text h u"
    using n passwd_text_ends[OF n] by (intro TrimSpace_id) (simp add: good_name_def spaces_def)
  have name: "TrimSpace (u_name u) = u_name u"
    using n by (intro TrimSpace_id) (simp add: good_name_def)
  have "\<not> has_prefix ''#'' (passwd_text h u)"
    using n passwd_text_ends(1,2)[OF n, of h] by (cases "passwd_text h u") (auto simp: good_name_def)
  moreover have "60 \<le> length h" "minUsernameLen \<le> length (u_name u)"
    using n assms(2) by (simp_all add: good_name_def good_hash_def)
  ultimately have "passwd_entry never now (passwd_text h u) = Some \<lparr>u_name = u_name u, u_hash = h,
      u_maxconns = u_maxconns u, u_expire = u_expire u, u_posting = u_posting u\<rparr>"
    using assms(1) lower_posts passwd_text_ends(1)[OF n]
    by (auto simp: passwd_entry_def trim name passwd_split[OF n assms(2)] good_user_def Let_def)
  then show ?thesis by (cases u) simp
qed

text \<open>The same with more text behind the last field.\<close>

lemma passwd_entry_more:
  assumes "good_user never now u" and "good_hash h" and "t \<noteq> []" and "last t \<notin> spaces"
  shows "passwd_entry never now (passwd_text h u @ t) = Some (u\<lparr>u_hash := h\<rparr>)"
proof -
  have n: "good_name (u_name u)" using assms(1) by (simp add: good_user_def)
  have trim: "TrimSpace (passwd_text h u @ t) = passwd_text h u @ t"
    using n passwd_text_ends[OF n, of h] assms(3,4) by (intro TrimSpace_id) (simp add: good_name_def)
  have name: "TrimSpace (u_name u) = u_name u"
    using n by (intro TrimSpace_id) (simp add: good_name_def)
  have split: "SplitN 5 CHR ''|'' (passwd_text h u @ t) =
      [u_name u, h, dec_int (u_maxconns u), dec_int (u_expire u), (if u_posting u then ''post'' else ''nopost'') @ t]"
    using n assms(2) by (simp add: passwd_text_def eval_nat_numeral SplitN_word dec_int_plain good_name_def good_hash_def)
  have "\<not> has_prefix ''#'' (passwd_text h u @ t)"
    using n passwd_text_ends(1,2)[OF n, of h] by (cases "passwd_text h u") (auto simp: good_name_def)
  moreover have "60 \<le> length h" "minUsernameLen \<le> length (u_name u)"
    using n assms(2) by (simp_all add: good_name_def good_hash_def)
  moreover have "has_prefix ''post'' (lower (''post'' @ t))" "\<not> has_prefix ''post'' (lower (''nopost'' @ t))"
    by (simp_all add: lower_def)
  ultimately have "passwd_entry never now (passwd_text h u @ t) = Some \<lparr>u_name = u_name u, u_hash = h,
      u_maxconns = u_maxconns u, u_expire = u_expire u, u_posting = u_posting u\<rparr>"
    using assms(1,3) by (auto simp: passwd_entry_def trim name split good_user_def Let_def)
  then show ?thesis by (cases u) simp
qed

lemma passwd_text_line:
  assumes "good_name (u_name u)" and "good_hash h"
  shows "CHR 0x0A \<notin> set (passwd_text h u)" "strip_cr (passwd_text h u) = passwd_text h u"
  using assms passwd_text_ends[OF assms(1), of h]
  by (auto simp: passwd_text_def good_name_def good_hash_def dec_int_plain strip_cr_def)

lemma append_reads:
  assumes "good_user never now u" and "good_hash h" and "ended s" and "scan_lines s = Some ls"
    and "length (passwd_text h u) < 65536"
  shows "\<exists>ks. scan_lines (s @ passwd_line h u) = Some ks \<and>
    entries_of never now ks = entries_of never now ls @ [u\<lparr>u_hash := h\<rparr>]"
proof -
  have n: "good_name (u_name u)" using assms(1) by (simp add: good_user_def)
  have "scan_lines (s @ passwd_line h u) = Some (ls @ [passwd_text h u])"
    using scan_append[OF assms(3,4) passwd_text_line(1)[OF n assms(2)] assms(5)] passwd_text_line(2)[OF n assms(2)]
    by (simp add: passwd_line_text)
  moreover have "entries_of never now [passwd_text h u] = [u\<lparr>u_hash := h\<rparr>]"
    by (simp add: entries_of_def passwd_entry_text[OF assms(1,2)])
  ultimately show ?thesis by simp
qed

lemma append_parses:
  assumes "good_user never now u" and "good_hash h" and "ended s" and "scan_lines s = Some ls"
    and "length (passwd_text h u) < 65536" and "named (u_name u) (entries_of never now ls) = []"
  shows "\<exists>ks users. scan_lines (s @ passwd_line h u) = Some ks \<and>
    entries_of never now ks = entries_of never now ls @ [u\<lparr>u_hash := h\<rparr>] \<and>
    parsePasswdFile never now (Some s) = Some users \<and>
    parsePasswdFile never now (Some (s @ passwd_line h u)) = Some (users(u_name u \<mapsto> u\<lparr>u_hash := h\<rparr>))"
proof -
  obtain ks where ks: "scan_lines (s @ passwd_line h u) = Some ks"
    "entries_of never now ks = entries_of never now ls @ [u\<lparr>u_hash := h\<rparr>]"
    using append_reads[OF assms(1-5)] by blast
  then show ?thesis
    using parse_entries[OF ks(1), of never now] parse_entries[OF assms(4), of never now] assms(6)
    by (auto simp: fun_eq_iff)
qed

lemma passwd_line_ended: "ended (s @ passwd_line h u)"
  by (simp add: ended_def passwd_line_def)

lemma passwd_entry_valid:
  assumes "passwd_entry never now l = Some u" and "0 < now"
  shows "minUsernameLen \<le> length (u_name u) \<and> (u_expire u = 0 \<longrightarrow> never)"
proof -
  let ?l = "TrimSpace l"
  obtain p0 p1 p2 p3 p4 where p: "SplitN 5 CHR ''|'' ?l = [p0, p1, p2, p3, p4]" and "\<not> (?l = [] \<or> has_prefix ''#'' ?l)"
    using assms(1) by (auto simp: passwd_entry_def Let_def split: if_splits list.splits)
  then show ?thesis
    using assms by (auto simp: passwd_entry_def Let_def split: if_splits prod.splits)
qed

section \<open>Properties\<close>

text \<open>A user who is added can log in. The line written is read back as the same
  user with the hash of the password, everybody else in the file stays as before, and
  the login with the password succeeds. The file is one whose lines are all ended and
  that does not list the name.\<close>

theorem added_user_logs_in:
  assumes bcrypt: "\<And>p h. gen p = Some h \<Longrightarrow> good_hash h \<and> bcrypt h p"
    and "good_user never now u" and "u_hash u \<noteq> []" and "gen (u_hash u) = Some h"
    and "length (passwd_text h u) < 65536"
    and "ended (old_bytes f d)" and "scan_lines (old_bytes f d) = Some ls"
    and "named (u_name u) (entries_of never now ls) = []"
  shows "\<exists>d' users. appendPasswdUser gen IoOk u f d = (d', True) \<and>
    parsePasswdFile never now (Some (old_bytes f d)) = Some users \<and>
    parsePasswdFile never now (disk_files d' f) = Some (users(u_name u \<mapsto> u\<lparr>u_hash := h\<rparr>)) \<and>
    fst (verifyUser bcrypt dummy now (users(u_name u \<mapsto> u\<lparr>u_hash := h\<rparr>)) (u_name u) (u_hash u)) =
      Some (u\<lparr>u_hash := h\<rparr>)"
proof -
  have h: "good_hash h" "bcrypt h (u_hash u)" using bcrypt[OF assms(4)] by simp_all
  have "u_expire u = 0 \<or> \<not> u_expire u < now" using assms(2) by (auto simp: good_user_def)
  then show ?thesis
    using append_parses[OF assms(2) h(1) assms(6,7,5,8)] assms(3,4) h(2)
    by (auto simp: appendPasswdUser_def append_to_def verifyUser_def)
qed

text \<open>Who logs in is in the file, once. A login succeeds only for a name of exactly one
  usable line, with a password that matches the hash of this line, before the account
  expires; an account that never expires is refused where \<open>neverExpires\<close> is not set. One
  hash is compared in any case.\<close>

theorem login_needs_entry:
  assumes "parsePasswdFile never now (Some s) = Some users" and "0 < now"
    and "verifyUser bcrypt dummy now' users n pw = (r, h)"
  shows "h = (if users n = None then dummy else u_hash (the (users n))) \<and>
    (case r of None \<Rightarrow> True
     | Some u \<Rightarrow> (\<exists>ls. scan_lines s = Some ls \<and> named n (entries_of never now ls) = [u]) \<and>
         bcrypt (u_hash u) pw \<and> minUsernameLen \<le> length n \<and> (u_expire u \<noteq> 0 \<longrightarrow> now' \<le> u_expire u) \<and>
         (u_expire u = 0 \<longrightarrow> never))"
proof -
  obtain ls where ls: "scan_lines s = Some ls"
    using assms(1) by (auto simp: parsePasswdFile_def)
  have users: "users = (\<lambda>n. only (named n (entries_of never now ls)))"
    using parse_entries[OF ls, of never now] assms(1) by simp
  have entry: "minUsernameLen \<le> length (u_name u) \<and> (u_expire u = 0 \<longrightarrow> never)" if "u \<in> set (entries_of never now ls)" for u
    using that passwd_entry_valid[OF _ assms(2)] by (auto simp: entries_of_iff)
  have "minUsernameLen \<le> length n \<and> (u_expire u = 0 \<longrightarrow> never)" if "named n (entries_of never now ls) = [u]" for u
  proof -
    have "u \<in> set (named n (entries_of never now ls))" by (simp add: that)
    then show ?thesis using entry[of u] by (auto simp: named_def)
  qed
  then show ?thesis
    using assms(3) ls by (auto simp: verifyUser_def users only_Some Let_def split: option.splits if_splits)
qed

text \<open>An import that is repeated locks the new user out. When the file with the new
  user was appended but closing failed, the file is kept and appended again by the next
  import; the user is then listed twice, and a name listed twice is dropped.\<close>

theorem repeated_import_drops_user:
  assumes "good_user never now u" and "good_hash h" and "length (passwd_text h u) < 65536"
    and "ended (old_bytes f d)" and "scan_lines (old_bytes f d) = Some ls"
    and "named (u_name u) (entries_of never now ls) = []"
    and "disk_files d nf = Some (passwd_line h u)" and "nf \<noteq> f"
    and "d' = merge_new (\<lambda>_. IoOk) f nf (merge_new (\<lambda>_. NoClose) f nf d)"
  shows "disk_files d' nf = None \<and>
    (\<exists>users. parsePasswdFile never now (disk_files d' f) = Some users \<and> users (u_name u) = None)"
proof -
  let ?s = "old_bytes f d @ passwd_line h u"
  obtain ks where ks: "scan_lines ?s = Some ks" "entries_of never now ks = entries_of never now ls @ [u\<lparr>u_hash := h\<rparr>]"
    using append_reads[OF assms(1,2,4,5,3)] by blast
  obtain ms where ms: "scan_lines (?s @ passwd_line h u) = Some ms"
    "entries_of never now ms = entries_of never now ks @ [u\<lparr>u_hash := h\<rparr>]"
    using append_reads[OF assms(1,2) passwd_line_ended ks(1) assms(3)] by blast
  have "disk_files d' nf = None" "disk_files d' f = Some (?s @ passwd_line h u)"
    using assms(7-9) by (simp_all add: merge_new_def append_to_def Remove_def old_bytes_def)
  then show ?thesis
    using parse_entries[OF ms(1), of never now] ms(2) ks(2) assms(6) by simp
qed

text \<open>A user appended to a file whose last line is not ended is lost. The new line
  becomes a part of the last field of the line before.\<close>

theorem unended_line_loses_user:
  assumes "good_user never now v" and "good_hash g" and "good_user never now u" and "u_name u \<noteq> u_name v"
    and "disk_files d f = Some (passwd_text g v)" and "gen (u_hash u) = Some h" and "good_hash h" and "u_hash u \<noteq> []"
    and "length (passwd_text g v @ passwd_text h u) < 65536"
  shows "\<exists>d'. appendPasswdUser gen IoOk u f d = (d', True) \<and>
    parsePasswdFile never now (disk_files d' f) = Some [u_name v \<mapsto> v\<lparr>u_hash := g\<rparr>]"
proof -
  let ?l = "passwd_text g v @ passwd_text h u"
  have nv: "good_name (u_name v)" and nu: "good_name (u_name u)"
    using assms(1,3) by (simp_all add: good_user_def)
  have "CHR 0x0A \<notin> set ?l" "strip_cr ?l = ?l"
    using passwd_text_line(1)[OF nv assms(2)] passwd_text_line(1)[OF nu assms(7)] passwd_text_ends(1,3)[OF nu, of h]
    by (simp_all add: strip_cr_def)
  then have "scan_lines (?l @ [CHR 0x0A]) = Some [?l]"
    using scan_append[of "[]" "[]" ?l] assms(9) by (simp add: ended_def scan_lines_def)
  moreover have "passwd_entry never now ?l = Some (v\<lparr>u_hash := g\<rparr>)"
    by (rule passwd_entry_more[OF assms(1,2)]) (use passwd_text_ends(1,3)[OF nu, of h] in \<open>simp_all add: spaces_def\<close>)
  ultimately have "parsePasswdFile never now (Some (?l @ [CHR 0x0A])) = Some [u_name v \<mapsto> v\<lparr>u_hash := g\<rparr>]"
    using parse_entries[of "?l @ [CHR 0x0A]" "[?l]" never now] by (auto simp: entries_of_def fun_eq_iff)
  then show ?thesis
    using assms(5,6,8) by (simp add: appendPasswdUser_def append_to_def old_bytes_def passwd_line_text)
qed

section \<open>Concrete runs\<close>

definition some_user :: UserData where
  "some_user = \<lparr>u_name = ''somebody-else'', u_hash = ''secret'', u_maxconns = 5, u_expire = 2000, u_posting = False\<rparr>"

definition other_user :: UserData where
  "other_user = \<lparr>u_name = ''another-name'', u_hash = ''hidden'', u_maxconns = 0, u_expire = 3000, u_posting = True\<rparr>"

definition fixed_hash :: string where "fixed_hash = replicate 60 CHR ''x''"

lemma fixed_hash_good: "good_hash fixed_hash"
  by (simp add: good_hash_def fixed_hash_def)

lemma users_good: "good_user False 1000 some_user" "good_user False 1000 other_user"
  by (simp_all add: good_user_def good_name_def some_user_def other_user_def minUsernameLen_def spaces_def)

lemma text_short: "length (passwd_text fixed_hash some_user) < 65536" "length (passwd_text fixed_hash other_user) < 65536"
  "length (passwd_text fixed_hash other_user @ passwd_text fixed_hash some_user) < 65536"
  by (simp_all add: passwd_text_def some_user_def other_user_def fixed_hash_def dec_int_def dec.simps)

definition no_files :: disk where "no_files = \<lparr>disk_files = Map.empty, disk_dirs = {}\<rparr>"

lemma no_file: "ended (old_bytes f no_files)" "scan_lines (old_bytes f no_files) = Some []"
  by (simp_all add: ended_def old_bytes_def no_files_def scan_lines_def)

theorem added_user_logs_in_witness:
  "\<exists>d' users. appendPasswdUser (\<lambda>_. Some fixed_hash) IoOk some_user ''f'' no_files = (d', True) \<and>
    parsePasswdFile False 1000 (disk_files d' ''f'') = Some (users(u_name some_user \<mapsto> some_user\<lparr>u_hash := fixed_hash\<rparr>))"
  using added_user_logs_in[of "\<lambda>_. Some fixed_hash" "\<lambda>h _. h = fixed_hash" False 1000 some_user fixed_hash "''f''" no_files "[]" "[]"]
    users_good(1) text_short(1) no_file fixed_hash_good
  by (auto simp: some_user_def entries_of_def)

lemma some_file: "parsePasswdFile False 1000 (Some (passwd_line fixed_hash some_user)) =
    Some [u_name some_user \<mapsto> some_user\<lparr>u_hash := fixed_hash\<rparr>]"
proof -
  obtain ks users where u: "parsePasswdFile False 1000 (Some []) = Some users"
    "parsePasswdFile False 1000 (Some ([] @ passwd_line fixed_hash some_user)) =
       Some (users(u_name some_user \<mapsto> some_user\<lparr>u_hash := fixed_hash\<rparr>))"
    using append_parses[OF users_good(1) fixed_hash_good, of "[]" "[]"] text_short(1)
    by (auto simp: ended_def scan_lines_def entries_of_def)
  then show ?thesis by (simp add: parsePasswdFile_def scan_lines_def)
qed

theorem login_needs_entry_witness:
  "\<exists>r. verifyUser (\<lambda>h _. h = fixed_hash) [] 1500 [u_name some_user \<mapsto> some_user\<lparr>u_hash := fixed_hash\<rparr>]
     (u_name some_user) ''secret'' = (r, fixed_hash) \<and> r = Some (some_user\<lparr>u_hash := fixed_hash\<rparr>)"
proof -
  obtain r h where run: "verifyUser (\<lambda>h _. h = fixed_hash) [] 1500 [u_name some_user \<mapsto> some_user\<lparr>u_hash := fixed_hash\<rparr>]
     (u_name some_user) ''secret'' = (r, h)" by fastforce
  have "h = fixed_hash" using login_needs_entry[OF some_file _ run] by simp
  moreover have "r = Some (some_user\<lparr>u_hash := fixed_hash\<rparr>)"
    using run by (auto simp: verifyUser_def Let_def some_user_def)
  ultimately show ?thesis using run by blast
qed

theorem repeated_import_drops_user_witness:
  "\<exists>users. parsePasswdFile False 1000 (disk_files (merge_new (\<lambda>_. IoOk) ''f'' ''f.new.1''
      (merge_new (\<lambda>_. NoClose) ''f'' ''f.new.1''
        (no_files\<lparr>disk_files := [''f.new.1'' \<mapsto> passwd_line fixed_hash some_user]\<rparr>))) ''f'') = Some users \<and>
    users (u_name some_user) = None"
  using repeated_import_drops_user[OF users_good(1) fixed_hash_good text_short(1), of "''f''"
      "no_files\<lparr>disk_files := [''f.new.1'' \<mapsto> passwd_line fixed_hash some_user]\<rparr>" "[]" "''f.new.1''", OF _ _ _ _ _ refl]
  by (auto simp: old_bytes_def ended_def scan_lines_def entries_of_def)

theorem unended_line_loses_user_witness:
  "\<exists>d'. appendPasswdUser (\<lambda>_. Some fixed_hash) IoOk some_user ''f''
        (no_files\<lparr>disk_files := [''f'' \<mapsto> passwd_text fixed_hash other_user]\<rparr>) = (d', True) \<and>
     parsePasswdFile False 1000 (disk_files d' ''f'') = Some [u_name other_user \<mapsto> other_user\<lparr>u_hash := fixed_hash\<rparr>]"
  using unended_line_loses_user[OF users_good(2) fixed_hash_good users_good(1) _ _ _ fixed_hash_good _ text_short(3),
      of "no_files\<lparr>disk_files := [''f'' \<mapsto> passwd_text fixed_hash other_user]\<rparr>" "''f''" "\<lambda>_. Some fixed_hash"]
  by (simp add: some_user_def other_user_def)

end
