(* ===== verification/WebAuth.thy ===== *)
theory WebAuth
  imports Passwd Machine "HOL-Library.AList"
begin

text \<open>
  \<open>webauth.go\<close>: the login of the web server with its cache of verified
  passwords and its limit on failed logins, and the guard against requests from
  other sites. Requests run at the same time: the middleware is a step relation
  whose steps are the sections under \<open>a.mu\<close>. Times are nanoseconds, the zero
  \<open>time.Time\<close> is 0. \<open>sha\<close> is \<open>sha256.Sum256\<close>, \<open>bcrypt\<close> the comparison of
  \<open>verifyUser\<close>. A Go map that is ranged over is an association list, and the
  order of the range an argument.
\<close>

section \<open>State\<close>

definition second :: int where "second = 1000000000"
definition webAuthCacheTTL :: int where "webAuthCacheTTL = 300 * second"
definition webAuthMaxChecks :: nat where "webAuthMaxChecks = 4"
definition webLoginMaxFails :: nat where "webLoginMaxFails = 10"
definition webLoginWindow :: int where "webLoginWindow = 600 * second"
definition webLoginBlock :: int where "webLoginBlock = 600 * second"
definition webLoginTrackMax :: nat where "webLoginTrackMax = 10000"

record loginFails =
  lf_count :: nat
  lf_first :: int
  lf_until :: int

record webAuth =
  wa_users :: "(string \<rightharpoonup> UserData) option"
  wa_stamp :: "int \<times> int"
  wa_cache :: "string \<rightharpoonup> int"
  wa_fails :: "(string \<times> loginFails) list"

section \<open>The users\<close>

text \<open>\<open>load\<close>: \<open>stamp\<close> is what \<open>os.Stat\<close> says of the file, \<open>None\<close> when it fails, and
  \<open>users\<close> the result of \<open>parsePasswdFile\<close>. Whether the map is empty is an argument of
  the parse result: \<open>empty_users\<close>. The result tells whether there was no error.\<close>

definition empty_users :: "(string \<rightharpoonup> UserData) \<Rightarrow> bool" where
  "empty_users users \<longleftrightarrow> dom users = {}"

definition load :: "(int \<times> int) option \<Rightarrow> (string \<rightharpoonup> UserData) option \<Rightarrow> webAuth \<Rightarrow> webAuth \<times> bool" where
  "load stamp users a =
     (case stamp of None \<Rightarrow> (a, False)
      | Some st \<Rightarrow>
     (case users of None \<Rightarrow> (a, False)
      | Some us \<Rightarrow>
          (let a1 = a\<lparr>wa_stamp := st\<rparr> in
           if empty_users us \<and> wa_users a \<noteq> None then (a1, True)
           else (a1\<lparr>wa_users := Some us, wa_cache := Map.empty\<rparr>, True))))"

definition reloadIfChanged :: "(int \<times> int) option \<Rightarrow> (string \<rightharpoonup> UserData) option \<Rightarrow> webAuth \<Rightarrow> webAuth" where
  "reloadIfChanged stamp users a =
     (case stamp of None \<Rightarrow> a
      | Some st \<Rightarrow> (if st \<noteq> wa_stamp a then fst (load stamp users a) else a))"

definition no_webAuth :: webAuth where
  "no_webAuth = \<lparr>wa_users = None, wa_stamp = (0, 0), wa_cache = Map.empty, wa_fails = []\<rparr>"

text \<open>\<open>newWebAuth\<close> after the merge of new files: \<open>None\<close> is its error.\<close>

definition newWebAuth :: "(int \<times> int) option \<Rightarrow> (string \<rightharpoonup> UserData) option \<Rightarrow> webAuth option" where
  "newWebAuth stamp users =
     (case load stamp users no_webAuth of (a, ok) \<Rightarrow>
        if \<not> ok \<or> (case wa_users a of None \<Rightarrow> True | Some us \<Rightarrow> empty_users us) then None else Some a)"

section \<open>The cache of verified passwords\<close>

definition authCacheKey :: "(string \<Rightarrow> string) \<Rightarrow> string \<Rightarrow> string \<Rightarrow> string" where
  "authCacheKey sha user pw = sha (user @ CHR 0x00 # pw)"

definition cached :: "(string \<Rightarrow> string) \<Rightarrow> int \<Rightarrow> string \<Rightarrow> string \<Rightarrow> webAuth \<Rightarrow> bool" where
  "cached sha now user pw a = (case wa_cache a (authCacheKey sha user pw) of None \<Rightarrow> False | Some e \<Rightarrow> now < e)"

text \<open>The last section of \<open>check\<close>: expired entries go, the new one is stored. \<open>now\<close> is
  the time at which \<open>check\<close> began.\<close>

definition store_check :: "(string \<Rightarrow> string) \<Rightarrow> int \<Rightarrow> string \<Rightarrow> string \<Rightarrow> webAuth \<Rightarrow> webAuth" where
  "store_check sha now user pw a =
     a\<lparr>wa_cache := (\<lambda>k. case wa_cache a k of None \<Rightarrow> None | Some e \<Rightarrow> if now > e then None else Some e)
        (authCacheKey sha user pw \<mapsto> now + webAuthCacheTTL)\<rparr>"

section \<open>Failed logins\<close>

definition blockedFor :: "string \<Rightarrow> int \<Rightarrow> webAuth \<Rightarrow> int" where
  "blockedFor ip now a =
     (case map_of (wa_fails a) ip of None \<Rightarrow> 0
      | Some f \<Rightarrow> if now < lf_until f then lf_until f - now else 0)"

definition stale :: "int \<Rightarrow> loginFails \<Rightarrow> bool" where
  "stale now f \<longleftrightarrow> lf_until f < now \<and> webLoginWindow < now - lf_first f"

definition prune_one :: "bool \<Rightarrow> int \<Rightarrow> string \<Rightarrow> (string \<times> loginFails) list \<Rightarrow> (string \<times> loginFails) list" where
  "prune_one keepBlocked now ip fs =
     (case map_of fs ip of None \<Rightarrow> fs
      | Some f \<Rightarrow>
          (if length fs < webLoginTrackMax div 2 then fs
           else if \<not> keepBlocked \<or> lf_until f < now then AList.delete ip fs else fs))"

definition pruneFails :: "string list \<Rightarrow> string list \<Rightarrow> int \<Rightarrow> webAuth \<Rightarrow> webAuth" where
  "pruneFails order1 order2 now a =
     (let fs = filter (\<lambda>p. \<not> stale now (snd p)) (wa_fails a);
          fs1 = fold (prune_one True now) order1 fs;
          fs2 = fold (prune_one False now) order2 fs1
      in a\<lparr>wa_fails := fs2\<rparr>)"

definition loginFailed :: "string list \<Rightarrow> string list \<Rightarrow> string \<Rightarrow> int \<Rightarrow> webAuth \<Rightarrow> webAuth \<times> bool" where
  "loginFailed order1 order2 ip now a =
     (let f = map_of (wa_fails a) ip;
          old = (case f of None \<Rightarrow> True | Some g \<Rightarrow> webLoginWindow < now - lf_first g);
          a1 = (if f = None \<and> webLoginTrackMax \<le> length (wa_fails a) then pruneFails order1 order2 now a else a);
          g = (if old then \<lparr>lf_count = 0, lf_first = now, lf_until = 0\<rparr> else the f);
          n = lf_count g + 1
      in if webLoginMaxFails \<le> n
         then (a1\<lparr>wa_fails := AList.update ip \<lparr>lf_count = 0, lf_first = now, lf_until = now + webLoginBlock\<rparr> (wa_fails a1)\<rparr>, True)
         else (a1\<lparr>wa_fails := AList.update ip (g\<lparr>lf_count := n\<rparr>) (wa_fails a1)\<rparr>, False))"

definition loginOK :: "string \<Rightarrow> webAuth \<Rightarrow> webAuth" where
  "loginOK ip a = a\<lparr>wa_fails := AList.delete ip (wa_fails a)\<rparr>"

section \<open>The middleware\<close>

datatype response = Served | TooManyFails | LoginRequired

text \<open>A request: its credentials, if it has any, and the client's address.\<close>

record webreq =
  rq_auth :: "(string \<times> string) option"
  rq_ip :: string

text \<open>
  Where a request is: before the first look at the cache, before the look at the
  failed logins, let through to \<open>check\<close> (at a time), with the users it read,
  verified, with the password stored, refused, or answered.
\<close>

datatype wpc =
    Arrived | NotCached | Admitted int | Checking int int "string \<rightharpoonup> UserData" | Verified int
  | Stored | Refused int | Done response

text \<open>Two records are kept of the past: the user maps that were in use, and the
  verifications that succeeded, with the user and the time.\<close>

record wsys =
  ws_auth :: webAuth
  ws_now :: int
  ws_threads :: "(webreq \<times> wpc) list"
  ws_published :: "(string \<rightharpoonup> UserData) set"
  ws_log :: "(string \<times> string \<times> UserData \<times> int) set"

definition wat :: "wsys \<Rightarrow> nat \<Rightarrow> webreq \<Rightarrow> wpc \<Rightarrow> bool" where
  "wat s t r p \<longleftrightarrow> t < length (ws_threads s) \<and> ws_threads s ! t = (r, p)"

definition wgo :: "nat \<Rightarrow> webreq \<Rightarrow> wpc \<Rightarrow> webAuth \<Rightarrow> wsys \<Rightarrow> wsys" where
  "wgo t r p a s = s\<lparr>ws_auth := a, ws_threads := (ws_threads s)[t := (r, p)]\<rparr>"

definition is_checking :: "webreq \<times> wpc \<Rightarrow> bool" where
  "is_checking q = (case snd q of Checking _ _ _ \<Rightarrow> True | _ \<Rightarrow> False)"

text \<open>An order that ranges over the whole table.\<close>

definition ranges :: "string list \<Rightarrow> webAuth \<Rightarrow> bool" where
  "ranges order a \<longleftrightarrow> fst ` set (wa_fails a) \<subseteq> set order"

inductive wstep :: "(string \<Rightarrow> string) \<Rightarrow> (string \<Rightarrow> string \<Rightarrow> bool) \<Rightarrow> string \<Rightarrow> wsys \<Rightarrow> wsys \<Rightarrow> bool"
  for sha :: "string \<Rightarrow> string" and bcrypt :: "string \<Rightarrow> string \<Rightarrow> bool" and dummy :: string where
  Arrive: "wstep sha bcrypt dummy s (s\<lparr>ws_threads := ws_threads s @ [(r, Arrived)]\<rparr>)"
| Hit: "wat s t r Arrived \<Longrightarrow> rq_auth r = Some (u, p) \<Longrightarrow> cached sha (ws_now s) u p (ws_auth s) \<Longrightarrow>
    wstep sha bcrypt dummy s (wgo t r (Done Served) (ws_auth s) s)"
| Miss: "wat s t r Arrived \<Longrightarrow> (\<forall>u p. rq_auth r = Some (u, p) \<longrightarrow> \<not> cached sha (ws_now s) u p (ws_auth s)) \<Longrightarrow>
    wstep sha bcrypt dummy s (wgo t r NotCached (ws_auth s) s)"
| Block: "wat s t r NotCached \<Longrightarrow> 0 < blockedFor (rq_ip r) (ws_now s) (ws_auth s) \<Longrightarrow>
    wstep sha bcrypt dummy s (wgo t r (Done TooManyFails) (ws_auth s) s)"
| Anonymous: "wat s t r NotCached \<Longrightarrow> blockedFor (rq_ip r) (ws_now s) (ws_auth s) = 0 \<Longrightarrow> rq_auth r = None \<Longrightarrow>
    wstep sha bcrypt dummy s (wgo t r (Done LoginRequired) (ws_auth s) s)"
| Admit: "wat s t r NotCached \<Longrightarrow> blockedFor (rq_ip r) (ws_now s) (ws_auth s) = 0 \<Longrightarrow> rq_auth r = Some (u, p) \<Longrightarrow>
    wstep sha bcrypt dummy s (wgo t r (Admitted (ws_now s)) (ws_auth s) s)"
| Hit2: "wat s t r (Admitted now) \<Longrightarrow> rq_auth r = Some (u, p) \<Longrightarrow> cached sha (ws_now s) u p (ws_auth s) \<Longrightarrow>
    wstep sha bcrypt dummy s (wgo t r Stored (ws_auth s) s)"
| Reload: "a = reloadIfChanged stamp users (ws_auth s) \<Longrightarrow>
    wstep sha bcrypt dummy s (s\<lparr>ws_auth := a, ws_published := ws_published s \<union> set_option (wa_users a)\<rparr>)"
| Begin: "wat s t r (Admitted now) \<Longrightarrow> wa_users (ws_auth s) = Some users \<Longrightarrow> now \<le> began \<Longrightarrow> began \<le> ws_now s \<Longrightarrow>
    count_if is_checking (ws_threads s) < webAuthMaxChecks \<Longrightarrow>
    wstep sha bcrypt dummy s (wgo t r (Checking now began users) (ws_auth s) s)"
| Verify: "wat s t r (Checking now began users) \<Longrightarrow> rq_auth r = Some (u, p) \<Longrightarrow>
    verifyUser bcrypt dummy (ws_now s div second) users u p = (Some d, h) \<Longrightarrow>
    wstep sha bcrypt dummy s ((wgo t r (Verified began) (ws_auth s) s)\<lparr>ws_log := insert (u, p, d, ws_now s) (ws_log s)\<rparr>)"
| Wrong: "wat s t r (Checking now began users) \<Longrightarrow> rq_auth r = Some (u, p) \<Longrightarrow>
    verifyUser bcrypt dummy (ws_now s div second) users u p = (None, h) \<Longrightarrow>
    wstep sha bcrypt dummy s (wgo t r (Refused now) (ws_auth s) s)"
| Store: "wat s t r (Verified began) \<Longrightarrow> rq_auth r = Some (u, p) \<Longrightarrow>
    wstep sha bcrypt dummy s (wgo t r Stored (store_check sha began u p (ws_auth s)) s)"
| Serve: "wat s t r Stored \<Longrightarrow> wstep sha bcrypt dummy s (wgo t r (Done Served) (loginOK (rq_ip r) (ws_auth s)) s)"
| Refuse: "wat s t r (Refused now) \<Longrightarrow> ranges order1 (ws_auth s) \<Longrightarrow> ranges order2 (ws_auth s) \<Longrightarrow>
    loginFailed order1 order2 (rq_ip r) now (ws_auth s) = (a, blocked) \<Longrightarrow>
    wstep sha bcrypt dummy s (wgo t r (Done LoginRequired) a s)"
| Tick: "0 \<le> d \<Longrightarrow> wstep sha bcrypt dummy s (s\<lparr>ws_now := ws_now s + d\<rparr>)"

text \<open>The server starts with its users loaded and no requests.\<close>

definition wstart :: "webAuth \<Rightarrow> int \<Rightarrow> wsys" where
  "wstart a now = \<lparr>ws_auth = a, ws_now = now, ws_threads = [], ws_published = set_option (wa_users a), ws_log = {}\<rparr>"

section \<open>Lemmas: the table of failed logins\<close>

abbreviation keys :: "(string \<times> 'v) list \<Rightarrow> string set" where
  "keys fs \<equiv> fst ` set fs"

lemma map_of_delete_Some: "map_of (AList.delete k fs) j = Some f \<Longrightarrow> map_of fs j = Some f"
  by (simp add: AList.delete_conv' split: if_splits)

lemma prune_one_keys: "keys (prune_one b now ip fs) \<subseteq> keys fs"
  using AList.dom_delete_subset[of ip fs] by (auto simp: prune_one_def split: option.splits)

lemma prune_one_distinct: "distinct (map fst fs) \<Longrightarrow> distinct (map fst (prune_one b now ip fs))"
  by (auto simp: prune_one_def AList.distinct_delete split: option.splits)

lemma prune_one_length: "length (prune_one b now ip fs) \<le> length fs"
  by (auto simp: prune_one_def AList.length_delete_le split: option.splits)

lemma prune_one_Some: "map_of (prune_one b now ip fs) j = Some f \<Longrightarrow> map_of fs j = Some f"
  by (auto simp: prune_one_def dest: map_of_delete_Some split: option.splits if_splits)

lemma prune_pass_keys: "keys (fold (prune_one b now) order fs) \<subseteq> keys fs"
proof (induction order arbitrary: fs)
  case (Cons ip order)
  then show ?case using prune_one_keys[of b now ip fs] by (simp del: prune_one_def) blast
qed simp

lemma prune_pass_distinct: "distinct (map fst fs) \<Longrightarrow> distinct (map fst (fold (prune_one b now) order fs))"
  by (induction order arbitrary: fs) (simp_all add: prune_one_distinct)

lemma prune_pass_length: "length (fold (prune_one b now) order fs) \<le> length fs"
proof (induction order arbitrary: fs)
  case (Cons ip order)
  show ?case using order_trans[OF Cons.IH prune_one_length[of b now ip fs]] by simp
qed simp

lemma prune_pass_Some: "map_of (fold (prune_one b now) order fs) j = Some f \<Longrightarrow> map_of fs j = Some f"
  by (induction order arbitrary: fs) (auto dest: prune_one_Some)

text \<open>What a pass leaves: less than half a table, or nothing it may delete.\<close>

lemma prune_pass_rest:
  "length (fold (prune_one b now) order fs) < webLoginTrackMax div 2 \<or>
   (\<forall>ip f. map_of (fold (prune_one b now) order fs) ip = Some f \<and> ip \<in> set order \<longrightarrow> b \<and> now \<le> lf_until f)"
proof (induction order arbitrary: fs)
  case (Cons ip order)
  let ?fs = "prune_one b now ip fs"
  show ?case
  proof (cases "length ?fs < webLoginTrackMax div 2")
    case True
    then show ?thesis using prune_pass_length[of b now order ?fs] by simp
  next
    case False
    have "b \<and> now \<le> lf_until f" if "map_of (fold (prune_one b now) order ?fs) ip = Some f" for f
    proof -
      have f: "map_of ?fs ip = Some f" using prune_pass_Some[OF that] .
      then have "map_of fs ip = Some f" by (rule prune_one_Some)
      then show ?thesis
        using f False by (auto simp: prune_one_def AList.delete_conv' split: if_splits)
    qed
    then show ?thesis using Cons[of ?fs] by auto
  qed
qed simp

lemma prune_pass_keeps:
  assumes "map_of fs ip = Some f" and "now \<le> lf_until f"
  shows "map_of (fold (prune_one True now) order fs) ip = Some f"
  using assms(1)
proof (induction order arbitrary: fs)
  case (Cons i order)
  have "map_of (prune_one True now i fs) ip = Some f"
    using Cons.prems assms(2) by (auto simp: prune_one_def AList.delete_conv' split: option.splits)
  then show ?case using Cons.IH by simp
qed simp

lemma prune_pass_id: "length fs < webLoginTrackMax div 2 \<Longrightarrow> fold (prune_one b now) order fs = fs"
  by (induction order) (auto simp: prune_one_def split: option.splits)

definition fails_ok :: "webAuth \<Rightarrow> bool" where
  "fails_ok a \<longleftrightarrow> distinct (map fst (wa_fails a)) \<and> length (wa_fails a) \<le> webLoginTrackMax \<and>
     (\<forall>ip f. map_of (wa_fails a) ip = Some f \<longrightarrow> lf_count f < webLoginMaxFails)"

lemma filter_Some: "distinct (map fst fs) \<Longrightarrow> map_of (filter P fs) ip = Some f \<Longrightarrow> map_of fs ip = Some f"
  using map_of_SomeD[of "filter P fs" ip f] map_of_is_SomeI[of fs ip f] by simp

lemma filter_keys: "keys (filter P fs) \<subseteq> keys fs"
  by auto

lemma prune_table:
  assumes "distinct (map fst (wa_fails a))" and "ranges order1 a" and "ranges order2 a"
  shows "distinct (map fst (wa_fails (pruneFails order1 order2 now a)))"
    and "length (wa_fails (pruneFails order1 order2 now a)) < webLoginTrackMax div 2"
    and "map_of (wa_fails (pruneFails order1 order2 now a)) ip = Some f \<Longrightarrow> map_of (wa_fails a) ip = Some f"
proof -
  define fs where "fs = filter (\<lambda>p. \<not> stale now (snd p)) (wa_fails a)"
  define fs1 where "fs1 = fold (prune_one True now) order1 fs"
  define fs2 where "fs2 = fold (prune_one False now) order2 fs1"
  have p: "wa_fails (pruneFails order1 order2 now a) = fs2"
    by (simp add: pruneFails_def fs_def fs1_def fs2_def Let_def)
  have d: "distinct (map fst fs)" using assms(1) by (simp add: fs_def distinct_map_filter)
  then show "distinct (map fst (wa_fails (pruneFails order1 order2 now a)))"
    by (simp add: p fs2_def fs1_def prune_pass_distinct)
  have keys2: "keys fs2 \<subseteq> set order2"
    using prune_pass_keys[of False now order2 fs1] prune_pass_keys[of True now order1 fs] assms(3)
    unfolding fs2_def[symmetric] fs1_def[symmetric] by (auto simp: fs_def ranges_def)
  have "fs2 = []" if "\<not> length fs2 < webLoginTrackMax div 2"
  proof -
    have "map_of fs2 ip \<noteq> Some f" if "ip \<in> set order2" for ip f
      using prune_pass_rest[of False now order2 fs1] that \<open>\<not> length fs2 < _\<close> by (auto simp: fs2_def)
    then have "keys fs2 = {}"
      using keys2 by (metis (no_types, lifting) equals0I map_of_eq_None_iff not_None_eq subsetD)
    then show ?thesis by simp
  qed
  then show "length (wa_fails (pruneFails order1 order2 now a)) < webLoginTrackMax div 2"
    by (cases "length fs2 < webLoginTrackMax div 2") (auto simp: p webLoginTrackMax_def)
  assume "map_of (wa_fails (pruneFails order1 order2 now a)) ip = Some f"
  then have "map_of fs ip = Some f"
    unfolding p fs2_def fs1_def by (blast dest: prune_pass_Some)
  then show "map_of (wa_fails a) ip = Some f"
    using filter_Some[OF assms(1)] by (simp add: fs_def)
qed

lemma update_length: "length (AList.update k v fs) = (if k \<in> keys fs then length fs else Suc (length fs))"
  by (induction fs) auto

text \<open>How \<open>loginFailed\<close> changes the table.\<close>

lemma loginFailed_table:
  assumes "fails_ok a" and "ranges order1 a" and "ranges order2 a"
    and "loginFailed order1 order2 ip now a = (a', b)"
  shows "fails_ok a'"
proof -
  let ?full = "map_of (wa_fails a) ip = None \<and> webLoginTrackMax \<le> length (wa_fails a)"
  define a1 where "a1 = (if ?full then pruneFails order1 order2 now a else a)"
  have d: "distinct (map fst (wa_fails a))" and l: "length (wa_fails a) \<le> webLoginTrackMax"
    and c: "map_of (wa_fails a) i = Some f \<Longrightarrow> lf_count f < webLoginMaxFails" for i f
    using assms(1) by (auto simp: fails_ok_def)
  note pr = prune_table[OF d assms(2,3), of now]
  have a1: "distinct (map fst (wa_fails a1))" "map_of (wa_fails a1) i = Some f \<Longrightarrow> map_of (wa_fails a) i = Some f" for i f
    using d pr(1,3) unfolding a1_def by (cases ?full; simp del: map_of_eq_Some_iff)+
  have room: "ip \<in> keys (wa_fails a1) \<or> length (wa_fails a1) < webLoginTrackMax"
    using pr(2) l by (auto simp: a1_def webLoginTrackMax_def map_of_eq_None_iff)
  have len1: "length (wa_fails a1) \<le> webLoginTrackMax"
    using pr(2) l by (auto simp: a1_def webLoginTrackMax_def)
  obtain g where g: "wa_fails a' = AList.update ip g (wa_fails a1)" "lf_count g < webLoginMaxFails"
    using assms(4) c[of ip]
    by (auto simp: loginFailed_def Let_def webLoginMaxFails_def simp flip: a1_def split: if_splits)
  then show ?thesis
    using a1 c room len1
    by (auto simp: fails_ok_def AList.distinct_update update_length AList.update_conv' split: if_splits)
qed

lemma loginOK_table: "fails_ok a \<Longrightarrow> fails_ok (loginOK ip a)"
  using AList.length_delete_le[of ip "wa_fails a"]
  by (auto simp: fails_ok_def loginOK_def AList.distinct_delete simp del: map_of_eq_Some_iff dest!: map_of_delete_Some)

lemma other_tables [simp]:
  "wa_fails (reloadIfChanged stamp users a) = wa_fails a"
  "wa_fails (store_check sha now u p a) = wa_fails a"
  by (auto simp: reloadIfChanged_def load_def store_check_def Let_def split: option.splits)

section \<open>Lemmas: who is served\<close>

definition verified :: "wsys \<Rightarrow> string \<Rightarrow> string \<Rightarrow> bool" where
  "verified s u p \<longleftrightarrow> (\<exists>d t. (u, p, d, t) \<in> ws_log s)"

definition same_key :: "(string \<Rightarrow> string) \<Rightarrow> wsys \<Rightarrow> webreq \<Rightarrow> bool" where
  "same_key sha s r \<longleftrightarrow> (\<exists>u p u' p'. rq_auth r = Some (u, p) \<and> verified s u' p' \<and>
     authCacheKey sha u p = authCacheKey sha u' p')"

fun thread_ok :: "(string \<Rightarrow> string) \<Rightarrow> wsys \<Rightarrow> webreq \<times> wpc \<Rightarrow> bool" where
  "thread_ok sha s (r, Checking now began users) = (users \<in> ws_published s)"
| "thread_ok sha s (r, Verified began) = (\<exists>u p. rq_auth r = Some (u, p) \<and> verified s u p)"
| "thread_ok sha s (r, Stored) = same_key sha s r"
| "thread_ok sha s (r, Done res) = (res = Served \<longrightarrow> same_key sha s r)"
| "thread_ok sha s (r, p) = True"

definition log_ok :: "(string \<Rightarrow> string \<Rightarrow> bool) \<Rightarrow> wsys \<Rightarrow> bool" where
  "log_ok bcrypt s \<longleftrightarrow> (\<forall>(u, p, d, t) \<in> ws_log s. t \<le> ws_now s \<and> bcrypt (u_hash d) p \<and>
     (u_expire d \<noteq> 0 \<longrightarrow> t div second \<le> u_expire d) \<and> (\<exists>us \<in> ws_published s. us u = Some d))"

definition cache_ok :: "(string \<Rightarrow> string) \<Rightarrow> wsys \<Rightarrow> webAuth \<Rightarrow> bool" where
  "cache_ok sha s a \<longleftrightarrow> (\<forall>k \<in> dom (wa_cache a). \<exists>u p. k = authCacheKey sha u p \<and> verified s u p)"

definition winv :: "(string \<Rightarrow> string) \<Rightarrow> (string \<Rightarrow> string \<Rightarrow> bool) \<Rightarrow> wsys \<Rightarrow> bool" where
  "winv sha bcrypt s \<longleftrightarrow> fails_ok (ws_auth s) \<and> set_option (wa_users (ws_auth s)) \<subseteq> ws_published s \<and>
     cache_ok sha s (ws_auth s) \<and> log_ok bcrypt s \<and> (\<forall>q \<in> set (ws_threads s). thread_ok sha s q) \<and>
     count_if is_checking (ws_threads s) \<le> webAuthMaxChecks"

text \<open>The past only grows.\<close>

definition later :: "wsys \<Rightarrow> wsys \<Rightarrow> bool" where
  "later s s' \<longleftrightarrow> ws_published s \<subseteq> ws_published s' \<and> ws_log s \<subseteq> ws_log s' \<and> ws_now s \<le> ws_now s'"

lemma verified_later: "later s s' \<Longrightarrow> verified s u p \<Longrightarrow> verified s' u p"
  by (auto simp: later_def verified_def)

lemma thread_later: "later s s' \<Longrightarrow> thread_ok sha s q \<Longrightarrow> thread_ok sha s' q"
proof -
  assume l: "later s s'"
  obtain r p where q: "q = (r, p)" by fastforce
  have "same_key sha s r \<Longrightarrow> same_key sha s' r"
    unfolding same_key_def using verified_later[OF l] by blast
  moreover assume "thread_ok sha s q"
  ultimately show "thread_ok sha s' q"
    using l verified_later[OF l] unfolding q by (cases p) (auto simp: later_def)
qed

lemma cache_later: "later s s' \<Longrightarrow> cache_ok sha s a \<Longrightarrow> cache_ok sha s' a"
  unfolding cache_ok_def using verified_later by blast

lemma wgo_fields [simp]:
  "ws_auth (wgo t r p a s) = a" "ws_now (wgo t r p a s) = ws_now s"
  "ws_published (wgo t r p a s) = ws_published s" "ws_log (wgo t r p a s) = ws_log s"
  by (simp_all add: wgo_def)

lemma later_wgo [simp]: "later s (wgo t r p a s)"
  by (simp add: later_def)

lemma wat_thread: "wat s t r p \<Longrightarrow> (r, p) \<in> set (ws_threads s)"
  by (auto simp: wat_def in_set_conv_nth)

lemma wgo_threads: "q \<in> set (ws_threads (wgo t r p a s)) \<Longrightarrow> q = (r, p) \<or> q \<in> set (ws_threads s)"
  using set_update_subset_insert[of "ws_threads s" t "(r, p)"] by (auto simp: wgo_def)

lemma wgo_checking:
  "wat s t r p0 \<Longrightarrow> \<not> is_checking (r, p) \<Longrightarrow> count_if is_checking (ws_threads (wgo t r p a s)) \<le> count_if is_checking (ws_threads s)"
  using count_if_update[of t "ws_threads s" is_checking "(r, p)"] by (auto simp: wat_def wgo_def)

lemma thread_wgo: "thread_ok sha s q \<Longrightarrow> thread_ok sha (wgo t r p a s) q"
  by (rule thread_later[OF later_wgo])

text \<open>A step of one request that adds nothing to the past.\<close>

lemma winv_wgo:
  assumes "winv sha bcrypt s" and "wat s t r p0" and "\<not> is_checking (r, p)"
    and "fails_ok a" and "wa_users a = wa_users (ws_auth s)" and "cache_ok sha s a" and "thread_ok sha s (r, p)"
  shows "winv sha bcrypt (wgo t r p a s)"
proof -
  have "thread_ok sha (wgo t r p a s) q" if "q \<in> set (ws_threads (wgo t r p a s))" for q
    using wgo_threads[OF that] assms(1,7) thread_wgo unfolding winv_def by blast
  moreover have "count_if is_checking (ws_threads (wgo t r p a s)) \<le> webAuthMaxChecks"
    using wgo_checking[OF assms(2,3)] assms(1) by (auto simp: winv_def intro: le_trans)
  ultimately show ?thesis
    using assms(1,4,5) cache_later[OF later_wgo assms(6)] by (simp add: winv_def log_ok_def)
qed

lemma winv_same:
  assumes "wat s t r p0" and "winv sha bcrypt s" and "\<not> is_checking (r, p)" and "thread_ok sha s (r, p)"
  shows "winv sha bcrypt (wgo t r p (ws_auth s) s)"
  using assms by (intro winv_wgo[OF assms(2,1)]) (simp_all add: winv_def)

lemma cached_key: "cached sha now u p a \<Longrightarrow> authCacheKey sha u p \<in> dom (wa_cache a)"
  by (auto simp: cached_def split: option.splits)

lemma hit_same_key:
  assumes "winv sha bcrypt s" and "rq_auth r = Some (u, p)" and "cached sha now u p (ws_auth s)"
  shows "same_key sha s r"
  using assms(1,2) cached_key[OF assms(3)] by (fastforce simp: winv_def cache_ok_def same_key_def)

lemma reload_cache: "cache_ok sha s a \<Longrightarrow> cache_ok sha s (reloadIfChanged stamp users a)"
  by (auto simp: cache_ok_def reloadIfChanged_def load_def Let_def split: option.splits)

lemma store_cache:
  "cache_ok sha s a \<Longrightarrow> verified s u p \<Longrightarrow> cache_ok sha s (store_check sha now u p a)"
proof -
  have "dom (wa_cache (store_check sha now u p a)) \<subseteq> insert (authCacheKey sha u p) (dom (wa_cache a))"
    by (auto simp: store_check_def split: option.splits if_splits)
  then show "cache_ok sha s a \<Longrightarrow> verified s u p \<Longrightarrow> ?thesis"
    unfolding cache_ok_def by blast
qed

lemma winv_thread: "winv sha bcrypt s \<Longrightarrow> wat s t r p \<Longrightarrow> thread_ok sha s (r, p)"
  unfolding winv_def using wat_thread by blast

lemma winv_step: "wstep sha bcrypt dummy s s' \<Longrightarrow> winv sha bcrypt s \<Longrightarrow> winv sha bcrypt s'"
proof (induction rule: wstep.induct)
  case (Arrive s r)
  let ?s' = "s\<lparr>ws_threads := ws_threads s @ [(r, Arrived)]\<rparr>"
  have "later s ?s'" by (simp add: later_def)
  then show ?case
    using Arrive thread_later[of s ?s'] cache_later[of s ?s'] by (auto simp: winv_def log_ok_def is_checking_def)
next
  case (Reload a stamp users s)
  let ?s' = "s\<lparr>ws_auth := a, ws_published := ws_published s \<union> set_option (wa_users a)\<rparr>"
  have "later s ?s'" by (auto simp: later_def)
  then show ?case
    using Reload thread_later[of s ?s'] cache_later[of s ?s'] reload_cache
    by (auto simp: winv_def log_ok_def fails_ok_def)
next
  case (Begin s t r now users began)
  have "thread_ok sha (wgo t r (Checking now began users) (ws_auth s) s) q"
    if "q \<in> set (ws_threads (wgo t r (Checking now began users) (ws_auth s) s))" for q
  proof -
    have "thread_ok sha s (r, Checking now began users)" using Begin by (simp add: winv_def)
    then show ?thesis using wgo_threads[OF that] Begin(6) thread_wgo unfolding winv_def by blast
  qed
  moreover have "count_if is_checking (ws_threads (wgo t r (Checking now began users) (ws_auth s) s)) \<le> webAuthMaxChecks"
    using Begin(1,5) count_if_update[of t "ws_threads s" is_checking "(r, Checking now began users)"]
    by (auto simp: wat_def wgo_def is_checking_def)
  ultimately show ?case
    using Begin cache_later[OF later_wgo] by (auto simp: winv_def log_ok_def)
next
  case (Verify s t r now began users u p d h)
  let ?s1 = "s\<lparr>ws_log := insert (u, p, d, ws_now s) (ws_log s)\<rparr>"
  have l: "later s ?s1" by (auto simp: later_def)
  have users: "users \<in> ws_published s" using winv_thread[OF Verify(4,1)] by simp
  have "users u = Some d" "bcrypt (u_hash d) p" "u_expire d \<noteq> 0 \<longrightarrow> ws_now s div second \<le> u_expire d"
    using Verify(3) by (auto simp: verifyUser_def Let_def split: option.splits if_splits)
  moreover from this users have "\<exists>us \<in> ws_published s. us u = Some d" by blast
  ultimately have "log_ok bcrypt ?s1"
    using Verify(4) unfolding winv_def log_ok_def by simp
  then have "winv sha bcrypt ?s1"
    using Verify(4) thread_later[OF l] cache_later[OF l] unfolding winv_def by simp
  moreover have "verified ?s1 u p" by (auto simp: verified_def)
  ultimately have "winv sha bcrypt (wgo t r (Verified began) (ws_auth s) ?s1)"
    using Verify(1,2) by (intro winv_wgo[where ?p0.0 = "Checking now began users"]) (simp_all add: winv_def wat_def is_checking_def)
  then show ?case by (cases s) (simp add: wgo_def)
next
  case (Tick d s)
  have "later s (s\<lparr>ws_now := ws_now s + d\<rparr>)" using Tick by (simp add: later_def)
  then show ?case
    using Tick thread_later[of s "s\<lparr>ws_now := ws_now s + d\<rparr>"] cache_later[of s "s\<lparr>ws_now := ws_now s + d\<rparr>"]
    by (fastforce simp: winv_def log_ok_def)
next
  case (Store s t r began u p)
  have "verified s u p" "same_key sha s r"
    using Store(2) winv_thread[OF Store(3,1)] unfolding same_key_def by auto
  then show ?case
    using Store store_cache[of sha s "ws_auth s" u p began]
    by (intro winv_wgo[OF Store(3,1)]) (auto simp: winv_def is_checking_def fails_ok_def, auto simp: store_check_def)
next
  case (Serve s t r)
  then show ?case
    using winv_thread[OF Serve(2,1)]
    by (intro winv_wgo[OF Serve(2,1)]) (auto simp: winv_def is_checking_def loginOK_table, auto simp: loginOK_def cache_ok_def)
next
  case (Refuse s t r now order1 order2 a blocked)
  have "wa_users a = wa_users (ws_auth s)" "wa_cache a = wa_cache (ws_auth s)"
    using Refuse(4) by (auto simp: loginFailed_def pruneFails_def Let_def split: if_splits)
  then show ?case
    using Refuse loginFailed_table[OF _ Refuse(2-4)]
    by (intro winv_wgo[OF Refuse(5,1)]) (auto simp: winv_def is_checking_def cache_ok_def)
qed (auto intro!: winv_same simp: is_checking_def dest: hit_same_key)

lemma winv_start: "fails_ok a \<Longrightarrow> wa_cache a = Map.empty \<Longrightarrow> winv sha bcrypt (wstart a now)"
  by (simp add: winv_def wstart_def cache_ok_def log_ok_def)

lemma new_fresh: "newWebAuth stamp users = Some a \<Longrightarrow> fails_ok a \<and> wa_cache a = Map.empty"
  by (auto simp: newWebAuth_def load_def no_webAuth_def fails_ok_def Let_def split: option.splits if_splits)

interpretation web_login: machine
  "\<lambda>s. \<exists>stamp users a now. newWebAuth stamp users = Some a \<and> s = wstart a now"
  "wstep sha bcrypt dummy" "winv sha bcrypt" for sha bcrypt dummy
  by unfold_locales (auto intro: winv_start winv_step dest: new_fresh)

lemma web_reach:
  assumes "(wstep sha bcrypt dummy)\<^sup>*\<^sup>* (wstart a now) s" and "newWebAuth stamp users = Some a"
  shows "winv sha bcrypt s"
  using web_login.inv_reach[OF _ assms(1)] assms(2) by blast

section \<open>Lemmas: failures in a row\<close>

fun fail_at :: "string list \<Rightarrow> string list \<Rightarrow> string \<Rightarrow> int list \<Rightarrow> webAuth \<Rightarrow> webAuth" where
  "fail_at o1 o2 ip [] a = a"
| "fail_at o1 o2 ip (t # ts) a = fail_at o1 o2 ip ts (fst (loginFailed o1 o2 ip t a))"

lemma first_failure:
  assumes "map_of (wa_fails a) ip = None"
  shows "map_of (wa_fails (fst (loginFailed o1 o2 ip t a))) ip = Some \<lparr>lf_count = 1, lf_first = t, lf_until = 0\<rparr>"
  using assms by (simp add: loginFailed_def Let_def webLoginMaxFails_def AList.update_conv')

lemma next_failure:
  assumes "map_of (wa_fails a) ip = Some \<lparr>lf_count = n, lf_first = t0, lf_until = 0\<rparr>" and "t - t0 \<le> webLoginWindow"
  shows "map_of (wa_fails (fst (loginFailed o1 o2 ip t a))) ip =
    Some (if webLoginMaxFails \<le> n + 1 then \<lparr>lf_count = 0, lf_first = t, lf_until = t + webLoginBlock\<rparr>
          else \<lparr>lf_count = n + 1, lf_first = t0, lf_until = 0\<rparr>)"
  using assms by (simp add: loginFailed_def Let_def AList.update_conv')

lemma fail_at_snoc: "fail_at o1 o2 ip (ts @ [t]) a = fst (loginFailed o1 o2 ip t (fail_at o1 o2 ip ts a))"
  by (induction ts arbitrary: a) simp_all

lemma fewer_failures:
  assumes "map_of (wa_fails a) ip = None" and "\<forall>t \<in> set (t0 # ts). t - t0 \<le> webLoginWindow" and "length ts + 1 < webLoginMaxFails"
  shows "map_of (wa_fails (fail_at o1 o2 ip (t0 # ts) a)) ip = Some \<lparr>lf_count = length ts + 1, lf_first = t0, lf_until = 0\<rparr>"
  using assms(2,3)
proof (induction ts rule: rev_induct)
  case Nil
  then show ?case using first_failure[OF assms(1)] by simp
next
  case (snoc t ts)
  then have "map_of (wa_fails (fail_at o1 o2 ip (t0 # ts) a)) ip = Some \<lparr>lf_count = length ts + 1, lf_first = t0, lf_until = 0\<rparr>"
    by simp
  from next_failure[OF this, of t o1 o2] show ?case
    using snoc.prems fail_at_snoc[of o1 o2 ip "t0 # ts" t a] by simp
qed

section \<open>Lemmas: concrete interleavings\<close>

abbreviation wsteps :: "(string \<Rightarrow> string) \<Rightarrow> (string \<Rightarrow> string \<Rightarrow> bool) \<Rightarrow> string \<Rightarrow> wsys \<Rightarrow> wsys \<Rightarrow> bool" where
  "wsteps sha bcrypt dummy \<equiv> (wstep sha bcrypt dummy)\<^sup>*\<^sup>*"

definition threads :: "wsys \<Rightarrow> (webreq \<times> wpc) list \<Rightarrow> webAuth \<Rightarrow> wsys" where
  "threads s ts a = s\<lparr>ws_auth := a, ws_threads := ts\<rparr>"

lemma threads_fields [simp]:
  "ws_auth (threads s ts a) = a" "ws_threads (threads s ts a) = ts" "ws_now (threads s ts a) = ws_now s"
  "threads (threads s ts a) us b = threads s us b"
  by (simp_all add: threads_def)

lemma threads_id: "threads s (ws_threads s) (ws_auth s) = s"
  by (simp add: threads_def)

lemma wgo_threads_at: "wgo (length xs) r q b (threads s (xs @ (r, p) # ys) a) = threads s (xs @ (r, q) # ys) b"
  by (simp add: wgo_def threads_def)

lemma wat_threads_at: "wat (threads s (xs @ (r, p) # ys) a) (length xs) r p"
  by (simp add: wat_def threads_def)

text \<open>A step that each of the requests can take, taken by all of them.\<close>

lemma all_step:
  assumes "\<And>xs ys. wstep sha bcrypt dummy (threads s (xs @ (r, p) # ys) a) (threads s (xs @ (r, q) # ys) a)"
  shows "wsteps sha bcrypt dummy (threads s (xs @ replicate n (r, p)) a) (threads s (xs @ replicate n (r, q)) a)"
proof (induction n arbitrary: xs)
  case (Suc n)
  have "wstep sha bcrypt dummy (threads s (xs @ replicate (Suc n) (r, p)) a) (threads s ((xs @ [(r, q)]) @ replicate n (r, p)) a)"
    using assms[of xs "replicate n (r, p)"] by simp
  also have "wsteps sha bcrypt dummy (threads s ((xs @ [(r, q)]) @ replicate n (r, p)) a) (threads s ((xs @ [(r, q)]) @ replicate n (r, q)) a)"
    by (rule Suc.IH)
  finally show ?case by simp
qed simp

lemma all_arrive: "wsteps sha bcrypt dummy (threads s xs a) (threads s (xs @ replicate n (r, Arrived)) a)"
proof (induction n arbitrary: xs)
  case (Suc n)
  have "wstep sha bcrypt dummy (threads s xs a) (threads s (xs @ [(r, Arrived)]) a)"
    using Arrive[of sha bcrypt dummy "threads s xs a" r] by (simp add: threads_def)
  also have "wsteps sha bcrypt dummy (threads s (xs @ [(r, Arrived)]) a) (threads s ((xs @ [(r, Arrived)]) @ replicate n (r, Arrived)) a)"
    by (rule Suc.IH)
  finally show ?case by simp
qed simp

lemma all_admitted:
  assumes "rq_auth r = Some (u, p)" and "\<not> cached sha (ws_now s) u p a" and "blockedFor (rq_ip r) (ws_now s) a = 0"
  shows "wsteps sha bcrypt dummy (threads s [] a) (threads s (replicate n (r, Admitted (ws_now s))) a)"
proof -
  have "wsteps sha bcrypt dummy (threads s [] a) (threads s (replicate n (r, Arrived)) a)"
    using all_arrive[of sha bcrypt dummy s "[]" a n r] by simp
  also have "wsteps sha bcrypt dummy (threads s (replicate n (r, Arrived)) a) (threads s (replicate n (r, NotCached)) a)"
    using all_step[of sha bcrypt dummy s r Arrived a NotCached "[]" n] Miss[OF wat_threads_at] assms(1,2)
    by (simp add: wgo_threads_at)
  also have "wsteps sha bcrypt dummy (threads s (replicate n (r, NotCached)) a) (threads s (replicate n (r, Admitted (ws_now s))) a)"
    using all_step[of sha bcrypt dummy s r NotCached a "Admitted (ws_now s)" "[]" n] Admit[OF wat_threads_at] assms(1,3)
    by (simp add: wgo_threads_at)
  finally show ?thesis .
qed

lemma wrong_guess:
  assumes "rq_auth r = Some (u, p)" and "wa_users a = Some users" and "\<And>h. \<not> bcrypt h p" and "count_if is_checking (xs @ ys) = 0"
  shows "\<exists>a'. wa_users a' = Some users \<and>
    wsteps sha bcrypt dummy (threads s (xs @ (r, Admitted (ws_now s)) # ys) a) (threads s (xs @ (r, Done LoginRequired) # ys) a')"
proof -
  let ?o = "map fst (wa_fails a)"
  obtain a' b where f: "loginFailed ?o ?o (rq_ip r) (ws_now s) a = (a', b)" by fastforce
  have no: "verifyUser bcrypt dummy (ws_now s div second) users u p = (None, snd (verifyUser bcrypt dummy (ws_now s div second) users u p))"
    using assms(3) by (auto simp: verifyUser_def Let_def split: option.split)
  let ?t = "\<lambda>q b. threads s (xs @ (r, q) # ys) b"
  have "wstep sha bcrypt dummy (?t (Admitted (ws_now s)) a) (?t (Checking (ws_now s) (ws_now s) users) a)"
    using Begin[OF wat_threads_at[of s xs r "Admitted (ws_now s)" ys a], of users "ws_now s" sha bcrypt dummy] assms(2,4)
    by (simp add: wgo_threads_at is_checking_def webAuthMaxChecks_def)
  moreover have "wstep sha bcrypt dummy (?t (Checking (ws_now s) (ws_now s) users) a) (?t (Refused (ws_now s)) a)"
    using Wrong[OF wat_threads_at[of s xs r "Checking (ws_now s) (ws_now s) users" ys a] assms(1), where sha = sha] no
    by (simp add: wgo_threads_at)
  moreover have "wstep sha bcrypt dummy (?t (Refused (ws_now s)) a) (?t (Done LoginRequired) a')"
    using Refuse[OF wat_threads_at, of ?o s xs r "ws_now s" ys a ?o a' b sha bcrypt dummy] f
    by (simp add: wgo_threads_at ranges_def)
  moreover have "wa_users a' = Some users"
    using f assms(2) by (auto simp: loginFailed_def pruneFails_def Let_def split: if_splits)
  ultimately show ?thesis
    by (meson converse_rtranclp_into_rtranclp rtranclp.rtrancl_refl)
qed

lemma wrong_guesses:
  assumes "rq_auth r = Some (u, p)" and "wa_users a = Some users" and "\<And>h. \<not> bcrypt h p"
  shows "\<exists>a'. wsteps sha bcrypt dummy (threads s (replicate k (r, Done LoginRequired) @ replicate n (r, Admitted (ws_now s))) a)
    (threads s (replicate (k + n) (r, Done LoginRequired)) a')"
  using assms(2)
proof (induction n arbitrary: k a)
  case (Suc n)
  let ?done = "replicate k (r, Done LoginRequired)" and ?rest = "replicate n (r, Admitted (ws_now s))"
  have "count_if is_checking (?done @ ?rest) = 0"
    by (simp add: count_if_def is_checking_def)
  then obtain a' where a': "wa_users a' = Some users"
    "wsteps sha bcrypt dummy (threads s (?done @ (r, Admitted (ws_now s)) # ?rest) a) (threads s (?done @ (r, Done LoginRequired) # ?rest) a')"
    using wrong_guess[where bcrypt = bcrypt and s = s and sha = sha and dummy = dummy, OF assms(1) Suc.prems assms(3), of ?done ?rest] by blast
  obtain a'' where "wsteps sha bcrypt dummy (threads s (replicate (Suc k) (r, Done LoginRequired) @ ?rest) a')
      (threads s (replicate (Suc k + n) (r, Done LoginRequired)) a'')"
    using Suc.IH[OF a'(1), of "Suc k"] by blast
  then show ?case
    using a'(2) by (auto simp: replicate_app_Cons_same intro: rtranclp_trans)
qed auto

lemma verified_run:
  assumes "newWebAuth stamp (Some old) = Some a" and "old u = Some d" and "bcrypt (u_hash d) p" and "u_expire d = 0"
    and "rq_auth (r :: webreq) = Some (u, p)"
  shows "wa_users a = Some old"
    and "wsteps sha bcrypt dummy (wstart a now) ((threads (wstart a now) [(r, Verified now)] a)\<lparr>ws_log := {(u, p, d, now)}\<rparr>)"
proof -
  let ?s = "wstart a now"
  show a: "wa_users a = Some old"
    using assms(1) by (auto simp: newWebAuth_def load_def no_webAuth_def Let_def split: option.splits if_splits)
  have f: "wa_fails a = []" "wa_cache a = Map.empty"
    using assms(1) by (auto simp: newWebAuth_def load_def no_webAuth_def Let_def split: option.splits if_splits)
  have start: "threads ?s [] a = ?s" by (simp add: threads_def wstart_def)
  have now: "ws_now ?s = now" by (simp add: wstart_def)
  have "wsteps sha bcrypt dummy ?s (threads ?s [(r, Admitted now)] a)"
    using all_admitted[OF assms(5), of sha ?s a bcrypt dummy 1] f by (simp add: start now cached_def blockedFor_def)
  moreover have "wstep sha bcrypt dummy (threads ?s [(r, Admitted now)] a) (threads ?s [(r, Checking now now old)] a)"
    using Begin[of "threads ?s [(r, Admitted now)] a" 0 r now old now sha bcrypt dummy] a
    by (simp add: wat_def wgo_def threads_def is_checking_def webAuthMaxChecks_def wstart_def)
  moreover have "wstep sha bcrypt dummy (threads ?s [(r, Checking now now old)] a)
      ((threads ?s [(r, Verified now)] a)\<lparr>ws_log := {(u, p, d, now)}\<rparr>)"
    using Verify[of "threads ?s [(r, Checking now now old)] a" 0 r now now old u p bcrypt dummy d "u_hash d" sha] assms(2-5)
    by (simp add: wat_def wgo_def threads_def wstart_def verifyUser_def Let_def)
  ultimately show "wsteps sha bcrypt dummy ?s ((threads ?s [(r, Verified now)] a)\<lparr>ws_log := {(u, p, d, now)}\<rparr>)"
    by (meson rtranclp.rtrancl_into_rtrancl)
qed

section \<open>Properties\<close>


text \<open>The table of failed logins is bounded, no address has reached the limit without
  being blocked, and at most four passwords are compared at a time.\<close>

theorem failed_logins_bounded:
  assumes "newWebAuth stamp users = Some a" and "wsteps sha bcrypt dummy (wstart a now) s"
  shows "length (wa_fails (ws_auth s)) \<le> webLoginTrackMax \<and>
    (\<forall>f \<in> set (map snd (wa_fails (ws_auth s))). lf_count f < webLoginMaxFails) \<and>
    count_if is_checking (ws_threads s) \<le> webAuthMaxChecks"
  using web_reach[OF assms(2,1)] by (auto simp: winv_def fails_ok_def)

text \<open>Ten failures block. An address without a record is not blocked by nine failures
  within the window; the tenth blocks it for ten minutes.\<close>

theorem ten_failures_block:
  assumes "map_of (wa_fails a) ip = None" and "\<forall>t \<in> set (t0 # ts). t - t0 \<le> webLoginWindow" and "0 \<le> now"
  shows "(length (t0 # ts) < webLoginMaxFails \<longrightarrow> blockedFor ip now (fail_at o1 o2 ip (t0 # ts) a) = 0) \<and>
    (length (t0 # ts) = webLoginMaxFails \<longrightarrow>
       blockedFor ip now (fail_at o1 o2 ip (t0 # ts) a) = max 0 (last ts + webLoginBlock - now))"
proof (intro conjI impI)
  assume "length (t0 # ts) < webLoginMaxFails"
  then show "blockedFor ip now (fail_at o1 o2 ip (t0 # ts) a) = 0"
    using fewer_failures[OF assms(1,2), of o1 o2] assms(3) by (simp add: blockedFor_def)
next
  assume ten: "length (t0 # ts) = webLoginMaxFails"
  then obtain us t where ts: "ts = us @ [t]" by (cases ts rule: rev_cases) (auto simp: webLoginMaxFails_def)
  have "map_of (wa_fails (fail_at o1 o2 ip (t0 # us) a)) ip = Some \<lparr>lf_count = length us + 1, lf_first = t0, lf_until = 0\<rparr>"
    using fewer_failures[OF assms(1), of t0 us o1 o2] assms(2) ten ts by simp
  from next_failure[OF this, of t o1 o2] show "blockedFor ip now (fail_at o1 o2 ip (t0 # ts) a) = max 0 (last ts + webLoginBlock - now)"
    using assms(2) ten ts fail_at_snoc[of o1 o2 ip "t0 # us" t a] by (auto simp: blockedFor_def)
qed

text \<open>C19: the limit does not hold for requests that run at the same time. An address is
  looked up before the password is compared and recorded after it, so any number of
  wrong passwords of one address is compared, although ten failures block it.\<close>

theorem parallel_guesses_unlimited:
  assumes "newWebAuth stamp us = Some a" and "rq_auth (r :: webreq) = Some (u, p)" and "\<And>h. \<not> bcrypt h p"
  shows "\<exists>s. wsteps sha bcrypt dummy (wstart a now) s \<and> ws_now s = now \<and> ws_threads s = replicate n (r, Done LoginRequired)"
proof -
  let ?s = "wstart a now"
  obtain users where users: "wa_users a = Some users" and fresh: "wa_fails a = []" "wa_cache a = Map.empty"
    using assms(1) by (auto simp: newWebAuth_def load_def no_webAuth_def Let_def split: option.splits if_splits)
  have start: "threads ?s [] a = ?s" by (simp add: threads_def wstart_def)
  have "wsteps sha bcrypt dummy (threads ?s [] a) (threads ?s (replicate n (r, Admitted (ws_now ?s))) a)"
    using fresh by (intro all_admitted[OF assms(2)]) (simp_all add: cached_def blockedFor_def)
  moreover obtain a' where "wsteps sha bcrypt dummy (threads ?s (replicate n (r, Admitted (ws_now ?s))) a)
      (threads ?s (replicate n (r, Done LoginRequired)) a')"
    using wrong_guesses[where bcrypt = bcrypt and sha = sha and dummy = dummy and s = ?s and k = 0 and n = n, OF assms(2) users assms(3)]
    by auto
  ultimately have "wsteps sha bcrypt dummy ?s (threads ?s (replicate n (r, Done LoginRequired)) a')"
    unfolding start by (rule rtranclp_trans)
  then show ?thesis by (intro exI[of _ "threads ?s (replicate n (r, Done LoginRequired)) a'"]) (simp add: wstart_def)
qed

text \<open>A password can outlive its removal. A request that read the users before the file
  was reloaded stores its password in the cache after the reload has emptied it: for
  five minutes the old password, or the removed user, is still served.\<close>

theorem removed_user_cached:
  assumes "newWebAuth stamp (Some old) = Some a" and "old u = Some d" and "bcrypt (u_hash d) p" and "u_expire d = 0"
    and "stamp2 \<noteq> wa_stamp a" and "new u = None" and "\<not> empty_users new" and "rq_auth (r :: webreq) = Some (u, p)"
  shows "\<exists>s. wsteps sha bcrypt dummy (wstart a now) s \<and> ws_now s = now \<and> wa_users (ws_auth s) = Some new \<and>
    (\<forall>t. now \<le> t \<and> t < now + webAuthCacheTTL \<longrightarrow> cached sha t u p (ws_auth s))"
proof -
  define b where "b = reloadIfChanged (Some stamp2) (Some new) a"
  define s1 where "s1 = (threads (wstart a now) [(r, Verified now)] a)\<lparr>ws_log := {(u, p, d, now)}\<rparr>"
  define s2 where "s2 = s1\<lparr>ws_auth := b, ws_published := ws_published s1 \<union> set_option (wa_users b)\<rparr>"
  define c where "c = store_check sha now u p b"
  have "wsteps sha bcrypt dummy (wstart a now) s1"
    unfolding s1_def by (rule verified_run(2)[where bcrypt = bcrypt, OF assms(1-4,8)])
  moreover have "wstep sha bcrypt dummy s1 s2"
    using Reload[of b "Some stamp2" "Some new" s1 sha bcrypt dummy] by (simp add: s1_def s2_def b_def)
  moreover have "wstep sha bcrypt dummy s2 (wgo 0 r Stored c s2)"
    using Store[of s2 0 r now u p sha bcrypt dummy] assms(8) by (simp add: wat_def s2_def s1_def threads_def c_def)
  ultimately have "wsteps sha bcrypt dummy (wstart a now) (wgo 0 r Stored c s2)"
    by (meson rtranclp.rtrancl_into_rtrancl)
  moreover have "wa_users c = Some new"
    using assms(5,7) by (simp add: c_def store_check_def b_def reloadIfChanged_def load_def Let_def)
  moreover have "cached sha t u p c" if "t < now + webAuthCacheTTL" for t
    using that by (simp add: c_def store_check_def cached_def)
  ultimately show ?thesis
    by (intro exI[of _ "wgo 0 r Stored c s2"]) (simp add: s2_def s1_def wstart_def)
qed

text \<open>Room is made at the cost of addresses that are not blocked. As long as fewer than
  half of the table are blocked, no blocked address is forgotten, and the table ends
  less than half full.\<close>

theorem prune_keeps_blocked:
  assumes "fails_ok a" and "ranges order1 a" and "ranges order2 a"
    and "length (filter (\<lambda>q. now \<le> lf_until (snd q)) (wa_fails a)) < webLoginTrackMax div 2"
    and "map_of (wa_fails a) ip = Some f" and "now \<le> lf_until f"
  shows "map_of (wa_fails (pruneFails order1 order2 now a)) ip = Some f \<and>
    length (wa_fails (pruneFails order1 order2 now a)) < webLoginTrackMax div 2"
proof -
  have d: "distinct (map fst (wa_fails a))" using assms(1) by (simp add: fails_ok_def)
  define fs where "fs = filter (\<lambda>p. \<not> stale now (snd p)) (wa_fails a)"
  define fs1 where "fs1 = fold (prune_one True now) order1 fs"
  have "map_of fs ip = Some f"
    using assms(5,6) d by (simp add: fs_def distinct_map_filter stale_def)
  then have kept: "map_of fs1 ip = Some f"
    unfolding fs1_def using assms(6) by (rule prune_pass_keeps)
  have "length fs1 < webLoginTrackMax div 2"
  proof (rule ccontr)
    assume full: "\<not> length fs1 < webLoginTrackMax div 2"
    have d1: "distinct (map fst fs1)" using d by (simp add: fs1_def fs_def prune_pass_distinct distinct_map_filter)
    have "set fs1 \<subseteq> set (filter (\<lambda>q. now \<le> lf_until (snd q)) (wa_fails a))"
    proof
      fix q assume q: "q \<in> set fs1"
      obtain i g where ig: "q = (i, g)" by fastforce
      have g: "map_of fs1 i = Some g" using q d1 by (simp add: ig)
      then have "map_of fs i = Some g" unfolding fs1_def by (rule prune_pass_Some)
      then have "map_of (wa_fails a) i = Some g" unfolding fs_def by (rule filter_Some[OF d])
      moreover from this have "i \<in> set order1"
        using assms(2) by (force simp: ranges_def dest: map_of_SomeD)
      then have "now \<le> lf_until g"
        using prune_pass_rest[of True now order1 fs] full g unfolding fs1_def by blast
      ultimately show "q \<in> set (filter (\<lambda>q. now \<le> lf_until (snd q)) (wa_fails a))"
        by (simp add: ig map_of_SomeD)
    qed
    then have "length fs1 \<le> length (filter (\<lambda>q. now \<le> lf_until (snd q)) (wa_fails a))"
      using d1 by (metis card_length card_mono distinct_card distinct_map finite_set order_trans)
    then show False using full assms(4) by simp
  qed
  then have "wa_fails (pruneFails order1 order2 now a) = fs1"
    by (simp add: pruneFails_def Let_def prune_pass_id flip: fs_def fs1_def)
  then show ?thesis using kept \<open>length fs1 < _\<close> by simp
qed

section \<open>Concrete runs\<close>

definition one_user :: "string \<rightharpoonup> UserData" where
  "one_user = [''somebody-else'' \<mapsto> some_user\<lparr>u_expire := 0\<rparr>]"

definition web_start :: webAuth where
  "web_start = \<lparr>wa_users = Some one_user, wa_stamp = (1, 1), wa_cache = Map.empty, wa_fails = []\<rparr>"

definition web_request :: webreq where
  "web_request = \<lparr>rq_auth = Some (''somebody-else'', ''secret''), rq_ip = ''10.0.0.1''\<rparr>"

lemma web_started: "newWebAuth (Some (1, 1)) (Some one_user) = Some web_start"
  by (simp add: newWebAuth_def load_def no_webAuth_def web_start_def empty_users_def one_user_def Let_def)

theorem parallel_guesses_unlimited_witness:
  "\<exists>s. wsteps (\<lambda>x. x) (\<lambda>_ _. False) [] (wstart web_start 7) s \<and> ws_now s = 7 \<and>
     ws_threads s = replicate 1000 (web_request, Done LoginRequired)"
  using parallel_guesses_unlimited[OF web_started, of web_request "''somebody-else''" "''secret''" "\<lambda>_ _. False" "\<lambda>x. x" "[]" 7 1000]
  by (simp add: web_request_def)

theorem removed_user_cached_witness:
  "\<exists>s. wsteps (\<lambda>x. x) (\<lambda>_ p. p = ''secret'') [] (wstart web_start 0) s \<and>
     wa_users (ws_auth s) = Some [''another-name'' \<mapsto> other_user] \<and> cached (\<lambda>x. x) (299 * second) ''somebody-else'' ''secret'' (ws_auth s)"
  using removed_user_cached[OF web_started, of "''somebody-else''" "some_user\<lparr>u_expire := 0\<rparr>" "\<lambda>_ p. p = ''secret''" "''secret''" "(2, 2)"
      "[''another-name'' \<mapsto> other_user]" web_request "\<lambda>x. x" "[]" 0]
  by (force simp: one_user_def web_start_def web_request_def empty_users_def webAuthCacheTTL_def second_def)

theorem failed_logins_bounded_witness:
  "\<exists>s. wsteps (\<lambda>x. x) (\<lambda>_ _. False) [] (wstart web_start 7) s \<and> length (wa_fails (ws_auth s)) \<le> webLoginTrackMax"
proof -
  obtain s where s: "wsteps (\<lambda>x. x) (\<lambda>_ _. False) [] (wstart web_start 7) s"
    using parallel_guesses_unlimited_witness by blast
  then show ?thesis using failed_logins_bounded[OF web_started s] by blast
qed


theorem ten_failures_block_witness:
  "blockedFor ''10.0.0.1'' (9 + 300 * second) (fail_at [] [] ''10.0.0.1'' [0,1,2,3,4,5,6,7,8,9] web_start) = 300 * second"
  using ten_failures_block[of web_start "''10.0.0.1''" 0 "[1,2,3,4,5,6,7,8,9]" "9 + 300 * second" "[]" "[]"]
  by (simp add: web_start_def webLoginMaxFails_def webLoginWindow_def webLoginBlock_def second_def)

theorem prune_keeps_blocked_witness:
  "map_of (wa_fails (pruneFails [''10.0.0.1''] [''10.0.0.1'']  5
     (web_start\<lparr>wa_fails := [(''10.0.0.1'', \<lparr>lf_count = 0, lf_first = 0, lf_until = 9\<rparr>)]\<rparr>))) ''10.0.0.1'' =
     Some \<lparr>lf_count = 0, lf_first = 0, lf_until = 9\<rparr>"
  using prune_keeps_blocked[of "web_start\<lparr>wa_fails := [(''10.0.0.1'', \<lparr>lf_count = 0, lf_first = 0, lf_until = 9\<rparr>)]\<rparr>"
      "[''10.0.0.1'']" "[''10.0.0.1'']" 5 "''10.0.0.1''"]
  by (simp add: fails_ok_def ranges_def webLoginTrackMax_def webLoginMaxFails_def web_start_def)

section \<open>The guard against other sites\<close>

text \<open>\<open>net.SplitHostPort\<close>, \<open>None\<close> for its errors.\<close>

definition last_colon :: "string \<Rightarrow> nat option" where
  "last_colon s =
     (if CHR '':'' \<in> set s then Some (length s - 1 - length (takeWhile (\<lambda>c. c \<noteq> CHR '':'') (rev s))) else None)"

definition SplitHostPort :: "string \<Rightarrow> (string \<times> string) option" where
  "SplitHostPort s =
     (case last_colon s of None \<Rightarrow> None
      | Some i \<Rightarrow>
          if has_prefix ''['' s
          then (let e = length (takeWhile (\<lambda>c. c \<noteq> CHR '']'') s)
                in if e = length s \<or> e + 1 \<noteq> i then None
                   else if CHR ''['' \<in> set (drop 1 s) \<or> CHR '']'' \<in> set (drop (e + 1) s) then None
                   else Some (take (e - 1) (drop 1 s), drop (i + 1) s))
          else if CHR '':'' \<in> set (take i s) \<or> CHR ''['' \<in> set s \<or> CHR '']'' \<in> set s then None
          else Some (take i s, drop (i + 1) s))"

definition peerIP :: "string \<Rightarrow> string" where
  "peerIP addr = (case SplitHostPort addr of None \<Rightarrow> addr | Some (h, _) \<Rightarrow> h)"

text \<open>\<open>loopback\<close> tells of an address in text form whether \<open>ParseIP\<close> finds a loopback one.\<close>

definition isLoopbackAddr :: "(string \<Rightarrow> bool) \<Rightarrow> string \<Rightarrow> bool" where
  "isLoopbackAddr loopback addr =
     (case SplitHostPort addr of None \<Rightarrow> False
      | Some (h, _) \<Rightarrow> h \<noteq> [] \<and> (h = ''localhost'' \<or> loopback h))"

definition webAllowedHosts :: "string \<Rightarrow> string \<Rightarrow> bool \<Rightarrow> string set option" where
  "webAllowedHosts webHosts addr login =
     (if login \<and> webHosts = [] then None
      else Some ({''localhost'', ''127.0.0.1'', ''::1''} \<union>
        (case SplitHostPort addr of None \<Rightarrow> {} | Some (h, _) \<Rightarrow> if h = [] then {} else {lower h}) \<union>
        {h \<in> set (map (\<lambda>w. lower (TrimSpace w)) (split_on CHR '','' webHosts)). h \<noteq> []}))"

definition hostOnly :: "string \<Rightarrow> string" where
  "hostOnly hp =
     (case SplitHostPort hp of Some (h, _) \<Rightarrow> lower h
      | None \<Rightarrow> lower (TrimLeft (TrimRight hp {CHR ''['', CHR '']''}) {CHR ''['', CHR '']''}))"

record guarded =
  g_host :: string
  g_method :: string
  g_marker :: string
  g_site :: string
  g_origin :: string

datatype guard_reply = Passed | UnknownHost | NoMarker | CrossSite | CrossOrigin

text \<open>\<open>url_host\<close> is the \<open>Host\<close> of \<open>url.Parse\<close>, \<open>None\<close> for its error. A header that is not
  there is empty.\<close>

definition webGuard :: "(string \<Rightarrow> string option) \<Rightarrow> string set option \<Rightarrow> guarded \<Rightarrow> guard_reply" where
  "webGuard url_host allowed g =
     (if allowed \<noteq> None \<and> hostOnly (g_host g) \<notin> the allowed then UnknownHost
      else if g_method g \<in> {''GET'', ''HEAD'', ''OPTIONS''} then Passed
      else if g_marker g \<noteq> ''1'' then NoMarker
      else if g_site g \<noteq> [] \<and> g_site g \<noteq> ''same-origin'' \<and> g_site g \<noteq> ''none'' then CrossSite
      else if g_origin g \<noteq> [] \<and>
          (case url_host (g_origin g) of None \<Rightarrow> True | Some h \<Rightarrow> lower h \<noteq> lower (g_host g)) then CrossOrigin
      else Passed)"

text \<open>Another site cannot drive the server. A request that changes something passes only
  with the marker header, which a page of another site cannot send without asking
  first, and not from another origin; and without a login the \<open>Host\<close> header names
  this machine, the listening address or one of \<open>-webhosts\<close>, so a foreign name that
  resolves to this machine does not pass.\<close>

theorem foreign_requests_refused:
  assumes "webGuard url_host (webAllowedHosts webHosts addr login) g = Passed"
  shows "(g_method g \<in> {''GET'', ''HEAD'', ''OPTIONS''} \<or>
      g_marker g = ''1'' \<and> g_site g \<in> {[], ''same-origin'', ''none''} \<and>
      (g_origin g = [] \<or> map_option lower (url_host (g_origin g)) = Some (lower (g_host g)))) \<and>
    (login \<and> webHosts = [] \<or> hostOnly (g_host g) \<in> {''localhost'', ''127.0.0.1'', ''::1''} \<or>
      (\<exists>h port. SplitHostPort addr = Some (h, port) \<and> h \<noteq> [] \<and> hostOnly (g_host g) = lower h) \<or>
      (\<exists>w \<in> set (split_on CHR '','' webHosts). hostOnly (g_host g) = lower (TrimSpace w) \<and> hostOnly (g_host g) \<noteq> []))"
  using assms
  by (auto simp: webGuard_def webAllowedHosts_def split: if_splits option.splits)

theorem foreign_requests_refused_witness:
  "webGuard (\<lambda>_. None) (webAllowedHosts [] ''127.0.0.1:11911'' False)
     \<lparr>g_host = ''localhost:11911'', g_method = ''POST'', g_marker = ''1'', g_site = [], g_origin = []\<rparr> = Passed \<and>
   hostOnly ''localhost:11911'' = ''localhost''"
proof -
  let ?g = "\<lparr>g_host = ''localhost:11911'', g_method = ''POST'', g_marker = ''1'', g_site = [], g_origin = []\<rparr>"
  have l: "lower ''localhost'' = ''localhost''" by code_simp
  have h: "hostOnly ''localhost:11911'' = ''localhost''"
    by (simp add: hostOnly_def SplitHostPort_def last_colon_def l)
  then have "webGuard (\<lambda>_. None) (webAllowedHosts [] ''127.0.0.1:11911'' False) ?g = Passed"
    by (simp add: webGuard_def webAllowedHosts_def)
  then show ?thesis using foreign_requests_refused[of "\<lambda>_. None" "[]" "''127.0.0.1:11911''" False ?g] h by simp
qed

end
