(* ===== verification/Proxy.thy ===== *)
theory Proxy
  imports ConnPool Passwd SlotPool
begin

text \<open>
  \<open>Server.go\<close>, \<open>Proxy.go\<close> and \<open>ProxyHelper.go\<close>: the NNTP proxy. A client session
  reads bounded lines, logs in, and has its commands relayed to the providers'
  connections. What \<open>GetConn\<close> returns for each provider is a queue of
  connections, \<open>None\<close> standing for its error; a connection that is parked or
  closed goes to a list. The pool behind is the one of \<open>ConnPool.thy\<close>. A client
  that no longer takes writes has no writes left.
\<close>

section \<open>Reading a command line\<close>

definition proxyMaxLineLen :: nat where "proxyMaxLineLen = 512"

datatype slice_end = Newline | BufferFull | SliceError

text \<open>\<open>ReadSlice('\n')\<close> on a reader with a buffer of 1024 bytes; the list is all the
  client is going to send.\<close>

definition read_slice :: "string \<Rightarrow> (string \<times> slice_end) \<times> string" where
  "read_slice s =
     (if CHR 0x0A \<in> set (take 1024 s)
      then (let n = length (takeWhile (\<lambda>c. c \<noteq> CHR 0x0A) s) + 1 in ((take n s, Newline), drop n s))
      else if 1024 \<le> length s then ((take 1024 s, BufferFull), drop 1024 s)
      else ((s, SliceError), []))"

datatype line_error = LineTooLong | ReadError

function read_line_loop :: "string \<Rightarrow> bool \<Rightarrow> string \<Rightarrow> (line_error + string) \<times> string" where
  "read_line_loop buf tooLong s =
     (case read_slice s of ((chunk, e), rest) \<Rightarrow>
        let grown = length buf + length chunk > proxyMaxLineLen;
            buf' = (if tooLong then buf else if grown then [] else buf @ chunk);
            tooLong' = (tooLong \<or> grown)
        in case e of
             BufferFull \<Rightarrow> read_line_loop buf' tooLong' rest
           | SliceError \<Rightarrow> (Inl ReadError, rest)
           | Newline \<Rightarrow> (if tooLong' then Inl LineTooLong
                        else Inr (TrimRight buf' {CHR 0x0D, CHR 0x0A}), rest))"
  by pat_completeness auto
termination
  by (relation "measure (\<lambda>(buf, tooLong, s). length s)") (auto simp: read_slice_def Let_def split: if_splits)

definition readCommandLine :: "string \<Rightarrow> (line_error + string) \<times> string" where
  "readCommandLine s = read_line_loop [] False s"

section \<open>The upstream side\<close>

record upstream =
  up_queue :: "nat \<Rightarrow> nconn option list"
  up_back :: "(nat \<times> nconn \<times> bool) list"

definition get_conn :: "nat \<Rightarrow> upstream \<Rightarrow> nconn option \<times> upstream" where
  "get_conn i u =
     (case up_queue u i of
        [] \<Rightarrow> (None, u)
      | c # cs \<Rightarrow> (c, u\<lparr>up_queue := (up_queue u)(i := cs)\<rparr>))"

definition give_back :: "nat \<Rightarrow> nconn \<Rightarrow> bool \<Rightarrow> upstream \<Rightarrow> upstream" where
  "give_back i c parked u = u\<lparr>up_back := up_back u @ [(i, c, parked)]\<rparr>"

abbreviation park :: "nat \<Rightarrow> nconn \<Rightarrow> upstream \<Rightarrow> upstream" where "park i c \<equiv> give_back i c True"
abbreviation shut :: "nat \<Rightarrow> nconn \<Rightarrow> upstream \<Rightarrow> upstream" where "shut i c \<equiv> give_back i c False"

definition upstreamCmd :: "string \<Rightarrow> nconn \<Rightarrow> (int \<times> string) \<times> nconn" where
  "upstreamCmd line c =
     (case Cmd line c of None \<Rightarrow> ((0, []), c)
      | Some c1 \<Rightarrow>
          (case ReadCodeLine 0 c1 of ((code, msg, err), c2) \<Rightarrow>
             (if err \<noteq> None then ((0, []), c2) else ((code, msg), c2))))"

definition proxyMaxReplyBytes :: nat where "proxyMaxReplyBytes = 64 * 2 ^ 20"

datatype block_error = ReplyTooLarge | BlockBroken

text \<open>The reader removes one leading dot; the size counts a line end of one byte.\<close>

definition readDotLinesLimited :: "nat \<Rightarrow> string list \<Rightarrow> (block_error + string list) \<times> string list" where
  "readDotLinesLimited most ls =
     (let body = map (\<lambda>l. if has_prefix ''.'' l then tl l else l) (takeWhile (\<lambda>l. l \<noteq> ''.'') ls)
      in (if most < sum_list (map (\<lambda>l. length l + 1) body) then Inl ReplyTooLarge
          else if ''.'' \<notin> set ls then Inl BlockBroken
          else Inr (map (\<lambda>l. TrimRight l {CHR 0x0D, CHR 0x0A}) body),
          drop (length body + 1) ls))"

definition upstreamBlock :: "nat \<Rightarrow> nconn \<Rightarrow> int \<Rightarrow> string \<Rightarrow> upstream \<Rightarrow> (int \<times> string \<times> string list) \<times> upstream" where
  "upstreamBlock i c okCode line u =
     (case Cmd line c of None \<Rightarrow> ((0, [], []), shut i c u)
      | Some c1 \<Rightarrow>
     (case ReadCodeLine 0 c1 of ((code, msg, err), c2) \<Rightarrow>
        if err \<noteq> None then ((0, [], []), shut i c2 u)
        else if code \<noteq> okCode then ((code, msg, []), park i c2 u)
        else (case readDotLinesLimited proxyMaxReplyBytes (incoming c2) of
            (Inl e, rest) \<Rightarrow>
              (if e = ReplyTooLarge then (503, ''Reply too large'', []) else (0, [], []), shut i (c2\<lparr>incoming := rest\<rparr>) u)
          | (Inr ls, rest) \<Rightarrow> ((code, msg, ls), park i (c2\<lparr>incoming := rest\<rparr>) u))))"

section \<open>The client side\<close>

text \<open>\<open>ps_left\<close> is how many writes to the client still succeed.\<close>

record proxysession =
  Authed :: bool
  ps_user :: string
  ps_expire :: int
  ps_group :: string
  ps_num :: int
  ps_selected :: "nat option"
  ps_out :: string
  ps_left :: nat
  ps_broken :: bool

definition reply :: "string \<Rightarrow> proxysession \<Rightarrow> proxysession" where
  "reply line ps =
     (if ps_broken ps then ps
      else if ps_left ps = 0 then ps\<lparr>ps_broken := True\<rparr>
      else ps\<lparr>ps_out := ps_out ps @ line @ CRLF, ps_left := ps_left ps - 1\<rparr>)"

text \<open>
  \<open>textproto\<close>'s \<open>DotWriter\<close>: it stuffs dots and ends lines; when it is closed with
  nothing written, it first ends the line it believes to be in. Lines here have no
  line feed and no carriage return at their end.
\<close>

definition dot_written :: "string list \<Rightarrow> string" where
  "dot_written ls = (if ls = [] then CRLF else concat (map (\<lambda>l. stuff l @ CRLF) ls)) @ DOT @ CRLF"

definition writeDotBlock :: "string \<Rightarrow> string list \<Rightarrow> proxysession \<Rightarrow> proxysession" where
  "writeDotBlock status ls ps =
     (let ps1 = reply status ps in
      if ps_broken ps1 then ps1
      else if ps_left ps1 = 0 then ps1\<lparr>ps_broken := True\<rparr>
      else ps1\<lparr>ps_out := ps_out ps1 @ dot_written ls, ps_left := ps_left ps1 - 1\<rparr>)"

text \<open>\<open>LinesWriter\<close> into the buffered writer, which is flushed at the end: what it
  wants to write.\<close>

definition LinesWriter :: "string \<Rightarrow> string list \<Rightarrow> string" where
  "LinesWriter status ls = status @ CRLF @ concat (map (\<lambda>l. stuff l @ CRLF) ls) @ DOT @ CRLF"

definition printCapabilities :: "proxysession \<Rightarrow> proxysession" where
  "printCapabilities ps = writeDotBlock ''101 Capability list:'' [''VERSION 2'', ''READER'', ''AUTHINFO USER''] ps"

section \<open>Newsreader commands\<close>

definition is_reader :: "provider \<Rightarrow> bool" where
  "is_reader p \<longleftrightarrow> \<not> NoDownload p \<and> Newsreader p"

definition readerProviders :: "provider list \<Rightarrow> proxysession \<Rightarrow> nat list" where
  "readerProviders ps s =
     filter (\<lambda>i. is_reader (ps ! i) \<and> (case ps_selected s of None \<Rightarrow> True | Some j \<Rightarrow> i = j)) [0..<length ps]"

definition code_line :: "int \<Rightarrow> string \<Rightarrow> string" where
  "code_line code msg = dec_int code @ '' '' @ msg"

text \<open>\<open>selectGroup\<close>: the connection when it can go on; otherwise whether the client was
  answered.\<close>

definition selectGroup :: "nat \<Rightarrow> nconn \<Rightarrow> proxysession \<times> upstream \<Rightarrow> (bool + nconn) \<times> proxysession \<times> upstream" where
  "selectGroup i c st =
     (case st of (s, u) \<Rightarrow>
      case upstreamCmd (''GROUP '' @ ps_group s) c of ((code, msg), c') \<Rightarrow>
        if code = 0 then (Inl False, s, shut i c' u)
        else if code \<noteq> 211 then (Inl True, reply (code_line code msg) s, park i c' u)
        else (Inr c', s, u))"

fun try_group :: "provider list \<Rightarrow> string \<Rightarrow> nat list \<Rightarrow> upstream \<Rightarrow> (nat \<times> int \<times> int \<times> int) option \<times> upstream" where
  "try_group ps g [] u = (None, u)"
| "try_group ps g (i # is) u =
     (if \<not> is_reader (ps ! i) then try_group ps g is u
      else case get_conn i u of
        (None, u1) \<Rightarrow> try_group ps g is u1
      | (Some c, u1) \<Rightarrow>
          (case upstreamCmd (''GROUP '' @ g) c of ((code, msg), c') \<Rightarrow>
             if code = 0 then try_group ps g is (shut i c' u1)
             else (let parts = Fields msg; u2 = park i c' u1
                   in if code \<noteq> 211 \<or> length parts < 4 then try_group ps g is u2
                      else (Some (i, fst (parse_int (parts ! 0)), fst (parse_int (parts ! 1)), fst (parse_int (parts ! 2))), u2))))"

definition handleGroupCommand :: "provider list \<Rightarrow> string list \<Rightarrow> proxysession \<times> upstream \<Rightarrow> proxysession \<times> upstream" where
  "handleGroupCommand ps args st =
     (case st of (s, u) \<Rightarrow>
      if length args \<noteq> 1 then (reply ''501 Syntax error: GROUP <group>'' s, u)
      else case try_group ps (hd args) [0..<length ps] u of
        (None, u') \<Rightarrow> (reply ''411 No such newsgroup'' (s\<lparr>ps_selected := None\<rparr>), u')
      | (Some (i, n, low, high), u') \<Rightarrow>
          (reply (''211 '' @ dec_int n @ '' '' @ dec_int low @ '' '' @ dec_int high @ '' '' @ hd args)
             (s\<lparr>ps_selected := Some i, ps_group := hd args, ps_num := (if 0 < n then low else 0)\<rparr>), u'))"

text \<open>
  The loop of \<open>LIST\<close>, \<open>OVER\<close> and \<open>HDR\<close> over the providers: whether the group is
  selected first, the code with a block, the line sent. The result tells which
  provider answered.
\<close>

fun relay_block :: "bool \<Rightarrow> int \<Rightarrow> string \<Rightarrow> nat list \<Rightarrow> proxysession \<times> upstream \<Rightarrow> nat option \<times> proxysession \<times> upstream" where
  "relay_block grp ok line [] (s, u) = (None, s, u)"
| "relay_block grp ok line (i # is) (s, u) =
     (case get_conn i u of
        (None, u1) \<Rightarrow> relay_block grp ok line is (s, u1)
      | (Some c, u1) \<Rightarrow>
          (case (if grp then selectGroup i c (s, u1) else (Inr c, s, u1)) of
             (Inl answered, s1, u2) \<Rightarrow> (if answered then (Some i, s1, u2) else relay_block grp ok line is (s1, u2))
           | (Inr c1, s1, u2) \<Rightarrow>
               (case upstreamBlock i c1 ok line u2 of ((code, msg, ls), u3) \<Rightarrow>
                  if code = 0 then relay_block grp ok line is (s1, u3)
                  else (Some i, (if code = ok then writeDotBlock (code_line code msg) ls s1 else reply (code_line code msg) s1), u3))))"

text \<open>The name of the command of \<open>LIST\<close> and its arguments.\<close>

fun words :: "string list \<Rightarrow> string" where
  "words [] = []"
| "words [w] = w"
| "words (w # v # ws) = w @ '' '' @ words (v # ws)"

definition list_line :: "string list \<Rightarrow> string" where
  "list_line args =
     (case args of [] \<Rightarrow> ''LIST''
      | a # as \<Rightarrow> ''LIST '' @ upper a @ (if as = [] then [] else '' '' @ words as))"

definition handleListCommand :: "provider list \<Rightarrow> string list \<Rightarrow> proxysession \<times> upstream \<Rightarrow> proxysession \<times> upstream" where
  "handleListCommand ps args st =
     (case st of (s, u) \<Rightarrow>
      case relay_block False 215 (list_line args) (readerProviders ps s) (s, u) of
        (None, s', u') \<Rightarrow> (reply ''503 No providers available for LIST command'' (s'\<lparr>ps_selected := None\<rparr>), u')
      | (Some i, s', u') \<Rightarrow> (if ps_selected s' = None then s'\<lparr>ps_selected := Some i\<rparr> else s', u'))"

definition is_number :: "string \<Rightarrow> bool" where
  "is_number w = snd (parse_int w)"

definition valid_range :: "string \<Rightarrow> bool" where
  "valid_range r =
     (case split_on CHR ''-'' r of
        [a] \<Rightarrow> is_number a
      | [a, b] \<Rightarrow> is_number a \<and> (b = [] \<or> is_number b)
      | _ \<Rightarrow> False)"

definition handleXOverCommand :: "provider list \<Rightarrow> string list \<Rightarrow> bool \<Rightarrow> proxysession \<times> upstream \<Rightarrow> proxysession \<times> upstream" where
  "handleXOverCommand ps args isXOVER st =
     (case st of (s, u) \<Rightarrow>
      if ps_group s = [] then (reply ''412 No newsgroup selected'' s, u)
      else if args = [] \<and> ps_num s \<le> 0 then (reply ''420 Current article number is invalid'' s, u)
      else if 1 < length args then (reply ''501 Syntax error: OVER [range]'' s, u)
      else let r = (case args of [] \<Rightarrow> dec_int (ps_num s) | a # _ \<Rightarrow> a)
      in if \<not> valid_range r then (reply ''501 Invalid article range'' s, u)
         else case relay_block True 224 ((if isXOVER then ''XOVER'' else ''OVER'') @ '' '' @ r) (readerProviders ps s) (s, u) of
           (None, s', u') \<Rightarrow> (reply ''503 No providers have the selected group'' (s'\<lparr>ps_selected := None\<rparr>), u')
         | (Some i, s', u') \<Rightarrow> (s', u'))"

definition handleXHdrCommand :: "provider list \<Rightarrow> string list \<Rightarrow> bool \<Rightarrow> proxysession \<times> upstream \<Rightarrow> proxysession \<times> upstream" where
  "handleXHdrCommand ps args isXHDR st =
     (case st of (s, u) \<Rightarrow>
      if length args < 1 \<or> 2 < length args then (reply ''501 Syntax error: HDR <header> [range|<message-id>]'' s, u)
      else let byId = (length args = 2 \<and> has_prefix ''<'' (args ! 1)) in
      if \<not> byId \<and> ps_group s = [] then (reply ''412 No newsgroup selected'' s, u)
      else if length args = 1 \<and> ps_num s \<le> 0 then (reply ''420 Current article number is invalid'' s, u)
      else let target = (if length args = 2 then args ! 1 else dec_int (ps_num s));
               line = (if isXHDR then ''XHDR'' else ''HDR'') @ '' '' @ hd args @ '' '' @ target
      in case relay_block (\<not> byId) (if isXHDR then 221 else 225) line (readerProviders ps s) (s, u) of
           (None, s', u') \<Rightarrow> (reply ''503 No providers have the selected group or article'' (s'\<lparr>ps_selected := None\<rparr>), u')
         | (Some i, s', u') \<Rightarrow> (s', u'))"

text \<open>\<open>NEXT\<close> and \<open>LAST\<close>: whether the client was answered.\<close>

fun try_move :: "bool \<Rightarrow> nat list \<Rightarrow> proxysession \<times> upstream \<Rightarrow> bool \<times> proxysession \<times> upstream" where
  "try_move isNext [] (s, u) = (False, s, u)"
| "try_move isNext (i # is) (s, u) =
     (case get_conn i u of
        (None, u1) \<Rightarrow> try_move isNext is (s, u1)
      | (Some c, u1) \<Rightarrow>
     (case selectGroup i c (s, u1) of
        (Inl answered, s1, u2) \<Rightarrow> (if answered then (True, s1, u2) else try_move isNext is (s1, u2))
      | (Inr c1, s1, u2) \<Rightarrow>
     (case upstreamCmd (''STAT '' @ dec_int (ps_num s1)) c1 of ((code, msg), c2) \<Rightarrow>
        if code = 0 then try_move isNext is (s1, shut i c2 u2)
        else if code \<noteq> 223 then (True, reply (code_line code msg) s1, park i c2 u2)
        else
     (case upstreamCmd (if isNext then ''NEXT'' else ''LAST'') c2 of ((code, msg), c3) \<Rightarrow>
        if code = 0 then try_move isNext is (s1, shut i c3 u2)
        else let u3 = park i c3 u2 in
          if code = 223
          then (case Fields msg of
              a # b # _ \<Rightarrow>
                (True, reply (''223 '' @ a @ '' '' @ b) (if is_number a then s1\<lparr>ps_num := fst (parse_int a)\<rparr> else s1), u3)
            | _ \<Rightarrow> (True, reply ''503 Invalid response from server'' s1, u3))
          else (True, reply (code_line code msg) s1, u3)))))"

definition handleNextOrLastCommand :: "provider list \<Rightarrow> bool \<Rightarrow> proxysession \<times> upstream \<Rightarrow> proxysession \<times> upstream" where
  "handleNextOrLastCommand ps isNext st =
     (case st of (s, u) \<Rightarrow>
      if ps_group s = [] then (reply ''412 No newsgroup selected'' s, u)
      else if ps_num s \<le> 0 then (reply ''420 Current article number is invalid'' s, u)
      else case try_move isNext (readerProviders ps s) (s, u) of
        (True, s', u') \<Rightarrow> (s', u')
      | (False, s', u') \<Rightarrow> (reply ''503 No providers have the selected group'' (s'\<lparr>ps_selected := None\<rparr>), u'))"

section \<open>The negative cache\<close>

definition negCacheTTL :: int where "negCacheTTL = 60"
definition negCacheMax :: int where "negCacheMax = 100000"

text \<open>Entries by provider group and key, with their expiry, and the count.\<close>

record negcache =
  nc_map :: "string \<times> string \<rightharpoonup> int"
  nc_n :: int

definition IsArticleNotFoundAtProviderGroup :: "int \<Rightarrow> string \<Rightarrow> string \<Rightarrow> negcache \<Rightarrow> bool" where
  "IsArticleNotFoundAtProviderGroup now key g nc = (case nc_map nc (g, key) of None \<Rightarrow> False | Some e \<Rightarrow> now < e)"

definition SetArticleNotFoundAtProviderGroup :: "int \<Rightarrow> string \<Rightarrow> string \<Rightarrow> negcache \<Rightarrow> negcache" where
  "SetArticleNotFoundAtProviderGroup now key g nc =
     (if nc_map nc (g, key) = None \<and> negCacheMax \<le> nc_n nc then nc
      else nc\<lparr>nc_map := (nc_map nc)((g, key) \<mapsto> now + negCacheTTL),
             nc_n := (if nc_map nc (g, key) = None then nc_n nc + 1 else nc_n nc)\<rparr>)"

text \<open>The range over the maps, in any order \<open>ks\<close>.\<close>

definition purge_one :: "int \<Rightarrow> string \<times> string \<Rightarrow> negcache \<Rightarrow> negcache" where
  "purge_one now k nc =
     (case nc_map nc k of None \<Rightarrow> nc
      | Some e \<Rightarrow> if now < e then nc else nc\<lparr>nc_map := (nc_map nc)(k := None), nc_n := nc_n nc - 1\<rparr>)"

definition purgeNegCache :: "int \<Rightarrow> (string \<times> string) list \<Rightarrow> negcache \<Rightarrow> negcache" where
  "purgeNegCache now ks nc = fold (purge_one now) ks nc"

section \<open>Articles\<close>

text \<open>A valid message-id, or the article number, 0 when it is none.\<close>

definition isValidMessageID :: "string \<Rightarrow> bool \<times> int" where
  "isValidMessageID w =
     (if has_prefix ''<'' w \<and> has_suffix ''>'' w then (True, 0)
      else case parse_int w of (n, ok) \<Rightarrow> (False, if ok \<and> 0 < n then n else 0))"

fun header_mid :: "string list \<Rightarrow> string option" where
  "header_mid [] = None"
| "header_mid (l # ls) =
     (if l = [] then None
      else if 11 < length l \<and> lower (take 11 l) = ''message-id:'' then Some (TrimSpace (drop 11 l))
      else header_mid ls)"

definition statusLine :: "bool \<Rightarrow> string \<Rightarrow> int \<Rightarrow> string \<Rightarrow> string list \<Rightarrow> string" where
  "statusLine byNumber mid code msg hdrs =
     dec_int code @ '' '' @
     (if \<not> byNumber then ''0 '' @ mid
      else case Fields msg of
        a # b # _ \<Rightarrow>
          (if has_prefix ''<'' b then a @ '' '' @ b
           else mid @ '' '' @ (case header_mid hdrs of Some m \<Rightarrow> m | None \<Rightarrow> ''<0>''))
      | _ \<Rightarrow> mid @ '' '' @ (case header_mid hdrs of Some m \<Rightarrow> m | None \<Rightarrow> ''<0>''))"

text \<open>What \<open>CMD\<close> depends on, and the time.\<close>

record artenv =
  ae_opt :: netopt
  ae_date :: string
  ae_sched :: "nat \<Rightarrow> nat"
  ae_rapid :: "string \<Rightarrow> (bytes \<times> string \<times> 32 word) option"
  ae_num :: int
  ae_now :: int

record artreq =
  rq_command :: string
  rq_byNumber :: bool
  rq_num :: int
  rq_id :: string
  rq_key :: string

record artst =
  ar_response :: string
  ar_checked :: "string set"
  ar_item :: item
  ar_ps :: proxysession
  ar_up :: upstream
  ar_nc :: negcache

definition not_found :: "artreq \<Rightarrow> string" where
  "not_found q = (if rq_byNumber q then ''423 No article with that number'' else ''430 No such article'')"

text \<open>The answer that ends the loop with an article, and the one that goes on with the
  next provider after a miss.\<close>

definition deliver :: "artreq \<Rightarrow> string \<Rightarrow> string list \<Rightarrow> proxysession \<Rightarrow> proxysession" where
  "deliver q status ls s =
     (if ps_broken s \<or> ps_left s = 0 then s\<lparr>ps_broken := True\<rparr>
      else s\<lparr>ps_out := ps_out s @ LinesWriter status ls, ps_left := ps_left s - 1,
             ps_num := (if rq_byNumber q then rq_num q else ps_num s)\<rparr>)"

definition missed :: "int \<Rightarrow> artreq \<Rightarrow> string \<Rightarrow> int \<Rightarrow> string \<Rightarrow> artst \<Rightarrow> artst" where
  "missed now q g code msg a =
     a\<lparr>ar_checked := insert g (ar_checked a), ar_response := code_line code msg,
       ar_nc := SetArticleNotFoundAtProviderGroup now (rq_key q) g (ar_nc a)\<rparr>"

definition art_command :: "artenv \<Rightarrow> artreq \<Rightarrow> string \<Rightarrow> nat \<Rightarrow> nconn \<Rightarrow> artst \<Rightarrow> (bool \<times> artst) go" where
  "art_command e q g i c a =
     (if rq_command q = ''STAT''
      then (case upstreamCmd (''STAT '' @ rq_id q) c of ((code, msg), c') \<Rightarrow>
        if code = 0 then Inr (False, a\<lparr>ar_up := shut i c' (ar_up a)\<rparr>)
        else let a1 = a\<lparr>ar_up := park i c' (ar_up a)\<rparr> in
          if code = 223
          then Inr (True, a1\<lparr>ar_ps := reply (statusLine (rq_byNumber q) (rq_id q) code msg [])
                  (if rq_byNumber q then (ar_ps a)\<lparr>ps_num := rq_num q\<rparr> else ar_ps a)\<rparr>)
          else if code = 423 \<or> code = 430 \<or> code = 451 then Inr (False, missed (ae_now e) q g code msg a1)
          else Inr (False, a1\<lparr>ar_response := code_line code msg\<rparr>))
      else go_bind (CMD (ae_opt e) (ae_date e) (ae_sched e) (ae_rapid e) (ae_num e) (rq_command q) (ar_item a) (Some c))
        (\<lambda>((code, msg, rxb, err), it, co, part).
          let c' = (case co of None \<Rightarrow> c | Some d \<Rightarrow> d); a1 = a\<lparr>ar_item := it\<rparr>; a2 = a1\<lparr>ar_up := park i c' (ar_up a)\<rparr> in
          if err \<noteq> None \<and> code \<in> {0, 220, 221, 222} then Inr (False, a1\<lparr>ar_up := shut i c' (ar_up a)\<rparr>)
          else if code \<in> {220, 221, 222}
          then (let ls = (if code = 221 then item_head it else if code = 222 then item_body it else article it)
                in Inr (True, a2\<lparr>ar_ps := deliver q
                     (statusLine (rq_byNumber q) (rq_id q) code msg (if code = 222 then [] else ls)) ls (ar_ps a)\<rparr>))
          else if code = 99932
          then Inr (False, a2\<lparr>ar_response := ''430 Article damaged at the provider (yEnc check failed)'',
                              ar_checked := insert g (ar_checked a)\<rparr>)
          else if code = 423 \<or> code = 430 \<or> code = 451 then Inr (False, missed (ae_now e) q g code msg a2)
          else Inr (False, a2\<lparr>ar_response := code_line code msg\<rparr>)))"

definition art_try :: "artenv \<Rightarrow> provider list \<Rightarrow> artreq \<Rightarrow> nat \<Rightarrow> artst \<Rightarrow> (bool \<times> artst) go" where
  "art_try e ps q i a =
     (let p = ps ! i; g = Group p in
      if NoDownload p \<or> rq_byNumber q \<and> \<not> Newsreader p then Inr (False, a\<lparr>ar_response := not_found q\<rparr>)
      else if g \<in> ar_checked a \<or> IsArticleNotFoundAtProviderGroup (ae_now e) (rq_key q) g (ar_nc a)
      then Inr (False, a\<lparr>ar_response := not_found q\<rparr>)
      else case get_conn i (ar_up a) of
        (None, u1) \<Rightarrow> Inr (False, a\<lparr>ar_up := u1\<rparr>)
      | (Some c, u1) \<Rightarrow>
          if rq_byNumber q
          then (case upstreamCmd (''GROUP '' @ ps_group (ar_ps a)) c of ((code, msg), c') \<Rightarrow>
             if code = 0 then Inr (False, a\<lparr>ar_up := shut i c' u1\<rparr>)
             else if code \<noteq> 211 then Inr (False, a\<lparr>ar_up := park i c' u1, ar_response := code_line code msg\<rparr>)
             else art_command e q g i c' (a\<lparr>ar_up := u1\<rparr>))
          else art_command e q g i c (a\<lparr>ar_up := u1\<rparr>))"

fun art_loop :: "artenv \<Rightarrow> provider list \<Rightarrow> artreq \<Rightarrow> nat list \<Rightarrow> artst \<Rightarrow> (bool \<times> artst) go" where
  "art_loop e ps q [] a = Inr (False, a)"
| "art_loop e ps q (i # is) a =
     go_bind (art_try e ps q i a) (\<lambda>(answered, a'). if answered then Inr (True, a') else art_loop e ps q is a')"

text \<open>Which article is asked for; \<open>Inl\<close> is the reply to a request without one.\<close>

definition art_request :: "string \<Rightarrow> string list \<Rightarrow> proxysession \<Rightarrow> string + artreq" where
  "art_request command args s =
     (let byNumber = (\<lambda>n. \<lparr>rq_command = command, rq_byNumber = True, rq_num = n, rq_id = dec_int n,
            rq_key = ps_group s @ '':'' @ dec_int n\<rparr>)
      in case args of
        [] \<Rightarrow> (if ps_group s = [] then Inl ''412 No newsgroup selected''
               else if ps_num s \<le> 0 then Inl ''420 Current article number is invalid''
               else Inr (byNumber (ps_num s)))
      | w # _ \<Rightarrow>
          (case isValidMessageID w of (isvalid, n) \<Rightarrow>
             if isvalid then Inr \<lparr>rq_command = command, rq_byNumber = False, rq_num = 0, rq_id = w, rq_key = w\<rparr>
             else if 0 < n then (if ps_group s = [] then Inl ''412 No newsgroup selected'' else Inr (byNumber n))
             else Inl (''501 Syntax error: '' @ command @ '' requires a message-ID or an article number'')))"

definition proxy_item :: "string \<Rightarrow> item" where
  "proxy_item mid = new_item (\<lambda>_. []) mid"

definition handleArticleCommand ::
  "artenv \<Rightarrow> provider list \<Rightarrow> string \<Rightarrow> string list \<Rightarrow> proxysession \<times> upstream \<times> negcache \<Rightarrow>
   (proxysession \<times> upstream \<times> negcache) go" where
  "handleArticleCommand e ps command args st =
     (case st of (s, u, nc) \<Rightarrow>
      case art_request command args s of
        Inl line \<Rightarrow> Inr (reply line s, u, nc)
      | Inr q \<Rightarrow>
          go_bind (art_loop e ps q [0..<length ps]
              \<lparr>ar_response = [], ar_checked = {}, ar_item = proxy_item (rq_id q), ar_ps = s, ar_up = u, ar_nc = nc\<rparr>)
            (\<lambda>(answered, a). Inr (if answered then ar_ps a
                else reply (if ar_response a = [] then ''503 No provider available'' else ar_response a) (ar_ps a),
              ar_up a, ar_nc a)))"

section \<open>The commands of a session\<close>

datatype session_end = ClientQuit | LoginExpired | ClientGone | LoginRefused | ReadFailed | TimedOut

text \<open>\<open>handleRequest\<close> for a client that is logged in, without the statistics: the reason
  to close the connection, if there is one. \<open>date\<close> and \<open>stats\<close> are the texts of the
  replies to \<open>DATE\<close> and \<open>QUIT\<close>.\<close>

definition mode_reply :: "string list \<Rightarrow> string" where
  "mode_reply args =
     (if length args = 1 \<and> upper (hd args) = ''READER'' then ''201 Posting prohibited'' else ''501 Syntax error in MODE command'')"

definition newsreader_command ::
  "provider list \<Rightarrow> string \<Rightarrow> string list \<Rightarrow> proxysession \<times> upstream \<Rightarrow> (proxysession \<times> upstream) option" where
  "newsreader_command ps command args st =
     (if command = ''LIST'' then Some (handleListCommand ps args st)
      else if command = ''XOVER'' \<or> command = ''OVER'' then Some (handleXOverCommand ps args (command = ''XOVER'') st)
      else if command = ''XHDR'' \<or> command = ''HDR'' then Some (handleXHdrCommand ps args (command = ''XHDR'') st)
      else if command = ''GROUP'' then Some (handleGroupCommand ps args st)
      else if command = ''NEXT'' then Some (handleNextOrLastCommand ps True st)
      else if command = ''LAST'' then Some (handleNextOrLastCommand ps False st)
      else None)"

definition run_command ::
  "artenv \<Rightarrow> provider list \<Rightarrow> string \<Rightarrow> string \<Rightarrow> string list \<Rightarrow> proxysession \<times> upstream \<times> negcache \<Rightarrow>
   (proxysession \<times> upstream \<times> negcache) go" where
  "run_command e ps date command args st =
     (case st of (s, u, nc) \<Rightarrow>
      if command \<in> {''STAT'', ''ARTICLE'', ''BODY'', ''HEAD''} then handleArticleCommand e ps command args st
      else if command = ''CAPABILITIES'' then Inr (printCapabilities s, u, nc)
      else if command = ''DATE'' then Inr (reply (''111 '' @ date) s, u, nc)
      else if command = ''MODE'' then Inr (reply (mode_reply args) s, u, nc)
      else case newsreader_command ps command args (s, u) of
        Some (s', u') \<Rightarrow> Inr (s', u', nc)
      | None \<Rightarrow> Inr (reply ''500 Unknown command'' s, u, nc))"

definition handleRequest ::
  "artenv \<Rightarrow> provider list \<Rightarrow> string \<Rightarrow> string \<Rightarrow> string \<Rightarrow> string list \<Rightarrow> proxysession \<times> upstream \<times> negcache \<Rightarrow>
   (session_end option \<times> proxysession \<times> upstream \<times> negcache) go" where
  "handleRequest e ps date stats command args st =
     (case st of (s, u, nc) \<Rightarrow>
      if \<not> Authed s \<or> ps_user s = [] \<or> ps_expire s < ae_now e
      then Inr (Some LoginExpired, reply (''480 Authentication required for '' @ command @ '' command'') s, u, nc)
      else if command = ''QUIT''
      then Inr (Some ClientQuit, reply (''205 Closing connection - goodbye. '' @ stats) s, u, nc)
      else go_bind (run_command e ps date command args st)
        (\<lambda>(s', u', nc'). Inr (if ps_broken s' then Some ClientGone else None, s', u', nc')))"

section \<open>The login\<close>

text \<open>The users, the time of the last reload in seconds, and the connections by user.\<close>

record proxyusers =
  passwdMap :: "string \<rightharpoonup> UserData"
  proxyCron :: int
  CountConns :: "string \<Rightarrow> int"
  CID :: "64 word"

text \<open>\<open>loadPasswdFile\<close> after the merge: \<open>parsed\<close> is what \<open>parsePasswdFile\<close> returns.\<close>

definition loadPasswdFile :: "(string \<rightharpoonup> UserData) option \<Rightarrow> proxyusers \<Rightarrow> proxyusers" where
  "loadPasswdFile parsed g =
     (case parsed of None \<Rightarrow> g | Some us \<Rightarrow> if dom us = {} then g else g\<lparr>passwdMap := us\<rparr>)"

definition verifyPassword :: "(string \<Rightarrow> string \<Rightarrow> bool) \<Rightarrow> string \<Rightarrow> int \<Rightarrow> proxyusers \<Rightarrow> string \<Rightarrow> string \<Rightarrow> bool" where
  "verifyPassword bcrypt dummy now g user pw = (fst (verifyUser bcrypt dummy now (passwdMap g) user pw) \<noteq> None)"

definition reload_users :: "int \<Rightarrow> (string \<rightharpoonup> UserData) option \<Rightarrow> proxyusers \<Rightarrow> proxyusers" where
  "reload_users now parsed g = (if 60 < now - proxyCron g then loadPasswdFile parsed (g\<lparr>proxyCron := now\<rparr>) else g)"

text \<open>The last section of \<open>login\<close>, under \<open>proxyMutex\<close>: the refusal, or the user's entry and
  the counted connection.\<close>

definition admit :: "int \<Rightarrow> string \<Rightarrow> proxyusers \<Rightarrow> string + UserData \<times> proxyusers" where
  "admit now user g =
     (case passwdMap g user of
        None \<Rightarrow> Inl ''481 Authentication failed''
      | Some d \<Rightarrow>
          if 0 < u_expire d \<and> u_expire d < now then Inl ''481 Authentication failed (account expired)''
          else if 0 < u_maxconns d \<and> u_maxconns d \<le> CountConns g user then Inl ''502 Too many connections for this user''
          else Inr (d, g\<lparr>CountConns := (CountConns g)(user := CountConns g user + 1), CID := CID g + 1\<rparr>))"

definition login ::
  "(string \<Rightarrow> string \<Rightarrow> bool) \<Rightarrow> string \<Rightarrow> (int \<Rightarrow> string) \<Rightarrow> int \<Rightarrow> (string \<rightharpoonup> UserData) option \<Rightarrow> string \<Rightarrow> string \<Rightarrow>
   proxysession \<times> proxyusers \<Rightarrow> bool \<times> proxysession \<times> proxyusers" where
  "login bcrypt dummy date now parsed user pw st =
     (case st of (s, g) \<Rightarrow>
      if \<not> verifyPassword bcrypt dummy now g user pw then (False, reply ''481 Authentication failed'' s, g)
      else let g1 = reload_users now parsed g in
      case admit now user g1 of
        Inl line \<Rightarrow> (False, reply line s, g1)
      | Inr (d, g2) \<Rightarrow>
          (True,
            reply (''281 Welcome to NZBreX Proxy! Your conns: '' @ dec_int (CountConns g2 user) @ ''/'' @
                dec_int (u_maxconns d) @ ''. Exp: '' @ date (u_expire d))
              (s\<lparr>Authed := True, ps_user := user, ps_expire := u_expire d\<rparr>), g2))"

text \<open>The deferred cleanup of a connection.\<close>

definition drop_conn :: "string \<Rightarrow> proxyusers \<Rightarrow> proxyusers" where
  "drop_conn user g = (if 0 < CountConns g user then g\<lparr>CountConns := (CountConns g)(user := CountConns g user - 1)\<rparr> else g)"

definition logout :: "proxysession \<Rightarrow> proxyusers \<Rightarrow> proxyusers" where
  "logout s g = (if Authed s \<and> ps_user s \<noteq> [] then drop_conn (ps_user s) g else g)"

section \<open>A connection\<close>

text \<open>\<open>c_user\<close> is the user name of \<open>AUTHINFO USER\<close>; a turn is what the world adds to one
  line: the time, the file of users, the texts with dates and counts.\<close>

record connst =
  c_ps :: proxysession
  c_user :: string
  c_up :: upstream
  c_nc :: negcache
  c_users :: proxyusers

record turn =
  tn_env :: artenv
  tn_parsed :: "(string \<rightharpoonup> UserData) option"
  tn_dates :: "int \<Rightarrow> string"
  tn_date :: string
  tn_stats :: string
  tn_timeout :: bool

definition say :: "string \<Rightarrow> connst \<Rightarrow> connst" where
  "say line st = st\<lparr>c_ps := reply line (c_ps st)\<rparr>"

definition authinfo :: "(string \<Rightarrow> string \<Rightarrow> bool) \<Rightarrow> string \<Rightarrow> turn \<Rightarrow> string list \<Rightarrow> connst \<Rightarrow> session_end option \<times> connst" where
  "authinfo bcrypt dummy tn args st =
     (if args = [] then (None, say ''501 Syntax error: AUTHINFO USER|PASS <value>'' st)
      else if upper (hd args) = ''USER''
      then (if length args \<noteq> 2 then (None, say ''501 Syntax error: AUTHINFO USER <username>'' st)
            else (None, say ''381 Password required'' (st\<lparr>c_user := args ! 1\<rparr>)))
      else if upper (hd args) = ''PASS''
      then (if c_user st = []
            then (None, say ''482 Authentication commands out of sequence (AUTHINFO USER first)'' st)
            else if length args \<noteq> 2 then (None, say ''501 Syntax error: AUTHINFO PASS <password>'' st)
            else case login bcrypt dummy (tn_dates tn) (ae_now (tn_env tn)) (tn_parsed tn) (c_user st) (args ! 1)
                    (c_ps st, c_users st) of
              (ok, s, g) \<Rightarrow> (if ok then None else Some LoginRefused, st\<lparr>c_ps := s, c_users := g\<rparr>))
      else (None, say (''501 Unknown AUTHINFO subcommand: '' @ hd args) st))"

definition handle_line ::
  "(string \<Rightarrow> string \<Rightarrow> bool) \<Rightarrow> string \<Rightarrow> provider list \<Rightarrow> turn \<Rightarrow> string \<Rightarrow> connst \<Rightarrow> (session_end option \<times> connst) go" where
  "handle_line bcrypt dummy ps tn line st =
     (case Fields line of
        [] \<Rightarrow> Inr (None, say ''500 Empty command'' st)
      | w # args \<Rightarrow>
          (let command = upper w in
           if Authed (c_ps st)
           then go_bind (handleRequest (tn_env tn) ps (tn_date tn) (tn_stats tn) command args (c_ps st, c_up st, c_nc st))
                  (\<lambda>(e, s, u, nc). Inr (e, st\<lparr>c_ps := s, c_up := u, c_nc := nc\<rparr>))
           else if command = ''CAPABILITIES'' then Inr (None, st\<lparr>c_ps := printCapabilities (c_ps st)\<rparr>)
           else if command = ''AUTHINFO'' then Inr (authinfo bcrypt dummy tn args st)
           else if command = ''MODE'' then Inr (None, say (mode_reply args) st)
           else if command = ''QUIT'' then Inr (Some ClientQuit, say ''205 Closing connection - goodbye.'' st)
           else Inr (None, say ''480 Authentication required'' st)))"

declare read_line_loop.simps [simp del]

text \<open>What the loop computes, by the first line feed.\<close>

definition line_spec :: "string \<Rightarrow> bool \<Rightarrow> string \<Rightarrow> (line_error + string) \<times> string" where
  "line_spec buf tooLong s =
     (if CHR 0x0A \<notin> set s then (Inl ReadError, [])
      else let n = length (takeWhile (\<lambda>c. c \<noteq> CHR 0x0A) s) + 1
      in (if tooLong \<or> length buf + n > proxyMaxLineLen then Inl LineTooLong
          else Inr (TrimRight (buf @ take n s) {CHR 0x0D, CHR 0x0A}), drop n s))"

lemma takeWhile_shorter: "x \<in> set s \<Longrightarrow> \<not> P x \<Longrightarrow> length (takeWhile P s) < length s"
  by (induction s) auto

lemma takeWhile_skip: "(\<forall>x \<in> set (take k s). P x) \<Longrightarrow> takeWhile P s = take k s @ takeWhile P (drop k s)"
  using takeWhile_append2[of "take k s" P "drop k s"] by simp

lemma read_line_loop_spec: "read_line_loop buf tooLong s = line_spec buf tooLong s"
proof (induction buf tooLong s rule: read_line_loop.induct)
  case (1 buf tooLong s)
  let ?P = "\<lambda>c. c \<noteq> CHR 0x0A"
  consider (here) "CHR 0x0A \<in> set (take 1024 s)" | (later) "CHR 0x0A \<notin> set (take 1024 s)" "1024 \<le> length s"
    | (never) "CHR 0x0A \<notin> set s" "length s < 1024"
    by (metis linorder_not_le order_le_less take_all_iff)
  then show ?case
  proof cases
    case here
    then have m: "CHR 0x0A \<in> set s" by (rule in_set_takeD)
    have "length (takeWhile ?P s) < length s" by (rule takeWhile_shorter[OF m]) simp
    then have "length (take (length (takeWhile ?P s) + 1) s) = length (takeWhile ?P s) + 1" by simp
    then show ?thesis using here m
      by (subst read_line_loop.simps) (simp add: read_slice_def line_spec_def Let_def)
  next
    case later
    have r: "read_slice s = ((take 1024 s, BufferFull), drop 1024 s)" using later by (simp add: read_slice_def)
    have tw: "takeWhile ?P s = take 1024 s @ takeWhile ?P (drop 1024 s)"
      by (rule takeWhile_skip) (use later(1) in auto)
    have mem: "CHR 0x0A \<in> set s \<longleftrightarrow> CHR 0x0A \<in> set (drop 1024 s)"
      using later(1) by (metis Un_iff append_take_drop_id set_append)
    have "read_line_loop buf tooLong s = read_line_loop (if tooLong then buf else []) True (drop 1024 s)"
      using later(2) by (subst read_line_loop.simps) (simp add: r Let_def proxyMaxLineLen_def)
    also have "\<dots> = line_spec (if tooLong then buf else []) True (drop 1024 s)"
    proof -
      have "proxyMaxLineLen < length buf + length (take 1024 s)" using later(2) by (simp add: proxyMaxLineLen_def)
      then show ?thesis using 1[OF r[symmetric] refl refl refl refl refl] by (cases tooLong) simp_all
    qed
    also have "\<dots> = line_spec buf tooLong s"
      using mem later(2) by (simp add: line_spec_def Let_def tw proxyMaxLineLen_def add.commute)
    finally show ?thesis .
  next
    case never
    then show ?thesis
      by (subst read_line_loop.simps) (auto simp: read_slice_def line_spec_def Let_def)
  qed
qed

lemma read_line_shorter:
  assumes "readCommandLine s = (r, rest)" and "r \<noteq> Inl ReadError"
  shows "length rest < length s"
proof -
  have "CHR 0x0A \<in> set s"
    using assms by (auto simp: readCommandLine_def read_line_loop_spec line_spec_def split: if_splits)
  then show ?thesis
    using assms by (cases s) (auto simp: readCommandLine_def read_line_loop_spec line_spec_def Let_def)
qed

text \<open>The loop of \<open>handleConnection\<close>: the lines one after another until one of them, a
  failed write or the end of the input ends it. The \<open>n\<close>-th line has turn \<open>tn n\<close>. A
  panic in a handler is caught; \<open>None\<close> stands for it.\<close>

function session ::
  "(string \<Rightarrow> string \<Rightarrow> bool) \<Rightarrow> string \<Rightarrow> provider list \<Rightarrow> (nat \<Rightarrow> turn) \<Rightarrow> nat \<Rightarrow> string \<Rightarrow> connst \<Rightarrow>
   session_end option \<times> connst" where
  "session bcrypt dummy ps tn n input st =
     (if ps_broken (c_ps st) then (Some ClientGone, st)
      else case readCommandLine input of
        (Inl LineTooLong, rest) \<Rightarrow>
          session bcrypt dummy ps tn (n + 1) rest (say ''501 Command line too long (max 512 bytes)'' st)
      | (Inl ReadError, rest) \<Rightarrow>
          (if tn_timeout (tn n)
           then (Some TimedOut, say (if Authed (c_ps st) then ''400 Idle timeout, closing connection''
                                     else ''400 Login timeout, closing connection'') st)
           else (Some ReadFailed, st))
      | (Inr line, rest) \<Rightarrow>
          (case handle_line bcrypt dummy ps (tn n) line st of
             Inl _ \<Rightarrow> (None, st)
           | Inr (Some e, st') \<Rightarrow> (Some e, st')
           | Inr (None, st') \<Rightarrow> session bcrypt dummy ps tn (n + 1) rest st'))"
  by pat_completeness auto
termination
  by (relation "measure (\<lambda>(bcrypt, dummy, ps, tn, n, input, st). length input)") (auto dest: read_line_shorter[OF sym])

declare session.simps [simp del]

end
