(* ===== verification/ProxyRelay.thy ===== *)
theory ProxyRelay
  imports Proxy
begin

text \<open>
  What the proxy of \<open>Proxy.thy\<close> sends to the providers and to the client: only whole
  commands go upstream, every connection taken is given back, nothing is sent
  before a login, an article arrives as it is, the negative cache, the users.
\<close>

section \<open>Lemmas: what goes upstream\<close>

definition clean :: "string \<Rightarrow> bool" where
  "clean w \<longleftrightarrow> CHR 0x0D \<notin> set w \<and> CHR 0x0A \<notin> set w"

lemma clean_append [simp]: "clean (v @ w) \<longleftrightarrow> clean v \<and> clean w"
  by (auto simp: clean_def)

lemma clean_Cons [simp]: "clean (c # w) \<longleftrightarrow> c \<noteq> CHR 0x0D \<and> c \<noteq> CHR 0x0A \<and> clean w" and clean_Nil [simp]: "clean []"
  by (auto simp: clean_def)

lemma clean_dec_int [simp]: "clean (dec_int n)"
  by (auto simp: clean_def is_digit_def dest!: dec_int_chars)

lemma clean_Fields: "w \<in> set (Fields s) \<Longrightarrow> clean w"
  using Fields_words[of w s] by (auto simp: clean_def spaces_def)

lemma clean_upper: "clean w \<Longrightarrow> clean (upper w)"
proof -
  define f where "f c = (let n = of_char c :: nat in if 97 \<le> n \<and> n \<le> 122 then char_of (n - 32) else c)" for c
  have "char_of m \<notin> {CHR 0x0D, CHR 0x0A}" if "65 \<le> m" "m < (256 :: nat)" for m
  proof
    assume "char_of m \<in> {CHR 0x0D, CHR 0x0A}"
    then have "(of_char (char_of m :: char) :: nat) \<in> {13, 10}" by (elim insertE emptyE; simp only:; simp)
    then show False using that by simp
  qed
  then have f: "f c \<in> {CHR 0x0D, CHR 0x0A} \<Longrightarrow> c \<in> {CHR 0x0D, CHR 0x0A}" for c
    by (auto simp: f_def Let_def split: if_splits)
  assume "clean w"
  then have "f c \<noteq> CHR 0x0D \<and> f c \<noteq> CHR 0x0A" if "c \<in> set w" for c
    using f[of c] that by (auto simp: clean_def)
  moreover have "upper w = map f w" by (simp add: upper_def f_def)
  ultimately show "clean (upper w)" unfolding clean_def by (metis (no_types, lifting) imageE list.set_map)
qed

lemma clean_words: "\<forall>w \<in> set ws. clean w \<Longrightarrow> clean (words ws)"
  by (induction ws rule: words.induct) auto

text \<open>The bytes sent on a connection are whole commands, one to a line.\<close>

definition sent :: "nconn \<Rightarrow> nconn \<Rightarrow> bool" where
  "sent c c' \<longleftrightarrow> (\<exists>cmds. outgoing c' = outgoing c @ concat (map (\<lambda>l. l @ CRLF) cmds) \<and> (\<forall>l \<in> set cmds. clean l))"

lemma sent_same: "outgoing c' = outgoing c \<Longrightarrow> sent c c'"
  unfolding sent_def by (intro exI[of _ "[]"]) simp

lemma sent_one: "outgoing c' = outgoing c @ l @ CRLF \<Longrightarrow> clean l \<Longrightarrow> sent c c'"
  unfolding sent_def by (intro exI[of _ "[l]"]) simp

lemma sent_trans: "sent a b \<Longrightarrow> sent b c \<Longrightarrow> sent a c"
  unfolding sent_def by (elim exE conjE, rule exI[of _ "cmds @ cmdsa" for cmds cmdsa]) auto

text \<open>Every connection that was taken was given back, once, in order of its provider's
  queue, and only commands were sent on it.\<close>

definition somes :: "'a option list \<Rightarrow> 'a list" where
  "somes xs = concat (map (\<lambda>x. case x of None \<Rightarrow> [] | Some y \<Rightarrow> [y]) xs)"

definition back_of :: "nat \<Rightarrow> (nat \<times> nconn \<times> bool) list \<Rightarrow> nconn list" where
  "back_of i bs = map (\<lambda>b. fst (snd b)) (filter (\<lambda>b. fst b = i) bs)"

definition relayed :: "upstream \<Rightarrow> upstream \<Rightarrow> bool" where
  "relayed u u' \<longleftrightarrow> (\<exists>news. up_back u' = up_back u @ news \<and>
     (\<forall>i. \<exists>taken. up_queue u i = taken @ up_queue u' i \<and> list_all2 sent (somes taken) (back_of i news)))"

lemma somes_simps [simp]: "somes [] = []" "somes (None # xs) = somes xs" "somes (Some y # xs) = y # somes xs"
  "somes (xs @ ys) = somes xs @ somes ys"
  by (simp_all add: somes_def)

lemma back_of_simps [simp]: "back_of i [] = []" "back_of i (bs @ cs) = back_of i bs @ back_of i cs"
  "back_of i [(j, c, p)] = (if i = j then [c] else [])"
  by (simp_all add: back_of_def)

lemma relayed_refl [intro]: "relayed u u"
  unfolding relayed_def by (intro exI[of _ "[]"]) simp

lemma relayed_trans:
  assumes "relayed u v" and "relayed v w"
  shows "relayed u w"
proof -
  obtain n where n: "up_back v = up_back u @ n"
    "\<And>i. \<exists>taken. up_queue u i = taken @ up_queue v i \<and> list_all2 sent (somes taken) (back_of i n)"
    using assms(1) unfolding relayed_def by blast
  obtain m where m: "up_back w = up_back v @ m"
    "\<And>i. \<exists>taken. up_queue v i = taken @ up_queue w i \<and> list_all2 sent (somes taken) (back_of i m)"
    using assms(2) unfolding relayed_def by blast
  have "\<exists>taken. up_queue u i = taken @ up_queue w i \<and> list_all2 sent (somes taken) (back_of i (n @ m))" for i
  proof -
    obtain s where "up_queue u i = s @ up_queue v i" "list_all2 sent (somes s) (back_of i n)" using n(2) by blast
    moreover obtain t where "up_queue v i = t @ up_queue w i" "list_all2 sent (somes t) (back_of i m)" using m(2) by blast
    ultimately show ?thesis by (intro exI[of _ "s @ t"]) (simp add: list_all2_appendI)
  qed
  then show ?thesis unfolding relayed_def using n(1) m(1) by (intro exI[of _ "n @ m"]) simp
qed

lemma relayed_none: "get_conn i u = (None, u1) \<Longrightarrow> relayed u u1"
  unfolding relayed_def
  by (intro exI[of _ "[]"]) (force simp: get_conn_def split: list.splits)

lemma relayed_one:
  assumes "get_conn i u = (Some c, u1)" and "sent c c'"
  shows "relayed u (give_back i c' p u1)"
proof -
  obtain cs where q: "up_queue u i = Some c # cs" "u1 = u\<lparr>up_queue := (up_queue u)(i := cs)\<rparr>"
    using assms(1) by (auto simp: get_conn_def split: list.splits)
  have "\<exists>taken. up_queue u j = taken @ up_queue (give_back i c' p u1) j \<and> list_all2 sent (somes taken) (back_of j [(i, c', p)])" for j
    using q assms(2) by (cases "j = i") (auto simp: give_back_def intro: exI[of _ "[Some c]"])
  then show ?thesis unfolding relayed_def using q by (intro exI[of _ "[(i, c', p)]"]) (simp add: give_back_def)
qed

lemma relayed_rest: "get_conn i u = (Some c, u1) \<Longrightarrow> sent c c' \<Longrightarrow> relayed (give_back i c' p u1) v \<Longrightarrow> relayed u v"
  using relayed_one relayed_trans by blast

lemma sent_cmd: "outgoing c' = outgoing c \<or> outgoing c' = outgoing c @ line @ CRLF \<Longrightarrow> clean line \<Longrightarrow> sent c c'"
  using sent_same sent_one by blast

lemma gave_back: "sent c d \<Longrightarrow> \<exists>c'. sent c c' \<and> (\<exists>p. give_back i d q u = give_back i c' p u)"
  by blast

lemma upstreamCmd_sent: "upstreamCmd line c = (r, c') \<Longrightarrow> clean line \<Longrightarrow> sent c c'"
  by (auto simp: upstreamCmd_def Cmd_def WriteString_def ReadCodeLine_def
      split: if_splits list.splits prod.splits intro!: sent_cmd[of _ _ line])

lemma selectGroup_sent:
  assumes "selectGroup i c (s, u) = (r, s', u')" and "clean (ps_group s)"
  shows "case r of Inl a \<Rightarrow> (\<exists>c' p. sent c c' \<and> u' = give_back i c' p u) | Inr c' \<Rightarrow> sent c c' \<and> u' = u \<and> s' = s"
  using assms upstreamCmd_sent[of "''GROUP '' @ ps_group s" c]
  by (auto simp: selectGroup_def split: prod.splits if_splits intro!: gave_back)

lemma upstreamBlock_sent:
  assumes "upstreamBlock i c ok line u = (r, u')" and "clean line"
  shows "\<exists>c' p. sent c c' \<and> u' = give_back i c' p u"
  using assms
  by (auto simp: upstreamBlock_def Cmd_def WriteString_def ReadCodeLine_def
      split: if_splits list.splits prod.splits sum.splits option.splits intro!: gave_back sent_cmd[of _ _ line])

lemma reply_fields [simp]:
  "ps_group (reply l s) = ps_group s" "ps_num (reply l s) = ps_num s" "ps_selected (reply l s) = ps_selected s"
  "Authed (reply l s) = Authed s" "ps_user (reply l s) = ps_user s" "ps_expire (reply l s) = ps_expire s"
  by (simp_all add: reply_def)

lemma writeDotBlock_fields [simp]:
  "ps_group (writeDotBlock l ls s) = ps_group s" "ps_num (writeDotBlock l ls s) = ps_num s"
  "ps_selected (writeDotBlock l ls s) = ps_selected s" "Authed (writeDotBlock l ls s) = Authed s"
  by (simp_all add: writeDotBlock_def Let_def)

lemma selectGroup_group: "selectGroup i c (s, u) = (r, s', u') \<Longrightarrow> ps_group s' = ps_group s"
  by (auto simp: selectGroup_def split: prod.splits if_splits)

lemma try_group_relayed: "try_group ps g is u = (r, u') \<Longrightarrow> clean g \<Longrightarrow> relayed u u'"
proof (induction "is" arbitrary: u)
  case (Cons i "is")
  show ?case
  proof (cases "is_reader (ps ! i)")
    case True
    obtain co u1 where g: "get_conn i u = (co, u1)" by fastforce
    show ?thesis
    proof (cases co)
      case None
      then show ?thesis using Cons g True relayed_none[of i u u1] relayed_trans by auto
    next
      case (Some c)
      obtain code msg c' where up: "upstreamCmd (''GROUP '' @ g) c = ((code, msg), c')" by (metis prod.collapse)
      then have s: "sent c c'" using upstreamCmd_sent Cons.prems(2) by fastforce
      show ?thesis
        using Cons.prems Cons.IH relayed_rest[OF g[unfolded Some] s] relayed_one[OF g[unfolded Some] s] True g up Some
        by (auto simp: Let_def split: if_splits)
    qed
  qed (use Cons in auto)
qed auto

lemma relay_block_relayed:
  "relay_block grp ok line is (s, u) = (r, s', u') \<Longrightarrow> clean line \<Longrightarrow> clean (ps_group s) \<Longrightarrow>
   relayed u u' \<and> ps_group s' = ps_group s \<and> Authed s' = Authed s"
proof (induction "is" arbitrary: s u)
  case (Cons i "is")
  obtain co u1 where g: "get_conn i u = (co, u1)" by fastforce
  show ?case
  proof (cases co)
    case None
    then have "relay_block grp ok line is (s, u1) = (r, s', u')" using Cons.prems(1) g by simp
    then show ?thesis using Cons.IH[of s u1] Cons.prems(2,3) relayed_none[of i u u1] g None relayed_trans by blast
  next
    case (Some c)
    obtain d s1 u2 where sel: "(if grp then selectGroup i c (s, u1) else (Inr c, s, u1)) = (d, s1, u2)" by (metis prod.collapse)
    have d: "case d of Inl a \<Rightarrow> (\<exists>c' p. sent c c' \<and> u2 = give_back i c' p u1) | Inr c' \<Rightarrow> sent c c' \<and> u2 = u1 \<and> s1 = s"
      using sel selectGroup_sent[of i c s u1 d s1 u2] Cons.prems(3) by (auto split: if_splits intro: sent_same)
    have s1: "ps_group s1 = ps_group s" "Authed s1 = Authed s"
      using sel by (auto simp: selectGroup_def split: if_splits prod.splits)
    show ?thesis
    proof (cases d)
      case (Inl a)
      then obtain c' p where c': "sent c c'" "u2 = give_back i c' p u1" using d by auto
      have "relayed u u2" using relayed_one[OF g[unfolded Some] c'(1)] c'(2) by simp
      then show ?thesis
        using Cons.prems Cons.IH[of s1 u2] g Some sel Inl s1 relayed_trans by (auto split: if_splits)
    next
      case (Inr c1)
      then have c1: "sent c c1" "u2 = u1" "s1 = s" using d by auto
      obtain code msg ls u3 where b: "upstreamBlock i c1 ok line u2 = ((code, msg, ls), u3)" by (metis prod.collapse)
      obtain c2 p where c2: "sent c1 c2" "u3 = give_back i c2 p u2" using upstreamBlock_sent[OF b Cons.prems(2)] by auto
      have "relayed u u3"
        using relayed_one[OF g[unfolded Some] sent_trans[OF c1(1) c2(1)]] c2(2) c1(2) by simp
      then show ?thesis
        using Cons.prems Cons.IH[of s1 u3] g Some sel Inr c1 b relayed_trans by (auto split: if_splits)
    qed
  qed
qed auto

lemma try_move_relayed:
  "try_move isNext is (s, u) = (r, s', u') \<Longrightarrow> clean (ps_group s) \<Longrightarrow>
   relayed u u' \<and> ps_group s' = ps_group s \<and> Authed s' = Authed s"
proof (induction "is" arbitrary: s u)
  case (Cons i "is")
  obtain co u1 where g: "get_conn i u = (co, u1)" by fastforce
  show ?case
  proof (cases co)
    case None
    then have "try_move isNext is (s, u1) = (r, s', u')" using Cons.prems(1) g by simp
    then show ?thesis using Cons.IH[of s u1] Cons.prems(2) relayed_none[of i u u1] g None relayed_trans by blast
  next
    case (Some c)
    obtain d s1 u2 where sel: "selectGroup i c (s, u1) = (d, s1, u2)" by (metis prod.collapse)
    note d = selectGroup_sent[OF sel Cons.prems(2)]
    have s1: "ps_group s1 = ps_group s" "Authed s1 = Authed s"
      using sel by (auto simp: selectGroup_def split: prod.splits if_splits)
    show ?thesis
    proof (cases d)
      case (Inl a)
      then obtain c' p where c': "sent c c'" "u2 = give_back i c' p u1" using d by auto
      have "relayed u u2" using relayed_one[OF g[unfolded Some] c'(1)] c'(2) by simp
      then show ?thesis
        using Cons.prems Cons.IH[of s1 u2] g Some sel Inl s1 relayed_trans by (auto split: if_splits)
    next
      case (Inr c1)
      then have c1: "sent c c1" "u2 = u1" "s1 = s" using d by auto
      obtain code msg c2 where st: "upstreamCmd (''STAT '' @ dec_int (ps_num s1)) c1 = ((code, msg), c2)" by (metis prod.collapse)
      obtain code3 msg3 c3 where mv: "upstreamCmd (if isNext then ''NEXT'' else ''LAST'') c2 = ((code3, msg3), c3)" by (metis prod.collapse)
      have s2: "sent c c2" using sent_trans[OF c1(1) upstreamCmd_sent[OF st]] by simp
      have s3: "sent c c3" using sent_trans[OF s2 upstreamCmd_sent[OF mv]] by simp
      have r2: "relayed u (give_back i c2 p u1)" and r3: "relayed u (give_back i c3 p u1)" for p
        using relayed_one[OF g[unfolded Some]] s2 s3 by blast+
      have next2: "try_move isNext is (s1, shut i c2 u2) = (r, s', u') \<Longrightarrow> ?thesis"
        and next3: "try_move isNext is (s1, shut i c3 u2) = (r, s', u') \<Longrightarrow> ?thesis"
        using Cons.IH[of s1 "shut i c2 u2"] Cons.IH[of s1 "shut i c3 u2"] Cons.prems(2) s1 r2 r3 c1(2) relayed_trans by fastforce+
      show ?thesis
        using Cons.prems(1) g Some sel Inr st mv next2 next3 r2 r3 c1
        by (simp add: Let_def split: if_splits list.splits) fastforce+
    qed
  qed
qed auto

text \<open>A command handler that keeps to its connections.\<close>

definition proper :: "proxysession \<Rightarrow> upstream \<Rightarrow> proxysession \<Rightarrow> upstream \<Rightarrow> bool" where
  "proper s u s' u' \<longleftrightarrow> relayed u u' \<and> clean (ps_group s') \<and> Authed s' = Authed s"

lemma proper_refl: "clean (ps_group s') \<Longrightarrow> Authed s' = Authed s \<Longrightarrow> proper s u s' u"
  by (auto simp: proper_def)

lemma group_proper:
  assumes "handleGroupCommand ps args (s, u) = (s', u')" and "\<forall>w \<in> set args. clean w" and "clean (ps_group s)"
  shows "proper s u s' u'"
proof (cases "length args = 1")
  case True
  obtain g where g: "args = [g]" using True by (cases args) auto
  obtain r v where t: "try_group ps g [0..<length ps] u = (r, v)" by fastforce
  have "relayed u v" using try_group_relayed[OF t] assms(2) g by simp
  then show ?thesis using assms g t by (auto simp: handleGroupCommand_def proper_def split: option.splits)
qed (use assms in \<open>auto simp: handleGroupCommand_def intro: proper_refl\<close>)

lemma block_proper:
  assumes "(case relay_block grp ok line is (s, u) of (None, s1, u1) \<Rightarrow> (reply l (s1\<lparr>ps_selected := None\<rparr>), u1) | (Some i, s1, u1) \<Rightarrow> (f i s1, u1)) = (s', u')"
    and "clean line" and "clean (ps_group s)" and "\<And>i s. ps_group (f i s) = ps_group s \<and> Authed (f i s) = Authed s"
  shows "proper s u s' u'"
proof -
  obtain r s1 u1 where b: "relay_block grp ok line is (s, u) = (r, s1, u1)" by (metis prod.collapse)
  show ?thesis
    using relay_block_relayed[OF b assms(2,3)] assms(1,3,4) b by (auto simp: proper_def split: option.splits)
qed

lemma list_proper:
  assumes "handleListCommand ps args (s, u) = (s', u')" and "\<forall>w \<in> set args. clean w" and "clean (ps_group s)"
  shows "proper s u s' u'"
proof -
  have "clean (list_line args)"
    using assms(2) clean_words[of "tl args"] clean_upper by (auto simp: list_line_def split: list.splits)
  then show ?thesis
    using assms(1,3)
    by (intro block_proper[where f = "\<lambda>i s. if ps_selected s = None then s\<lparr>ps_selected := Some i\<rparr> else s" and line = "list_line args"])
      (auto simp: handleListCommand_def)
qed

lemma over_proper:
  assumes "handleXOverCommand ps args x (s, u) = (s', u')" and "\<forall>w \<in> set args. clean w" and "clean (ps_group s)"
  shows "proper s u s' u'"
proof -
  define r where "r = (case args of [] \<Rightarrow> dec_int (ps_num s) | a # _ \<Rightarrow> a)"
  have "clean r" using assms(2) by (auto simp: r_def split: list.splits)
  then have line: "clean ((if x then ''XOVER'' else ''OVER'') @ '' '' @ r)" by simp
  show ?thesis
  proof (cases "ps_group s = [] \<or> args = [] \<and> ps_num s \<le> 0 \<or> 1 < length args \<or> \<not> valid_range r")
    case True
    then show ?thesis using assms(1,3)
      by (auto simp: handleXOverCommand_def Let_def simp flip: r_def intro!: proper_refl split: if_splits)
  next
    case False
    then show ?thesis using assms(1,3)
      by (intro block_proper[where f = "\<lambda>i s. s", OF _ line]) (auto simp: handleXOverCommand_def Let_def simp flip: r_def)
  qed
qed

lemma hdr_proper:
  assumes "handleXHdrCommand ps args x (s, u) = (s', u')" and "\<forall>w \<in> set args. clean w" and "clean (ps_group s)"
  shows "proper s u s' u'"
proof (cases "length args < 1 \<or> 2 < length args")
  case True
  then show ?thesis using assms by (auto simp: handleXHdrCommand_def intro!: proper_refl)
next
  case False
  then have args: "args \<noteq> []" "length args \<le> 2" by auto
  have target: "clean (if length args = 2 then args ! 1 else dec_int (ps_num s))"
    using assms(2) args by auto
  have line: "clean ((if x then ''XHDR'' else ''HDR'') @ '' '' @ hd args @ '' '' @ (if length args = 2 then args ! 1 else dec_int (ps_num s)))"
    using target assms(2) args by (simp split: if_splits)
  show ?thesis
  proof (cases "\<not> (length args = 2 \<and> has_prefix ''<'' (args ! 1)) \<and> ps_group s = [] \<or> length args = 1 \<and> ps_num s \<le> 0")
    case True
    then show ?thesis using assms(1,3) args False
      by (auto simp: handleXHdrCommand_def Let_def intro!: proper_refl split: if_splits)
  next
    case go: False
    define byId where "byId = (length args = 2 \<and> has_prefix ''<'' (args ! 1))"
    have "handleXHdrCommand ps args x (s, u) =
      (case relay_block (\<not> byId) (if x then 221 else 225)
          ((if x then ''XHDR'' else ''HDR'') @ '' '' @ hd args @ '' '' @ (if length args = 2 then args ! 1 else dec_int (ps_num s)))
          (readerProviders ps s) (s, u) of
         (None, s1, u1) \<Rightarrow> (reply ''503 No providers have the selected group or article'' (s1\<lparr>ps_selected := None\<rparr>), u1)
       | (Some i, s1, u1) \<Rightarrow> (s1, u1))"
    proof -
      have "\<not> (length args < 1 \<or> 2 < length args)" "\<not> (\<not> byId \<and> ps_group s = [])" "\<not> (length args = 1 \<and> ps_num s \<le> 0)"
        using False go unfolding byId_def by blast+
      then show ?thesis by (simp only: handleXHdrCommand_def Let_def prod.case if_False flip: byId_def)
    qed
    then show ?thesis using assms(1,3)
      by (intro block_proper[where f = "\<lambda>i s. s" and grp = "\<not> byId" and ok = "if x then 221 else 225", OF _ line]) simp_all
  qed
qed

lemma move_proper:
  assumes "handleNextOrLastCommand ps x (s, u) = (s', u')" and "clean (ps_group s)"
  shows "proper s u s' u'"
proof -
  obtain r s1 u1 where m: "try_move x (readerProviders ps s) (s, u) = (r, s1, u1)" by (metis prod.collapse)
  show ?thesis
    using try_move_relayed[OF m assms(2)] assms m
    by (cases r) (auto simp: handleNextOrLastCommand_def proper_def split: if_splits)
qed

lemma store_lines_id: "store_lines command st it = (it', e) \<Longrightarrow> seg_id it' = seg_id it"
  by (auto simp: store_lines_def split: if_splits)

lemma readDotLines_quiet:
  assumes "readDotLines opt date sched rapid n command it c = Inr (r, it', c', w)"
  shows "outgoing c' = outgoing c \<and> seg_id it' = seg_id it"
proof -
  obtain e rest where l: "readlines opt date command sched 0 (incoming c) (rdl_start command) = Inr (e, rest)"
    using assms by (auto simp: readDotLines_def split: if_splits)
  show ?thesis
  proof (cases e)
    case (Broken k x)
    then show ?thesis using assms l by (auto simp: readDotLines_def hang_up_def Let_def split: if_splits)
  next
    case (Finished st)
    then obtain y where y: "yenc_end opt rapid n command st = Inr y"
      using assms l by (auto simp: readDotLines_def Let_def split: if_splits)
    obtain it1 e1 where st: "store_lines command st it = (it1, e1)" by fastforce
    show ?thesis
      using assms l Finished y st store_lines_id[OF st] by (cases "y = BadYenc") (auto simp: readDotLines_def Let_def split: if_splits)
  qed
qed

lemma CMD_sent:
  assumes "CMD opt date sched rapid n command it (Some c) = Inr ((code, msg, k, e), it', co, w)"
    and "clean command" and "clean (seg_id it)"
  shows "\<exists>c'. co = Some c' \<and> sent c c' \<and> seg_id it' = seg_id it"
proof -
  define x :: int where "x = (if command = cmdARTICLE then 220 else if command = cmdHEAD then 221 else if command = cmdBODY then 222 else 0)"
  define line where "line = command @ CHR '' '' # seg_id it"
  have clean: "clean line" using assms(2,3) clean_append[of command "'' '' @ seg_id it"] by (simp add: line_def)
  show ?thesis
  proof (cases "Cmd line c")
    case None
    then show ?thesis using assms(1) by (auto simp: CMD_def Let_def simp flip: line_def x_def intro: sent_same)
  next
    case (Some c1)
    obtain code1 msg1 err1 c2 where r: "ReadCodeLine x c1 = ((code1, msg1, err1), c2)" by (metis prod.collapse)
    have "outgoing c2 = outgoing c @ line @ CRLF"
      using Some r by (auto simp: Cmd_def WriteString_def ReadCodeLine_def split: if_splits list.splits)
    then have s: "outgoing d = outgoing c2 \<Longrightarrow> sent c d" for d using sent_one[OF _ clean] by simp
    have cmd: "CMD opt date sched rapid n command it (Some c) =
      (if code1 = 220 \<or> code1 = 221 \<or> code1 = 222
        then go_bind (readDotLines opt date sched rapid n command it c2) (\<lambda>((rcode, n, e), it', c3, w).
          if e \<noteq> None then Inr ((code1, [], of_nat n, e), it', Some c3, w)
          else Inr ((if rcode = 99932 then 99932 else code1, msg1, of_nat n, None), it', Some c3, w))
        else if code1 = 430 \<or> code1 = 451 then Inr ((code1, msg1, 0, None), it, Some c2, None)
        else Inr ((code1, msg1, 0, Some (UnknownCode code1)), it, Some c2, None))"
      by (simp add: CMD_def Let_def Some r flip: line_def x_def)
    show ?thesis
    proof (cases "code1 = 220 \<or> code1 = 221 \<or> code1 = 222")
      case True
      then obtain rc it1 c3 w1 where d: "readDotLines opt date sched rapid n command it c2 = Inr (rc, it1, c3, w1)"
        using assms(1) unfolding cmd by (auto split: if_splits)
      then show ?thesis
        using assms(1) True s[of c3] readDotLines_quiet[OF d] unfolding cmd by (auto split: if_splits prod.splits)
    next
      case False
      then show ?thesis using assms(1) s[of c2] unfolding cmd by (auto split: if_splits)
    qed
  qed
qed

lemma art_command_kept:
  assumes "art_command e q g i c a = Inr (b, a')" and "get_conn i u = (Some d, ar_up a)" and "sent d c"
    and "clean (rq_command q)" and "clean (rq_id q)" and "seg_id (ar_item a) = rq_id q"
  shows "relayed u (ar_up a') \<and> seg_id (ar_item a') = rq_id q \<and> ps_group (ar_ps a') = ps_group (ar_ps a) \<and>
    Authed (ar_ps a') = Authed (ar_ps a)"
proof (cases "rq_command q = ''STAT''")
  case True
  obtain code msg c' where s: "upstreamCmd (''STAT '' @ rq_id q) c = ((code, msg), c')" by (metis prod.collapse)
  have "sent d c'" using sent_trans[OF assms(3) upstreamCmd_sent[OF s]] assms(5) by simp
  then have "relayed u (give_back i c' p (ar_up a))" for p by (rule relayed_one[OF assms(2)])
  then show ?thesis using assms(1,6) True s by (auto simp: art_command_def Let_def missed_def split: if_splits)
next
  case False
  obtain code msg k err it co w where m: "CMD (ae_opt e) (ae_date e) (ae_sched e) (ae_rapid e) (ae_num e) (rq_command q) (ar_item a) (Some c)
      = Inr ((code, msg, k, err), it, co, w)"
    using assms(1) False by (auto simp: art_command_def)
  obtain c' where c': "co = Some c'" "sent c c'" "seg_id it = rq_id q"
    using CMD_sent[OF m assms(4)] assms(5,6) by auto
  have "relayed u (give_back i c' p (ar_up a))" for p
    using relayed_one[OF assms(2) sent_trans[OF assms(3) c'(2)]] .
  then show ?thesis using assms(1) False m c'(1,3)
    by (auto simp: art_command_def Let_def missed_def deliver_def split: if_splits)
qed

lemma art_try_kept:
  assumes "art_try e ps q i a = Inr (b, a')" and "clean (rq_command q)" and "clean (rq_id q)"
    and "seg_id (ar_item a) = rq_id q" and "clean (ps_group (ar_ps a))"
  shows "relayed (ar_up a) (ar_up a') \<and> seg_id (ar_item a') = rq_id q \<and> ps_group (ar_ps a') = ps_group (ar_ps a) \<and>
    Authed (ar_ps a') = Authed (ar_ps a)"
proof (cases "NoDownload (ps ! i) \<or> rq_byNumber q \<and> \<not> Newsreader (ps ! i) \<or> Group (ps ! i) \<in> ar_checked a \<or>
    IsArticleNotFoundAtProviderGroup (ae_now e) (rq_key q) (Group (ps ! i)) (ar_nc a)")
  case True
  then show ?thesis using assms(1,4) by (auto simp: art_try_def Let_def split: if_splits)
next
  case False
  obtain co u1 where g: "get_conn i (ar_up a) = (co, u1)" by fastforce
  show ?thesis
  proof (cases co)
    case None
    then show ?thesis using assms(1,4) False g relayed_none[of i "ar_up a" u1] by (auto simp: art_try_def Let_def)
  next
    case (Some c)
    have go: "art_command e q (Group (ps ! i)) i d (a\<lparr>ar_up := u1\<rparr>) = Inr (b, a') \<Longrightarrow> sent c d \<Longrightarrow> ?thesis" for d
      using art_command_kept[of e q "Group (ps ! i)" i d "a\<lparr>ar_up := u1\<rparr>" b a' "ar_up a" c] g Some assms(2-4) by simp
    show ?thesis
    proof (cases "rq_byNumber q")
      case False
      then show ?thesis using assms(1) \<open>\<not> (_ \<or> _)\<close> g Some go[of c] sent_same[of c c] by (auto simp: art_try_def Let_def)
    next
      case True
      obtain code msg c' where s: "upstreamCmd (''GROUP '' @ ps_group (ar_ps a)) c = ((code, msg), c')" by (metis prod.collapse)
      have "sent c c'" using upstreamCmd_sent[OF s] assms(5) by simp
      moreover from this have "relayed (ar_up a) (give_back i c' p u1)" for p using relayed_one g Some by blast
      ultimately show ?thesis
        using assms(1,4) True \<open>\<not> (_ \<or> _)\<close> g Some s go[of c'] by (auto simp: art_try_def Let_def split: if_splits)
    qed
  qed
qed

lemma art_loop_kept:
  "art_loop e ps q is a = Inr (b, a') \<Longrightarrow> clean (rq_command q) \<Longrightarrow> clean (rq_id q) \<Longrightarrow>
   seg_id (ar_item a) = rq_id q \<Longrightarrow> clean (ps_group (ar_ps a)) \<Longrightarrow>
   relayed (ar_up a) (ar_up a') \<and> ps_group (ar_ps a') = ps_group (ar_ps a) \<and> Authed (ar_ps a') = Authed (ar_ps a)"
proof (induction "is" arbitrary: a)
  case (Cons i "is")
  obtain answered a1 where t: "art_try e ps q i a = Inr (answered, a1)"
    using Cons.prems(1) by (cases "art_try e ps q i a") auto
  note k = art_try_kept[OF t Cons.prems(2-5)]
  show ?case
  proof (cases answered)
    case True
    then show ?thesis using Cons.prems(1) t k by auto
  next
    case False
    then have "art_loop e ps q is a1 = Inr (b, a')" using Cons.prems(1) t by simp
    then show ?thesis using Cons.IH[of a1] Cons.prems(2,3,5) k relayed_trans by auto
  qed
qed auto

lemma article_proper:
  assumes "handleArticleCommand e ps command args (s, u, nc) = Inr (s', u', nc')"
    and "\<forall>w \<in> set args. clean w" and "clean (ps_group s)" and "clean command"
  shows "proper s u s' u'"
proof (cases "art_request command args s")
  case (Inl l)
  then show ?thesis using assms(1,3) by (auto simp: handleArticleCommand_def intro: proper_refl)
next
  case (Inr q)
  have q: "clean (rq_id q)" "rq_command q = command"
    using Inr assms(2) by (auto simp: art_request_def Let_def split: list.splits prod.splits if_splits)
  let ?a = "\<lparr>ar_response = [], ar_checked = {}, ar_item = proxy_item (rq_id q), ar_ps = s, ar_up = u, ar_nc = nc\<rparr>"
  obtain b a where l: "art_loop e ps q [0..<length ps] ?a = Inr (b, a)"
    using assms(1) Inr by (cases "art_loop e ps q [0..<length ps] ?a") (auto simp: handleArticleCommand_def)
  have "relayed u (ar_up a) \<and> ps_group (ar_ps a) = ps_group s \<and> Authed (ar_ps a) = Authed s"
    using art_loop_kept[OF l] q assms(3,4) by (simp add: proxy_item_def new_item_def)
  then show ?thesis using assms(1,3) Inr l by (cases b) (auto simp: handleArticleCommand_def proper_def)
qed

lemma newsreader_proper:
  assumes "newsreader_command ps command args (s, u) = Some (s', u')"
    and "\<forall>w \<in> set args. clean w" and "clean (ps_group s)"
  shows "proper s u s' u'"
  using assms(1) group_proper[OF _ assms(2,3)] list_proper[OF _ assms(2,3)] over_proper[OF _ assms(2,3)]
    hdr_proper[OF _ assms(2,3)] move_proper[OF _ assms(3)]
  unfolding newsreader_command_def by (simp split: if_splits)

lemma run_proper:
  assumes "run_command e ps date command args (s, u, nc) = Inr (s', u', nc')"
    and "\<forall>w \<in> set args. clean w" and "clean (ps_group s)" and "clean command"
  shows "proper s u s' u'"
proof (cases "command \<in> {''STAT'', ''ARTICLE'', ''BODY'', ''HEAD''}")
  case True
  then show ?thesis using assms(1) article_proper[OF _ assms(2-4)] unfolding run_command_def by simp
next
  case False
  then show ?thesis
    using assms(1,3) newsreader_proper[OF _ assms(2,3)] unfolding run_command_def
    by (auto simp: printCapabilities_def split: if_splits option.splits intro: proper_refl)
qed

lemma request_proper:
  assumes "handleRequest e ps date stats command args (s, u, nc) = Inr (x, s', u', nc')"
    and "\<forall>w \<in> set args. clean w" and "clean (ps_group s)" and "clean command"
  shows "proper s u s' u'"
  using assms(1,3) run_proper[OF _ assms(2-4)]
  by (auto simp: handleRequest_def split: if_splits prod.splits intro: proper_refl)

lemma writeDotBlock_kept [simp]: "ps_group (printCapabilities s) = ps_group s" "Authed (printCapabilities s) = Authed s"
  by (simp_all add: printCapabilities_def)

lemma login_group: "login bcrypt dummy date now parsed user pw (s, g) = (ok, s', g') \<Longrightarrow> ps_group s' = ps_group s"
  by (auto simp: login_def Let_def split: if_splits sum.splits)

lemma authinfo_up:
  assumes "authinfo bcrypt dummy tn args st = (e, st')"
  shows "c_up st' = c_up st \<and> c_nc st' = c_nc st \<and> ps_group (c_ps st') = ps_group (c_ps st)"
  using assms login_group
  by (auto simp: authinfo_def say_def split: if_splits prod.splits)

lemma handle_line_relayed:
  assumes "handle_line bcrypt dummy ps tn line st = Inr (e, st')" and "clean (ps_group (c_ps st))"
  shows "relayed (c_up st) (c_up st') \<and> clean (ps_group (c_ps st')) \<and>
    (\<not> Authed (c_ps st) \<longrightarrow> c_up st' = c_up st \<and> c_nc st' = c_nc st)"
proof (cases "Fields line")
  case Nil
  then show ?thesis using assms by (auto simp: handle_line_def say_def)
next
  case (Cons w args)
  have c: "clean w" "\<forall>a \<in> set args. clean a" using Cons clean_Fields[of _ line] by auto
  show ?thesis
  proof (cases "Authed (c_ps st)")
    case True
    obtain s u nc where h: "handleRequest (tn_env tn) ps (tn_date tn) (tn_stats tn) (upper w) args (c_ps st, c_up st, c_nc st) =
        Inr (e, s, u, nc)" "st' = st\<lparr>c_ps := s, c_up := u, c_nc := nc\<rparr>"
      using assms(1) Cons True
      by (cases "handleRequest (tn_env tn) ps (tn_date tn) (tn_stats tn) (upper w) args (c_ps st, c_up st, c_nc st)")
        (auto simp: handle_line_def Let_def)
    show ?thesis
      using request_proper[OF h(1) c(2) assms(2) clean_upper[OF c(1)]] h(2) True by (simp add: proper_def)
  next
    case False
    then show ?thesis
      using assms Cons authinfo_up[of bcrypt dummy tn args st e st']
      by (auto simp: handle_line_def Let_def say_def split: if_splits)
  qed
qed

text \<open>A session, one line at a time.\<close>

lemma say_sel [simp]:
  "c_up (say l st) = c_up st" "c_nc (say l st) = c_nc st" "c_users (say l st) = c_users st" "c_user (say l st) = c_user st"
  "ps_group (c_ps (say l st)) = ps_group (c_ps st)" "Authed (c_ps (say l st)) = Authed (c_ps st)"
  by (simp_all add: say_def)

lemma session_invariant:
  assumes line: "\<And>n line st e st'. handle_line bcrypt dummy ps (tn n) line st = Inr (e, st') \<Longrightarrow> P st \<Longrightarrow> P st'"
    and say: "\<And>l st. P st \<Longrightarrow> P (say l st)"
  shows "session bcrypt dummy ps tn n input st = (e, st') \<Longrightarrow> P st \<Longrightarrow> P st'"
proof (induction "length input" arbitrary: n input st rule: less_induct)
  case less
  obtain r rest where r: "readCommandLine input = (r, rest)" by fastforce
  show ?case
  proof (cases "ps_broken (c_ps st)")
    case True
    then show ?thesis using less.prems by (simp add: session.simps[where st = st])
  next
    case False
    consider (err) "r = Inl ReadError" | (long) "r = Inl LineTooLong" | (ok) l where "r = Inr l"
      by (cases r) (auto intro: line_error.exhaust)
    then show ?thesis
    proof cases
      case err
      then show ?thesis using less.prems r False say by (auto simp: session.simps[where st = st] split: if_splits)
    next
      case long
      then have "session bcrypt dummy ps tn (n + 1) rest (say ''501 Command line too long (max 512 bytes)'' st) = (e, st')"
        using less.prems(1) r False by (simp add: session.simps[where st = st])
      then show ?thesis
        using less.hyps[OF _ _ say[OF less.prems(2)]] read_line_shorter[OF r] long by simp
    next
      case (ok l)
      show ?thesis
      proof (cases "handle_line bcrypt dummy ps (tn n) l st")
        case (Inl p)
        then show ?thesis using less.prems r ok False by (simp add: session.simps[where st = st])
      next
        case (Inr x)
        obtain e1 st1 where x: "x = (e1, st1)" by fastforce
        have P: "P st1" using line[OF Inr[unfolded x] less.prems(2)] .
        show ?thesis
        proof (cases e1)
          case None
          then have "session bcrypt dummy ps tn (n + 1) rest st1 = (e, st')"
            using less.prems(1) r ok Inr x False by (simp add: session.simps[where st = st])
          then show ?thesis using less.hyps[OF _ _ P] read_line_shorter[OF r] ok by simp
        next
          case (Some e2)
          then show ?thesis using less.prems(1) r ok Inr x P False by (simp add: session.simps[where st = st])
        qed
      qed
    qed
  qed
qed

lemma session_upstream:
  assumes "session bcrypt dummy ps tn n input st = (e, st')" and "clean (ps_group (c_ps st))"
  shows "relayed (c_up st) (c_up st')"
proof -
  define P where "P s \<longleftrightarrow> relayed (c_up st) (c_up s) \<and> clean (ps_group (c_ps s))" for s :: connst
  have "P st'"
  proof (rule session_invariant[OF _ _ assms(1)])
    show "handle_line bcrypt dummy ps (tn n) line a = Inr (b, a') \<Longrightarrow> P a \<Longrightarrow> P a'" for n line a b a'
      using handle_line_relayed[of bcrypt dummy ps "tn n" line a b a'] relayed_trans by (auto simp: P_def)
  qed (use assms(2) in \<open>auto simp: P_def\<close>)
  then show ?thesis by (simp add: P_def)
qed

section \<open>Lemmas: the login\<close>

text \<open>\<open>users\<close> is a table the session saw, and it has the user whose password was given.\<close>

definition seen_users :: "(nat \<Rightarrow> turn) \<Rightarrow> connst \<Rightarrow> (string \<rightharpoonup> UserData) \<Rightarrow> bool" where
  "seen_users tn st users \<longleftrightarrow> users = passwdMap (c_users st) \<or> (\<exists>m. tn_parsed (tn m) = Some users)"

definition password_ok :: "(string \<Rightarrow> string \<Rightarrow> bool) \<Rightarrow> (nat \<Rightarrow> turn) \<Rightarrow> connst \<Rightarrow> bool" where
  "password_ok bcrypt tn st \<longleftrightarrow>
     (\<exists>users user d pw m. seen_users tn st users \<and> users user = Some d \<and> bcrypt (u_hash d) pw \<and>
        (u_expire d = 0 \<or> ae_now (tn_env (tn m)) \<le> u_expire d))"

lemma login_verified:
  assumes "login bcrypt dummy date now parsed user pw (s, g) = (ok, s', g')"
  shows "(if ok then \<exists>d. passwdMap g user = Some d \<and> bcrypt (u_hash d) pw \<and> (u_expire d = 0 \<or> now \<le> u_expire d)
          else Authed s' = Authed s) \<and>
    (passwdMap g' = passwdMap g \<or> parsed = Some (passwdMap g')) \<and> (passwdMap g = Map.empty \<longrightarrow> \<not> ok \<and> g' = g)"
  using assms
  by (auto simp: login_def Let_def verifyPassword_def verifyUser_def reload_users_def loadPasswdFile_def admit_def not_less
      split: if_splits option.splits sum.splits)

lemma authinfo_login:
  assumes "authinfo bcrypt dummy tn args st = (e, st')"
  shows "c_users st' = c_users st \<and> Authed (c_ps st') = Authed (c_ps st) \<or>
    (\<exists>ok. login bcrypt dummy (tn_dates tn) (ae_now (tn_env tn)) (tn_parsed tn) (c_user st) (args ! 1) (c_ps st, c_users st) =
       (ok, c_ps st', c_users st'))"
  using assms by (auto simp: authinfo_def split: if_splits prod.splits)

lemma handle_line_users:
  assumes "handle_line bcrypt dummy ps tn line st = Inr (e, st')"
  shows "c_users st' = c_users st \<and> (\<not> Authed (c_ps st) \<longrightarrow> \<not> Authed (c_ps st')) \<or>
    (\<exists>user pw ok. login bcrypt dummy (tn_dates tn) (ae_now (tn_env tn)) (tn_parsed tn) user pw (c_ps st, c_users st) =
       (ok, c_ps st', c_users st'))"
proof (cases "Authed (c_ps st)")
  case True
  then show ?thesis using assms
    by (auto simp: handle_line_def Let_def go_bind_def say_def split: list.splits sum.splits)
next
  case False
  show ?thesis
  proof (cases "\<exists>w args. Fields line = w # args \<and> upper w = ''AUTHINFO''")
    case True
    then obtain w args where f: "Fields line = w # args" "upper w = ''AUTHINFO''" by blast
    then have a: "authinfo bcrypt dummy tn args st = (e, st')" using assms False by (simp add: handle_line_def Let_def)
    show ?thesis using authinfo_login[OF a] False by metis
  next
    case other: False
    then show ?thesis using assms False
      by (auto simp: handle_line_def Let_def split: list.splits if_splits)
  qed
qed

lemma handle_line_verified:
  assumes "handle_line bcrypt dummy ps (tn k) line a = Inr (x, b)" and "seen_users tn st (passwdMap (c_users a))"
    and "\<not> Authed (c_ps a) \<and> c_up a = c_up st \<or> password_ok bcrypt tn st"
  shows "seen_users tn st (passwdMap (c_users b)) \<and>
    (\<not> Authed (c_ps b) \<and> c_up b = c_up st \<or> password_ok bcrypt tn st)"
proof -
  have up: "\<not> Authed (c_ps a) \<Longrightarrow> c_up b = c_up a"
    using assms(1) by (auto simp: handle_line_def Let_def split: list.splits if_splits dest!: authinfo_up)
  consider (same) "c_users b = c_users a" "\<not> Authed (c_ps a) \<Longrightarrow> \<not> Authed (c_ps b)"
    | (login) user pw ok where "login bcrypt dummy (tn_dates (tn k)) (ae_now (tn_env (tn k))) (tn_parsed (tn k)) user pw
        (c_ps a, c_users a) = (ok, c_ps b, c_users b)"
    using handle_line_users[OF assms(1)] by blast
  then show ?thesis
  proof cases
    case same
    then show ?thesis using assms(2,3) up by auto
  next
    case login
    note v = login_verified[OF login]
    have seen: "seen_users tn st (passwdMap (c_users b))" using v assms(2) by (auto simp: seen_users_def)
    show ?thesis
    proof (cases ok)
      case True
      then show ?thesis using v seen assms(2) unfolding password_ok_def by auto
    next
      case False
      then show ?thesis using v seen assms(3) up by auto
    qed
  qed
qed

section \<open>Lemmas: an article\<close>

lemma upstream_article:
  assumes env: "net_proxy (ae_opt e)" "\<not> YencCRC (ae_opt e)" "sum_list (map length (map stuff art)) < MaxArtSize (ae_opt e)"
    and art: "art \<noteq> []" "\<forall>l \<in> set art. CHR 0x0A \<notin> set l" "\<forall>l \<in> set (header_of art). \<not> has_prefix ''.'' l"
    and c: "writes_left c > 0" "incoming c = r # wire_lines (wire_of art) @ rest" "parse_code_line 220 r = (220, msg, err)"
    and q: "rq_command q = ''ARTICLE''" "\<not> rq_byNumber q"
    and client: "\<not> ps_broken (ar_ps a)" "0 < ps_left (ar_ps a)"
  shows "\<exists>a' c'. art_command e q g i c a = Inr (True, a') \<and> incoming c' = rest \<and> ar_up a' = park i c' (ar_up a) \<and>
    ar_nc a' = ar_nc a \<and>
    ps_out (ar_ps a') = ps_out (ar_ps a) @ ''220 0 '' @ rq_id q @ CRLF @ wire_of art"
proof -
  have inc: "incoming c = r # map stuff art @ ''.'' # rest" using c(2) wire_lines_wire_of[OF art(2)] by simp
  have nd: "''.'' \<notin> set (map stuff art)" using stuff_not_dot [symmetric] by auto
  have y: "yenc_end (ae_opt e) (ae_rapid e) (ae_num e) cmdARTICLE st = Inr NotYenc" for st
    using env(2) by (simp add: yenc_end_def)
  have k: "article_of (ae_opt e) (ae_date e) (map stuff art) = art" "keys_ok (ae_opt e)"
    using article_of_stuffed[OF env(1) art(3)] env(1) by (simp_all add: keys_ok_def)
  obtain n it' c' where "CMD (ae_opt e) (ae_date e) (ae_sched e) (ae_rapid e) (ae_num e) cmdARTICLE (ar_item a) (Some c) =
      Inr ((220, msg, n, None), it', Some c', None)" "incoming c' = rest" "article it' = art"
    using article_stored_run[OF c(1) inc c(3) nd env(3), where rapid = "ae_rapid e" and num = "ae_num e" and y = NotYenc
        and date = "ae_date e" and sched = "ae_sched e" and it = "ar_item a", OF y] k art(1)
    by auto
  moreover have "dec_int 220 = ''220''" by code_simp
  ultimately show ?thesis
    using q client
    by (auto simp: art_command_def cmdARTICLE_def deliver_def statusLine_def LinesWriter_def wire_of_def Let_def)
qed

text \<open>A provider that cannot be asked leaves only the answer that there is no such article.\<close>

lemma art_loop_unasked:
  assumes "\<forall>i \<in> set is. NoDownload (ps ! i) \<or> up_queue u i = []" and "ar_up a = u"
  shows "\<exists>r. art_loop e ps q is a = Inr (False, a\<lparr>ar_response := r\<rparr>) \<and> r \<in> {ar_response a, not_found q} \<and>
    ((\<exists>i \<in> set is. NoDownload (ps ! i)) \<longrightarrow> r = not_found q)"
  using assms
proof (induction "is" arbitrary: a)
  case (Cons i "is")
  have "\<exists>r. art_try e ps q i a = Inr (False, a\<lparr>ar_response := r\<rparr>) \<and> r \<in> {ar_response a, not_found q} \<and>
      (NoDownload (ps ! i) \<longrightarrow> r = not_found q)"
  proof (cases "NoDownload (ps ! i) \<or> rq_byNumber q \<and> \<not> Newsreader (ps ! i) \<or> Group (ps ! i) \<in> ar_checked a \<or>
      IsArticleNotFoundAtProviderGroup (ae_now e) (rq_key q) (Group (ps ! i)) (ar_nc a)")
    case True
    then show ?thesis by (intro exI[of _ "not_found q"]) (auto simp: art_try_def Let_def)
  next
    case False
    then have "art_try e ps q i a = Inr (False, a)"
      using Cons.prems by (auto simp: art_try_def Let_def get_conn_def)
    then show ?thesis using False by (intro exI[of _ "ar_response a"]) simp
  qed
  then obtain r where r: "art_try e ps q i a = Inr (False, a\<lparr>ar_response := r\<rparr>)" "r \<in> {ar_response a, not_found q}"
    "NoDownload (ps ! i) \<longrightarrow> r = not_found q" by blast
  obtain r' where "art_loop e ps q is (a\<lparr>ar_response := r\<rparr>) = Inr (False, a\<lparr>ar_response := r'\<rparr>)" "r' \<in> {r, not_found q}"
    "(\<exists>i \<in> set is. NoDownload (ps ! i)) \<longrightarrow> r' = not_found q"
    using Cons.IH[of "a\<lparr>ar_response := r\<rparr>"] Cons.prems by auto
  then show ?case using r by (intro exI[of _ r']) auto
next
  case Nil
  then show ?case by (intro exI[of _ "ar_response a"]) simp
qed

section \<open>Lemmas: the negative cache\<close>

datatype nc_op = Missing int string string | Purge int "(string \<times> string) list"

fun nc_do :: "nc_op \<Rightarrow> negcache \<Rightarrow> negcache" where
  "nc_do (Missing now key g) nc = SetArticleNotFoundAtProviderGroup now key g nc"
| "nc_do (Purge now ks) nc = purgeNegCache now ks nc"

definition nc_empty :: negcache where
  "nc_empty = \<lparr>nc_map = Map.empty, nc_n = 0\<rparr>"

definition nc_ok :: "nc_op list \<Rightarrow> negcache \<Rightarrow> bool" where
  "nc_ok ops nc \<longleftrightarrow> finite (dom (nc_map nc)) \<and> nc_n nc = int (card (dom (nc_map nc))) \<and> nc_n nc \<le> negCacheMax \<and>
     (\<forall>g key x. nc_map nc (g, key) = Some x \<longrightarrow> Missing (x - negCacheTTL) key g \<in> set ops)"

lemma nc_ok_more: "nc_ok ops nc \<Longrightarrow> nc_ok (ops @ ops') nc"
  by (auto simp: nc_ok_def)

lemma purge_one_ok: "nc_ok ops nc \<Longrightarrow> nc_ok ops (purge_one now k nc)"
proof (cases "nc_map nc k")
  case (Some x)
  assume ok: "nc_ok ops nc"
  then have "0 < card (dom (nc_map nc))" using Some by (auto simp: nc_ok_def card_gt_0_iff)
  then show ?thesis using ok Some
    by (auto simp: nc_ok_def purge_one_def card_Diff_singleton_if domI of_nat_diff)
qed (simp add: purge_one_def)

lemma purge_ok: "nc_ok ops nc \<Longrightarrow> nc_ok ops (purgeNegCache now ks nc)"
  unfolding purgeNegCache_def by (induction ks arbitrary: nc) (auto simp: purge_one_ok)

lemma set_ok: "nc_ok ops nc \<Longrightarrow> nc_ok (ops @ [Missing now key g]) (SetArticleNotFoundAtProviderGroup now key g nc)"
  by (auto simp: nc_ok_def SetArticleNotFoundAtProviderGroup_def card_insert_if domI negCacheMax_def)

lemma nc_run_ok: "nc_ok ops (fold nc_do ops nc_empty)"
proof (induction ops rule: rev_induct)
  case (snoc op ops)
  then show ?case using purge_ok[of "ops @ [op]"] nc_ok_more[of ops _ "[op]"] set_ok by (cases op) auto
qed (simp add: nc_ok_def nc_empty_def negCacheMax_def)

lemma purge_one_fresh: "nc_map nc k = Some x \<Longrightarrow> now < x \<Longrightarrow> nc_map (purge_one now' k' nc) k = Some x \<or> x \<le> now'"
  by (auto simp: purge_one_def split: option.splits)

lemma art_loop_append:
  "art_loop e ps q is a = Inr (False, a1) \<Longrightarrow> art_loop e ps q (is @ js) a = art_loop e ps q js a1"
  by (induction "is" arbitrary: a) (auto split: sum.splits if_splits simp: go_bind_def)

lemma ReadDotLines_stuffed: "ReadDotLines (map stuff ls @ ''.'' # rest) = (Some ls, rest)"
proof (induction ls)
  case (Cons l ls)
  have "(if has_prefix ''.'' (stuff l) then tl (stuff l) else stuff l) = l"
    by (auto simp: stuff_def)
  then show ?case using Cons stuff_not_dot[of l] by simp
qed simp

lemma wire_lines_more:
  assumes "\<forall>l \<in> set ls. CHR 0x0A \<notin> set l"
  shows "wire_lines (concat (map (\<lambda>l. stuff l @ CRLF) ls) @ DOT @ CRLF) = map stuff ls @ [''.'']"
  using wire_lines_wire_of[OF assms] by (simp add: wire_of_def)

section \<open>The properties\<close>

text \<open>C20: a command line is what comes before the first line feed, whatever the buffer
  boundaries: it is an error when it has more than 512 bytes with its line end, and the
  rest of the input starts after that line feed in both cases, so a line that is too
  long is skipped as a whole. Without a line feed the read fails.\<close>

theorem command_line_read:
  "readCommandLine s =
     (if CHR 0x0A \<notin> set s then (Inl ReadError, [])
      else let n = length (takeWhile (\<lambda>c. c \<noteq> CHR 0x0A) s) + 1
      in (if 512 < n then Inl LineTooLong else Inr (TrimRight (take n s) {CHR 0x0D, CHR 0x0A}), drop n s))"
  by (simp add: readCommandLine_def read_line_loop_spec line_spec_def proxyMaxLineLen_def)



text \<open>A proxy that starts without users stays without them: whatever its clients
  send, and whatever the file of users says by then, nobody is logged in and the table
  stays empty, because the file is read again only after a password has matched.\<close>

theorem no_users_for_ever:
  assumes "session bcrypt dummy ps tn n input st = (e, st')" and "\<not> Authed (c_ps st)" and "passwdMap (c_users st) = Map.empty"
  shows "\<not> Authed (c_ps st') \<and> c_users st' = c_users st \<and> c_up st' = c_up st"
proof -
  define P where "P s \<longleftrightarrow> \<not> Authed (c_ps s) \<and> c_users s = c_users st \<and> c_up s = c_up st" for s :: connst
  have "P st'"
  proof (rule session_invariant[OF _ _ assms(1)])
    fix k line and a b :: connst and x
    assume h: "handle_line bcrypt dummy ps (tn k) line a = Inr (x, b)" and P: "P a"
    then have "c_up b = c_up a"
      using assms(3) by (auto simp: P_def handle_line_def Let_def split: list.splits if_splits dest!: authinfo_up)
    then show "P b" using handle_line_users[OF h] login_verified P assms(3) unfolding P_def by (metis (no_types, lifting))
  qed (use assms in \<open>auto simp: P_def\<close>)
  then show ?thesis by (simp add: P_def)
qed


text \<open>A block of lines relayed to the client (the answers to LIST, OVER and HDR)
  arrives as the same lines, except that an empty block arrives with one empty line: the
  writer ends a line that was never begun.\<close>

theorem block_to_client:
  assumes "\<not> ps_broken s" and "1 < ps_left s" and "\<forall>l \<in> set ls. CHR 0x0A \<notin> set l"
  shows "\<exists>sent. ps_out (writeDotBlock status ls s) = ps_out s @ status @ CRLF @ sent \<and>
    ReadDotLines (wire_lines sent) = (Some (if ls = [] then [[]] else ls), [])"
proof (cases "ls = []")
  case True
  have "wire_lines (CRLF @ DOT @ CRLF) = [[], ''.'']" by code_simp
  then show ?thesis using True assms
    by (intro exI[of _ "CRLF @ DOT @ CRLF"]) (simp add: writeDotBlock_def reply_def dot_written_def Let_def)
next
  case False
  then show ?thesis using assms wire_lines_more[OF assms(3)] ReadDotLines_stuffed[of ls "[]"]
    by (intro exI[of _ "concat (map (\<lambda>l. stuff l @ CRLF) ls) @ DOT @ CRLF"])
      (simp add: writeDotBlock_def reply_def dot_written_def Let_def)
qed

text \<open>C24: the negative cache: however misses and purges follow each other, its counter is
  the number of its entries and never more than 100000, and a message-id is answered with
  "not found" at a provider group only if that very group missed that very article less
  than a minute before.\<close>

theorem negcache_sound:
  assumes "nc = fold nc_do ops nc_empty"
  shows "finite (dom (nc_map nc)) \<and> nc_n nc = int (card (dom (nc_map nc))) \<and> nc_n nc \<le> 100000 \<and>
    (IsArticleNotFoundAtProviderGroup now key g nc \<longrightarrow> (\<exists>t. Missing t key g \<in> set ops \<and> now < t + 60))"
proof -
  have ok: "nc_ok ops nc" using nc_run_ok[of ops] assms by simp
  then have "\<exists>t. Missing t key g \<in> set ops \<and> now < t + 60" if "nc_map nc (g, key) = Some x" "now < x" for x
    using that by (intro exI[of _ "x - negCacheTTL"]) (auto simp: nc_ok_def negCacheTTL_def)
  then show ?thesis using ok
    by (auto simp: nc_ok_def IsArticleNotFoundAtProviderGroup_def negCacheMax_def split: option.splits)
qed

text \<open>An article is reported missing though no provider was asked for it: a provider
  that is not for downloads is enough, when no other gives a connection. "503 No provider
  available" would be the truth.\<close>

theorem missing_though_unasked:
  assumes "has_prefix ''<'' mid" and "has_suffix ''>'' mid"
    and "\<exists>i < length ps. NoDownload (ps ! i)" and "\<forall>i < length ps. NoDownload (ps ! i) \<or> up_queue u i = []"
  shows "handleArticleCommand e ps command [mid] (s, u, nc) = Inr (reply ''430 No such article'' s, u, nc)"
proof -
  let ?q = "\<lparr>rq_command = command, rq_byNumber = False, rq_num = 0, rq_id = mid, rq_key = mid\<rparr>"
  let ?a = "\<lparr>ar_response = [], ar_checked = {}, ar_item = proxy_item mid, ar_ps = s, ar_up = u, ar_nc = nc\<rparr>"
  have "art_request command [mid] s = Inr ?q" using assms(1,2) by (simp add: art_request_def isValidMessageID_def)
  moreover have "art_loop e ps ?q [0..<length ps] ?a = Inr (False, ?a\<lparr>ar_response := not_found ?q\<rparr>)"
  proof -
    obtain i where "i < length ps" "NoDownload (ps ! i)" using assms(3) by blast
    then have "\<exists>i \<in> set [0..<length ps]. NoDownload (ps ! i)" by auto
    then show ?thesis using art_loop_unasked[of "[0..<length ps]" ps u ?a e ?q] assms(4) by auto
  qed
  ultimately show ?thesis by (simp add: handleArticleCommand_def not_found_def)
qed

section \<open>Concrete sessions\<close>

definition proxy_env :: artenv where
  "proxy_env = \<lparr>ae_opt = relay_opt, ae_date = ''now'', ae_sched = (\<lambda>_. 0), ae_rapid = (\<lambda>_. None), ae_num = 1, ae_now = 1000\<rparr>"

definition reader :: "string \<Rightarrow> provider" where
  "reader g = (plain_provider g)\<lparr>Newsreader := True\<rparr>"

definition new_session :: proxysession where
  "new_session = \<lparr>Authed = True, ps_user = ''user'', ps_expire = 2000, ps_group = [], ps_num = 0, ps_selected = None,
     ps_out = [], ps_left = 9, ps_broken = False\<rparr>"

definition no_conns :: upstream where
  "no_conns = \<lparr>up_queue = (\<lambda>_. []), up_back = []\<rparr>"

text \<open>The first provider cannot be dialled for the first command; the second numbers the
  group from 4 on, the first has other articles under these numbers.\<close>

definition two_groups :: upstream where
  "two_groups = \<lparr>up_queue = (\<lambda>i. if i = 0 then [None, Some (server [''211 9 1 9 g'', ''223 4 <a4>''])]
       else if i = 1 then [Some (server [''211 3 4 6 g'', ''211 3 4 6 g'', ''223 4 <b4>'', ''223 5 <b5>'']),
         Some (server [''211 3 4 6 g'', ''223 4 <b4>'', ''223 5 <b5>''])]
       else []), up_back = []\<rparr>"

definition two_readers :: "provider list" where
  "two_readers = [reader ''A'', reader ''B'']"

lemma group_lines:
  "parse_code_line 0 ''211 9 1 9 g'' = (211, ''9 1 9 g'', None)" "parse_code_line 0 ''211 3 4 6 g'' = (211, ''3 4 6 g'', None)"
  "parse_code_line 0 ''223 4 <a4>'' = (223, ''4 <a4>'', None)" "parse_code_line 0 ''223 4 <b4>'' = (223, ''4 <b4>'', None)"
  "parse_code_line 0 ''223 5 <b5>'' = (223, ''5 <b5>'', None)"
  by (simp_all add: parse_code_line_def parse_int_def Let_def undec_def digit_val_def is_digit_def wrong_code_def)

lemma group_words:
  "Fields ''3 4 6 g'' = [''3'', ''4'', ''6'', ''g'']" "Fields ''4 <a4>'' = [''4'', ''<a4>'']" "Fields ''5 <b5>'' = [''5'', ''<b5>'']"
  by (simp_all add: spaces_def)

lemma group_numbers:
  "parse_int ''3'' = (3, True)" "parse_int ''4'' = (4, True)" "parse_int ''5'' = (5, True)" "parse_int ''6'' = (6, True)"
  by (simp_all add: parse_int_def Let_def undec_def digit_val_def is_digit_def)

lemma group_decimals:
  "dec_int 3 = ''3''" "dec_int 4 = ''4''" "dec_int 5 = ''5''" "dec_int 6 = ''6''" "dec_int 223 = ''223''"
  by code_simp+

lemma upstreamCmd_reply:
  assumes "writes_left c > 0" and "incoming c = l # ls" and "parse_code_line 0 l = (code, msg, None)"
  shows "upstreamCmd line c = ((code, msg),
    c\<lparr>outgoing := outgoing c @ line @ CRLF, writes_left := writes_left c - 1, incoming := ls\<rparr>)"
  using assms by (simp add: upstreamCmd_def Cmd_def WriteString_def ReadCodeLine_def)

lemma both_readers: "[0..<length two_readers] = [0, 1]" "is_reader (two_readers ! 0)" "is_reader (two_readers ! Suc 0)"
  by (simp_all add: two_readers_def upt_rec is_reader_def reader_def plain_provider_def)

text \<open>The connections that are left after GROUP, and after STAT.\<close>

definition group_left :: "nat \<Rightarrow> nconn option list" where
  "group_left = (\<lambda>i. if i = 0 then [Some (server [''211 9 1 9 g'', ''223 4 <a4>''])]
     else if i = 1 then [Some (server [''211 3 4 6 g'', ''223 4 <b4>'', ''223 5 <b5>''])] else [])"

lemma two_groups_try: "\<exists>b. try_group two_readers ''g'' [0, 1] two_groups = (Some (1, 3, 4, 6), \<lparr>up_queue = group_left, up_back = b\<rparr>)"
proof -
  obtain c where c: "upstreamCmd ''GROUP g'' (server [''211 3 4 6 g'', ''211 3 4 6 g'', ''223 4 <b4>'', ''223 5 <b5>'']) =
      ((211, ''3 4 6 g''), c)"
    using upstreamCmd_reply[OF _ _ group_lines(2)] by (simp add: server_def)
  have g: "get_conn 0 two_groups = (None, two_groups\<lparr>up_queue := (up_queue two_groups)(0 := [Some (server [''211 9 1 9 g'', ''223 4 <a4>''])])\<rparr>)"
    by (simp add: get_conn_def two_groups_def)
  show ?thesis
    using c by (simp add: both_readers g get_conn_def two_groups_def Let_def group_words group_numbers give_back_def
        group_left_def fun_eq_iff del: Fields.simps)
qed

lemma two_groups_stat:
  assumes "ps_group s = ''g''" and "ps_num s = 4"
  shows "\<exists>b. handleArticleCommand proxy_env two_readers ''STAT'' [] (s, \<lparr>up_queue = group_left, up_back = b0\<rparr>, nc_empty) =
    Inr (reply ''223 4 <a4>'' s, \<lparr>up_queue = group_left(0 := []), up_back = b\<rparr>, nc_empty)"
proof -
  let ?q = "\<lparr>rq_command = ''STAT'', rq_byNumber = True, rq_num = 4, rq_id = ''4'', rq_key = ''g:4''\<rparr>"
  let ?a = "\<lparr>ar_response = [], ar_checked = {}, ar_item = proxy_item ''4'', ar_ps = s,
    ar_up = \<lparr>up_queue = group_left, up_back = b0\<rparr>, ar_nc = nc_empty\<rparr>"
  have req: "art_request ''STAT'' [] s = Inr ?q" using assms by (simp add: art_request_def group_decimals)
  obtain c1 where c1: "upstreamCmd ''GROUP g'' (server [''211 9 1 9 g'', ''223 4 <a4>'']) = ((211, ''9 1 9 g''), c1)"
    "writes_left c1 > 0" "incoming c1 = [''223 4 <a4>'']"
    using upstreamCmd_reply[OF _ _ group_lines(1)] by (simp add: server_def)
  obtain c2 where c2: "upstreamCmd ''STAT 4'' c1 = ((223, ''4 <a4>''), c2)"
    using upstreamCmd_reply[OF c1(2,3) group_lines(3)] by simp
  have line: "statusLine True ''4'' 223 ''4 <a4>'' [] = ''223 4 <a4>''"
    by (simp add: statusLine_def group_words group_decimals has_prefix_def del: Fields.simps)
  have same: "s\<lparr>ps_num := 4\<rparr> = s" using assms(2) by (cases s) simp
  have "art_try proxy_env two_readers ?q 0 ?a =
    Inr (True, ?a\<lparr>ar_up := park 0 c2 \<lparr>up_queue = group_left(0 := []), up_back = b0\<rparr>, ar_ps := reply ''223 4 <a4>'' s\<rparr>)"
    using c1(1) c2 assms(1) line
    by (simp add: same art_try_def Let_def get_conn_def group_left_def two_readers_def reader_def plain_provider_def
        art_command_def IsArticleNotFoundAtProviderGroup_def nc_empty_def)
  then show ?thesis
    using req by (simp add: handleArticleCommand_def both_readers give_back_def)
qed

lemma two_groups_next:
  assumes "ps_group s = ''g''" and "ps_num s = 4" and "ps_selected s = Some 1"
  shows "ps_out (fst (handleNextOrLastCommand two_readers True (s, \<lparr>up_queue = group_left(0 := []), up_back = b\<rparr>))) =
    ps_out (reply ''223 5 <b5>'' s)"
proof -
  let ?c = "server [''211 3 4 6 g'', ''223 4 <b4>'', ''223 5 <b5>'']"
  obtain c1 where c1: "upstreamCmd ''GROUP g'' ?c = ((211, ''3 4 6 g''), c1)"
    "writes_left c1 = 19" "incoming c1 = [''223 4 <b4>'', ''223 5 <b5>'']"
    using upstreamCmd_reply[OF _ _ group_lines(2)] by (simp add: server_def)
  obtain c2 where c2: "upstreamCmd ''STAT 4'' c1 = ((223, ''4 <b4>''), c2)" "writes_left c2 = writes_left c1 - 1"
    "incoming c2 = [''223 5 <b5>'']"
    using upstreamCmd_reply[OF _ c1(3) group_lines(4)] c1(2) by simp
  have "writes_left c2 > 0" using c1(2) c2(2) by simp
  then obtain c3 where c3: "upstreamCmd ''NEXT'' c2 = ((223, ''5 <b5>''), c3)"
    using upstreamCmd_reply[OF _ c2(3) group_lines(5)] by simp
  have r: "readerProviders two_readers s = [1]"
    using assms(3) both_readers by (simp add: readerProviders_def)
  show ?thesis
    using assms c1(1) c2(1) c3
    by (simp add: handleNextOrLastCommand_def r get_conn_def group_left_def selectGroup_def group_words group_numbers
        group_decimals is_number_def Let_def reply_def del: Fields.simps)
qed

text \<open>After GROUP has chosen the second provider, STAT without an argument answers
  with the first provider's article of that number, and NEXT with the one after it in
  the second provider's numbering: the provider chosen is not used for articles by number.\<close>

theorem number_resolved_elsewhere:
  "case handleGroupCommand two_readers [''g''] (new_session, two_groups) of (s1, u1) \<Rightarrow>
     ps_selected s1 = Some 1 \<and> ps_num s1 = 4 \<and>
     (case handleArticleCommand proxy_env two_readers ''STAT'' [] (s1, u1, nc_empty) of
        Inl _ \<Rightarrow> False
      | Inr (s2, u2, nc) \<Rightarrow>
          ps_out (fst (handleNextOrLastCommand two_readers True (s2, u2))) =
            ''211 3 4 6 g'' @ CRLF @ ''223 4 <a4>'' @ CRLF @ ''223 5 <b5>'' @ CRLF)"
proof -
  obtain b where "try_group two_readers ''g'' [0, 1] two_groups = (Some (1, 3, 4, 6), \<lparr>up_queue = group_left, up_back = b\<rparr>)"
    using two_groups_try by blast
  then have g: "handleGroupCommand two_readers [''g''] (new_session, two_groups) =
      (reply ''211 3 4 6 g'' (new_session\<lparr>ps_selected := Some 1, ps_group := ''g'', ps_num := 4\<rparr>), \<lparr>up_queue = group_left, up_back = b\<rparr>)"
    (is "_ = (?s1, ?u1)")
    by (simp add: handleGroupCommand_def both_readers group_decimals)
  obtain b1 where a: "handleArticleCommand proxy_env two_readers ''STAT'' [] (?s1, ?u1, nc_empty) =
      Inr (reply ''223 4 <a4>'' ?s1, \<lparr>up_queue = group_left(0 := []), up_back = b1\<rparr>, nc_empty)" (is "_ = Inr (?s2, ?u2, _)")
    using two_groups_stat[of ?s1] by (auto simp: reply_def new_session_def)
  have m: "ps_out (fst (handleNextOrLastCommand two_readers True (?s2, ?u2))) = ps_out (reply ''223 5 <b5>'' ?s2)"
    by (rule two_groups_next) (simp_all add: reply_def new_session_def)
  show ?thesis unfolding g a m prod.case sum.case by (simp add: reply_def new_session_def)
qed

definition proxy_turn :: turn where
  "proxy_turn = \<lparr>tn_env = proxy_env, tn_parsed = None, tn_dates = (\<lambda>_. ''never''), tn_date = ''now'', tn_stats = [], tn_timeout = False\<rparr>"

definition guest :: "(string \<rightharpoonup> UserData) \<Rightarrow> connst" where
  "guest users = \<lparr>c_ps = new_session\<lparr>Authed := False, ps_user := []\<rparr>, c_user = [],
     c_up = \<lparr>up_queue = (\<lambda>i. if i = 0 then [Some (server [])] else []), up_back = []\<rparr>, c_nc = nc_empty,
     c_users = \<lparr>passwdMap = users, proxyCron = 1000, CountConns = (\<lambda>_. 0), CID = 0\<rparr>\<rparr>"

abbreviation one_session :: "(string \<rightharpoonup> UserData) \<Rightarrow> string \<Rightarrow> session_end option \<times> connst" where
  "one_session users input \<equiv> session (\<lambda>_ _. True) [] [reader ''A''] (\<lambda>_. proxy_turn) 0 input (guest users)"

lemma session_line:
  assumes "readCommandLine input = (Inr line, rest)" and "\<not> ps_broken (c_ps st)"
  shows "session bcrypt dummy ps tn n input st = (case handle_line bcrypt dummy ps (tn n) line st of
      Inl _ \<Rightarrow> (None, st) | Inr (Some e, st') \<Rightarrow> (Some e, st')
    | Inr (None, st') \<Rightarrow> session bcrypt dummy ps tn (n + 1) rest st')"
  using assms by (simp add: session.simps[where st = st])

lemma client_lines:
  "readCommandLine ''AUTHINFO USER u
AUTHINFO PASS p
LIST
'' = (Inr ''AUTHINFO USER u'', ''AUTHINFO PASS p
LIST
'')" "readCommandLine ''AUTHINFO PASS p
LIST
'' = (Inr ''AUTHINFO PASS p'', ''LIST
'')" "readCommandLine ''LIST
'' = (Inr ''LIST'', [])"
  by (simp_all add: readCommandLine_def read_line_loop_spec line_spec_def proxyMaxLineLen_def Let_def TrimRight_def)

lemma login_words:
  "Fields ''AUTHINFO USER u'' = [''AUTHINFO'', ''USER'', ''u'']" "Fields ''AUTHINFO PASS p'' = [''AUTHINFO'', ''PASS'', ''p'']"
  "Fields ''LIST'' = [''LIST'']"
  by (simp_all add: spaces_def)

lemma login_upper: "upper ''AUTHINFO'' = ''AUTHINFO''" "upper ''USER'' = ''USER''" "upper ''PASS'' = ''PASS''" "upper ''LIST'' = ''LIST''"
  by code_simp+

definition u_table :: "string \<rightharpoonup> UserData" where
  "u_table = [''u'' \<mapsto> some_user]"

lemma guest_user:
  "handle_line (\<lambda>_ _. True) [] [reader ''A''] proxy_turn ''AUTHINFO USER u'' (guest users) =
    Inr (None, say ''381 Password required'' (guest users\<lparr>c_user := ''u''\<rparr>))"
  by (simp add: handle_line_def login_words login_upper guest_def new_session_def authinfo_def del: Fields.simps)

lemma guest_refused:
  "\<exists>st'. handle_line (\<lambda>_ _. True) [] [reader ''A''] proxy_turn ''AUTHINFO PASS p'' (say l (guest Map.empty\<lparr>c_user := ''u''\<rparr>)) =
    Inr (Some LoginRefused, st')"
  by (simp add: handle_line_def login_words login_upper guest_def new_session_def authinfo_def login_def verifyPassword_def
      verifyUser_def say_def del: Fields.simps)

lemma guest_login:
  "\<exists>st'. handle_line (\<lambda>_ _. True) [] [reader ''A''] proxy_turn ''AUTHINFO PASS p'' (say l (guest u_table\<lparr>c_user := ''u''\<rparr>)) =
      Inr (None, st') \<and> c_up st' = c_up (guest u_table) \<and> Authed (c_ps st') \<and> ps_user (c_ps st') = ''u'' \<and>
      ps_expire (c_ps st') = 2000 \<and> \<not> ps_broken (c_ps st') \<and> ps_selected (c_ps st') = None \<and> ps_group (c_ps st') = [] \<and>
      0 < ps_left (c_ps st')"
  by (simp add: handle_line_def login_words login_upper guest_def new_session_def authinfo_def login_def verifyPassword_def
      verifyUser_def say_def u_table_def proxy_turn_def proxy_env_def reload_users_def Let_def reply_def some_user_def admit_def
      del: Fields.simps)

lemma guest_list:
  assumes "c_up st = c_up (guest u_table)" and "Authed (c_ps st)" "ps_user (c_ps st) = ''u''" "ps_expire (c_ps st) = 2000"
    and "\<not> ps_broken (c_ps st)" "ps_selected (c_ps st) = None" "ps_group (c_ps st) = []" "0 < ps_left (c_ps st)"
  shows "\<exists>st'. session (\<lambda>_ _. True) [] [reader ''A''] (\<lambda>_. proxy_turn) n ''LIST
'' st = (Some ReadFailed, st') \<and> up_queue (c_up st') 0 = []"
proof -
  have u: "c_up st = \<lparr>up_queue = (\<lambda>i. if i = 0 then [Some (server [])] else []), up_back = []\<rparr>"
    using assms(1) by (simp add: guest_def)
  have "\<exists>st'. handle_line (\<lambda>_ _. True) [] [reader ''A''] proxy_turn ''LIST'' st = Inr (None, st') \<and>
      \<not> ps_broken (c_ps st') \<and> up_queue (c_up st') 0 = []"
    using assms(2-8)
    by (simp add: handle_line_def login_words login_upper Let_def handleRequest_def proxy_turn_def proxy_env_def run_command_def
        newsreader_command_def handleListCommand_def readerProviders_def is_reader_def reader_def plain_provider_def list_line_def u
        get_conn_def upstreamBlock_def Cmd_def WriteString_def ReadCodeLine_def server_def reply_def give_back_def del: Fields.simps)
  then show ?thesis
    using assms(5) by (auto simp: session_line[OF client_lines(3)] session.simps[where input = "[]"] readCommandLine_def
        read_line_loop_spec line_spec_def proxy_turn_def)
qed

lemma guest_unbroken: "\<not> ps_broken (c_ps (guest users))" "\<not> ps_broken (c_ps (say l (guest users\<lparr>c_user := u\<rparr>)))"
  by (simp_all add: guest_def new_session_def say_def reply_def)

lemma refused_run:
  "\<exists>st'. one_session Map.empty ''AUTHINFO USER u
AUTHINFO PASS p
LIST
'' = (Some LoginRefused, st')"
proof -
  obtain st where st: "handle_line (\<lambda>_ _. True) [] [reader ''A''] proxy_turn ''AUTHINFO PASS p''
      (say ''381 Password required'' (guest Map.empty\<lparr>c_user := ''u''\<rparr>)) = Inr (Some LoginRefused, st)"
    using guest_refused by blast
  show ?thesis
    by (simp add: session_line[OF client_lines(1)] session_line[OF client_lines(2)] guest_user st guest_unbroken)
qed

lemma login_run:
  "\<exists>st'. one_session u_table ''AUTHINFO USER u
AUTHINFO PASS p
LIST
'' = (Some ReadFailed, st') \<and> up_queue (c_up st') 0 = []"
proof -
  obtain st where st: "handle_line (\<lambda>_ _. True) [] [reader ''A''] proxy_turn ''AUTHINFO PASS p''
      (say ''381 Password required'' (guest u_table\<lparr>c_user := ''u''\<rparr>)) = Inr (None, st)"
      "c_up st = c_up (guest u_table)" "Authed (c_ps st)" "ps_user (c_ps st) = ''u''" "ps_expire (c_ps st) = 2000"
      "\<not> ps_broken (c_ps st)" "ps_selected (c_ps st) = None" "ps_group (c_ps st) = []" "0 < ps_left (c_ps st)"
    using guest_login by blast
  then show ?thesis
    using guest_list[OF st(2-9)]
    by (simp add: session_line[OF client_lines(1)] session_line[OF client_lines(2)] guest_user guest_unbroken)
qed



theorem no_users_for_ever_witness:
  "\<exists>st'. one_session Map.empty ''AUTHINFO USER u
AUTHINFO PASS p
LIST
'' = (Some LoginRefused, st') \<and> \<not> Authed (c_ps st') \<and> passwdMap (c_users st') = Map.empty"
proof -
  obtain st' where run: "one_session Map.empty ''AUTHINFO USER u
AUTHINFO PASS p
LIST
'' = (Some LoginRefused, st')"
    using refused_run by blast
  have "\<not> Authed (c_ps (guest Map.empty))" "passwdMap (c_users (guest Map.empty)) = Map.empty"
    by (simp_all add: guest_def new_session_def)
  from no_users_for_ever[OF run this] this(2) run show ?thesis by auto
qed


theorem block_to_client_witness:
  "(\<exists>sent. ps_out (writeDotBlock ''215 list follows'' [] new_session) = ''215 list follows'' @ CRLF @ sent \<and>
      ReadDotLines (wire_lines sent) = (Some [[]], [])) \<and>
   (\<exists>sent. ps_out (writeDotBlock ''215 list follows'' [''.a 2 1 y''] new_session) = ''215 list follows'' @ CRLF @ sent \<and>
      ReadDotLines (wire_lines sent) = (Some [''.a 2 1 y''], []))"
  using block_to_client[of new_session "[]" "''215 list follows''"] block_to_client[of new_session "[''.a 2 1 y'']" "''215 list follows''"]
  by (simp add: new_session_def)

theorem negcache_sound_witness:
  "let nc = fold nc_do [Missing 100 ''<a>'' ''A'', Purge 130 [(''A'', ''<a>'')], Missing 140 ''<b>'' ''A''] nc_empty
   in IsArticleNotFoundAtProviderGroup 150 ''<a>'' ''A'' nc \<and> nc_n nc = 2 \<and>
      (\<exists>t. Missing t ''<a>'' ''A'' \<in> set [Missing 100 ''<a>'' ''A'', Purge 130 [(''A'', ''<a>'')], Missing 140 ''<b>'' ''A''] \<and> 150 < t + 60)"
proof -
  let ?nc = "fold nc_do [Missing 100 ''<a>'' ''A'', Purge 130 [(''A'', ''<a>'')], Missing 140 ''<b>'' ''A''] nc_empty"
  have "IsArticleNotFoundAtProviderGroup 150 ''<a>'' ''A'' ?nc" "nc_n ?nc = 2"
    by (simp_all add: SetArticleNotFoundAtProviderGroup_def nc_empty_def purgeNegCache_def purge_one_def negCacheTTL_def negCacheMax_def
        IsArticleNotFoundAtProviderGroup_def)
  then show ?thesis using negcache_sound[OF refl, of "[Missing 100 ''<a>'' ''A'', Purge 130 [(''A'', ''<a>'')], Missing 140 ''<b>'' ''A'']" 150 "''<a>''" "''A''"]
    unfolding Let_def by blast
qed

theorem missing_though_unasked_witness:
  "handleArticleCommand proxy_env [(reader ''A'')\<lparr>NoDownload := True\<rparr>, reader ''B''] ''STAT'' [''<a>''] (new_session, no_conns, nc_empty) =
    Inr (new_session\<lparr>ps_out := ''430 No such article'' @ CRLF, ps_left := 8\<rparr>, no_conns, nc_empty)"
proof -
  have "\<exists>i < length [(reader ''A'')\<lparr>NoDownload := True\<rparr>, reader ''B'']. NoDownload ([(reader ''A'')\<lparr>NoDownload := True\<rparr>, reader ''B''] ! i)"
    by (intro exI[of _ 0]) simp
  from missing_though_unasked[OF _ _ this, of "''<a>''" no_conns proxy_env "''STAT''" new_session nc_empty]
  show ?thesis by (simp add: no_conns_def has_prefix_def has_suffix_def new_session_def reply_def)
qed

end
