(* ===== verification/ProxyConns.thy ===== *)
theory ProxyConns
  imports Proxy Machine
begin

text \<open>
  The connections of the proxy together (\<open>serveNNTP\<close>, \<open>handleConnection\<close>, \<open>login\<close>): the
  counter of connections that have not logged in, the connections per user, the
  reload of the users, under every interleaving of the listeners and the
  connections. One connection's conversation is in \<open>Proxy.thy\<close>.
\<close>

section \<open>Connections\<close>

definition proxyMaxPreAuth :: int where "proxyMaxPreAuth = 64"

text \<open>
  Where a connection is: counted by the accept loop (with the value it saw), before
  login, with the password verified, about to reload the users, about to be
  admitted, admitted, running as a user, closing without a login, gone.
\<close>

datatype cphase = Accepted int | PreAuth | Checked string | Reloading string | Entering string
  | Admitted string | Running string | Closing | Gone

record pxsys =
  px_pre :: int
  px_users :: proxyusers
  px_conns :: "cphase list"

definition pat :: "pxsys \<Rightarrow> nat \<Rightarrow> cphase \<Rightarrow> bool" where
  "pat s t c \<longleftrightarrow> t < length (px_conns s) \<and> px_conns s ! t = c"

definition pgo :: "nat \<Rightarrow> cphase \<Rightarrow> pxsys \<Rightarrow> pxsys" where
  "pgo t c s = s\<lparr>px_conns := (px_conns s)[t := c]\<rparr>"

text \<open>The limits that every table of users keeps to; none for a user with \<open>most u \<le> 0\<close>.\<close>

definition table_ok :: "(string \<Rightarrow> int) \<Rightarrow> (string \<rightharpoonup> UserData) \<Rightarrow> bool" where
  "table_ok most us \<longleftrightarrow> (\<forall>u d. us u = Some d \<and> 0 < most u \<longrightarrow> 0 < u_maxconns d \<and> u_maxconns d \<le> most u)"

inductive pxstep :: "(string \<Rightarrow> string \<Rightarrow> bool) \<Rightarrow> string \<Rightarrow> (string \<Rightarrow> int) \<Rightarrow> pxsys \<Rightarrow> pxsys \<Rightarrow> bool"
  for bcrypt :: "string \<Rightarrow> string \<Rightarrow> bool" and dummy :: string and most :: "string \<Rightarrow> int" where
  Accept: "pxstep bcrypt dummy most s (s\<lparr>px_pre := px_pre s + 1, px_conns := px_conns s @ [Accepted (px_pre s + 1)]\<rparr>)"
| Refuse: "pat s t (Accepted n) \<Longrightarrow> proxyMaxPreAuth < n \<Longrightarrow>
    pxstep bcrypt dummy most s (pgo t Gone s\<lparr>px_pre := px_pre s - 1\<rparr>)"
| Serve: "pat s t (Accepted n) \<Longrightarrow> n \<le> proxyMaxPreAuth \<Longrightarrow> pxstep bcrypt dummy most s (pgo t PreAuth s)"
| Leave: "pat s t PreAuth \<Longrightarrow> pxstep bcrypt dummy most s (pgo t Closing s)"
| Verify: "pat s t PreAuth \<Longrightarrow> u \<noteq> [] \<Longrightarrow> verifyPassword bcrypt dummy now (px_users s) u pw \<Longrightarrow>
    pxstep bcrypt dummy most s (pgo t (Checked u) s)"
| Fresh: "pat s t (Checked u) \<Longrightarrow> now - proxyCron (px_users s) \<le> 60 \<Longrightarrow> pxstep bcrypt dummy most s (pgo t (Entering u) s)"
| Stale: "pat s t (Checked u) \<Longrightarrow> 60 < now - proxyCron (px_users s) \<Longrightarrow>
    pxstep bcrypt dummy most s (pgo t (Reloading u) s\<lparr>px_users := (px_users s)\<lparr>proxyCron := now\<rparr>\<rparr>)"
| Load: "pat s t (Reloading u) \<Longrightarrow> (\<forall>us. parsed = Some us \<longrightarrow> table_ok most us) \<Longrightarrow>
    pxstep bcrypt dummy most s (pgo t (Entering u) s\<lparr>px_users := loadPasswdFile parsed (px_users s)\<rparr>)"
| Enter: "pat s t (Entering u) \<Longrightarrow> admit now u (px_users s) = Inr (d, g) \<Longrightarrow>
    pxstep bcrypt dummy most s (pgo t (Admitted u) s\<lparr>px_users := g\<rparr>)"
| TurnAway: "pat s t (Entering u) \<Longrightarrow> admit now u (px_users s) = Inl line \<Longrightarrow> pxstep bcrypt dummy most s (pgo t Closing s)"
| Run: "pat s t (Admitted u) \<Longrightarrow> pxstep bcrypt dummy most s (pgo t (Running u) s\<lparr>px_pre := px_pre s - 1\<rparr>)"
| Logout: "pat s t (Running u) \<Longrightarrow> pxstep bcrypt dummy most s (pgo t Gone s\<lparr>px_users := drop_conn u (px_users s)\<rparr>)"
| Close: "pat s t Closing \<Longrightarrow> pxstep bcrypt dummy most s (pgo t Gone s\<lparr>px_pre := px_pre s - 1\<rparr>)"

abbreviation pxsteps :: "(string \<Rightarrow> string \<Rightarrow> bool) \<Rightarrow> string \<Rightarrow> (string \<Rightarrow> int) \<Rightarrow> pxsys \<Rightarrow> pxsys \<Rightarrow> bool" where
  "pxsteps bcrypt dummy most \<equiv> (pxstep bcrypt dummy most)\<^sup>*\<^sup>*"

text \<open>The proxy starts with its users loaded and nobody connected.\<close>

definition pxstart :: "(string \<rightharpoonup> UserData) \<Rightarrow> int \<Rightarrow> pxsys" where
  "pxstart us now = \<lparr>px_pre = 0, px_users = \<lparr>passwdMap = us, proxyCron = now, CountConns = (\<lambda>_. 0), CID = 0\<rparr>, px_conns = []\<rparr>"

section \<open>Lemmas\<close>

text \<open>Counted in \<open>proxyPreAuthConns\<close>; served before login; logged in as a user.\<close>

fun counted :: "cphase \<Rightarrow> bool" where
  "counted (Running u) = False"
| "counted Gone = False"
| "counted c = True"

fun served :: "cphase \<Rightarrow> bool" where
  "served (Accepted n) = (n \<le> proxyMaxPreAuth)"
| "served c = counted c"

fun of_user :: "string \<Rightarrow> cphase \<Rightarrow> bool" where
  "of_user u (Admitted v) = (v = u)"
| "of_user u (Running v) = (v = u)"
| "of_user u c = False"

definition pinv :: "(string \<Rightarrow> int) \<Rightarrow> pxsys \<Rightarrow> bool" where
  "pinv most s \<longleftrightarrow> px_pre s = int (count_if counted (px_conns s)) \<and> int (count_if served (px_conns s)) \<le> proxyMaxPreAuth \<and>
     (\<forall>u. CountConns (px_users s) u = int (count_if (of_user u) (px_conns s)) \<and>
          (0 < most u \<longrightarrow> CountConns (px_users s) u \<le> most u)) \<and>
     table_ok most (passwdMap (px_users s))"

lemma pgo_fields [simp]:
  "px_pre (pgo t c s) = px_pre s" "px_users (pgo t c s) = px_users s" "px_conns (pgo t c s) = (px_conns s)[t := c]"
  by (simp_all add: pgo_def)

lemma served_counted: "count_if served cs \<le> count_if counted cs"
proof (induction cs)
  case (Cons c cs)
  then show ?case by (cases c) auto
qed simp

text \<open>Moving one connection changes each count by what it was and is.\<close>

lemma count_pgo:
  assumes "pat s t c"
  shows "int (count_if P ((px_conns s)[t := d])) = int (count_if P (px_conns s)) + of_bool (P d) - of_bool (P c)"
  using assms count_if_update[of t "px_conns s" P d] by (auto simp: pat_def)

lemma pinv_start: "table_ok most us \<Longrightarrow> pinv most (pxstart us now)"
  by (simp add: pinv_def pxstart_def proxyMaxPreAuth_def)

lemma admitD:
  assumes "admit now u g = Inr (d, g')"
  shows "passwdMap g u = Some d \<and> passwdMap g' = passwdMap g \<and>
    CountConns g' = (CountConns g)(u := CountConns g u + 1) \<and> (0 < u_maxconns d \<longrightarrow> CountConns g u < u_maxconns d)"
  using assms by (auto simp: admit_def split: option.splits if_splits)

lemma pinv_step: "pxstep bcrypt dummy most s s' \<Longrightarrow> pinv most s \<Longrightarrow> pinv most s'"
proof (induction rule: pxstep.induct)
  case (Accept s)
  then show ?case using served_counted[of "px_conns s"] by (auto simp: pinv_def)
next
  case (Load s t u parsed)
  then have "passwdMap (loadPasswdFile parsed (px_users s)) = passwdMap (px_users s) \<or>
      table_ok most (passwdMap (loadPasswdFile parsed (px_users s)))"
    "CountConns (loadPasswdFile parsed (px_users s)) = CountConns (px_users s)"
    by (auto simp: loadPasswdFile_def split: option.splits)
  then show ?case using Load count_pgo[OF Load(1)] by (auto simp: pinv_def)
next
  case (Enter s t u now d g)
  note a = admitD[OF Enter(2)]
  have eq: "CountConns g v = int (count_if (of_user v) ((px_conns s)[t := Admitted u]))" for v
    using Enter(3) a count_pgo[OF Enter(1), of "of_user v" "Admitted u"] by (auto simp: pinv_def)
  have le: "0 < most v \<Longrightarrow> CountConns g v \<le> most v" for v
    using Enter(3) a by (fastforce simp: pinv_def table_ok_def)
  have "passwdMap g = passwdMap (px_users s)" using a by simp
  then show ?case
    using Enter(3) le count_pgo[OF Enter(1), of counted] count_pgo[OF Enter(1), of served] by (simp add: pinv_def eq)
next
  case (Logout s t u)
  have n: "0 < count_if (of_user u) (px_conns s)"
    using Logout(1) count_if_pos[of t "px_conns s" "of_user u"] by (simp add: pat_def)
  let ?g = "drop_conn u (px_users s)"
  have g: "passwdMap ?g = passwdMap (px_users s)"
    "CountConns ?g v = CountConns (px_users s) v - of_bool (v = u)" for v
    using n Logout(2) by (auto simp: drop_conn_def pinv_def)
  have eq: "CountConns ?g v = int (count_if (of_user v) ((px_conns s)[t := Gone]))" for v
    using Logout(2) count_pgo[OF Logout(1), of "of_user v" Gone] by (auto simp: pinv_def g(2))
  have le: "0 < most v \<Longrightarrow> CountConns ?g v \<le> most v" for v
    using Logout(2) by (fastforce simp: pinv_def g(2))
  show ?case using Logout(2) le count_pgo[OF Logout(1), of counted] count_pgo[OF Logout(1), of served]
    by (simp add: pinv_def g(1) eq)
qed (auto simp: pinv_def count_pgo)

interpretation proxy_conns: machine
  "\<lambda>s. \<exists>us now. table_ok most us \<and> s = pxstart us now" "pxstep bcrypt dummy most" "pinv most" for bcrypt dummy most
  by unfold_locales (auto intro: pinv_start pinv_step)
text \<open>The sections of one \<open>login\<close>, one after another, are steps of the system.\<close>

lemma pat_pgo [simp]: "pat (pgo t d s) t d \<longleftrightarrow> t < length (px_conns s)"
  by (auto simp: pat_def pgo_def)

lemma pat_there: "pat s t c \<Longrightarrow> t < length (px_conns s)"
  by (simp add: pat_def)

lemma pat_users [simp]: "pat (s\<lparr>px_users := g\<rparr>) t c = pat s t c"
  by (simp add: pat_def)

lemma login_reload:
  assumes "pat s t (Checked u)" and "\<forall>us. parsed = Some us \<longrightarrow> table_ok most us"
  shows "\<exists>s'. pxsteps bcrypt dummy most s s' \<and> pat s' t (Entering u) \<and> px_users s' = reload_users now parsed (px_users s) \<and>
    px_pre s' = px_pre s"
proof (cases "60 < now - proxyCron (px_users s)")
  case True
  let ?s = "pgo t (Reloading u) s\<lparr>px_users := (px_users s)\<lparr>proxyCron := now\<rparr>\<rparr>"
  have "pxstep bcrypt dummy most s ?s" using pxstep.Stale[OF assms(1) True] .
  moreover have "pat ?s t (Reloading u)" using pat_there[OF assms(1)] by simp
  from pxstep.Load[OF this assms(2)]
  have "pxstep bcrypt dummy most ?s (pgo t (Entering u) ?s\<lparr>px_users := loadPasswdFile parsed (px_users ?s)\<rparr>)" .
  ultimately have "pxsteps bcrypt dummy most s (pgo t (Entering u) ?s\<lparr>px_users := loadPasswdFile parsed (px_users ?s)\<rparr>)"
    by (meson converse_rtranclp_into_rtranclp r_into_rtranclp)
  then show ?thesis using True pat_there[OF assms(1)]
    by (intro exI[of _ "pgo t (Entering u) ?s\<lparr>px_users := loadPasswdFile parsed (px_users ?s)\<rparr>"])
      (simp add: reload_users_def)
next
  case False
  then have "pxstep bcrypt dummy most s (pgo t (Entering u) s)" using pxstep.Fresh[OF assms(1), of now] by simp
  then show ?thesis using False pat_there[OF assms(1)]
    by (auto simp: reload_users_def intro!: exI[of _ "pgo t (Entering u) s"])
qed

lemma login_steps:
  assumes "login bcrypt dummy date now parsed u pw (p, px_users s) = (ok, p', g')" and "u \<noteq> []"
    and "pat s t PreAuth" and "\<forall>us. parsed = Some us \<longrightarrow> table_ok most us"
  shows "\<exists>s'. pxsteps bcrypt dummy most s s' \<and> pat s' t (if ok then Admitted u else Closing) \<and> px_users s' = g' \<and>
    px_pre s' = px_pre s"
proof (cases "verifyPassword bcrypt dummy now (px_users s) u pw")
  case False
  then have "ok = False" "g' = px_users s" using assms(1) by (auto simp: login_def)
  then show ?thesis using pxstep.Leave[OF assms(3)] pat_there[OF assms(3)] by (intro exI[of _ "pgo t Closing s"]) (auto simp: r_into_rtranclp)
next
  case True
  have v: "pxstep bcrypt dummy most s (pgo t (Checked u) s)" using pxstep.Verify[OF assms(3,2) True] .
  obtain s1 where s1: "pxsteps bcrypt dummy most (pgo t (Checked u) s) s1" "pat s1 t (Entering u)"
    "px_users s1 = reload_users now parsed (px_users s)" "px_pre s1 = px_pre s"
    using login_reload[of "pgo t (Checked u) s" t u parsed most bcrypt dummy now] pat_there[OF assms(3)] assms(4) by auto
  have run: "pxsteps bcrypt dummy most s s1" using v s1(1) by (rule converse_rtranclp_into_rtranclp)
  show ?thesis
  proof (cases "admit now u (px_users s1)")
    case (Inl line)
    then have "ok = False" "g' = px_users s1" using assms(1) True s1(3) by (auto simp: login_def)
    then show ?thesis using run pxstep.TurnAway[OF s1(2) Inl] pat_there[OF s1(2)] s1(4)
      by (intro exI[of _ "pgo t Closing s1"]) (auto intro: rtranclp.rtrancl_into_rtrancl)
  next
    case (Inr x)
    then obtain d g where x: "admit now u (px_users s1) = Inr (d, g)" by (cases x) auto
    then have "ok = True" "g' = g" using assms(1) True s1(3) by (auto simp: login_def)
    then show ?thesis using run pxstep.Enter[OF s1(2) x] pat_there[OF s1(2)] s1(4)
      by (intro exI[of _ "pgo t (Admitted u) s1\<lparr>px_users := g\<rparr>"]) (auto intro: rtranclp.rtrancl_into_rtrancl)
  qed
qed

section \<open>The properties\<close>

text \<open>C25: in every interleaving of the listeners, logins, reloads and closings the counters
  are exact: \<open>proxyPreAuthConns\<close> is the number of connections that are counted and not
  logged in, \<open>CountConns\<close> that of a user's logged in connections, so both are zero when
  all are gone. No more than 64 connections are served before their login, and no user
  has more connections than the limit that all tables of users set.\<close>

theorem proxy_limits:
  assumes "pxsteps bcrypt dummy most (pxstart us now) s" and "table_ok most us"
  shows "px_pre s = int (count_if counted (px_conns s)) \<and>
    count_if served (px_conns s) \<le> 64 \<and>
    CountConns (px_users s) u = int (count_if (of_user u) (px_conns s)) \<and>
    (0 < most u \<longrightarrow> int (count_if (of_user u) (px_conns s)) \<le> most u)"
proof -
  have "pinv most s" using proxy_conns.inv_reach[OF _ assms(1)] assms(2) by blast
  then show ?thesis by (auto simp: pinv_def proxyMaxPreAuth_def)
qed

text \<open>\<open>login\<close>, which checks the password, reloads the users and admits the user under
  three different locks, does what these steps do one after another: run by itself it
  leads from a connection before its login to an admitted or a closing one, with the
  same users and counts.\<close>

theorem login_refines:
  assumes "login bcrypt dummy date now parsed u pw (p, px_users s) = (ok, p', g')" and "u \<noteq> []"
    and "pat s t PreAuth" and "\<forall>us. parsed = Some us \<longrightarrow> table_ok most us"
  shows "\<exists>s'. pxsteps bcrypt dummy most s s' \<and> pat s' t (if ok then Admitted u else Closing) \<and> px_users s' = g' \<and>
    px_pre s' = px_pre s"
  using login_steps[OF assms] .

section \<open>Concrete runs\<close>

definition one_limit :: "string \<Rightarrow> int" where
  "one_limit = (\<lambda>u. if u = ''u'' then 5 else 0)"

definition user_table :: "string \<rightharpoonup> UserData" where
  "user_table = [''u'' \<mapsto> some_user]"

lemma user_table_ok: "table_ok one_limit user_table"
  by (simp add: table_ok_def one_limit_def user_table_def some_user_def)

lemma first_served:
  "pxsteps bcrypt dummy most (pxstart us 1000) (pxstart us 1000\<lparr>px_pre := 1, px_conns := [PreAuth]\<rparr>)"
proof -
  let ?s = "pxstart us 1000\<lparr>px_pre := 1, px_conns := [Accepted 1]\<rparr>"
  have "pxstep bcrypt dummy most (pxstart us 1000) ?s"
    using pxstep.Accept[of bcrypt dummy most "pxstart us 1000"] by (simp add: pxstart_def)
  moreover have "pxstep bcrypt dummy most ?s (pgo 0 PreAuth ?s)"
    by (rule pxstep.Serve[of _ _ 1]) (simp_all add: pat_def proxyMaxPreAuth_def)
  ultimately show ?thesis by (simp add: pgo_def)
qed

theorem login_refines_witness:
  "\<exists>s'. pxsteps (\<lambda>_ _. True) [] one_limit (pxstart user_table 1000\<lparr>px_pre := 1, px_conns := [PreAuth]\<rparr>) s' \<and>
    pat s' 0 (Admitted ''u'') \<and> CountConns (px_users s') ''u'' = 1"
proof -
  let ?s = "pxstart user_table 1000\<lparr>px_pre := 1, px_conns := [PreAuth]\<rparr>"
  obtain p p' g' where l: "login (\<lambda>_ _. True) [] (\<lambda>_. ''never'') 1000 None ''u'' ''p'' (p, px_users ?s) = (True, p', g')"
    and g: "CountConns g' ''u'' = 1"
    by (simp add: login_def pxstart_def verifyPassword_def verifyUser_def user_table_def some_user_def reload_users_def
        admit_def Let_def)
  have "pat ?s 0 PreAuth" by (simp add: pat_def)
  from login_refines[OF l _ this, of one_limit] g show ?thesis by auto
qed

theorem proxy_limits_witness:
  "\<exists>s. pxsteps (\<lambda>_ _. True) [] one_limit (pxstart user_table 1000) s \<and> pat s 0 (Admitted ''u'') \<and>
    int (count_if (of_user ''u'') (px_conns s)) \<le> 5 \<and> px_pre s = int (count_if counted (px_conns s))"
proof -
  let ?s = "pxstart user_table 1000\<lparr>px_pre := 1, px_conns := [PreAuth]\<rparr>"
  obtain p p' g' where l: "login (\<lambda>_ _. True) [] (\<lambda>_. ''never'') 1000 None ''u'' ''p'' (p, px_users ?s) = (True, p', g')"
    by (simp add: login_def pxstart_def verifyPassword_def verifyUser_def user_table_def some_user_def reload_users_def
        admit_def Let_def)
  have "pat ?s 0 PreAuth" by (simp add: pat_def)
  then obtain s where s: "pxsteps (\<lambda>_ _. True) [] one_limit ?s s" "pat s 0 (Admitted ''u'')"
    using login_steps[OF l _ _, of 0 one_limit] by auto
  have "pxsteps (\<lambda>_ _. True) [] one_limit (pxstart user_table 1000) s" using first_served s(1) by (rule rtranclp_trans)
  from proxy_limits[OF this user_table_ok, of "''u''"] this s(2) show ?thesis
    by (intro exI[of _ s]) (simp add: one_limit_def)
qed

end
