(* ===== verification/NzbDir.thy ===== *)
theory NzbDir
  imports Strings Machine "HOL-Library.Char_ord" "HOL-Library.List_Lexorder" "HOL-Library.Product_Lexorder"
begin

text \<open>
  \<open>nzbdir.go\<close>: the watcher of a directory of NZB files. A scan is one look at the
  directory; between two of its steps anybody may change the files. What a run of
  an NZB comes to is an argument. The start and stop of the session a run creates
  are a step relation of their own, with the goroutines that call \<open>Stop\<close>.
\<close>

section \<open>Scanning\<close>

record dirFile =
  df_size :: int
  df_mtime :: int

text \<open>What \<open>ReadDir\<close> and \<open>Info\<close> tell of one name; the information is missing when the
  file is gone.\<close>

record direntry =
  de_name :: string
  de_regular :: bool
  de_info :: "dirFile option"

record dirWatcher =
  w_pending :: "string \<rightharpoonup> dirFile"
  w_skip :: "string set"

definition is_nzb :: "string \<Rightarrow> bool" where
  "is_nzb name \<longleftrightarrow> has_suffix ''.nzb'' name \<or> has_suffix ''.nzb.gz'' name"

definition wanted :: "dirWatcher \<Rightarrow> direntry \<Rightarrow> bool" where
  "wanted w e \<longleftrightarrow> de_regular e \<and> de_name e \<notin> w_skip w \<and> is_nzb (de_name e)"

definition seen_files :: "dirWatcher \<Rightarrow> direntry list \<Rightarrow> (string \<times> dirFile) list" where
  "seen_files w es = map (\<lambda>e. (de_name e, the (de_info e))) (filter (\<lambda>e. wanted w e \<and> de_info e \<noteq> None) es)"

definition older :: "string \<times> dirFile \<Rightarrow> int \<times> string" where
  "older p = (df_mtime (snd p), fst p)"

definition scan :: "direntry list option \<Rightarrow> dirWatcher \<Rightarrow> string list option \<times> dirWatcher" where
  "scan entries w =
     (case entries of None \<Rightarrow> (None, w)
      | Some es \<Rightarrow>
          (let fs = seen_files w es
           in (Some (map fst (sort_key older (filter (\<lambda>p. w_pending w (fst p) = Some (snd p)) fs))),
               w\<lparr>w_pending := map_of (rev fs)\<rparr>)))"

section \<open>Processing\<close>

text \<open>The directory and its two subdirectories: files by name, with their contents.\<close>

type_synonym files = "string \<rightharpoonup> dirFile \<times> string"

record nzbdirs =
  nd_dir :: files
  nd_done :: files
  nd_failed :: files

definition moved_name :: "string \<Rightarrow> string \<Rightarrow> bool \<Rightarrow> string" where
  "moved_name now name taken =
     (if \<not> taken then name
      else (let ext = (if has_suffix ''.nzb.gz'' name then ''.nzb.gz'' else ''.nzb'')
            in TrimSuffix name ext @ ''-'' @ now @ ext))"

definition moveInto :: "bool \<Rightarrow> bool \<Rightarrow> string \<Rightarrow> string \<Rightarrow> files \<times> files \<Rightarrow> bool \<times> files \<times> files" where
  "moveInto mkdir_ok rename_ok now name st =
     (case st of (src, dst) \<Rightarrow>
      if \<not> mkdir_ok then (False, src, dst)
      else case src name of
        None \<Rightarrow> (False, src, dst)
      | Some f \<Rightarrow>
          (if \<not> rename_ok then (False, src, dst)
           else (True, src(name := None), dst(moved_name now name (dst name \<noteq> None) \<mapsto> f))))"

datatype run_end = RunOk | RunError | RunStopped

text \<open>\<open>is_stopped\<close> is what \<open>w.stopped()\<close> says after the run.\<close>

definition processOne ::
  "run_end \<Rightarrow> bool \<Rightarrow> bool \<Rightarrow> bool \<Rightarrow> string \<Rightarrow> string \<Rightarrow> dirWatcher \<times> nzbdirs \<Rightarrow> dirWatcher \<times> nzbdirs" where
  "processOne r is_stopped mkdir_ok rename_ok now name st =
     (case st of (w, fs) \<Rightarrow>
      if r = RunStopped \<or> is_stopped then (w, fs)
      else
        (let (moved, src, dst) =
           moveInto mkdir_ok rename_ok now name (nd_dir fs, if r = RunOk then nd_done fs else nd_failed fs)
         in (w\<lparr>w_pending := (w_pending w)(name := None),
               w_skip := (if moved then w_skip w else insert name (w_skip w))\<rparr>,
             if r = RunOk then fs\<lparr>nd_dir := src, nd_done := dst\<rparr> else fs\<lparr>nd_dir := src, nd_failed := dst\<rparr>)))"

section \<open>The loop\<close>

text \<open>
  \<open>nd_queue\<close> are the names of the last scan that are still to be processed. Two
  records are kept of the past: what each scan found in the directory, newest
  first, and which names were run.
\<close>

record ndsys =
  nd_w :: dirWatcher
  nd_fs :: nzbdirs
  nd_queue :: "string list"
  nd_stopped :: bool
  nd_scans :: "(string \<rightharpoonup> dirFile) list"
  nd_runs :: "string list"

definition stamps :: "files \<Rightarrow> (string \<rightharpoonup> dirFile)" where
  "stamps m = (\<lambda>n. map_option fst (m n))"

text \<open>A listing shows each name once and of each file what it is.\<close>

definition lists :: "files \<Rightarrow> direntry list \<Rightarrow> bool" where
  "lists m es \<longleftrightarrow> distinct (map de_name es) \<and>
     (\<forall>e \<in> set es. \<forall>f. de_info e = Some f \<longrightarrow> stamps m (de_name e) = Some f)"

inductive dstep :: "ndsys \<Rightarrow> ndsys \<Rightarrow> bool" where
  Change: "dstep s (s\<lparr>nd_fs := (nd_fs s)\<lparr>nd_dir := m\<rparr>\<rparr>)"
| Scan: "nd_queue s = [] \<Longrightarrow> lists (nd_dir (nd_fs s)) es \<Longrightarrow> scan (Some es) (nd_w s) = (Some names, w) \<Longrightarrow>
    dstep s (s\<lparr>nd_w := w, nd_queue := names, nd_scans := stamps (nd_dir (nd_fs s)) # nd_scans s\<rparr>)"
| Run: "nd_queue s = name # rest \<Longrightarrow> \<not> nd_stopped s \<Longrightarrow> processOne r stopped mk rn now name (nd_w s, nd_fs s) = (w, fs) \<Longrightarrow>
    dstep s (s\<lparr>nd_w := w, nd_fs := fs, nd_queue := rest, nd_runs := name # nd_runs s\<rparr>)"
| Stop: "dstep s (s\<lparr>nd_stopped := True\<rparr>)"

abbreviation dsteps :: "ndsys \<Rightarrow> ndsys \<Rightarrow> bool" where "dsteps \<equiv> dstep\<^sup>*\<^sup>*"

definition no_watcher :: dirWatcher where
  "no_watcher = \<lparr>w_pending = Map.empty, w_skip = {}\<rparr>"

definition nd_start :: "nzbdirs \<Rightarrow> ndsys" where
  "nd_start fs = \<lparr>nd_w = no_watcher, nd_fs = fs, nd_queue = [], nd_stopped = False, nd_scans = [], nd_runs = []\<rparr>"

section \<open>Stopping the running session\<close>

text \<open>
  Where the watcher's goroutine is: between two files, with a new session that is not yet
  \<open>w.current\<close>, in \<open>LaunchSession\<close>, after it, with the session still \<open>w.current\<close>. A
  goroutine in \<open>Stop\<close>: at its start, with \<open>stop\<close> closed, with the session it read, done.
\<close>

datatype wpos = Between | Created nat | Launched nat | Ending nat
datatype spos = StopStart | StopClosed | StopGot "nat option" | StopDone

record dwsys =
  dw_pos :: wpos
  dw_next :: nat
  dw_current :: "nat option"
  dw_closed :: bool
  dw_stoppers :: "spos list"
  dw_halted :: "nat set"

definition at_stopper :: "dwsys \<Rightarrow> nat \<Rightarrow> spos \<Rightarrow> bool" where
  "at_stopper s t p \<longleftrightarrow> t < length (dw_stoppers s) \<and> dw_stoppers s ! t = p"

definition move_stopper :: "nat \<Rightarrow> spos \<Rightarrow> dwsys \<Rightarrow> dwsys" where
  "move_stopper t p s = s\<lparr>dw_stoppers := (dw_stoppers s)[t := p]\<rparr>"

inductive dwstep :: "dwsys \<Rightarrow> dwsys \<Rightarrow> bool" where
  Create: "dw_pos s = Between \<Longrightarrow> dwstep s (s\<lparr>dw_pos := Created (dw_next s), dw_next := dw_next s + 1\<rparr>)"
| SetCurrent: "dw_pos s = Created n \<Longrightarrow>
    dwstep s (s\<lparr>dw_current := Some n, dw_pos := (if dw_closed s then Ending n else Launched n)\<rparr>)"
| Return: "dw_pos s = Launched n \<Longrightarrow> dwstep s (s\<lparr>dw_pos := Ending n\<rparr>)"
| ClearCurrent: "dw_pos s = Ending n \<Longrightarrow> dwstep s (s\<lparr>dw_current := None, dw_pos := Between\<rparr>)"
| CallStop: "dwstep s (s\<lparr>dw_stoppers := dw_stoppers s @ [StopStart]\<rparr>)"
| CloseStop: "at_stopper s t StopStart \<Longrightarrow> dwstep s (move_stopper t StopClosed s\<lparr>dw_closed := True\<rparr>)"
| ReadCurrent: "at_stopper s t StopClosed \<Longrightarrow> dwstep s (move_stopper t (StopGot (dw_current s)) s)"
| StopSession: "at_stopper s t (StopGot (Some n)) \<Longrightarrow> dwstep s (move_stopper t StopDone s\<lparr>dw_halted := insert n (dw_halted s)\<rparr>)"
| NoSession: "at_stopper s t (StopGot None) \<Longrightarrow> dwstep s (move_stopper t StopDone s)"

definition dw_start :: dwsys where
  "dw_start = \<lparr>dw_pos = Between, dw_next = 0, dw_current = None, dw_closed = False, dw_stoppers = [], dw_halted = {}\<rparr>"

abbreviation dwsteps :: "dwsys \<Rightarrow> dwsys \<Rightarrow> bool" where "dwsteps \<equiv> dwstep\<^sup>*\<^sup>*"

section \<open>Lemmas\<close>

lemma seen_files_iff:
  "(n, f) \<in> set (seen_files w es) \<longleftrightarrow> (\<exists>e \<in> set es. wanted w e \<and> de_name e = n \<and> de_info e = Some f)"
  by (force simp: seen_files_def)

lemma seen_distinct: "distinct (map de_name es) \<Longrightarrow> distinct (map fst (seen_files w es))"
  by (simp add: seen_files_def o_def distinct_map_filter)

lemma scan_names:
  assumes "scan (Some es) w = (Some names, w')" and "distinct (map de_name es)"
  shows "set names = {n. \<exists>e \<in> set es. wanted w e \<and> de_name e = n \<and> (\<exists>f. de_info e = Some f \<and> w_pending w n = Some f)} \<and>
    distinct names \<and> w_skip w' = w_skip w \<and>
    (\<forall>n f. w_pending w' n = Some f \<longleftrightarrow> (\<exists>e \<in> set es. wanted w e \<and> de_name e = n \<and> de_info e = Some f))"
proof -
  let ?fs = "seen_files w es"
  have names: "names = map fst (sort_key older (filter (\<lambda>p. w_pending w (fst p) = Some (snd p)) ?fs))"
    and w': "w' = w\<lparr>w_pending := map_of (rev ?fs)\<rparr>" using assms(1) by (auto simp: scan_def Let_def)
  have d: "distinct (map fst (rev ?fs))" using seen_distinct[OF assms(2)] by (simp add: rev_map[symmetric])
  have "w_pending w' n = Some f \<longleftrightarrow> (n, f) \<in> set ?fs" for n f using map_of_eq_Some_iff[OF d] w' by simp
  moreover have "set names = fst ` {p \<in> set ?fs. w_pending w (fst p) = Some (snd p)}" unfolding names by simp
  then have "n \<in> set names \<longleftrightarrow> (\<exists>f. (n, f) \<in> set ?fs \<and> w_pending w n = Some f)" for n by force
  moreover have "distinct names"
  proof -
    have "distinct (map fst (filter (\<lambda>p. w_pending w (fst p) = Some (snd p)) ?fs))"
      by (intro distinct_map_filter seen_distinct assms(2))
    then show ?thesis unfolding names distinct_map by (auto simp: inj_on_def)
  qed
  ultimately show ?thesis using w' by (simp add: seen_files_iff set_eq_iff) blast
qed
text \<open>What is waiting was in the newest scan, what is queued also in the one before.\<close>

definition two_looks :: "(string \<rightharpoonup> dirFile) list \<Rightarrow> string \<Rightarrow> bool" where
  "two_looks scans n \<longleftrightarrow> (\<exists>a b rest f. scans = a # b # rest \<and> a n = Some f \<and> b n = Some f)"

definition nd_inv :: "ndsys \<Rightarrow> bool" where
  "nd_inv s \<longleftrightarrow>
     (\<forall>n f. w_pending (nd_w s) n = Some f \<longrightarrow> nd_scans s \<noteq> [] \<and> hd (nd_scans s) n = Some f) \<and>
     (\<forall>n \<in> set (nd_queue s). two_looks (nd_scans s) n \<and> is_nzb n \<and> n \<notin> w_skip (nd_w s)) \<and> distinct (nd_queue s)"

lemma processOne_watcher:
  assumes "processOne r st mk rn now name (w, fs) = (w', fs')"
  shows "(\<forall>n f. w_pending w' n = Some f \<longrightarrow> w_pending w n = Some f) \<and> w_skip w \<subseteq> w_skip w' \<and> w_skip w' \<subseteq> insert name (w_skip w)"
  using assms by (auto simp: processOne_def Let_def split: if_splits prod.splits)

lemma nd_inv_start: "nd_inv (nd_start fs)"
  by (simp add: nd_inv_def nd_start_def no_watcher_def)

lemma nd_inv_step: "dstep s s' \<Longrightarrow> nd_inv s \<Longrightarrow> nd_inv s'"
proof (induction rule: dstep.induct)
  case (Scan s es names w)
  have d: "distinct (map de_name es)" and l: "\<And>e f. e \<in> set es \<Longrightarrow> de_info e = Some f \<Longrightarrow> stamps (nd_dir (nd_fs s)) (de_name e) = Some f"
    using Scan(2) by (auto simp: lists_def)
  note n = scan_names[OF Scan(3) d]
  have "two_looks (stamps (nd_dir (nd_fs s)) # nd_scans s) x \<and> is_nzb x \<and> x \<notin> w_skip (nd_w s)" if x: "x \<in> set names" for x
  proof -
    obtain e f where e: "e \<in> set es" "wanted (nd_w s) e" "de_name e = x" "de_info e = Some f" "w_pending (nd_w s) x = Some f"
      using n x by auto
    moreover from e(5) have "nd_scans s \<noteq> []" "hd (nd_scans s) x = Some f" using Scan(4) by (auto simp: nd_inv_def)
    then obtain b rest where "nd_scans s = b # rest" "b x = Some f" by (cases "nd_scans s") auto
    ultimately show ?thesis using l[of e f] by (auto simp: two_looks_def wanted_def)
  qed
  then show ?case using n l by (auto simp: nd_inv_def)
next
  case (Run s name rest r st mk rn now w fs)
  note p = processOne_watcher[OF Run(3)]
  show ?case using Run(1,4) p by (auto simp: nd_inv_def)
qed (auto simp: nd_inv_def)

interpretation dir_watch: machine "\<lambda>s. \<exists>fs. s = nd_start fs" dstep nd_inv
  by unfold_locales (auto intro: nd_inv_start nd_inv_step)

lemma skip_grows: "dstep s s' \<Longrightarrow> nd_inv s \<Longrightarrow> w_skip (nd_w s) \<subseteq> w_skip (nd_w s')"
proof (induction rule: dstep.induct)
  case (Scan s es names w)
  then show ?case using scan_names[OF Scan(3)] by (auto simp: lists_def)
next
  case (Run s name rest r st mk rn now w fs)
  then show ?case using processOne_watcher[OF Run(3)] by simp
qed auto

text \<open>The sessions: a stopped watcher has no running session that \<open>Stop\<close> missed.\<close>

fun stopper_ok :: "dwsys \<Rightarrow> spos \<Rightarrow> bool" where
  "stopper_ok s StopStart = True"
| "stopper_ok s StopClosed = dw_closed s"
| "stopper_ok s (StopGot x) = (dw_closed s \<and> (\<forall>n. dw_pos s = Launched n \<longrightarrow> x = Some n))"
| "stopper_ok s StopDone = (dw_closed s \<and> (\<forall>n. dw_pos s = Launched n \<longrightarrow> n \<in> dw_halted s))"

definition dw_inv :: "dwsys \<Rightarrow> bool" where
  "dw_inv s \<longleftrightarrow> (\<forall>n. dw_pos s = Launched n \<longrightarrow> dw_current s = Some n) \<and> (\<forall>p \<in> set (dw_stoppers s). stopper_ok s p)"

lemma move_stopper_sel [simp]:
  "dw_pos (move_stopper t p s) = dw_pos s" "dw_current (move_stopper t p s) = dw_current s"
  "dw_closed (move_stopper t p s) = dw_closed s" "dw_halted (move_stopper t p s) = dw_halted s"
  "dw_stoppers (move_stopper t p s) = (dw_stoppers s)[t := p]"
  by (simp_all add: move_stopper_def)

lemma all_update: "(\<forall>q \<in> set xs. P q) \<Longrightarrow> P p \<Longrightarrow> \<forall>q \<in> set (xs[t := p]). P q"
  using set_update_subset_insert[of xs t p] by blast

lemma stopper_here: "at_stopper s t p \<Longrightarrow> \<forall>q \<in> set (dw_stoppers s). stopper_ok s q \<Longrightarrow> stopper_ok s p"
  by (auto simp: at_stopper_def)

text \<open>What a stopper knows stays true while the watcher's goroutine does not launch.\<close>

lemma stopper_ok_mono:
  assumes "stopper_ok s p" and "dw_closed s \<longrightarrow> dw_closed s'" and "dw_halted s \<subseteq> dw_halted s'"
    and "\<And>n. dw_pos s' = Launched n \<Longrightarrow> dw_pos s = Launched n"
  shows "stopper_ok s' p"
  using assms by (cases p) auto

lemma dw_inv_mono:
  assumes "dw_inv s" and "dw_closed s \<longrightarrow> dw_closed s'" and "dw_halted s \<subseteq> dw_halted s'"
    and "\<And>n. dw_pos s' = Launched n \<Longrightarrow> dw_pos s = Launched n \<and> dw_current s' = dw_current s"
    and "dw_stoppers s' = dw_stoppers s \<or> (\<exists>t p. dw_stoppers s' = (dw_stoppers s)[t := p] \<and> stopper_ok s' p)"
  shows "dw_inv s'"
proof -
  have "stopper_ok s' q" if "q \<in> set (dw_stoppers s)" for q
    by (rule stopper_ok_mono[of s]) (use assms that in \<open>auto simp: dw_inv_def\<close>)
  then have "\<forall>q \<in> set (dw_stoppers s'). stopper_ok s' q"
    using assms(5) all_update[of "dw_stoppers s" "stopper_ok s'"] by auto
  then show ?thesis using assms(1,4) by (auto simp: dw_inv_def)
qed

lemma dw_inv_step: "dwstep s s' \<Longrightarrow> dw_inv s \<Longrightarrow> dw_inv s'"
proof (induction rule: dwstep.induct)
  case (SetCurrent s n)
  have "stopper_ok (s\<lparr>dw_current := Some n, dw_pos := (if dw_closed s then Ending n else Launched n)\<rparr>) p"
    if "p \<in> set (dw_stoppers s)" for p
    using SetCurrent that by (cases p) (auto simp: dw_inv_def)
  then show ?case by (simp add: dw_inv_def)
next
  case (CallStop s)
  have "stopper_ok (s\<lparr>dw_stoppers := dw_stoppers s @ [StopStart]\<rparr>) p" if "stopper_ok s p" for p
    using that by (cases p) auto
  then show ?case using CallStop by (auto simp: dw_inv_def)
next
  case (CloseStop s t)
  show ?case by (rule dw_inv_mono[OF CloseStop(2)]) (auto intro!: exI[of _ t] exI[of _ StopClosed])
next
  case (ReadCurrent s t)
  have "stopper_ok s StopClosed" using stopper_here[OF ReadCurrent(1)] ReadCurrent(2) by (simp add: dw_inv_def)
  then show ?case using ReadCurrent(2) by (intro dw_inv_mono[OF ReadCurrent(2)])
      (auto simp: dw_inv_def intro!: exI[of _ t] exI[of _ "StopGot (dw_current s)"])
next
  case (StopSession s t n)
  have "stopper_ok s (StopGot (Some n))" using stopper_here[OF StopSession(1)] StopSession(2) by (simp add: dw_inv_def)
  then show ?case by (intro dw_inv_mono[OF StopSession(2)]) (auto intro!: exI[of _ t] exI[of _ StopDone])
next
  case (NoSession s t)
  have "stopper_ok s (StopGot None)" using stopper_here[OF NoSession(1)] NoSession(2) by (simp add: dw_inv_def)
  then show ?case by (intro dw_inv_mono[OF NoSession(2)]) (auto intro!: exI[of _ t] exI[of _ StopDone])
next
  case (Create s)
  show ?case by (rule dw_inv_mono[OF Create(2)]) auto
next
  case (Return s n)
  show ?case by (rule dw_inv_mono[OF Return(2)]) auto
next
  case (ClearCurrent s n)
  show ?case by (rule dw_inv_mono[OF ClearCurrent(2)]) auto
qed

lemma dw_inv_start: "dw_inv dw_start"
  by (simp add: dw_inv_def dw_start_def)

interpretation dir_stop: machine "\<lambda>s. s = dw_start" dwstep dw_inv
  by unfold_locales (auto intro: dw_inv_step dw_inv_start)

section \<open>The properties\<close>

text \<open>A scan hands on exactly the regular NZB files that are not skipped and that
  the scan before saw with the same size and time, each once, oldest first and by name among
  those of one time.\<close>

theorem scan_ready:
  assumes "scan (Some es) w = (Some names, w')" and "distinct (map de_name es)"
  shows "set names = {n. \<exists>e \<in> set es. wanted w e \<and> de_name e = n \<and> (\<exists>f. de_info e = Some f \<and> w_pending w n = Some f)} \<and>
    distinct names \<and> (\<exists>fs. names = map fst fs \<and> sorted (map older fs) \<and> set fs \<subseteq> set (seen_files w es))"
  using scan_names[OF assms] assms(1)
  by (auto simp: scan_def Let_def intro!: exI[of _ "sort_key older (filter (\<lambda>p. w_pending w (fst p) = Some (snd p)) (seen_files w es))"])

text \<open>C26: a file is queued only if it was in the directory, with the same size and time, at
  each of the last two scans, however the directory changed in between and whatever
  the runs before it came to: a file that is being copied in and grows between two scans
  is not taken. No name is queued twice.\<close>

theorem two_looks_before_run:
  assumes "dsteps (nd_start fs) s"
  shows "distinct (nd_queue s) \<and> (\<forall>n \<in> set (nd_queue s). is_nzb n \<and>
    (\<exists>a b rest f. nd_scans s = a # b # rest \<and> a n = Some f \<and> b n = Some f))"
  using dir_watch.inv_reach[OF _ assms] by (auto simp: nd_inv_def two_looks_def)

text \<open>A file that was removed while it waited for its turn (its run fails, and so does
  moving it) is skipped from then on: an NZB put there later under the same name is
  never run, until the program is started again.\<close>

theorem removed_name_never_run:
  assumes "dsteps (nd_start fs) s" and "nd_queue s = name # rest" and "nd_dir (nd_fs s) name = None" and "\<not> nd_stopped s"
  shows "\<exists>s'. dstep s s' \<and> hd (nd_runs s') = name \<and>
    (\<forall>s''. dsteps s' s'' \<longrightarrow> name \<notin> set (nd_queue s''))"
proof -
  obtain w' fs' where p: "processOne RunError False True True [] name (nd_w s, nd_fs s) = (w', fs')" by fastforce
  then have skip: "name \<in> w_skip w'"
    using assms(3) by (auto simp: processOne_def moveInto_def Let_def split: if_splits)
  let ?s = "s\<lparr>nd_w := w', nd_fs := fs', nd_queue := rest, nd_runs := name # nd_runs s\<rparr>"
  have step: "dstep s ?s" using dstep.Run[OF assms(2,4) p] .
  have inv: "nd_inv ?s" using dir_watch.inv_reach[OF _ assms(1)] dir_watch.inv_step[OF _ step] by blast
  have "name \<notin> set (nd_queue s'')" if run: "dsteps ?s s''" for s''
  proof -
    have "name \<in> w_skip (nd_w s'')"
      using dir_watch.run_stable[of "\<lambda>s. name \<in> w_skip (nd_w s)", OF _ inv _ run] skip skip_grows by auto
    then show ?thesis using dir_watch.inv_run[OF run inv] by (auto simp: nd_inv_def)
  qed
  then show ?thesis using step by (intro exI[of _ ?s]) simp
qed

text \<open>After a run that was not stopped the file is in \<open>done\<close> or \<open>failed\<close> with its content and
  no longer in the directory, and a file that was there before under that name is still
  there; or nothing was moved and the name is skipped.\<close>

theorem processed_file_filed:
  assumes "processOne r False mk rn now name (w, fs) = (w', fs')" and "r \<noteq> RunStopped" and "nd_dir fs name = Some f"
  shows "w_pending w' name = None \<and>
    (fs' = fs \<and> name \<in> w_skip w' \<or>
     nd_dir fs' = (nd_dir fs)(name := None) \<and> w_skip w' = w_skip w \<and>
     (if r = RunOk
      then nd_done fs' = (nd_done fs)(moved_name now name (nd_done fs name \<noteq> None) \<mapsto> f) \<and> nd_failed fs' = nd_failed fs
      else nd_failed fs' = (nd_failed fs)(moved_name now name (nd_failed fs name \<noteq> None) \<mapsto> f) \<and> nd_done fs' = nd_done fs))"
proof -
  obtain moved src dst where m: "moveInto mk rn now name (nd_dir fs, if r = RunOk then nd_done fs else nd_failed fs) = (moved, src, dst)"
    by (metis prod.collapse)
  show ?thesis using assms m by (cases moved; cases "r = RunOk") (auto simp: processOne_def moveInto_def split: if_splits)
qed

text \<open>C27: however \<open>Stop\<close> and the start of the next NZB interleave, when a call of \<open>Stop\<close> has
  returned no session is running that was not told to stop: either \<open>Stop\<close> found it as
  \<open>w.current\<close>, or \<open>runSession\<close> found the watcher stopped and does not launch it.\<close>

theorem stop_reaches_session:
  assumes "dwsteps dw_start s" and "StopDone \<in> set (dw_stoppers s)" and "dw_pos s = Launched n"
  shows "n \<in> dw_halted s"
  using dir_stop.inv_reach[OF refl assms(1)] assms(2,3) by (auto simp: dw_inv_def)

section \<open>Concrete runs\<close>

definition one_file :: dirFile where
  "one_file = \<lparr>df_size = 100, df_mtime = 7\<rparr>"

definition one_dir :: nzbdirs where
  "one_dir = \<lparr>nd_dir = [''a.nzb'' \<mapsto> (one_file, ''x'')], nd_done = Map.empty, nd_failed = Map.empty\<rparr>"

definition one_listing :: "direntry list" where
  "one_listing = [\<lparr>de_name = ''done'', de_regular = False, de_info = None\<rparr>, \<lparr>de_name = ''a.nzb'', de_regular = True, de_info = Some one_file\<rparr>]"

lemma one_listed: "lists (nd_dir one_dir) one_listing"
  by (simp add: lists_def one_listing_def one_dir_def stamps_def)

lemma one_seen: "w_skip w = {} \<Longrightarrow> seen_files w one_listing = [(''a.nzb'', one_file)]"
  by (simp add: seen_files_def one_listing_def wanted_def is_nzb_def has_suffix_def)

lemma one_scanned:
  "\<exists>s. dsteps (nd_start one_dir) s \<and> nd_queue s = [''a.nzb''] \<and> nd_fs s = one_dir \<and> \<not> nd_stopped s"
proof -
  let ?w = "no_watcher\<lparr>w_pending := [''a.nzb'' \<mapsto> one_file]\<rparr>"
  let ?s = "(nd_start one_dir)\<lparr>nd_w := ?w, nd_queue := [], nd_scans := [stamps (nd_dir one_dir)]\<rparr>"
  let ?t = "?s\<lparr>nd_w := ?w, nd_queue := [''a.nzb''], nd_scans := [stamps (nd_dir one_dir), stamps (nd_dir one_dir)]\<rparr>"
  have "scan (Some one_listing) no_watcher = (Some [], ?w)"
    by (simp add: scan_def one_seen no_watcher_def)
  then have 1: "dstep (nd_start one_dir) ?s"
    using dstep.Scan[of "nd_start one_dir" one_listing "[]" ?w] one_listed by (simp add: nd_start_def)
  have "scan (Some one_listing) ?w = (Some [''a.nzb''], ?w)"
    by (simp add: scan_def one_seen no_watcher_def)
  then have 2: "dstep ?s ?t"
    using dstep.Scan[of ?s one_listing "[''a.nzb'']" ?w] one_listed by (simp add: nd_start_def)
  from 1 2 have "dsteps (nd_start one_dir) ?t" by (meson converse_rtranclp_into_rtranclp rtranclp.rtrancl_refl)
  then show ?thesis by (intro exI[of _ ?t]) (simp add: nd_start_def)
qed

theorem two_looks_before_run_witness:
  "\<exists>s a b rest f. dsteps (nd_start one_dir) s \<and> nd_queue s = [''a.nzb''] \<and> nd_scans s = a # b # rest \<and>
    a ''a.nzb'' = Some f \<and> b ''a.nzb'' = Some f"
proof -
  obtain s where s: "dsteps (nd_start one_dir) s" "nd_queue s = [''a.nzb'']" using one_scanned by blast
  from two_looks_before_run[OF s(1)] s show ?thesis by auto
qed

theorem stop_reaches_session_witness:
  "\<exists>s. dwsteps dw_start s \<and> StopDone \<in> set (dw_stoppers s) \<and> dw_pos s = Launched 0 \<and> 0 \<in> dw_halted s"
proof -
  let ?s = "\<lambda>p c cl ss h. \<lparr>dw_pos = p, dw_next = 1, dw_current = c, dw_closed = cl, dw_stoppers = ss, dw_halted = h\<rparr>"
  have "dwstep dw_start (?s (Created 0) None False [] {})" using dwstep.Create[of dw_start] by (simp add: dw_start_def)
  moreover have "dwstep (?s (Created 0) None False [] {}) (?s (Launched 0) (Some 0) False [] {})"
    using dwstep.SetCurrent[of "?s (Created 0) None False [] {}" 0] by simp
  moreover have "dwstep (?s (Launched 0) (Some 0) False [] {}) (?s (Launched 0) (Some 0) False [StopStart] {})"
    using dwstep.CallStop[of "?s (Launched 0) (Some 0) False [] {}"] by simp
  moreover have "dwstep (?s (Launched 0) (Some 0) False [StopStart] {}) (?s (Launched 0) (Some 0) True [StopClosed] {})"
    using dwstep.CloseStop[of "?s (Launched 0) (Some 0) False [StopStart] {}" 0] by (simp add: at_stopper_def move_stopper_def)
  moreover have "dwstep (?s (Launched 0) (Some 0) True [StopClosed] {}) (?s (Launched 0) (Some 0) True [StopGot (Some 0)] {})"
    using dwstep.ReadCurrent[of "?s (Launched 0) (Some 0) True [StopClosed] {}" 0] by (simp add: at_stopper_def move_stopper_def)
  moreover have "dwstep (?s (Launched 0) (Some 0) True [StopGot (Some 0)] {}) (?s (Launched 0) (Some 0) True [StopDone] {0})"
    using dwstep.StopSession[of "?s (Launched 0) (Some 0) True [StopGot (Some 0)] {}" 0 0] by (simp add: at_stopper_def move_stopper_def)
  ultimately have run: "dwsteps dw_start (?s (Launched 0) (Some 0) True [StopDone] {0})"
    by (meson converse_rtranclp_into_rtranclp rtranclp.rtrancl_refl)
  from stop_reaches_session[OF run, of 0] run show ?thesis by (intro exI[of _ "?s (Launched 0) (Some 0) True [StopDone] {0}"]) simp
qed

end
