(* ===== verification/RapidYenc.thy ===== *)
theory RapidYenc
  imports Nntp
begin

text \<open>
  \<open>rapidyenc/decoder.go\<close>, the decoder of the default mode 4, around the incremental
  decoding of the yEnc data, which is C code or another module and an argument
  \<open>inc\<close> here: from a state and a text it gives the bytes, how much of the text it has
  taken, whether it met the end of the data, and the next state. Headers, sizes,
  checksums, uuencoded lines, the two buffers of \<open>Read\<close> and \<open>readAllDecoded\<close> are
  modelled. Reads are from memory, as in \<open>readDotLines\<close>.
\<close>

section \<open>The decoder's state\<close>

datatype Format = FormatUnknown | FormatYenc | FormatUU

datatype ystate = StateCRLF | StateEQ | StateCR | StateNone | StateCRLFDT | StateCRLFDTCR | StateCRLFEQ

datatype yend = EndNone | EndControl | EndArticle

text \<open>\<open>ErrDataMissing\<close> and its siblings; \<open>REOF\<close> is \<open>io.EOF\<close>, \<open>ShortSrc\<close> the request for
  more input.\<close>

datatype rerr = REOF | ShortSrc | DataMissing | DataCorruption | CrcMismatch

type_synonym inc = "ystate \<Rightarrow> string \<Rightarrow> bytes \<times> nat \<times> yend \<times> ystate"

record Meta =
  m_Size :: int
  m_Begin :: int
  m_End :: int
  m_Hash :: "32 word"
  m_Name :: string

text \<open>\<open>rd_r\<close> is what the reader has left, \<open>rd_dst\<close> is \<open>dst[dst0:dst1]\<close> and \<open>rd_src\<close> is
  \<open>src[:src1]\<close>.\<close>

record rdec =
  rd_r :: string
  rd_m :: Meta
  rd_body :: bool
  rd_begin :: bool
  rd_part :: bool
  rd_end :: bool
  rd_crc :: bool
  rd_State :: ystate
  rd_format :: Format
  rd_endSize :: int
  rd_actualSize :: int
  rd_expectedCrc :: "32 word"
  rd_hash :: "32 word"
  rd_err :: "rerr option"
  rd_dst :: bytes
  rd_src :: string
  rd_src0 :: nat
  rd_complete :: bool

definition no_meta :: Meta where
  "no_meta = \<lparr>m_Size = 0, m_Begin = 0, m_End = 0, m_Hash = 0, m_Name = []\<rparr>"

definition rapid_NewDecoder :: rdec where
  "rapid_NewDecoder = \<lparr>rd_r = [], rd_m = no_meta, rd_body = False, rd_begin = False, rd_part = False, rd_end = False,
     rd_crc = False, rd_State = StateCRLF, rd_format = FormatUnknown, rd_endSize = 0, rd_actualSize = 0,
     rd_expectedCrc = 0, rd_hash = 0, rd_err = None, rd_dst = [], rd_src = [], rd_src0 = 0, rd_complete = False\<rparr>"

definition buf_size :: "int \<Rightarrow> nat" where
  "buf_size n = (if n \<le> 0 then 4096 else nat n)"

text \<open>\<open>Reset\<close>: the buffers keep their bytes, but nothing of them is in use.\<close>

definition rapid_Reset :: "rdec \<Rightarrow> rdec" where
  "rapid_Reset d = d\<lparr>rd_r := [], rd_src := [], rd_src0 := 0, rd_dst := [],
     rd_body := False, rd_begin := False, rd_part := False, rd_end := False, rd_crc := False,
     rd_State := StateCRLF, rd_format := FormatUnknown, rd_endSize := 0, rd_actualSize := 0, rd_expectedCrc := 0,
     rd_hash := 0, rd_m := (rd_m d)\<lparr>m_Size := 0, m_Hash := 0, m_Begin := 0, m_End := 0, m_Name := []\<rparr>,
     rd_err := None, rd_complete := False\<rparr>"

text \<open>A decoder from the pool, or a new one, on a text.\<close>

definition AcquireDecoderWithReader :: "rdec option \<Rightarrow> string \<Rightarrow> rdec" where
  "AcquireDecoderWithReader pooled text =
     (case pooled of None \<Rightarrow> rapid_NewDecoder | Some d \<Rightarrow> d)\<lparr>rd_r := text\<rparr>"

section \<open>Fields of the header lines\<close>

definition until :: "char set \<Rightarrow> string \<Rightarrow> string" where
  "until cs s = takeWhile (\<lambda>c. c \<notin> cs) s"

definition extractString :: "string \<Rightarrow> string \<Rightarrow> string" where
  "extractString data sub =
     (case split_first sub data of None \<Rightarrow> [] | Some (_, v) \<Rightarrow> until {CHR 0x00, CHR 0x0D, CHR 0x0A} v)"

text \<open>The value and whether there was no error.\<close>

definition extractInt :: "string \<Rightarrow> string \<Rightarrow> int \<times> bool" where
  "extractInt data sub =
     (case split_first sub data of None \<Rightarrow> (0, False)
      | Some (_, v) \<Rightarrow> parse_int (until {CHR 0x00, CHR 0x20, CHR 0x0D, CHR 0x0A} v))"

text \<open>The last eight characters, filled up with zeros. \<open>hex.Decode\<close> writes into the line,
  but no four bytes and hexadecimal digits contain \<open> size=\<close>, which is read after it.\<close>

definition extractCRC :: "string \<Rightarrow> string \<Rightarrow> 32 word option" where
  "extractCRC data sub =
     (case split_first sub data of None \<Rightarrow> None
      | Some (_, v) \<Rightarrow>
          (let w = until {CHR 0x00, CHR 0x20, CHR 0x0D, CHR 0x0A} v;
               parsed = drop (length w - min 8 (length w)) w
           in parse_hex32 (replicate (8 - length parsed) (CHR ''0'') @ parsed)))"

definition is_octal :: "char \<Rightarrow> bool" where
  "is_octal c \<longleftrightarrow> is_digit c \<and> c \<noteq> CHR ''8'' \<and> c \<noteq> CHR ''9''"

text \<open>A full line of uuencoded data, or a \<open>begin\<close> line with an octal mode.\<close>

definition uu_data_line :: "string \<Rightarrow> bool" where
  "uu_data_line line \<longleftrightarrow> has_prefix ''M'' line \<and>
     (length line = 63 \<and> (line ! 62 = CHR 0x0A \<or> line ! 62 = CHR 0x0D) \<or>
      length line = 62 \<and> (line ! 61 = CHR 0x0A \<or> line ! 61 = CHR 0x0D))"

definition detectFormat :: "string \<Rightarrow> Format" where
  "detectFormat line =
     (if has_prefix ''=ybegin '' line then FormatYenc
      else if uu_data_line line then FormatUU
      else if has_prefix ''begin '' line
      then (let m = drop 6 line
            in if 3 < length m \<and> list_all is_octal (take 3 m) \<and> m ! 3 = CHR '' '' then FormatUU else FormatUnknown)
      else FormatUnknown)"

section \<open>Header lines\<close>

text \<open>\<open>int64\<close> subtraction wraps around.\<close>

definition pred64 :: "int \<Rightarrow> int" where
  "pred64 n = signed_take_bit 63 (n - 1)"

definition yenc_header :: "string \<Rightarrow> rdec \<Rightarrow> rdec" where
  "yenc_header line d =
     (if has_prefix ''=ybegin '' line then
        (let size = fst (extractInt line '' size='');
             d1 = d\<lparr>rd_begin := True, rd_m := (rd_m d)\<lparr>m_Size := size, m_Name := extractString line '' name=''\<rparr>\<rparr>
         in if snd (extractInt line '' part='') then d1
            else d1\<lparr>rd_body := True, rd_m := (rd_m d1)\<lparr>m_End := size\<rparr>\<rparr>)
      else if has_prefix ''=ypart '' line then
        (let (b, b_ok) = extractInt line '' begin='';
             (e, e_ok) = extractInt line '' end='';
             m = (if b_ok then (rd_m d)\<lparr>m_Begin := pred64 b\<rparr> else rd_m d)
         in d\<lparr>rd_part := True, rd_body := True, rd_m := (if e_ok then m\<lparr>m_End := pred64 e\<rparr> else m)\<rparr>)
      else if has_prefix ''=yend '' line then
        (let d1 = (case extractCRC line (if rd_part d then '' pcrc32='' else '' crc32='') of
                     None \<Rightarrow> d | Some crc \<Rightarrow> d\<lparr>rd_expectedCrc := crc, rd_crc := True\<rparr>)
         in d1\<lparr>rd_end := True, rd_endSize := fst (extractInt line '' size='')\<rparr>)
      else d)"

definition uu_header :: "string \<Rightarrow> rdec \<Rightarrow> rdec" where
  "uu_header line d =
     (if has_prefix ''begin '' line then
        (let fs = Fields line; d1 = d\<lparr>rd_begin := True, rd_body := True, rd_format := FormatUU\<rparr>
         in if 3 \<le> length fs then d1\<lparr>rd_m := (rd_m d)\<lparr>m_Name := fs ! 2\<rparr>\<rparr> else d1)
      else if line = ''end'' @ CRLF \<or> line = ''end'' @ [CHR 0x0A]
      then d\<lparr>rd_end := True, rd_body := False\<rparr>
      else d)"

definition processYenc :: "string \<Rightarrow> rdec \<Rightarrow> rdec" where
  "processYenc line d =
     (case rd_format d of FormatYenc \<Rightarrow> yenc_header line d | FormatUU \<Rightarrow> uu_header line d | FormatUnknown \<Rightarrow> d)"

section \<open>Uuencoded lines\<close>

definition uu_bits :: "char \<Rightarrow> 8 word" where
  "uu_bits c = (byte_of c - 0x20) AND 0x3F"

definition uu_group :: "char \<Rightarrow> char \<Rightarrow> char \<Rightarrow> char \<Rightarrow> bytes" where
  "uu_group a b c d =
     [push_bit 2 (uu_bits a) OR drop_bit 4 (uu_bits b),
      push_bit 4 (uu_bits b) OR drop_bit 2 (uu_bits c),
      push_bit 6 (uu_bits c) OR uu_bits d]"

fun uu_loop :: "int \<Rightarrow> string \<Rightarrow> bytes \<Rightarrow> bytes \<times> int" where
  "uu_loop n (a # b # c # d # cs) acc =
     (if n > 0 then uu_loop (n - 3) cs (acc @ uu_group a b c d) else (acc, n))"
| "uu_loop n cs acc = (acc, n)"

definition UUdecode :: "string \<Rightarrow> bytes option" where
  "UUdecode line =
     (let s = TrimSuffix line CRLF
      in case s of [] \<Rightarrow> None
         | c # cs \<Rightarrow>
             (let (decoded, n) = uu_loop (uint (uu_bits c)) cs []
              in Some (if n < 0 then take (length decoded - nat (- n)) decoded else decoded)))"

text \<open>\<open>UUEncode\<close>: a chunk of at most 45 bytes as one line, and the whole file.\<close>

definition uu_char :: "8 word \<Rightarrow> char" where
  "uu_char v = char_of_byte ((v AND 0x3F) + 32)"

definition uu_quad :: "8 word \<Rightarrow> 8 word \<Rightarrow> 8 word \<Rightarrow> string" where
  "uu_quad a b c =
     [uu_char (drop_bit 2 a), uu_char (push_bit 4 a OR (drop_bit 4 b AND 0x0F)),
      uu_char (push_bit 2 b OR (drop_bit 6 c AND 0x03)), uu_char c]"

fun uu_chars :: "bytes \<Rightarrow> string" where
  "uu_chars [] = []"
| "uu_chars [a] = uu_quad a 0 0"
| "uu_chars [a, b] = uu_quad a b 0"
| "uu_chars (a # b # c # bs) = uu_quad a b c @ uu_chars bs"

definition uu_line :: "bytes \<Rightarrow> string" where
  "uu_line chunk = [char_of_byte (of_nat (length chunk) + 32)] @ uu_chars chunk @ CRLF"

fun uu_lines :: "bytes \<Rightarrow> string" where
  "uu_lines [] = []"
| "uu_lines (b # bs) = uu_line (take 45 (b # bs)) @ uu_lines (drop 44 bs)"

definition UUEncode :: "bytes \<Rightarrow> string \<Rightarrow> string \<Rightarrow> string" where
  "UUEncode src filename mode = ''begin '' @ mode @ '' '' @ filename @ CRLF @ uu_lines src @ ''end'' @ CRLF"


section \<open>Transform\<close>

text \<open>The wrapper around the incremental decoder: a destination that is too small is an
  error, which \<open>Transform\<close> ignores together with the zeros that come with it.\<close>

definition DecodeIncremental :: "inc \<Rightarrow> nat \<Rightarrow> string \<Rightarrow> ystate \<Rightarrow> bytes \<times> nat \<times> yend \<times> ystate" where
  "DecodeIncremental inc room src st =
     (if src = [] \<or> room < length src then ([], 0, EndNone, st) else inc st src)"

definition add_out :: "bytes \<Rightarrow> rdec \<Rightarrow> rdec" where
  "add_out bs d = d\<lparr>rd_hash := crc_write (rd_hash d) bs, rd_actualSize := rd_actualSize d + int (length bs)\<rparr>"

text \<open>The end of the article: the checksum is set, and one of the checks may fail.\<close>

definition sum_up :: "rdec \<Rightarrow> rdec" where
  "sum_up d = d\<lparr>rd_m := (rd_m d)\<lparr>m_Hash := rd_hash d\<rparr>\<rparr>"

definition article_end :: "rdec \<Rightarrow> rerr" where
  "article_end d =
     (if \<not> rd_begin d then DataMissing
      else if \<not> rd_end d then (if rd_format d = FormatUU then DataCorruption else DataMissing)
      else if rd_format d = FormatYenc \<and> (\<not> rd_part d \<and> m_Size (rd_m d) \<noteq> rd_endSize d \<or> rd_endSize d \<noteq> rd_actualSize d)
      then DataCorruption
      else if rd_format d = FormatYenc \<and> rd_crc d \<and> rd_expectedCrc d \<noteq> m_Hash (rd_m d) then CrcMismatch
      else REOF)"

text \<open>The text ends without a line end.\<close>

definition text_end :: "bool \<Rightarrow> rdec \<Rightarrow> rerr" where
  "text_end atEOF d =
     (if \<not> atEOF then ShortSrc
      else if \<not> rd_begin d \<or> \<not> rd_end d
      then (if rd_format d = FormatUU \<and> rd_begin d then DataCorruption else DataMissing)
      else REOF)"

definition uu_step :: "nat \<Rightarrow> string \<Rightarrow> bytes \<times> rdec \<Rightarrow> bytes \<times> rdec" where
  "uu_step sz line p =
     (case p of (out, d) \<Rightarrow>
      if rd_body d \<and> \<not> has_prefix ''begin '' line \<and> \<not> has_prefix ''end'' line
      then (case UUdecode line of None \<Rightarrow> (out, d) | Some bs \<Rightarrow> (out @ take (sz - length out) bs, add_out bs d))
      else (out, d))"

definition line_format :: "string \<Rightarrow> rdec \<Rightarrow> rdec" where
  "line_format line d = (if rd_format d = FormatUnknown then d\<lparr>rd_format := detectFormat line\<rparr> else d)"

definition tmeasure :: "string \<Rightarrow> nat \<Rightarrow> rdec \<Rightarrow> nat" where
  "tmeasure src n d = (length src - n) + (if rd_body d \<and> rd_format d = FormatYenc then 4 else 0)"

lemma processYenc_measure:
  assumes "\<not> (rd_body d \<and> rd_format d = FormatYenc)" and "rd_body (processYenc line d)" and "rd_format (processYenc line d) = FormatYenc"
  shows "7 \<le> length line"
proof -
  have "has_prefix ''=ybegin '' line \<or> has_prefix ''=ypart '' line"
    using assms by (auto simp: processYenc_def yenc_header_def uu_header_def Let_def split: Format.splits if_splits option.splits prod.splits)
  then show ?thesis by (auto simp: has_prefix_iff)
qed


lemma line_yenc_measure:
  assumes "\<not> (rd_body d \<and> rd_format d = FormatYenc)" and "rd_format (line_format line d) = FormatYenc"
    and "rd_body (processYenc line (line_format line d))"
  shows "7 \<le> length line"
proof (cases "rd_format d = FormatYenc")
  case True
  then have "line_format line d = d" by (simp add: line_format_def)
  moreover have "rd_format (processYenc line d) = FormatYenc"
    using True by (auto simp: processYenc_def yenc_header_def Let_def split: option.splits prod.splits)
  ultimately show ?thesis using processYenc_measure[of d line] assms True by simp
next
  case False
  then have "detectFormat line = FormatYenc" using assms(2) by (simp add: line_format_def split: if_splits)
  then have "has_prefix ''=ybegin '' line" by (auto simp: detectFormat_def Let_def split: if_splits)
  then show ?thesis by (auto simp: has_prefix_iff)
qed

lemma split_first_length: "split_first p s = Some (a, b) \<Longrightarrow> length s = length a + length p + length b"
  by (auto dest!: split_first_sound)

lemma next_line_measure:
  assumes "split_first CRLF (drop n src) = Some (l, rest)" and "\<not> (rd_body d \<and> rd_format d = FormatYenc)"
    and "rd_body d' \<Longrightarrow> rd_format d' = FormatYenc \<Longrightarrow> 7 \<le> length l + 2"
  shows "tmeasure src (n + (length l + 2)) d' < tmeasure src n d"
  using split_first_length[OF assms(1)] assms(2,3) by (auto simp: tmeasure_def CRLF_def)

lemma uu_step_format [simp]: "rd_format (snd (uu_step sz line (out, d))) = rd_format d"
  by (auto simp: uu_step_def add_out_def split: option.splits)

lemma processYenc_format:
  "rd_format (processYenc line d) = rd_format d"
  by (auto simp: processYenc_def yenc_header_def uu_header_def Let_def split: Format.splits option.splits prod.splits)

lemma CRLF_length [simp]: "length CRLF = 2"
  by (simp add: CRLF_def)

text \<open>
  \<open>Transform\<close> from position \<open>n\<close> of \<open>src\<close>, with the bytes decoded so far: all bytes, the
  position reached and the error. \<open>sz\<close> is the size of \<open>dst\<close>. Subtraction of natural
  numbers is the clamping of a negative position; only the position that is
  returned can be negative.
\<close>

function (sequential) transform ::
  "inc \<Rightarrow> nat \<Rightarrow> bool \<Rightarrow> string \<Rightarrow> nat \<Rightarrow> bytes \<Rightarrow> rdec \<Rightarrow> (bytes \<times> int \<times> rerr) \<times> rdec" where
  "transform inc sz atEOF src n out d =
     (if rd_body d \<and> rd_format d = FormatYenc then
        (let (bs, ns, e, st) = DecodeIncremental inc (sz - length out) (drop n src) (rd_State d);
             d1 = add_out bs (d\<lparr>rd_State := st\<rparr>)
         in case e of
              EndControl \<Rightarrow> transform inc sz atEOF src (n + ns - 2) (out @ bs) (d1\<lparr>rd_body := False\<rparr>)
            | EndArticle \<Rightarrow> transform inc sz atEOF src (n + ns - 3) (out @ bs) (d1\<lparr>rd_body := False\<rparr>)
            | EndNone \<Rightarrow>
                (if st = StateCRLFEQ then ((out @ bs, int n + int ns - 1, ShortSrc), d1\<lparr>rd_State := StateCRLF\<rparr>)
                 else ((out @ bs, int n + int ns, ShortSrc), d1)))
      else if has_prefix (DOT @ CRLF) (drop n src) then ((out, int n + 3, article_end (sum_up d)), sum_up d)
      else
        (case split_first CRLF (drop n src) of
           None \<Rightarrow> ((out, int n, text_end atEOF d), d)
         | Some (l, rest) \<Rightarrow>
             (let line = l @ CRLF; d1 = line_format line d
              in case rd_format d1 of
                   FormatYenc \<Rightarrow> transform inc sz atEOF src (n + length line) out (processYenc line d1)
                 | FormatUU \<Rightarrow>
                     (let p = uu_step sz line (out, processYenc line d1)
                      in transform inc sz atEOF src (n + length line) (fst p) (snd p))
                 | FormatUnknown \<Rightarrow> transform inc sz atEOF src (n + length line) out d1)))"
  by pat_completeness auto

termination
proof (relation "measure (\<lambda>(inc, sz, atEOF, src, n, out, d). tmeasure src n d)", goal_cases)
  case (4 inc sz atEOF src n out d y l rest line d1)
  then show ?case using next_line_measure[of n src l rest d d1] by simp
next
  case (5 inc sz atEOF src n out d y l rest line d1)
  then show ?case using line_yenc_measure[of d line] next_line_measure[of n src l rest d] by simp
next
  case (6 inc sz atEOF src n out d y l rest line d1 p)
  then show ?case using next_line_measure[of n src l rest d "snd p"] by (simp add: processYenc_format case_prod_beta)
qed (auto simp: tmeasure_def add_out_def)


declare transform.simps [simp del]

text \<open>Its steps in yEnc data.\<close>

lemma transform_control:
  assumes "rd_body d" and "rd_format d = FormatYenc"
    and "DecodeIncremental inc (sz - length out) (drop n src) (rd_State d) = (bs, ns, EndControl, st)"
  shows "transform inc sz atEOF src n out d =
    transform inc sz atEOF src (n + ns - 2) (out @ bs) ((add_out bs (d\<lparr>rd_State := st\<rparr>))\<lparr>rd_body := False\<rparr>)"
  using assms by (subst transform.simps) simp

lemma transform_dot:
  assumes "\<not> (rd_body d \<and> rd_format d = FormatYenc)" and "has_prefix (DOT @ CRLF) (drop n src)"
  shows "transform inc sz atEOF src n out d = ((out, int n + 3, article_end (sum_up d)), sum_up d)"
  using assms by (subst transform.simps) (simp only: if_False if_True)

lemma transform_no_line:
  assumes "\<not> (rd_body d \<and> rd_format d = FormatYenc)" and "\<not> has_prefix (DOT @ CRLF) (drop n src)"
    and "split_first CRLF (drop n src) = None"
  shows "transform inc sz atEOF src n out d = ((out, int n, text_end atEOF d), d)"
  using assms by (subst transform.simps) (simp only: if_False option.case)

lemma transform_yenc_line:
  assumes "\<not> (rd_body d \<and> rd_format d = FormatYenc)" and "\<not> has_prefix (DOT @ CRLF) (drop n src)"
    and "split_first CRLF (drop n src) = Some (l, rest)" and "rd_format (line_format (l @ CRLF) d) = FormatYenc"
  shows "transform inc sz atEOF src n out d =
    transform inc sz atEOF src (n + length (l @ CRLF)) out (processYenc (l @ CRLF) (line_format (l @ CRLF) d))"
  using assms by (subst transform.simps) (simp only: if_False Let_def option.case prod.case Format.case)

section \<open>Read\<close>

text \<open>More input: what is not yet transformed moves to the start of the buffer.\<close>

definition refill :: "nat \<Rightarrow> rdec \<Rightarrow> rdec" where
  "refill sz d =
     (let s = drop (rd_src0 d) (rd_src d); d1 = d\<lparr>rd_src0 := 0\<rparr>
      in if rd_r d = [] then d1\<lparr>rd_src := s, rd_err := Some REOF\<rparr>
         else d1\<lparr>rd_src := s @ take (sz - length s) (rd_r d), rd_r := drop (sz - length s) (rd_r d), rd_err := None\<rparr>)"

text \<open>One round of the loop of \<open>Read\<close> into \<open>plen\<close> bytes: it returns bytes and an error, or
  goes on. \<open>Transform\<close> never returns \<open>nil\<close> or \<open>ErrShortDst\<close>.\<close>

definition read_step :: "inc \<Rightarrow> nat \<Rightarrow> nat \<Rightarrow> rdec \<Rightarrow> (bytes \<times> rerr option) option \<times> rdec" where
  "read_step inc sz plen d =
     (if rd_dst d \<noteq> [] then
        (let rest = drop plen (rd_dst d)
         in (Some (take plen (rd_dst d), if rest = [] \<and> rd_complete d then rd_err d else None), d\<lparr>rd_dst := rest\<rparr>))
      else if rd_complete d then (Some ([], rd_err d), d)
      else if rd_src0 d < length (rd_src d) \<or> rd_err d \<noteq> None then
        (let ((bs, n, err), d1) = transform inc sz (rd_err d = Some REOF) (drop (rd_src0 d) (rd_src d)) 0 [] d;
             s0 = nat (min (int (rd_src0 d) + n) (int (length (rd_src d))));
             d2 = d1\<lparr>rd_dst := take sz bs, rd_src0 := s0\<rparr>
         in if err = ShortSrc \<and> length (rd_src d) - s0 \<noteq> sz \<and> rd_err d = None then (None, refill sz d2)
            else (None, d2\<lparr>rd_complete := True,
                           rd_err := (if rd_err d = None \<or> rd_err d = Some REOF then Some err else rd_err d)\<rparr>))
      else (None, refill sz d))"

fun rapid_Read :: "inc \<Rightarrow> nat \<Rightarrow> nat \<Rightarrow> nat \<Rightarrow> rdec \<Rightarrow> ((bytes \<times> rerr option) \<times> rdec) option" where
  "rapid_Read inc sz plen 0 d = None"
| "rapid_Read inc sz plen (Suc fuel) d =
     (case read_step inc sz plen d of (Some r, d') \<Rightarrow> Some (r, d') | (None, d') \<Rightarrow> rapid_Read inc sz plen fuel d')"

text \<open>\<open>readAllDecoded\<close>: \<open>psize\<close> is the room that \<open>append\<close> leaves behind the bytes read so far.\<close>

fun readAllDecoded :: "inc \<Rightarrow> nat \<Rightarrow> (nat \<Rightarrow> nat) \<Rightarrow> nat \<Rightarrow> nat \<Rightarrow> bytes \<Rightarrow> rdec \<Rightarrow> ((bytes \<times> rerr option) \<times> rdec) option" where
  "readAllDecoded inc sz psize rfuel 0 out d = None"
| "readAllDecoded inc sz psize rfuel (Suc fuel) out d =
     (case rapid_Read inc sz (psize (length out)) rfuel d of
        None \<Rightarrow> None
      | Some ((bs, err), d') \<Rightarrow>
          (case err of
             None \<Rightarrow> readAllDecoded inc sz psize rfuel fuel (out @ bs) d'
           | Some e \<Rightarrow> Some ((out @ bs, if e = REOF then None else Some e), d')))"


text \<open>The whole of mode 4's decoding, with fuel that is always enough (\<open>rapid_returns\<close>):
  the data, the name and the checksum that \<open>readDotLines\<close> takes from it.\<close>

definition read_fuel :: "string \<Rightarrow> nat" where
  "read_fuel text = length text + 3"

definition all_fuel :: "nat \<Rightarrow> string \<Rightarrow> nat" where
  "all_fuel sz text = (length text + 2) * (sz + 1) + 1"

definition decode_all :: "inc \<Rightarrow> nat \<Rightarrow> (nat \<Rightarrow> nat) \<Rightarrow> rdec option \<Rightarrow> string \<Rightarrow> ((bytes \<times> rerr option) \<times> rdec) option" where
  "decode_all inc sz psize pooled text =
     readAllDecoded inc sz psize (read_fuel text) (all_fuel sz text) [] (AcquireDecoderWithReader pooled text)"

definition rapid_decode :: "inc \<Rightarrow> nat \<Rightarrow> (nat \<Rightarrow> nat) \<Rightarrow> rdec option \<Rightarrow> string \<Rightarrow> (bytes \<times> string \<times> 32 word) option" where
  "rapid_decode inc sz psize pooled text =
     (case decode_all inc sz psize pooled text of
        Some ((out, None), d) \<Rightarrow> Some (out, m_Name (rd_m d), m_Hash (rd_m d))
      | _ \<Rightarrow> None)"

section \<open>What is decoded is what is counted\<close>

text \<open>What the incremental decoder's interface says of every call: it writes no more bytes
  than it takes, and takes no more than it is given.\<close>

definition bounded :: "inc \<Rightarrow> bool" where
  "bounded inc \<longleftrightarrow> (\<forall>st s. case inc st s of (bs, ns, e, st') \<Rightarrow> length bs \<le> ns \<and> ns \<le> length s)"

lemma DecodeIncremental_bounded:
  assumes "bounded inc" and "DecodeIncremental inc room src st = (bs, ns, e, st')"
  shows "length bs \<le> room \<and> length bs \<le> ns \<and> ns \<le> length src"
  using assms(1)[unfolded bounded_def, THEN spec, of st, THEN spec, of src] assms(2)
  by (auto simp: DecodeIncremental_def split: if_splits)

lemma uu_loop_length: "uu_loop n cs acc = (bs, k) \<Longrightarrow> length bs \<le> length acc + length cs"
  by (induction n cs acc rule: uu_loop.induct) (fastforce simp: uu_group_def split: if_splits)+

lemma UUdecode_length: "UUdecode line = Some bs \<Longrightarrow> length bs \<le> length line"
proof -
  assume u: "UUdecode line = Some bs"
  obtain c cs where c: "TrimSuffix line CRLF = c # cs" using u by (cases "TrimSuffix line CRLF") (auto simp: UUdecode_def)
  have "length (TrimSuffix line CRLF) \<le> length line" by (simp add: TrimSuffix_def)
  then have "length (c # cs) \<le> length line" by (simp only: c)
  moreover obtain b k where "uu_loop (uint (uu_bits c)) cs [] = (b, k)" by fastforce
  ultimately show ?thesis using u c uu_loop_length[of "uint (uu_bits c)" cs "[]" b k]
    by (auto simp: UUdecode_def split: if_splits)
qed

text \<open>The reader's part of the state, which \<open>Transform\<close> does not touch.\<close>

definition reader_of :: "rdec \<Rightarrow> string \<times> rerr option \<times> bytes \<times> string \<times> nat \<times> bool" where
  "reader_of d = (rd_r d, rd_err d, rd_dst d, rd_src d, rd_src0 d, rd_complete d)"

lemma reader_of_steps [simp]:
  "reader_of (add_out bs d) = reader_of d" "reader_of (sum_up d) = reader_of d" "reader_of (line_format line d) = reader_of d"
  "reader_of (d\<lparr>rd_State := st\<rparr>) = reader_of d" "reader_of (d\<lparr>rd_body := b\<rparr>) = reader_of d"
  by (simp_all add: reader_of_def add_out_def sum_up_def line_format_def)

definition counts_of :: "rdec \<Rightarrow> (string \<times> rerr option \<times> bytes \<times> string \<times> nat \<times> bool) \<times> 32 word \<times> int \<times> 32 word" where
  "counts_of d = (reader_of d, rd_hash d, rd_actualSize d, m_Hash (rd_m d))"

lemma yenc_header_counts: "counts_of (yenc_header line d) = counts_of d"
  by (simp add: counts_of_def reader_of_def yenc_header_def Let_def case_prod_beta split: option.split)

lemma uu_header_counts: "counts_of (uu_header line d) = counts_of d"
  by (simp add: counts_of_def reader_of_def uu_header_def Let_def)

lemma processYenc_counts: "counts_of (processYenc line d) = counts_of d"
  by (simp add: processYenc_def yenc_header_counts uu_header_counts split: Format.split)

lemmas processYenc_keeps [simp] = processYenc_counts[unfolded counts_of_def, simplified]


text \<open>From one point of \<open>Transform\<close> to a later one: \<open>new\<close> bytes, counted and added to the
  checksum.\<close>

definition decoded :: "nat \<Rightarrow> bytes \<times> rdec \<Rightarrow> bytes \<times> rdec \<Rightarrow> bool" where
  "decoded sz p q \<longleftrightarrow> length (fst q) \<le> sz \<and> reader_of (snd q) = reader_of (snd p) \<and>
     (\<exists>new. fst q = fst p @ new \<and> rd_hash (snd q) = crc_write (rd_hash (snd p)) new \<and>
       rd_actualSize (snd q) = rd_actualSize (snd p) + int (length new))"

lemma decoded_same: "length out \<le> sz \<Longrightarrow> reader_of d' = reader_of d \<Longrightarrow> rd_hash d' = rd_hash d \<Longrightarrow>
    rd_actualSize d' = rd_actualSize d \<Longrightarrow> decoded sz (out, d) (out, d')"
  by (simp add: decoded_def)

lemma decoded_trans: "decoded sz p q \<Longrightarrow> decoded sz q r \<Longrightarrow> decoded sz p r"
  by (fastforce simp: decoded_def crc_write_append)

lemma decoded_add: "length (out @ bs) \<le> sz \<Longrightarrow> reader_of d' = reader_of d \<Longrightarrow> rd_hash d' = rd_hash (add_out bs d) \<Longrightarrow>
    rd_actualSize d' = rd_actualSize (add_out bs d) \<Longrightarrow> decoded sz (out, d) (out @ bs, d')"
  by (simp add: decoded_def add_out_def)

lemma line_format_keeps [simp]:
  "rd_hash (line_format line d) = rd_hash d" "rd_actualSize (line_format line d) = rd_actualSize d" "rd_m (line_format line d) = rd_m d"
  by (simp_all add: line_format_def)

lemma uu_step_decoded:
  assumes "length out + length line \<le> sz"
  shows "decoded sz (out, d) (uu_step sz line (out, d)) \<and> length (fst (uu_step sz line (out, d))) \<le> length out + length line"
proof (cases "UUdecode line")
  case None
  then have "uu_step sz line (out, d) = (out, d)" by (simp add: uu_step_def)
  then show ?thesis using assms decoded_same[of out sz d d] by simp
next
  case (Some bs)
  then have u: "uu_step sz line (out, d) = (out, d) \<or> uu_step sz line (out, d) = (out @ bs, add_out bs d)"
    using assms UUdecode_length[OF Some] by (auto simp: uu_step_def)
  show ?thesis using u assms UUdecode_length[OF Some] decoded_same[of out sz d d] decoded_add[of out bs sz "add_out bs d" d]
    by (elim disjE) simp_all
qed

lemma uu_step_meta [simp]: "rd_m (snd (uu_step sz line (out, d))) = rd_m d"
  by (auto simp: uu_step_def add_out_def split: option.splits)

text \<open>What holds of a decoder that accepted its input.\<close>

definition checked :: "rdec \<Rightarrow> bool" where
  "checked d \<longleftrightarrow> rd_begin d \<and> rd_end d \<and> m_Hash (rd_m d) = rd_hash d \<and>
     (rd_format d = FormatYenc \<longrightarrow> rd_endSize d = rd_actualSize d \<and> (rd_part d \<or> m_Size (rd_m d) = rd_endSize d) \<and>
       (rd_crc d \<longrightarrow> rd_expectedCrc d = rd_hash d))"

definition settled_end :: "rdec \<Rightarrow> rerr \<Rightarrow> rdec \<Rightarrow> bool" where
  "settled_end d e d' \<longleftrightarrow> (e = ShortSrc \<longrightarrow> m_Hash (rd_m d') = m_Hash (rd_m d)) \<and>
     (e = REOF \<longrightarrow> checked d' \<or> rd_begin d' \<and> rd_end d' \<and> m_Hash (rd_m d') = m_Hash (rd_m d))"

lemma settled_article_end: "settled_end d (article_end (sum_up d)) (sum_up d)"
  by (auto simp: settled_end_def article_end_def sum_up_def checked_def)

lemma settled_text_end: "settled_end d (text_end atEOF d) d"
  by (auto simp: settled_end_def text_end_def)

lemma settled_end_cong: "m_Hash (rd_m d1) = m_Hash (rd_m d) \<Longrightarrow> settled_end d1 e d' \<Longrightarrow> settled_end d e d'"
  by (simp add: settled_end_def)

definition transformed :: "nat \<Rightarrow> bytes \<Rightarrow> rdec \<Rightarrow> (bytes \<times> int \<times> rerr) \<times> rdec \<Rightarrow> bool" where
  "transformed sz out d r \<longleftrightarrow>
     (case r of ((bs, k, e), d') \<Rightarrow> decoded sz (out, d) (bs, d') \<and> settled_end d e d')"

lemma transformed_step:
  assumes "decoded sz (out, d) (out1, d1)" and "m_Hash (rd_m d1) = m_Hash (rd_m d)" and "transformed sz out1 d1 r"
  shows "transformed sz out d r"
  using assms decoded_trans[of sz "(out, d)" "(out1, d1)"] settled_end_cong[of d1 d]
  by (auto simp: transformed_def split: prod.splits)


lemma transform_ok:
  assumes "bounded inc" and "length src \<le> sz" and "length out \<le> sz"
    and "rd_format d \<noteq> FormatYenc \<longrightarrow> length out \<le> n \<and> n \<le> length src"
  shows "transformed sz out d (transform inc sz atEOF src n out d)"
  using assms
proof (induction inc sz atEOF src n out d rule: transform.induct)
  case (1 inc sz atEOF src n out d)
  consider (body) "rd_body d \<and> rd_format d = FormatYenc"
    | (dot) "\<not> (rd_body d \<and> rd_format d = FormatYenc)" "has_prefix (DOT @ CRLF) (drop n src)"
    | (text_end) "\<not> (rd_body d \<and> rd_format d = FormatYenc)" "\<not> has_prefix (DOT @ CRLF) (drop n src)" "split_first CRLF (drop n src) = None"
    | (line) l rest where "\<not> (rd_body d \<and> rd_format d = FormatYenc)" "\<not> has_prefix (DOT @ CRLF) (drop n src)"
        "split_first CRLF (drop n src) = Some (l, rest)"
    by fastforce
  then show ?case
  proof cases
    case body
    obtain bs ns e st where i: "DecodeIncremental inc (sz - length out) (drop n src) (rd_State d) = (bs, ns, e, st)"
      using prod_cases4 by blast
    then have len: "length (out @ bs) \<le> sz" using DecodeIncremental_bounded[OF 1(6) i] 1(8) unfolding length_append by linarith
    let ?d1 = "add_out bs (d\<lparr>rd_State := st\<rparr>)"
    have dec: "decoded sz (out, d) (out @ bs, d')"
      if "reader_of d' = reader_of d" "rd_hash d' = rd_hash ?d1" "rd_actualSize d' = rd_actualSize ?d1" for d'
      using decoded_add[OF len, of d' d] that by (simp add: add_out_def)
    have go: "transformed sz out d r" if "transformed sz (out @ bs) (?d1\<lparr>rd_body := False\<rparr>) r" for r
      by (rule transformed_step[OF _ _ that]) (auto intro!: dec simp: add_out_def reader_of_def)
    show ?thesis
    proof (cases e)
      case EndNone
      have stop: "transformed sz out d ((out @ bs, k, ShortSrc), d')"
        if "reader_of d' = reader_of d" "rd_hash d' = rd_hash ?d1" "rd_actualSize d' = rd_actualSize ?d1" "rd_m d' = rd_m d" for k d'
        using dec[of d'] that by (simp add: transformed_def settled_end_def)
      have "transformed sz out d ((out @ bs, k, ShortSrc), ?d1)" "transformed sz out d ((out @ bs, k, ShortSrc), ?d1\<lparr>rd_State := StateCRLF\<rparr>)" for k
        by (rule stop; simp add: add_out_def reader_of_def)+
      then show ?thesis using EndNone by (subst transform.simps) (cases "st = StateCRLFEQ"; simp add: body i Let_def)
    next
      case EndControl
      have "transformed sz (out @ bs) (?d1\<lparr>rd_body := False\<rparr>) (transform inc sz atEOF src (n + ns - 2) (out @ bs) (?d1\<lparr>rd_body := False\<rparr>))"
        using 1(1)[OF body i[symmetric] refl refl refl refl _ 1(6,7) len] body EndControl by (simp add: add_out_def)
      from go[OF this] show ?thesis using EndControl by (subst transform.simps) (simp add: body i)
    next
      case EndArticle
      have "transformed sz (out @ bs) (?d1\<lparr>rd_body := False\<rparr>) (transform inc sz atEOF src (n + ns - 3) (out @ bs) (?d1\<lparr>rd_body := False\<rparr>))"
        using 1(2)[OF body i[symmetric] refl refl refl refl _ 1(6,7) len] body EndArticle by (simp add: add_out_def)
      from go[OF this] show ?thesis using EndArticle by (subst transform.simps) (simp add: body i)
    qed
  next
    case dot
    moreover have "decoded sz (out, d) (out, sum_up d)"
      using 1(8) by (intro decoded_same) (simp_all add: reader_of_def sum_up_def)
    ultimately show ?thesis by (simp add: transform_dot transformed_def settled_article_end)
  next
    case text_end
    moreover have "decoded sz (out, d) (out, d)" using 1(8) by (intro decoded_same) simp_all
    ultimately show ?thesis by (simp add: transform_no_line transformed_def settled_text_end)
  next
    case line
    have sp: "length src - n = length l + 2 + length rest" using split_first_length[OF line(3)] by simp
    let ?line = "l @ CRLF" and ?n = "n + length (l @ CRLF)"
    let ?d1 = "line_format ?line d"
    have n: "length out + length ?line \<le> sz \<and> length out \<le> n \<and> ?n \<le> length src" if "rd_format d \<noteq> FormatYenc"
      using that 1(7,9) sp by auto
    have fmt: "rd_format d \<noteq> FormatYenc" if "rd_format ?d1 \<noteq> FormatYenc"
      using that by (auto simp: line_format_def split: if_splits)
    have eq: "transform inc sz atEOF src n out d =
      (case rd_format ?d1 of
         FormatYenc \<Rightarrow> transform inc sz atEOF src ?n out (processYenc ?line ?d1)
       | FormatUU \<Rightarrow> (let p = uu_step sz ?line (out, processYenc ?line ?d1) in transform inc sz atEOF src ?n (fst p) (snd p))
       | FormatUnknown \<Rightarrow> transform inc sz atEOF src ?n out ?d1)"
      by (subst transform.simps) (simp only: line if_False Let_def option.case prod.case)
    show ?thesis
    proof (cases "rd_format ?d1")
      case FormatYenc
      have "transformed sz out (processYenc ?line ?d1) (transform inc sz atEOF src ?n out (processYenc ?line ?d1))"
        using 1(4)[OF line refl refl refl FormatYenc 1(6,7,8)] FormatYenc by (simp add: processYenc_format)
      then show ?thesis unfolding eq FormatYenc Format.case
        by (rule transformed_step[rotated 2]) (auto intro!: decoded_same simp: 1(8))
    next
      case FormatUU
      let ?p = "uu_step sz ?line (out, processYenc ?line ?d1)"
      have u: "decoded sz (out, processYenc ?line ?d1) ?p" "length (fst ?p) \<le> length out + length ?line"
        using uu_step_decoded[of out ?line sz "processYenc ?line ?d1"] n fmt FormatUU by auto
      then have "transformed sz (fst ?p) (snd ?p) (transform inc sz atEOF src ?n (fst ?p) (snd ?p))"
        using 1(5)[OF line refl refl refl FormatUU refl 1(6,7)] n fmt FormatUU by (simp add: processYenc_format decoded_def)
      moreover have "decoded sz (out, d) (out, processYenc ?line ?d1)" by (rule decoded_same) (use 1(8) in auto)
      ultimately show ?thesis unfolding eq FormatUU Format.case Let_def
        using u decoded_trans[of sz "(out, d)" _ ?p] by (intro transformed_step[of sz out d "fst ?p" "snd ?p"]) auto
    next
      case FormatUnknown
      have "transformed sz out ?d1 (transform inc sz atEOF src ?n out ?d1)"
        using 1(3)[OF line refl refl refl FormatUnknown 1(6,7,8)] n fmt FormatUnknown by simp
      then show ?thesis unfolding eq FormatUnknown Format.case
        by (rule transformed_step[rotated 2]) (auto intro!: decoded_same simp: 1(8))
    qed
  qed
qed


text \<open>The loop of \<open>Read\<close>: \<open>out\<close> is what was returned before.\<close>

definition accepted :: "rdec \<Rightarrow> bool" where
  "accepted d \<longleftrightarrow> checked d \<or> rd_begin d \<and> rd_end d \<and> m_Hash (rd_m d) = 0"

definition read_inv :: "nat \<Rightarrow> bytes \<Rightarrow> rdec \<Rightarrow> bool" where
  "read_inv sz out d \<longleftrightarrow>
     rd_hash d = crc32 (out @ rd_dst d) \<and> rd_actualSize d = int (length (out @ rd_dst d)) \<and>
     length (rd_src d) \<le> sz \<and> length (rd_dst d) \<le> sz \<and>
     (if rd_complete d then rd_err d \<noteq> None \<and> (rd_err d = Some REOF \<longrightarrow> accepted d)
      else m_Hash (rd_m d) = 0 \<and> (rd_err d = None \<or> rd_err d = Some REOF))"

definition left_over :: "rdec \<Rightarrow> nat" where
  "left_over d = length (rd_r d) + (if rd_err d = None then 1 else 0) + (if rd_complete d then 0 else 1)"

lemma accepted_cong:
  "accepted d \<Longrightarrow> accepted (d\<lparr>rd_dst := x, rd_src0 := k, rd_complete := b, rd_err := e\<rparr>)"
  "accepted d \<Longrightarrow> accepted (d\<lparr>rd_dst := x\<rparr>)"
  by (simp_all add: accepted_def checked_def)

lemma refill_ok:
  assumes "read_inv sz out d" and "\<not> rd_complete d" and "rd_err d = None" and "length (rd_src d) - rd_src0 d < sz"
  shows "read_inv sz out (refill sz d) \<and> left_over (refill sz d) < left_over d \<and> rd_dst (refill sz d) = rd_dst d"
  using assms by (cases "rd_r d") (auto simp: read_inv_def refill_def left_over_def Let_def)

lemma read_step_transforms:
  assumes "bounded inc" and "read_inv sz out d" and "rd_dst d = []" and "\<not> rd_complete d"
    and "transform inc sz eof (drop (rd_src0 d) (rd_src d)) 0 [] d = ((bs, n, e), d1)"
  shows "length bs \<le> sz \<and> rd_hash d1 = crc32 (out @ bs) \<and> rd_actualSize d1 = int (length (out @ bs)) \<and>
    reader_of d1 = reader_of d \<and> (e = ShortSrc \<longrightarrow> m_Hash (rd_m d1) = 0) \<and> (e = REOF \<longrightarrow> accepted d1)"
proof -
  have "length (rd_src d) \<le> sz" using assms(2) by (simp add: read_inv_def)
  then have "length (drop (rd_src0 d) (rd_src d)) \<le> sz" unfolding length_drop by linarith
  then have "transformed sz [] d ((bs, n, e), d1)"
    using transform_ok[OF assms(1), of "drop (rd_src0 d) (rd_src d)" sz "[]" d 0 eof] assms(5) by simp
  then show ?thesis using assms(2-4)
    by (auto simp: transformed_def decoded_def settled_end_def read_inv_def accepted_def)
qed

lemma read_step_ok:
  assumes "bounded inc" and "read_inv sz out d" and "0 < sz" and "0 < plen" and "read_step inc sz plen d = (r, d')"
  shows "case r of
      None \<Rightarrow> read_inv sz out d' \<and> left_over d' < left_over d
    | Some (bs, err) \<Rightarrow> read_inv sz (out @ bs) d' \<and> left_over d' = left_over d \<and>
        (case err of None \<Rightarrow> length (rd_dst d') < length (rd_dst d) | Some x \<Rightarrow> rd_dst d' = [] \<and> rd_complete d' \<and> rd_err d' = Some x)"
proof -
  consider (copy) "rd_dst d \<noteq> []" | (returned) "rd_dst d = []" "rd_complete d"
    | (trans) "rd_dst d = []" "\<not> rd_complete d" "rd_src0 d < length (rd_src d) \<or> rd_err d \<noteq> None"
    | (fill) "rd_dst d = []" "\<not> rd_complete d" "length (rd_src d) \<le> rd_src0 d" "rd_err d = None"
    by force
  then show ?thesis
  proof cases
    case copy
    then show ?thesis using assms
      by (auto simp: read_step_def read_inv_def left_over_def accepted_cong Let_def split: option.split if_splits)
  next
    case returned
    then show ?thesis using assms by (auto simp: read_step_def read_inv_def)
  next
    case fill
    then show ?thesis using assms refill_ok[of sz out d] by (auto simp: read_step_def)
  next
    case trans
    obtain bs n e d1 where t: "transform inc sz (rd_err d = Some REOF) (drop (rd_src0 d) (rd_src d)) 0 [] d = ((bs, n, e), d1)"
      by (metis prod.collapse)
    note ok = read_step_transforms[OF assms(1,2) trans(1,2) t]
    let ?s0 = "nat (min (int (rd_src0 d) + n) (int (length (rd_src d))))"
    let ?d2 = "d1\<lparr>rd_dst := bs, rd_src0 := ?s0\<rparr>"
    show ?thesis
    proof (cases "e = ShortSrc \<and> length (rd_src d) - ?s0 \<noteq> sz \<and> rd_err d = None")
      case True
      have "read_inv sz out ?d2" "\<not> rd_complete ?d2" "rd_err ?d2 = None" "length (rd_src ?d2) - rd_src0 ?d2 < sz" "left_over ?d2 = left_over d"
        using ok True trans assms(2) by (auto simp: read_inv_def reader_of_def left_over_def)
      moreover have "(r, d') = (None, refill sz ?d2)" using assms(5) trans t True ok by (simp add: read_step_def Let_def)
      ultimately show ?thesis using refill_ok[of sz out ?d2] by simp
    next
      case False
      let ?d3 = "?d2\<lparr>rd_complete := True, rd_err := Some e\<rparr>"
      have e: "rd_err d = None \<or> rd_err d = Some REOF" using assms(2) trans(2) by (auto simp: read_inv_def)
      have keep: "rd_r d1 = rd_r d" "rd_src d1 = rd_src d" using ok by (simp_all add: reader_of_def)
      have "e = REOF \<Longrightarrow> accepted ?d3" using ok by (auto simp: accepted_def checked_def)
      then have "read_inv sz out ?d3" using ok assms(2) by (simp add: read_inv_def keep)
      moreover have "left_over ?d3 < left_over d" using trans(2) by (simp add: left_over_def keep)
      moreover have "read_step inc sz plen d = (None, ?d3)"
        unfolding read_step_def t using trans False ok e by (simp only: t Let_def prod.case if_False if_True not_True_eq_False simp_thms take_all)
      ultimately show ?thesis using assms(5) by simp
    qed
  qed
qed


definition weight :: "nat \<Rightarrow> rdec \<Rightarrow> nat" where
  "weight sz d = left_over d * (sz + 1) + length (rd_dst d)"

lemma weight_less: "left_over d' < left_over d \<Longrightarrow> length (rd_dst d') \<le> sz \<Longrightarrow> weight sz d' < weight sz d"
proof -
  assume "left_over d' < left_over d" and l: "length (rd_dst d') \<le> sz"
  then have "Suc (left_over d') * (sz + 1) \<le> left_over d * (sz + 1)" by (intro mult_le_mono1) simp
  then show ?thesis using l by (simp add: weight_def)
qed

definition read_result :: "nat \<Rightarrow> bytes \<Rightarrow> rdec \<Rightarrow> ((bytes \<times> rerr option) \<times> rdec) option \<Rightarrow> bool" where
  "read_result sz out d r \<longleftrightarrow> (\<exists>bs err d'. r = Some ((bs, err), d') \<and> read_inv sz (out @ bs) d' \<and> left_over d' \<le> left_over d \<and>
     (case err of None \<Rightarrow> weight sz d' < weight sz d | Some x \<Rightarrow> rd_dst d' = [] \<and> rd_complete d' \<and> rd_err d' = Some x))"

lemma read_result_mono:
  assumes "read_result sz out d1 r" and "left_over d1 \<le> left_over d" and "weight sz d1 \<le> weight sz d"
  shows "read_result sz out d r"
proof -
  obtain bs err d' where r: "r = Some ((bs, err), d')" "read_inv sz (out @ bs) d'" "left_over d' \<le> left_over d1"
      "case err of None \<Rightarrow> weight sz d' < weight sz d1 | Some x \<Rightarrow> rd_dst d' = [] \<and> rd_complete d' \<and> rd_err d' = Some x"
    using assms(1) unfolding read_result_def by blast
  then show ?thesis using assms(2,3) unfolding read_result_def
    by (intro exI[of _ bs] exI[of _ err] exI[of _ d']) (auto split: option.splits)
qed

lemma rapid_Read_ok:
  assumes "bounded inc" and "0 < sz" and "0 < plen"
  shows "read_inv sz out d \<Longrightarrow> left_over d < fuel \<Longrightarrow> read_result sz out d (rapid_Read inc sz plen fuel d)"
proof (induction fuel arbitrary: d)
  case (Suc fuel)
  obtain r d1 where s: "read_step inc sz plen d = (r, d1)" by fastforce
  note ok = read_step_ok[OF assms(1) Suc.prems(1) assms(2,3) s]
  show ?case
  proof (cases r)
    case None
    then have inv: "read_inv sz out d1" and less: "left_over d1 < left_over d" using ok by simp_all
    have "length (rd_dst d1) \<le> sz" using inv by (simp add: read_inv_def)
    from weight_less[OF less this] less have "left_over d1 \<le> left_over d" "weight sz d1 \<le> weight sz d" by simp_all
    moreover have "left_over d1 < fuel" using less Suc.prems(2) by linarith
    ultimately have "read_result sz out d (rapid_Read inc sz plen fuel d1)" using Suc.IH[OF inv] read_result_mono by blast
    then show ?thesis using s None by simp
  next
    case (Some p)
    then show ?thesis using ok s
      by (cases p; cases "snd p") (auto simp: read_result_def weight_def)
  qed
qed simp

lemma readAllDecoded_ok:
  assumes "bounded inc" and "0 < sz" and "\<And>n. 0 < psize n"
  shows "read_inv sz out d \<Longrightarrow> left_over d < rfuel \<Longrightarrow> weight sz d < fuel \<Longrightarrow>
    \<exists>bs err d'. readAllDecoded inc sz psize rfuel fuel out d = Some ((bs, err), d') \<and> read_inv sz bs d' \<and>
      rd_dst d' = [] \<and> rd_complete d' \<and> rd_err d' = Some (case err of None \<Rightarrow> REOF | Some x \<Rightarrow> x)"
proof (induction fuel arbitrary: out d)
  case (Suc fuel)
  obtain bs err d1 where r: "rapid_Read inc sz (psize (length out)) rfuel d = Some ((bs, err), d1)" "read_inv sz (out @ bs) d1"
      "left_over d1 \<le> left_over d"
      "case err of None \<Rightarrow> weight sz d1 < weight sz d | Some x \<Rightarrow> rd_dst d1 = [] \<and> rd_complete d1 \<and> rd_err d1 = Some x"
    using rapid_Read_ok[OF assms(1,2) assms(3)[of "length out"] Suc.prems(1,2)] unfolding read_result_def by blast
  show ?case
  proof (cases err)
    case None
    then show ?thesis using r Suc.IH[of "out @ bs" d1] Suc.prems by simp
  next
    case (Some x)
    then show ?thesis using r by (cases "x = REOF") auto
  qed
qed simp

lemma acquired_inv:
  assumes "pooled = None \<or> (\<exists>d. pooled = Some (rapid_Reset d))"
  shows "AcquireDecoderWithReader pooled text = rapid_NewDecoder\<lparr>rd_r := text\<rparr>"
  using assms by (auto simp: AcquireDecoderWithReader_def rapid_Reset_def rapid_NewDecoder_def no_meta_def)

lemma decode_all_ok:
  assumes "bounded inc" and "0 < sz" and "\<And>n. 0 < psize n" and "pooled = None \<or> (\<exists>d. pooled = Some (rapid_Reset d))"
  shows "\<exists>bs err d'. decode_all inc sz psize pooled text = Some ((bs, err), d') \<and> read_inv sz bs d' \<and>
      rd_dst d' = [] \<and> rd_complete d' \<and> rd_err d' = Some (case err of None \<Rightarrow> REOF | Some x \<Rightarrow> x)"
  unfolding decode_all_def acquired_inv[OF assms(4)]
  by (rule readAllDecoded_ok[OF assms(1-3)])
    (simp_all add: read_inv_def rapid_NewDecoder_def no_meta_def left_over_def weight_def read_fuel_def all_fuel_def)


section \<open>Uuencoded lines are read back\<close>

lemma uu_bits_char: "uu_bits (uu_char v) = v AND 0x3F"
proof -
  have "byte_of (uu_char v) = (v AND 0x3F) + 32" by (simp add: uu_char_def)
  then have "uu_bits (uu_char v) = (v AND 0x3F) AND 0x3F" by (simp add: uu_bits_def)
  then show ?thesis by (simp add: and.assoc)
qed

lemma byte_eqI:
  assumes "bit v 0 = bit w 0" "bit v 1 = bit w 1" "bit v 2 = bit w 2" "bit v 3 = bit w 3" "bit v 4 = bit w 4"
    "bit v 5 = bit w 5" "bit v 6 = bit w 6" "bit v 7 = bit w 7"
  shows "v = (w :: 8 word)"
proof (rule bit_word_eqI)
  fix n assume "n < LENGTH(8)"
  then have "n \<in> {0, 1, 2, 3, 4, 5, 6, 7}" by auto
  then show "bit v n = bit w n" using assms by auto
qed

lemma uu_join:
  "push_bit 2 (drop_bit 2 a AND 0x3F) OR drop_bit 4 ((push_bit 4 a OR drop_bit 4 b AND 0x0F) AND 0x3F) = (a :: 8 word)"
  "push_bit 4 ((push_bit 4 a OR drop_bit 4 b AND 0x0F) AND 0x3F) OR drop_bit 2 ((push_bit 2 b OR drop_bit 6 c AND 0x03) AND 0x3F) = (b :: 8 word)"
  "push_bit 6 ((push_bit 2 b OR drop_bit 6 c AND 0x03) AND 0x3F) OR c AND 0x3F = (c :: 8 word)"
  by (rule byte_eqI; simp add: bit_simps)+

lemma uu_loop_quad: "0 < n \<Longrightarrow> uu_loop n (uu_quad a b c @ cs) acc = uu_loop (n - 3) cs (acc @ [a, b, c])"
proof -
  have "uu_group (uu_char (drop_bit 2 a)) (uu_char (push_bit 4 a OR drop_bit 4 b AND 0x0F))
      (uu_char (push_bit 2 b OR drop_bit 6 c AND 0x03)) (uu_char c) = [a, b, c]"
    by (simp only: uu_group_def uu_bits_char uu_join)
  then show "0 < n \<Longrightarrow> ?thesis" by (simp add: uu_quad_def)
qed

lemma uu_loop_chars:
  "\<exists>k. uu_loop (int (length bs)) (uu_chars bs) acc = (acc @ bs @ replicate k 0, - int k)"
proof (induction bs arbitrary: acc rule: uu_chars.induct)
  case 1
  show ?case by (intro exI[of _ 0]) simp
next
  case (2 a)
  show ?case using uu_loop_quad[of 1 a 0 0 "[]" acc] by (intro exI[of _ 2]) (simp add: numeral_2_eq_2)
next
  case (3 a b)
  show ?case using uu_loop_quad[of 2 a b 0 "[]" acc] by (intro exI[of _ 1]) simp
next
  case (4 a b c bs)
  obtain k where "uu_loop (int (length bs)) (uu_chars bs) (acc @ [a, b, c]) = ((acc @ [a, b, c]) @ bs @ replicate k 0, - int k)"
    using 4 by blast
  then show ?case using uu_loop_quad[of "int (length (a # b # c # bs))" a b c "uu_chars bs" acc] by (intro exI[of _ k]) simp
qed

lemma uu_length_char: "n < 64 \<Longrightarrow> uint (uu_bits (char_of_byte (of_nat n + 32))) = int n"
proof -
  assume n: "n < 64"
  have "(0x3F :: 8 word) = mask 6" by (simp add: mask_eq_exp_minus_1)
  then have "uu_bits (char_of_byte (of_nat n + 32)) = take_bit 6 (of_nat n)" by (simp add: uu_bits_def take_bit_eq_mask)
  also have "\<dots> = of_nat n" using n by (simp add: take_bit_of_nat take_bit_nat_eq_self)
  finally show ?thesis using n by (simp add: uint_nat unat_of_nat)
qed

text \<open>What \<open>UUEncode\<close> writes for a chunk of at most 45 bytes \<open>UUdecode\<close> reads back
  as these bytes, whatever their number is modulo three.\<close>

theorem uu_line_roundtrip:
  assumes "length chunk \<le> 45"
  shows "UUdecode (uu_line chunk) = Some chunk"
proof -
  have "TrimSuffix (uu_line chunk) CRLF = char_of_byte (of_nat (length chunk) + 32) # uu_chars chunk"
    using TrimSuffix_append[of "char_of_byte (of_nat (length chunk) + 32) # uu_chars chunk" CRLF] by (simp add: uu_line_def)
  moreover obtain k where "uu_loop (int (length chunk)) (uu_chars chunk) [] = (chunk @ replicate k 0, - int k)"
    using uu_loop_chars[of chunk "[]"] by auto
  ultimately show ?thesis using assms by (simp add: UUdecode_def uu_length_char)
qed

text \<open>A line of 14 bytes begins with a dot, which is doubled on the way; the decoder removes
  doubled dots only from yEnc data.\<close>

theorem uu_dot_line_misread:
  "uu_line [1, 2, 3, 4, 5, 6, 7, 8, 9, 10, 11, 12, 13, 14] = ''.'' @ uu_chars [1, 2, 3, 4, 5, 6, 7, 8, 9, 10, 11, 12, 13, 14] @ CRLF \<and>
   UUdecode (''.'' @ uu_line [1, 2, 3, 4, 5, 6, 7, 8, 9, 10, 11, 12, 13, 14]) \<noteq> Some [1, 2, 3, 4, 5, 6, 7, 8, 9, 10, 11, 12, 13, 14]"
  by code_simp


section \<open>Text before the data\<close>

text \<open>A decoder that took the text for uuencoded data and has not met a \<open>begin\<close> line.\<close>

definition uu_waiting :: "rdec \<Rightarrow> bool" where
  "uu_waiting d \<longleftrightarrow> \<not> rd_begin d \<and> \<not> rd_body d \<and> rd_format d = FormatUU"

definition no_begin :: "string \<Rightarrow> bool" where
  "no_begin s \<longleftrightarrow> \<not> has_prefix ''begin '' s \<and> split_first (CRLF @ ''begin '') s = None"

lemma split_first_None_suffix: "split_first p (a @ b) = None \<Longrightarrow> split_first p b = None"
  by (induction a) (auto split: if_splits)

lemma split_first_occurs: "split_first p (a @ p @ b) \<noteq> None"
proof (induction a)
  case Nil
  show ?case
  proof (cases "p @ b")
    case (Cons c cs)
    then have "has_prefix p (c # cs)" by (metis has_prefix_append)
    then show ?thesis using Cons by simp
  qed simp
qed auto

lemma no_begin_line:
  assumes "no_begin (l @ CRLF @ rest)"
  shows "\<not> has_prefix ''begin '' (l @ CRLF)" and "no_begin rest"
proof -
  have "has_prefix p (l @ CRLF) \<Longrightarrow> has_prefix p (l @ CRLF @ rest)" for p by (metis append.assoc has_prefix_iff)
  then show "\<not> has_prefix ''begin '' (l @ CRLF)" using assms unfolding no_begin_def by blast
  have "split_first (CRLF @ ''begin '') rest = None"
    using assms split_first_None_suffix[of _ "l @ CRLF" rest] unfolding no_begin_def append.assoc by blast
  moreover have "\<not> has_prefix ''begin '' rest"
  proof
    assume "has_prefix ''begin '' rest"
    then obtain t where "rest = ''begin '' @ t" by (auto simp: has_prefix_iff simp del: has_prefix_Cons)
    then show False using assms split_first_occurs[of "CRLF @ ''begin ''" l t] by (simp add: no_begin_def)
  qed
  ultimately show "no_begin rest" by (simp add: no_begin_def)
qed

lemma uu_waiting_line: "uu_waiting d \<Longrightarrow> \<not> has_prefix ''begin '' line \<Longrightarrow> uu_waiting (processYenc line d)"
  by (simp add: uu_waiting_def processYenc_def uu_header_def)

lemma transform_uu_waiting:
  assumes "uu_waiting d" and "no_begin (drop n src @ suf)" and "n \<le> length src"
  shows "\<exists>k e d'. transform inc sz atEOF src n out d = ((out, int k, e), d') \<and> n \<le> k \<and> e \<noteq> REOF \<and>
    uu_waiting d' \<and> (e = ShortSrc \<longrightarrow> no_begin (drop k src @ suf)) \<and> reader_of d' = reader_of d"
  using assms
proof (induction inc sz atEOF src n out d rule: transform.induct)
  case (1 inc sz atEOF src n out d)
  have f: "\<not> (rd_body d \<and> rd_format d = FormatYenc)" "line_format line d = d" "rd_format d = FormatUU" "\<not> rd_body d" for line
    using 1(6) by (simp_all add: uu_waiting_def line_format_def)
  consider (dot) "has_prefix (DOT @ CRLF) (drop n src)"
    | (text_end) "\<not> has_prefix (DOT @ CRLF) (drop n src)" "split_first CRLF (drop n src) = None"
    | (line) l rest where "\<not> has_prefix (DOT @ CRLF) (drop n src)" "split_first CRLF (drop n src) = Some (l, rest)"
    by fastforce
  then show ?case
  proof cases
    case dot
    then have "transform inc sz atEOF src n out d = ((out, int n + 3, article_end (sum_up d)), sum_up d)"
      using transform_dot f(1) by blast
    then show ?thesis using 1(6)
      by (intro exI[of _ "n + 3"] exI[of _ DataMissing] exI[of _ "sum_up d"]) (simp add: article_end_def sum_up_def uu_waiting_def reader_of_def)
  next
    case text_end
    then have "transform inc sz atEOF src n out d = ((out, int n, text_end atEOF d), d)"
      using transform_no_line f(1) by blast
    then show ?thesis using 1(6,7) by (intro exI[of _ n] exI[of _ "text_end atEOF d"] exI[of _ d]) (simp add: text_end_def uu_waiting_def)
  next
    case (line l rest)
    let ?d = "processYenc (l @ CRLF) d" and ?n = "n + length (l @ CRLF)"
    have d: "drop n src = (l @ CRLF) @ rest" using split_first_sound[OF line(2)] by simp
    then have b: "\<not> has_prefix ''begin '' (l @ CRLF)" "no_begin (rest @ suf)" using 1(7) no_begin_line[of l "rest @ suf"] by simp_all
    have u: "uu_step sz (l @ CRLF) (out, ?d) = (out, ?d)" using uu_waiting_line[OF 1(6) b(1)] by (simp add: uu_step_def uu_waiting_def)
    then have eq: "transform inc sz atEOF src n out d = transform inc sz atEOF src ?n out ?d"
      by (subst transform.simps) (simp only: line f if_False Let_def option.case prod.case Format.case fst_conv snd_conv simp_thms)
    have "drop ?n src = rest" using d by (metis append_eq_conv_conj drop_drop add.commute)
    moreover have "?n \<le> length src" using arg_cong[OF d, of length] 1(8) by (simp add: CRLF_def)
    ultimately have "\<exists>k e d'. transform inc sz atEOF src ?n out ?d = ((out, int k, e), d') \<and> ?n \<le> k \<and> e \<noteq> REOF \<and>
        uu_waiting d' \<and> (e = ShortSrc \<longrightarrow> no_begin (drop k src @ suf)) \<and> reader_of d' = reader_of ?d"
      using b(2) 1(5)[of "(l, rest)" l rest "l @ CRLF" d "(out, ?d)"] f line uu_waiting_line[OF 1(6) b(1)] u by simp
    then show ?thesis unfolding eq by fastforce
  qed
qed


definition misread :: "rdec \<Rightarrow> string \<Rightarrow> bool" where
  "misread d text \<longleftrightarrow> no_begin text \<and>
     (uu_waiting d \<or> rd_format d = FormatUnknown \<and> \<not> rd_begin d \<and> \<not> rd_body d \<and>
       (\<exists>l rest. split_first CRLF text = Some (l, rest) \<and> uu_data_line (l @ CRLF)))"

lemma split_first_append: "split_first p s = Some (a, b) \<Longrightarrow> split_first p (s @ t) = Some (a, b @ t)"
proof (induction s arbitrary: a)
  case Nil
  then show ?case by (cases t) (auto split: if_splits)
next
  case (Cons c cs)
  show ?case
  proof (cases "has_prefix p (c # cs)")
    case True
    then obtain u where u: "c # cs = p @ u" by (metis has_prefix_iff)
    then have "has_prefix p ((c # cs) @ t)" "drop (length p) ((c # cs) @ t) = u @ t" "drop (length p) (c # cs) = u"
      by (simp_all only: u has_prefix_append append.assoc) simp_all
    then show ?thesis using Cons.prems True by simp
  next
    case False
    then obtain a' where a: "split_first p cs = Some (a', b)" "a = c # a'" using Cons.prems by (auto split: prod.splits)
    have "length p \<le> length (c # cs)" using split_first_length[OF a(1)] by simp
    then have "take (length p) ((c # cs) @ t) = take (length p) (c # cs)" unfolding take_append by simp
    then have "\<not> has_prefix p ((c # cs) @ t)" using False unfolding has_prefix_def by metis
    then show ?thesis using Cons.IH[OF a(1)] a(2) by auto
  qed
qed

lemma transform_misread:
  assumes "misread d (src @ suf)"
  shows "\<exists>k e d'. transform inc sz atEOF src 0 [] d = (([], int k, e), d') \<and> e \<noteq> REOF \<and>
    (e = ShortSrc \<longrightarrow> misread d' (drop k src @ suf)) \<and> reader_of d' = reader_of d"
proof (cases "uu_waiting d")
  case True
  obtain k e d' where t: "transform inc sz atEOF src 0 [] d = (([], int k, e), d')" "e \<noteq> REOF" "uu_waiting d'"
      "e = ShortSrc \<longrightarrow> no_begin (drop k src @ suf)" "reader_of d' = reader_of d"
    using transform_uu_waiting[OF True, of 0 src suf inc sz atEOF "[]"] assms by (auto simp: misread_def)
  then show ?thesis using t by (auto simp: misread_def)
next
  case False
  then obtain l rest where d: "rd_format d = FormatUnknown" "\<not> rd_begin d" "\<not> rd_body d"
      and l: "split_first CRLF (src @ suf) = Some (l, rest)" "uu_data_line (l @ CRLF)" and nb: "no_begin (src @ suf)"
    using assms by (auto simp: misread_def)
  have M: "has_prefix ''M'' (src @ suf)"
    using l(2) split_first_sound[OF l(1)] by (metis has_prefix_iff append.assoc uu_data_line_def)
  then have dot: "\<not> has_prefix (DOT @ CRLF) src" by (cases src) (auto simp: DOT_def)
  show ?thesis
  proof (cases "split_first CRLF src")
    case None
    have "transform inc sz atEOF src 0 [] d = (([], int 0, text_end atEOF d), d)"
      by (subst transform.simps) (simp add: d dot None)
    then show ?thesis using assms d
      by (intro exI[of _ 0] exI[of _ "text_end atEOF d"] exI[of _ d]) (simp add: text_end_def)
  next
    case (Some p)
    then obtain rest' where s: "split_first CRLF src = Some (l, rest')" using l(1) split_first_append[of CRLF src _ _ suf] by (cases p) fastforce
    let ?line = "l @ CRLF" let ?d = "processYenc ?line (line_format ?line d)"
    have src: "src = ?line @ rest'" using split_first_sound[OF s] by simp
    have b: "\<not> has_prefix ''begin '' ?line" "no_begin (rest' @ suf)" using nb src no_begin_line[of l "rest' @ suf"] by simp_all
    have "\<not> has_prefix ''=ybegin '' ?line" using l(2) by (cases l) (auto simp: uu_data_line_def CRLF_def)
    then have f: "rd_format (line_format ?line d) = FormatUU" using d l(2) by (simp add: line_format_def detectFormat_def)
    then have w: "uu_waiting ?d" using d b(1) by (intro uu_waiting_line) (auto simp: uu_waiting_def line_format_def)
    then have "uu_step sz ?line ([], ?d) = ([], ?d)" by (simp add: uu_step_def uu_waiting_def)
    then have eq: "transform inc sz atEOF src 0 [] d = transform inc sz atEOF src (length ?line) [] ?d"
      using d f by (subst transform.simps) (simp add: dot s Let_def)
    have "drop (length ?line) src = rest'" by (subst src) simp
    then obtain k e d' where t: "transform inc sz atEOF src (length ?line) [] ?d = (([], int k, e), d')" "e \<noteq> REOF" "uu_waiting d'"
      "e = ShortSrc \<longrightarrow> no_begin (drop k src @ suf)" "reader_of d' = reader_of ?d"
      using transform_uu_waiting[OF w, of "length ?line" src suf inc sz atEOF "[]"] src b(2) by auto
    then show ?thesis using t eq by (auto simp: misread_def)
  qed
qed


definition rest_of :: "rdec \<Rightarrow> string" where
  "rest_of d = drop (rd_src0 d) (rd_src d) @ rd_r d"

definition trapped :: "rdec \<Rightarrow> bool" where
  "trapped d \<longleftrightarrow> (if rd_complete d then rd_err d \<noteq> Some REOF else misread d (rest_of d) \<and> (rd_err d = None \<or> rd_err d = Some REOF))"

lemma refill_rest [simp]: "rest_of (refill sz d) = rest_of d" "rd_complete (refill sz d) = rd_complete d"
  "misread (refill sz d) s = misread d s" "rd_err (refill sz d) = None \<or> rd_err (refill sz d) = Some REOF"
  by (simp_all add: rest_of_def refill_def misread_def uu_waiting_def Let_def)

lemma misread_cong [simp]: "misread (d\<lparr>rd_dst := x\<rparr>) s = misread d s" "misread (d\<lparr>rd_src0 := k\<rparr>) s = misread d s"
  by (simp_all add: misread_def uu_waiting_def)

lemma trapped_step:
  assumes "trapped d" and "read_step inc sz plen d = (r, d')"
  shows "trapped d'"
proof (cases "rd_dst d \<noteq> [] \<or> rd_complete d")
  case True
  then show ?thesis using assms by (auto simp: read_step_def trapped_def rest_of_def Let_def split: if_splits)
next
  case False
  note t = assms(1)[unfolded trapped_def]
  show ?thesis
  proof (cases "rd_src0 d < length (rd_src d) \<or> rd_err d \<noteq> None")
    case go: True
    let ?s = "drop (rd_src0 d) (rd_src d)"
    obtain k e d1 where tr: "transform inc sz (rd_err d = Some REOF) ?s 0 [] d = (([], int k, e), d1)" "e \<noteq> REOF"
        "e = ShortSrc \<longrightarrow> misread d1 (drop k ?s @ rd_r d)" "reader_of d1 = reader_of d"
      using transform_misread[of d ?s "rd_r d" inc sz "rd_err d = Some REOF"] t False by (auto simp: rest_of_def)
    let ?pos = "nat (min (int (rd_src0 d) + int k) (int (length (rd_src d))))"
    let ?da = "d1\<lparr>rd_dst := [], rd_src0 := ?pos\<rparr>"
    have keep: "rd_r d1 = rd_r d" "rd_src d1 = rd_src d" "rd_complete d1 = rd_complete d" using tr(4) by (simp_all add: reader_of_def)
    have s0: "drop ?pos (rd_src d) = drop k ?s" by (cases "rd_src0 d + k \<le> length (rd_src d)") (simp_all add: min_def add.commute nat_add_distrib)
    have "read_step inc sz plen d =
        (if e = ShortSrc \<and> length (rd_src d) - ?pos \<noteq> sz \<and> rd_err d = None then (None, refill sz ?da)
         else (None, ?da\<lparr>rd_complete := True, rd_err := (if rd_err d = None \<or> rd_err d = Some REOF then Some e else rd_err d)\<rparr>))"
      using False go by (simp add: read_step_def tr(1) Let_def)
    then have "d' = refill sz ?da \<and> e = ShortSrc \<or> rd_complete d' \<and> rd_err d' = Some e"
      using assms(2) t False by (auto split: if_splits)
    then show ?thesis
    proof
      assume "d' = refill sz ?da \<and> e = ShortSrc"
      moreover have "rest_of ?da = drop k ?s @ rd_r d" by (simp add: rest_of_def keep s0)
      ultimately show ?thesis using tr(3) False by (simp add: trapped_def keep)
    qed (use tr(2) in \<open>simp add: trapped_def\<close>)
  next
    case stay: False
    then show ?thesis using False assms t refill_rest(4)[of sz d] by (auto simp: read_step_def trapped_def)
  qed
qed

lemma read_keeps:
  assumes "\<And>d plen r d'. I d \<Longrightarrow> read_step inc sz plen d = (r, d') \<Longrightarrow> I d'"
  shows "I d \<Longrightarrow> rapid_Read inc sz plen fuel d = Some (r, d') \<Longrightarrow> I d'"
    and "I d \<Longrightarrow> readAllDecoded inc sz psize rfuel fuel out d = Some (q, d') \<Longrightarrow> I d'"
proof -
  show read: "I d \<Longrightarrow> rapid_Read inc sz plen fuel d = Some (r, d') \<Longrightarrow> I d'" for plen fuel d r d'
    by (induction fuel arbitrary: d) (auto dest: assms split: prod.splits option.splits)
  show "I d \<Longrightarrow> readAllDecoded inc sz psize rfuel fuel out d = Some (q, d') \<Longrightarrow> I d'"
    by (induction fuel arbitrary: out d) (auto dest: read split: prod.splits option.splits)
qed


text \<open>Success is the end of the input as seen by \<open>Transform\<close>.\<close>

lemma read_eof:
  assumes "rapid_Read inc sz plen fuel d = Some ((bs, Some e), d')"
  shows "rd_complete d' \<and> rd_err d' = Some e"
  using assms by (induction fuel arbitrary: d) (auto simp: read_step_def Let_def split: prod.splits option.splits if_splits)

lemma readAll_eof:
  assumes "readAllDecoded inc sz psize rfuel fuel out d = Some ((bs, None), d')"
  shows "rd_complete d' \<and> rd_err d' = Some REOF"
  using assms by (induction fuel arbitrary: out d) (auto dest: read_eof split: prod.splits option.splits if_splits)

section \<open>The properties\<close>

text \<open>C28: decoding returns, with the data or an error, for every text, every size of the two
  buffers and every way in which \<open>append\<close> grows the result; a decoder from the pool
  does the same as a new one.\<close>

theorem rapid_returns:
  assumes "bounded inc" and "0 < sz" and "\<And>n. 0 < psize n" and "pooled = None \<or> (\<exists>d. pooled = Some (rapid_Reset d))"
  shows "decode_all inc sz psize pooled text \<noteq> None \<and>
    decode_all inc sz psize pooled text = decode_all inc sz psize None text"
  using decode_all_ok[of inc sz psize pooled "text"] assms acquired_inv[OF assms(4)] acquired_inv[of None "text"]
  by (auto simp: decode_all_def)

text \<open>C29: whatever the incremental decoder does, an article that mode 4 accepts with a
  checksum other than zero has that checksum, begins and ends properly, and, when it is
  yEnc, has the size of the \<open>=yend\<close> line, without a \<open>=ypart\<close> line also that of the
  \<open>=ybegin\<close> line, and the checksum of the \<open>=yend\<close> line if there is one.\<close>

theorem rapid_intact:
  assumes "bounded inc" and "0 < sz" and "\<And>n. 0 < psize n" and "pooled = None \<or> (\<exists>d. pooled = Some (rapid_Reset d))"
    and "decode_all inc sz psize pooled text = Some ((out, None), d)" and "m_Hash (rd_m d) \<noteq> 0"
  shows "m_Hash (rd_m d) = crc32 out \<and> rd_begin d \<and> rd_end d \<and>
    (rd_format d = FormatYenc \<longrightarrow> rd_endSize d = int (length out) \<and> (\<not> rd_part d \<longrightarrow> m_Size (rd_m d) = int (length out)) \<and>
      (rd_crc d \<longrightarrow> rd_expectedCrc d = crc32 out))"
proof -
  have "read_inv sz out d" "rd_dst d = []" "rd_complete d" "rd_err d = Some REOF"
    using decode_all_ok[of inc sz psize pooled "text"] assms(1-5) by auto
  then show ?thesis using assms(6) by (auto simp: read_inv_def accepted_def checked_def)
qed

text \<open>C30: a text whose first line is as long as a full uuencoded line and begins with M is
  taken for uuencoded data for good: whatever follows, an intact yEnc article too, it is refused
  unless a line of it starts with \<open>begin \<close>.\<close>

theorem text_line_hides_yenc:
  assumes "split_first CRLF text = Some (l, rest)" and "uu_data_line (l @ CRLF)" and "split_first (CRLF @ ''begin '') text = None"
    and "pooled = None \<or> (\<exists>d. pooled = Some (rapid_Reset d))"
  shows "rapid_decode inc sz psize pooled text = None"
proof (rule ccontr)
  assume "rapid_decode inc sz psize pooled text \<noteq> None"
  then obtain out d where d: "decode_all inc sz psize pooled text = Some ((out, None), d)"
    by (auto simp: rapid_decode_def split: option.splits)
  have "has_prefix ''M'' text" using assms(2) split_first_sound[OF assms(1)] by (metis has_prefix_iff append.assoc uu_data_line_def)
  then have M: "\<not> has_prefix ''begin '' text" by (cases "text") auto
  have "trapped (rapid_NewDecoder\<lparr>rd_r := text\<rparr>)"
    using assms(1-3) M by (auto simp: trapped_def misread_def rest_of_def rapid_NewDecoder_def no_begin_def)
  then have "trapped d" using read_keeps(2)[of trapped inc sz] trapped_step d
    unfolding decode_all_def acquired_inv[OF assms(4)] by blast
  moreover have "rd_complete d \<and> rd_err d = Some REOF"
    using d unfolding decode_all_def by (rule readAll_eof)
  ultimately show False by (simp add: trapped_def)
qed


section \<open>Concrete runs\<close>

lemma rapid_Read_more: "rapid_Read inc sz plen a d = Some r \<Longrightarrow> a \<le> b \<Longrightarrow> rapid_Read inc sz plen b d = Some r"
proof (induction a arbitrary: b d)
  case (Suc a)
  then show ?case by (cases b) (auto split: prod.splits option.splits)
qed simp

lemma readAllDecoded_more:
  "readAllDecoded inc sz psize r1 a out d = Some r \<Longrightarrow> r1 \<le> r2 \<Longrightarrow> a \<le> b \<Longrightarrow> readAllDecoded inc sz psize r2 b out d = Some r"
proof (induction a arbitrary: b out d)
  case (Suc a)
  obtain q d1 where q: "rapid_Read inc sz (psize (length out)) r1 d = Some (q, d1)"
    using Suc.prems by (auto split: option.splits)
  then have "rapid_Read inc sz (psize (length out)) r2 d = Some (q, d1)" using rapid_Read_more Suc.prems(2) by blast
  moreover obtain b' where "b = Suc b'" "a \<le> b'" using Suc.prems(3) by (cases b) auto
  ultimately show ?case using Suc q by (cases q; cases "snd q") auto
qed simp

lemma decode_all_run:
  assumes "readAllDecoded inc sz psize a b [] (AcquireDecoderWithReader None s) = Some r" and "a \<le> 3" and "b \<le> 3" and "0 < sz"
  shows "decode_all inc sz psize None s = Some r"
proof -
  have "2 * (sz + 1) \<le> (length s + 2) * (sz + 1)" by (rule mult_le_mono1) simp
  then have "b \<le> all_fuel sz s" using assms(3,4) by (simp add: all_fuel_def)
  then show ?thesis unfolding decode_all_def
    using readAllDecoded_more[OF assms(1), of "read_fuel s" "all_fuel sz s"] assms(2) by (simp add: read_fuel_def)
qed

text \<open>An incremental decoder that knows one line of data, and the article with this line.\<close>

definition one_line_inc :: inc where
  "one_line_inc st s =
     (if has_prefix (''+,'' @ CRLF @ ''=y'') s then ([1, 2], 6, EndControl, StateCRLF) else ([], 0, EndNone, st))"

definition one_line_text :: string where
  "one_line_text = ''=ybegin line=128 size=2 name=a'' @ CRLF @ ''+,'' @ CRLF @ ''=yend size=2 crc32=b6cc4292'' @ CRLF @ ''.'' @ CRLF"

definition one_line_decoder :: rdec where
  "one_line_decoder = rapid_NewDecoder\<lparr>rd_begin := True, rd_end := True, rd_crc := True, rd_format := FormatYenc,
     rd_m := \<lparr>m_Size = 2, m_Begin = 0, m_End = 2, m_Hash = 0xB6CC4292, m_Name = ''a''\<rparr>, rd_endSize := 2, rd_actualSize := 2,
     rd_expectedCrc := 0xB6CC4292, rd_hash := 0xB6CC4292, rd_err := Some REOF, rd_src := one_line_text, rd_src0 := 68, rd_complete := True\<rparr>"

lemma one_line_bounded: "bounded one_line_inc"
  by (auto simp: bounded_def one_line_inc_def has_prefix_iff CRLF_def)

lemma one_line_crc: "crc32 [1, 2] = 0xB6CC4292"
  by code_simp

lemma one_line_headers:
  "processYenc (''=ybegin line=128 size=2 name=a'' @ CRLF) (d\<lparr>rd_format := FormatYenc\<rparr>) =
     d\<lparr>rd_format := FormatYenc, rd_begin := True, rd_body := True, rd_m := (rd_m d)\<lparr>m_Size := 2, m_Name := ''a'', m_End := 2\<rparr>\<rparr>"
  "rd_format d = FormatYenc \<Longrightarrow> \<not> rd_part d \<Longrightarrow> processYenc (''=yend size=2 crc32=b6cc4292'' @ CRLF) d =
     d\<lparr>rd_expectedCrc := 0xB6CC4292, rd_crc := True, rd_end := True, rd_endSize := 2\<rparr>"
  by (simp_all add: processYenc_def yenc_header_def extractInt_def extractString_def extractCRC_def until_def Let_def CRLF_def
      parse_int_def undec_def is_digit_def digit_val_def parse_hex32_def hex_val_def)

lemma one_line_transformed:
  "transform one_line_inc 100 False one_line_text 0 [] (rapid_NewDecoder\<lparr>rd_src := one_line_text\<rparr>) =
     (([1, 2], 68, REOF), one_line_decoder\<lparr>rd_err := None, rd_src0 := 0, rd_complete := False\<rparr>)"
proof -
  have split: "split_first CRLF one_line_text = Some (''=ybegin line=128 size=2 name=a'', drop 32 one_line_text)"
    "drop 32 one_line_text = ''+,'' @ CRLF @ ''=yend size=2 crc32=b6cc4292'' @ CRLF @ ''.'' @ CRLF"
    "split_first CRLF (drop 36 one_line_text) = Some (''=yend size=2 crc32=b6cc4292'', drop 65 one_line_text)"
    "drop 65 one_line_text = DOT @ CRLF" "length one_line_text = 68"
    by (simp_all add: one_line_text_def CRLF_def DOT_def)
  have pre: "\<not> has_prefix (DOT @ CRLF) one_line_text" "has_prefix (''+,'' @ CRLF @ ''=y'') (drop 32 one_line_text)"
    "\<not> has_prefix (DOT @ CRLF) (drop 36 one_line_text)" "detectFormat (''=ybegin line=128 size=2 name=a'' @ CRLF) = FormatYenc"
    by (simp_all add: one_line_text_def CRLF_def DOT_def detectFormat_def)
  let ?d0 = "rapid_NewDecoder\<lparr>rd_src := one_line_text\<rparr>"
  let ?d1 = "?d0\<lparr>rd_format := FormatYenc, rd_begin := True, rd_body := True, rd_m := no_meta\<lparr>m_Size := 2, m_Name := ''a'', m_End := 2\<rparr>\<rparr>"
  let ?d2 = "add_out [1, 2] (?d1\<lparr>rd_body := False\<rparr>)"
  let ?d3 = "?d2\<lparr>rd_expectedCrc := 0xB6CC4292, rd_crc := True, rd_end := True, rd_endSize := 2\<rparr>"
  have "transform one_line_inc 100 False one_line_text 0 [] ?d0 = transform one_line_inc 100 False one_line_text 32 [] ?d1"
    using transform_yenc_line[of ?d0 0 one_line_text "''=ybegin line=128 size=2 name=a''"] split(1) pre(1,4)
      one_line_headers(1)[of ?d0] by (simp add: line_format_def rapid_NewDecoder_def)
  also have "\<dots> = transform one_line_inc 100 False one_line_text 36 [1, 2] ?d2"
    using transform_control[of ?d1 one_line_inc 100 "[]" 32 one_line_text "[1, 2]" 6 StateCRLF] pre(2) split(5)
    by (simp add: one_line_inc_def DecodeIncremental_def rapid_NewDecoder_def add_out_def)
  also have "\<dots> = transform one_line_inc 100 False one_line_text 65 [1, 2] ?d3"
    using transform_yenc_line[of ?d2 36 one_line_text "''=yend size=2 crc32=b6cc4292''"] split(3) pre(3)
      one_line_headers(2)[of ?d2] by (simp add: line_format_def rapid_NewDecoder_def add_out_def)
  also have "\<dots> = (([1, 2], 68, article_end (sum_up ?d3)), sum_up ?d3)"
    using transform_dot[of ?d3 65 one_line_text] split(4) by (simp add: rapid_NewDecoder_def add_out_def has_prefix_def)
  finally show ?thesis using one_line_crc
    by (simp add: article_end_def sum_up_def add_out_def rapid_NewDecoder_def no_meta_def one_line_decoder_def crc32_def)
qed

lemma one_line_decoded: "decode_all one_line_inc 100 (\<lambda>_. 4) None one_line_text = Some (([1, 2], None), one_line_decoder)"
proof (rule decode_all_run)
  have len: "length one_line_text = 68" by (simp add: one_line_text_def CRLF_def)
  let ?d0 = "rapid_NewDecoder\<lparr>rd_r := one_line_text\<rparr>"
  have 1: "read_step one_line_inc 100 4 ?d0 = (None, rapid_NewDecoder\<lparr>rd_src := one_line_text\<rparr>)"
    using len by (auto simp: read_step_def refill_def rapid_NewDecoder_def Let_def)
  have 2: "read_step one_line_inc 100 4 (rapid_NewDecoder\<lparr>rd_src := one_line_text\<rparr>) = (None, one_line_decoder\<lparr>rd_dst := [1, 2]\<rparr>)"
    using one_line_transformed len by (simp add: read_step_def rapid_NewDecoder_def one_line_decoder_def)
  have 3: "read_step one_line_inc 100 4 (one_line_decoder\<lparr>rd_dst := [1, 2]\<rparr>) = (Some ([1, 2], Some REOF), one_line_decoder)"
    by (simp add: read_step_def one_line_decoder_def rapid_NewDecoder_def)
  show "readAllDecoded one_line_inc 100 (\<lambda>_. 4) 3 1 [] (AcquireDecoderWithReader None one_line_text) = Some (([1, 2], None), one_line_decoder)"
    by (simp add: numeral_3_eq_3 AcquireDecoderWithReader_def 1 2 3)
qed simp_all

theorem rapid_returns_witness: "decode_all one_line_inc 100 (\<lambda>_. 4) None one_line_text \<noteq> None"
  using rapid_returns[OF one_line_bounded, of 100 "\<lambda>_. 4" None one_line_text] by simp

theorem rapid_intact_witness: "m_Hash (rd_m one_line_decoder) = crc32 [1, 2] \<and> rd_expectedCrc one_line_decoder = crc32 [1, 2]"
  using rapid_intact[OF one_line_bounded _ _ _ one_line_decoded] by (simp add: one_line_decoder_def)

theorem uu_line_roundtrip_witness: "UUdecode (uu_line [1, 2, 3, 4]) = Some [1, 2, 3, 4]"
  using uu_line_roundtrip[of "[1, 2, 3, 4]"] by simp

text \<open>The article of \<open>one_line_text\<close> behind one line of text.\<close>

theorem text_line_hides_yenc_witness:
  "rapid_decode one_line_inc 100 (\<lambda>_. 4) None (''M'' @ replicate 59 (CHR ''-'') @ CRLF @ one_line_text) = None \<and>
   rapid_decode one_line_inc 100 (\<lambda>_. 4) None one_line_text = Some ([1, 2], ''a'', 0xB6CC4292)"
proof -
  have "rapid_decode one_line_inc 100 (\<lambda>_. 4) None (''M'' @ replicate 59 (CHR ''-'') @ CRLF @ one_line_text) = None"
    by (rule text_line_hides_yenc[of _ "''M'' @ replicate 59 (CHR ''-'')" one_line_text]) (simp_all add: one_line_text_def CRLF_def uu_data_line_def eval_nat_numeral)
  then show ?thesis by (simp add: rapid_decode_def one_line_decoded) (simp add: one_line_decoder_def)
qed

end
