(* ===== verification/WebServer.thy ===== *)
theory WebServer
  imports JobQueue WebAuth MemLimit ConnPool
begin

text \<open>
  \<open>webserver.go\<close>: the start of the web server, its routes behind the guard and the
  login, uploads, the handlers of the job queue, and the statistics. The files in
  the upload directory are \<open>uploads\<close> of the queue's state. The templates, the
  encoding of replies, the access log and the shutdown on a signal are not modelled:
  a reply is its kind with the values the code puts into it.
\<close>

section \<open>File names of uploads\<close>

text \<open>The length of the first rune of a string, as a range over it finds it: bytes that
  are not UTF-8 count one by one.\<close>

fun conts :: "(nat \<times> nat) list \<Rightarrow> nat list \<Rightarrow> bool" where
  "conts [] bs = True"
| "conts ((lo, hi) # cs) (b # bs) = (lo \<le> b \<and> b \<le> hi \<and> conts cs bs)"
| "conts (c # cs) [] = False"

definition rune_len :: "nat list \<Rightarrow> nat" where
  "rune_len bs =
     (case bs of [] \<Rightarrow> 0
      | a # r \<Rightarrow>
          if a < 0x80 then 1
          else if 0xC2 \<le> a \<and> a \<le> 0xDF \<and> conts [(0x80, 0xBF)] r then 2
          else if 0xE0 \<le> a \<and> a \<le> 0xEF \<and>
            conts [(if a = 0xE0 then 0xA0 else 0x80, if a = 0xED then 0x9F else 0xBF), (0x80, 0xBF)] r then 3
          else if 0xF0 \<le> a \<and> a \<le> 0xF4 \<and>
            conts [(if a = 0xF0 then 0x90 else 0x80, if a = 0xF4 then 0x8F else 0xBF), (0x80, 0xBF), (0x80, 0xBF)] r then 4
          else 1)"

definition safe_char :: "char \<Rightarrow> bool" where
  "safe_char c \<longleftrightarrow> c \<in> {CHR ''.'', CHR ''-'', CHR ''_''} \<or>
     (let n = of_char c :: nat in 97 \<le> n \<and> n \<le> 122 \<or> 65 \<le> n \<and> n \<le> 90 \<or> 48 \<le> n \<and> n \<le> 57)"

function clean_runes :: "string \<Rightarrow> string" where
  "clean_runes [] = []"
| "clean_runes (c # cs) =
     (if safe_char c then c else CHR ''_'') # clean_runes (drop (rune_len (map of_char (c # cs)) - 1) cs)"
  by pat_completeness auto
termination by (relation "measure length") auto

text \<open>\<open>seq\<close> is the new value of \<open>webUploadSeq\<close>; it does not reach \<open>2 ^ 64\<close>.\<close>

definition uploadName :: "nat \<Rightarrow> string \<Rightarrow> string" where
  "uploadName seq clientName =
     (let clean = clean_runes (path_base (replace_char (CHR 0x5C) (CHR ''/'') clientName))
      in dec seq @ ''-'' @ drop (length clean - 100) clean)"

text \<open>\<open>filepath.Ext\<close>.\<close>

definition path_ext :: "string \<Rightarrow> string" where
  "path_ext s =
     (let t = takeWhile (\<lambda>c. c \<noteq> CHR ''/'') (rev s)
      in if CHR ''.'' \<in> set t then ''.'' @ rev (takeWhile (\<lambda>c. c \<noteq> CHR ''.'') t) else [])"

section \<open>Saving an upload\<close>

text \<open>The queue and the counter of uploads; what the system calls of one upload come to.\<close>

record webstate =
  wq :: jobqueue
  wseq :: nat

record savecalls =
  sv_open :: bool
  sv_create :: bool
  sv_bytes :: int
  sv_copy :: bool
  sv_close :: bool
  sv_remove :: bool

definition saveUpload :: "webconf \<Rightarrow> savecalls \<Rightarrow> string \<Rightarrow> webstate \<Rightarrow> webstate \<times> (string \<times> int) option" where
  "saveUpload w sv name s =
     (if \<not> sv_open sv then (s, None)
      else
        (let seq = wseq s + 1; dst = path_join (webUploadDir w) (uploadName seq name); s1 = s\<lparr>wseq := seq\<rparr>
         in if dst \<in> uploads (wq s) \<or> \<not> sv_create sv then (s1, None)
            else if sv_copy sv \<and> sv_close sv
            then (s1\<lparr>wq := (wq s)\<lparr>uploads := insert dst (uploads (wq s))\<rparr>\<rparr>, Some (dst, sv_bytes sv))
            else (s1\<lparr>wq := (wq s)\<lparr>uploads := (if sv_remove sv then uploads (wq s) else insert dst (uploads (wq s)))\<rparr>\<rparr>, None)))"

section \<open>Requests and replies\<close>

text \<open>What \<open>ParseMultipartForm\<close> makes of the body: the first file under \<open>file\<close>, its
  size, and whether a field with settings is filled in.\<close>

datatype webform = FormTooBig | FormBroken | FormWithoutFile | FormFile string int bool

datatype reply =
    Page string | StaticFile string | NotFound | MethodNotAllowed | Guarded guard_reply | LoginReply response
  | UploadTooBig | NoFileUploaded | InvalidFileType | SaveFailed | JobFailed job_error
  | Uploaded string int string bool | JobsListed "job list" | JobStarted string | JobStopping string
  | JobDeleted string | StartedJobs nat | ConfigUnsupported | StatsReply

definition jobErrStatus :: "job_error \<Rightarrow> nat" where
  "jobErrStatus e =
     (case e of JobNotFound _ \<Rightarrow> 404 | JobState _ _ \<Rightarrow> 409 | QueueFull _ \<Rightarrow> 503 | InvalidNZB \<Rightarrow> 400)"

fun status_code :: "reply \<Rightarrow> nat" where
  "status_code (Guarded UnknownHost) = 421"
| "status_code (Guarded _) = 403"
| "status_code (LoginReply TooManyFails) = 429"
| "status_code (LoginReply _) = 401"
| "status_code NotFound = 404"
| "status_code MethodNotAllowed = 405"
| "status_code UploadTooBig = 413"
| "status_code NoFileUploaded = 400"
| "status_code InvalidFileType = 400"
| "status_code SaveFailed = 500"
| "status_code (JobFailed e) = jobErrStatus e"
| "status_code ConfigUnsupported = 501"
| "status_code _ = 200"

section \<open>Handlers\<close>

definition on_queue :: "(jobqueue \<Rightarrow> jobqueue \<times> 'a) \<Rightarrow> webstate \<Rightarrow> webstate \<times> 'a" where
  "on_queue f s = (case f (wq s) of (q, r) \<Rightarrow> (s\<lparr>wq := q\<rparr>, r))"

text \<open>The part of \<open>handleUpload\<close> after the file was saved.\<close>

definition queueUpload ::
  "(string \<Rightarrow> nzb option) \<Rightarrow> nat \<Rightarrow> bool \<Rightarrow> string \<Rightarrow> string \<Rightarrow> webstate \<Rightarrow> webstate \<times> (job_error + string)" where
  "queueUpload ld now removed dst name s =
     (case on_queue (AddJob ld now dst name) s of
        (s1, Inl e) \<Rightarrow>
          (if removed then s1\<lparr>wq := (wq s1)\<lparr>uploads := uploads (wq s1) - {dst}\<rparr>\<rparr> else s1, Inl e)
      | (s1, Inr jid) \<Rightarrow> (s1, Inr jid))"

definition handleUpload ::
  "webconf \<Rightarrow> (string \<Rightarrow> nzb option) \<Rightarrow> nat \<Rightarrow> savecalls \<Rightarrow> webform \<Rightarrow> webstate \<Rightarrow> webstate \<times> reply" where
  "handleUpload w ld now sv form s =
     (case form of
        FormTooBig \<Rightarrow> (s, UploadTooBig)
      | FormBroken \<Rightarrow> (s, NoFileUploaded)
      | FormWithoutFile \<Rightarrow> (s, NoFileUploaded)
      | FormFile name fsize settings \<Rightarrow>
          if path_ext name \<notin> {''.nzb'', ''.gz''} then (s, InvalidFileType)
          else case saveUpload w sv name s of
            (s1, None) \<Rightarrow> (s1, SaveFailed)
          | (s1, Some (dst, n)) \<Rightarrow>
              (case queueUpload ld now (sv_remove sv) dst name s1 of
                 (s2, Inl e) \<Rightarrow> (s2, JobFailed e)
               | (s2, Inr jid) \<Rightarrow> (s2, Uploaded name fsize jid settings)))"

definition job_reply :: "(string \<Rightarrow> reply) \<Rightarrow> string \<Rightarrow> webstate \<times> job_error option \<Rightarrow> webstate \<times> reply" where
  "job_reply good jid r = (case r of (s, Some e) \<Rightarrow> (s, JobFailed e) | (s, None) \<Rightarrow> (s, good jid))"

definition handleJobStart :: "string \<Rightarrow> webstate \<Rightarrow> webstate \<times> reply" where
  "handleJobStart jid s = job_reply JobStarted jid (on_queue (StartJob jid) s)"

definition handleJobStop :: "webconf \<Rightarrow> nat \<Rightarrow> string \<Rightarrow> webstate \<Rightarrow> webstate \<times> reply" where
  "handleJobStop w now jid s = job_reply JobStopping jid (on_queue (StopJob w now jid) s)"

definition handleJobDelete :: "webconf \<Rightarrow> string \<Rightarrow> webstate \<Rightarrow> webstate \<times> reply" where
  "handleJobDelete w jid s = job_reply JobDeleted jid (on_queue (DeleteJob w jid) s)"

definition handleJobStartAll :: "webstate \<Rightarrow> webstate \<times> reply" where
  "handleJobStartAll s = (case on_queue StartAllQueued s of (s', n) \<Rightarrow> (s', StartedJobs n))"

definition handleAPIJobsList :: "webstate \<Rightarrow> webstate \<times> reply" where
  "handleAPIJobsList s = (s, JobsListed (ListJobs (wq s)))"

section \<open>Routes\<close>

datatype route =
    RPage string | RStatic "string list" | RUpload | RStats | RJobs | RStart string | RStartAll | RStop string
  | RDelete string | RConfig

text \<open>The patterns of the mux for a path of decoded segments; a pattern for GET is also one
  for HEAD. \<open>None\<close> is its own reply for a path or method without a pattern.\<close>

definition is_get :: "string \<Rightarrow> bool" where
  "is_get m \<longleftrightarrow> m = ''GET'' \<or> m = ''HEAD''"

definition mux_route :: "string \<Rightarrow> string list \<Rightarrow> route option" where
  "mux_route m p =
     (if is_get m then
        (if p = [[]] then Some (RPage ''index.html'')
         else if p = [''stats''] then Some (RPage ''stats.html'')
         else if p = [''jobs''] then Some (RPage ''jobs.html'')
         else if p = [''api'', ''stats''] then Some RStats
         else if p = [''api'', ''jobs''] then Some RJobs
         else if p = [''api'', ''jobs'', ''default-config''] then Some RConfig
         else (case p of a # b # rest \<Rightarrow> if a = ''static'' then Some (RStatic (b # rest)) else None | _ \<Rightarrow> None))
      else if m = ''POST'' then
        (if p = [''upload''] then Some RUpload
         else if p = [''api'', ''jobs'', ''start-all''] then Some RStartAll
         else (case p of
                 [a, b, jid, op] \<Rightarrow>
                   if a = ''api'' \<and> b = ''jobs'' \<and> jid \<noteq> [] then
                     (if op = ''start'' then Some (RStart jid) else if op = ''stop'' then Some (RStop jid) else None)
                   else None
               | _ \<Rightarrow> None))
      else if m = ''DELETE'' then
        (case p of [a, b, jid] \<Rightarrow> if a = ''api'' \<and> b = ''jobs'' \<and> jid \<noteq> [] then Some (RDelete jid) else None | _ \<Rightarrow> None)
      else if m = ''PATCH'' then
        (case p of [a, b, jid, op] \<Rightarrow>
           if a = ''api'' \<and> b = ''jobs'' \<and> jid \<noteq> [] \<and> op = ''config'' then Some RConfig else None | _ \<Rightarrow> None)
      else if m = ''PUT'' then (if p = [''api'', ''jobs'', ''default-config''] then Some RConfig else None)
      else None)"

text \<open>\<open>filesOnly\<close> and the file server: \<open>static\<close> tells which files are embedded.\<close>

definition filesOnly :: "(string \<Rightarrow> bool) \<Rightarrow> string list \<Rightarrow> reply" where
  "filesOnly static p =
     (let path = join_with (CHR ''/'') p
      in if path = [] \<or> has_suffix ''/'' path \<or> \<not> static path then NotFound else StaticFile path)"

record webenv =
  we_load :: "string \<Rightarrow> nzb option"
  we_static :: "string \<Rightarrow> bool"
  we_now :: nat
  we_save :: savecalls
  we_form :: webform

definition serve :: "webconf \<Rightarrow> webenv \<Rightarrow> route \<Rightarrow> webstate \<Rightarrow> webstate \<times> reply" where
  "serve w e r s =
     (case r of
        RPage name \<Rightarrow> (s, Page name)
      | RStatic p \<Rightarrow> (s, filesOnly (we_static e) p)
      | RUpload \<Rightarrow> handleUpload w (we_load e) (we_now e) (we_save e) (we_form e) s
      | RStats \<Rightarrow> (s, StatsReply)
      | RJobs \<Rightarrow> handleAPIJobsList s
      | RStart jid \<Rightarrow> handleJobStart jid s
      | RStartAll \<Rightarrow> handleJobStartAll s
      | RStop jid \<Rightarrow> handleJobStop w (we_now e) jid s
      | RDelete jid \<Rightarrow> handleJobDelete w jid s
      | RConfig \<Rightarrow> (s, ConfigUnsupported))"

text \<open>\<open>webHandler\<close>: the guard, then the login if there is one (\<open>login\<close> is how it ends for
  this request), then the mux. \<open>other\<close> is the mux's reply where no pattern fits.\<close>

definition webHandler ::
  "(string \<Rightarrow> string option) \<Rightarrow> string set option \<Rightarrow> webconf \<Rightarrow> webenv \<Rightarrow> guarded \<Rightarrow> response option \<Rightarrow> reply \<Rightarrow>
    string list \<Rightarrow> webstate \<Rightarrow> webstate \<times> reply" where
  "webHandler url_host allowed w e g login other p s =
     (let gr = webGuard url_host allowed g
      in if gr \<noteq> Passed then (s, Guarded gr)
         else if login \<noteq> None \<and> login \<noteq> Some Served then (s, LoginReply (the login))
         else case mux_route (g_method g) p of None \<Rightarrow> (s, other) | Some r \<Rightarrow> serve w e r s)"

section \<open>The start\<close>

datatype start_error = RefusedWithoutLogin | NoUsers | BadCertificate | NoUploadDir | ListenFailed

record webserver =
  sr_auth :: "webAuth option"
  sr_allowed :: "string set option"
  sr_conf :: webconf
  sr_tls :: bool

text \<open>What the environment answers: the loading of the users, the certificate, \<open>MkdirTemp\<close>
  and \<open>Listen\<close>.\<close>

record startcalls =
  st_stamp :: "(int \<times> int) option"
  st_users :: "(string \<rightharpoonup> UserData) option"
  st_cert :: bool
  st_dir :: "string option"
  st_listen :: bool

definition StartWebServer ::
  "(string \<Rightarrow> bool) \<Rightarrow> startcalls \<Rightarrow> string \<Rightarrow> string \<Rightarrow> bool \<Rightarrow> string \<Rightarrow> start_error + webserver" where
  "StartWebServer loopback st webPasswdFile webHosts ssl addr =
     (if webPasswdFile = [] \<and> \<not> isLoopbackAddr loopback addr then Inl RefusedWithoutLogin
      else
        (let auth = (if webPasswdFile = [] then None else newWebAuth (st_stamp st) (st_users st))
         in if webPasswdFile \<noteq> [] \<and> auth = None then Inl NoUsers
            else if ssl \<and> \<not> st_cert st then Inl BadCertificate
            else case st_dir st of
              None \<Rightarrow> Inl NoUploadDir
            | Some dir \<Rightarrow>
                if \<not> st_listen st then Inl ListenFailed
                else Inr \<lparr>sr_auth = auth, sr_allowed = webAllowedHosts webHosts addr (auth \<noteq> None),
                         sr_conf = \<lparr>webUploadDir = dir, webProcessor = True\<rparr>, sr_tls = ssl\<rparr>))"


section \<open>Statistics\<close>

text \<open>
  Floats are kept as the numbers the code fills in: a speed is a parameter of the
  provider, a job's progress the pair of \<open>JobQueue\<close>. Fields that only repeat another
  for the encoding (\<open>Checked\<close>, \<open>TotalRXbyte\<close> and so on) and the fields nobody fills in
  are left out. The global counter moves while the function runs: \<open>g n\<close> is what its
  \<open>n\<close>th read sees.
\<close>

record ProviderStats =
  ps_Name :: string
  ps_Group :: string
  ps_OpenConns :: int
  ps_IdleConns :: nat
  ps_Checks :: "64 word"
  ps_Downloads :: "64 word"
  ps_Uploads :: "64 word"
  ps_Available :: "64 word"
  ps_Missing :: "64 word"
  ps_RX :: "64 word"
  ps_TX :: "64 word"
  ps_speeds :: "nat \<times> nat"

record JobInfo =
  ji_ID :: string
  ji_Name :: string
  ji_Status :: jobstatus
  ji_StartedAt :: nat
  ji_TotalSegments :: "64 word"
  ji_Progress :: "nat \<times> nat"
  ji_Processed :: "64 word"

record WebStats =
  ws_Uptime :: string
  ws_Mem :: "int \<times> int"
  ws_RX :: "64 word"
  ws_TX :: "64 word"
  ws_DLQueue :: "64 word"
  ws_UPQueue :: "64 word"
  ws_TotalDLQueue :: "64 word"
  ws_TotalUPQueue :: "64 word"
  ws_CheckRoutines :: "64 word"
  ws_DownsRoutines :: "64 word"
  ws_ReupsRoutines :: "64 word"
  ws_NewConns :: "64 word"
  ws_DisConns :: "64 word"
  ws_OpenConns :: "64 word"
  ws_Providers :: "ProviderStats list"
  ws_Jobs :: "JobInfo list"
  ws_TotalJobs :: nat
  ws_ActiveProviders :: nat

text \<open>A provider with its pool (\<open>None\<close> after \<open>KillConnPool\<close>), the pool's counter and the
  two speeds; a session with \<open>active\<close> and its providers.\<close>

record provview =
  pv_prov :: provider
  pv_pool :: "connpool option"
  pv_counter :: counter
  pv_speeds :: "nat \<times> nat"

record sessview =
  ss_active :: bool
  ss_providers :: "provview list"

text \<open>The hours, minutes and seconds of a duration in nanoseconds that is not negative.
  The code's floats give the same numbers for every duration below 128 days.\<close>

definition formatDuration :: "nat \<Rightarrow> string" where
  "formatDuration d =
     (let days = d div (3600 * 10 ^ 9) div 24; hours = d div (3600 * 10 ^ 9) mod 24;
          minutes = d div (60 * 10 ^ 9) mod 60; seconds = d div 10 ^ 9 mod 60
      in if 0 < days then dec days @ ''d '' @ dec hours @ ''h '' @ dec minutes @ ''m '' @ dec seconds @ ''s''
         else if 0 < hours then dec hours @ ''h '' @ dec minutes @ ''m '' @ dec seconds @ ''s''
         else if 0 < minutes then dec minutes @ ''m '' @ dec seconds @ ''s''
         else dec seconds @ ''s'')"

definition provider_stats :: "provview \<Rightarrow> ProviderStats list" where
  "provider_stats v =
     (case pv_pool v of
        None \<Rightarrow> []
      | Some pool \<Rightarrow>
          let p = pv_prov v; a = articles_of p; st = GetStats pool in
          [\<lparr>ps_Name = Name p, ps_Group = Group p, ps_OpenConns = fst st, ps_IdleConns = snd st,
            ps_Checks = art_checked a, ps_Downloads = art_downloaded a, ps_Uploads = art_refreshed a,
            ps_Available = art_available a, ps_Missing = art_missing a,
            ps_RX = GetValue (pv_counter v) ''TOTAL_RXbytes'', ps_TX = GetValue (pv_counter v) ''TOTAL_TXbytes'',
            ps_speeds = pv_speeds v\<rparr>])"

definition provider_lists :: "bool \<Rightarrow> sessview option list \<Rightarrow> sessview option \<Rightarrow> provview list list" where
  "provider_lists processor sess wbase =
     (if \<not> processor then []
      else let act = map ss_providers (filter ss_active (concat (map (\<lambda>s. case s of None \<Rightarrow> [] | Some v \<Rightarrow> [v]) sess)))
           in if act = [] then (case wbase of None \<Rightarrow> [] | Some b \<Rightarrow> [ss_providers b]) else act)"

definition job_info :: "job \<Rightarrow> JobInfo" where
  "job_info j = \<lparr>ji_ID = ID j, ji_Name = NZBName j, ji_Status = Status j, ji_StartedAt = StartedAt j,
     ji_TotalSegments = TotalArticles j, ji_Progress = Progress j, ji_Processed = ArticlesProcessed j\<rparr>"

definition provider_active :: "ProviderStats \<Rightarrow> bool" where
  "provider_active p \<longleftrightarrow> ps_Checks p > 0 \<or> ps_Downloads p > 0 \<or> ps_Uploads p > 0 \<or> ps_OpenConns p > 0"

definition collectStats ::
  "nat \<Rightarrow> memlim option \<Rightarrow> (nat \<Rightarrow> counter) \<Rightarrow> bool \<Rightarrow> sessview option list \<Rightarrow> sessview option \<Rightarrow> jobqueue option \<Rightarrow> WebStats" where
  "collectStats up ml g processor sess wbase jq =
     (let provs = concat (map provider_stats (concat (provider_lists processor sess wbase)));
          active = (case jq of None \<Rightarrow> [] | Some q \<Rightarrow> map job_info (runningJobs q));
          new = GetValue (g 9) ''TOTAL_NewConns''; dis = GetValue (g 10) ''TOTAL_DisConns''
      in \<lparr>ws_Uptime = formatDuration up, ws_Mem = (case ml of None \<Rightarrow> (0, 0) | Some m \<Rightarrow> Usage m),
          ws_RX = GetValue (g 0) ''TOTAL_RXbytes'', ws_TX = GetValue (g 1) ''TOTAL_TXbytes'',
          ws_DLQueue = GetValue (g 2) ''dlQueueCnt'', ws_UPQueue = GetValue (g 3) ''upQueueCnt'',
          ws_TotalDLQueue = GetValue (g 4) ''TOTAL_dlQueueCnt'', ws_TotalUPQueue = GetValue (g 5) ''TOTAL_upQueueCnt'',
          ws_CheckRoutines = GetValue (g 6) ''GoCheckRoutines'', ws_DownsRoutines = GetValue (g 7) ''GoDownsRoutines'',
          ws_ReupsRoutines = GetValue (g 8) ''GoReupsRoutines'', ws_NewConns = new, ws_DisConns = dis,
          ws_OpenConns = new - dis, ws_Providers = provs, ws_Jobs = active, ws_TotalJobs = length active,
          ws_ActiveProviders = length (filter provider_active provs)\<rparr>)"

section \<open>Uploads in every interleaving\<close>

text \<open>
  \<open>us_saved\<close> are the uploads between \<open>saveUpload\<close> and \<open>AddJob\<close>, each with the
  client's file name. The other requests and the runner move the queue in between.
  The upload directory is fresh, and removing a file in it works.
\<close>

record upsys =
  us_web :: webstate
  us_saved :: "(string \<times> string) list"

inductive ustep :: "webconf \<Rightarrow> upsys \<Rightarrow> upsys \<Rightarrow> bool" for w where
  Save: "saveUpload w sv name (us_web s) = (ws, Some (dst, n)) \<Longrightarrow>
    ustep w s (s\<lparr>us_web := ws, us_saved := us_saved s @ [(dst, name)]\<rparr>)"
| SaveFails: "saveUpload w sv name (us_web s) = (ws, None) \<Longrightarrow> sv_remove sv \<Longrightarrow> ustep w s (s\<lparr>us_web := ws\<rparr>)"
| AddSaved: "us_saved s = xs @ (dst, name) # ys \<Longrightarrow> queueUpload ld now True dst name (us_web s) = (ws, r) \<Longrightarrow>
    ustep w s (s\<lparr>us_web := ws, us_saved := xs @ ys\<rparr>)"
| Queue: "jstep w (wq (us_web s)) q \<Longrightarrow> nextID q = nextID (wq (us_web s)) \<Longrightarrow>
    ustep w s (s\<lparr>us_web := (us_web s)\<lparr>wq := q\<rparr>\<rparr>)"

definition ustart :: "processor \<Rightarrow> upsys" where
  "ustart p = \<lparr>us_web = \<lparr>wq = NewJobQueue p {}, wseq = 0\<rparr>, us_saved = []\<rparr>"

definition job_path :: "jobqueue \<Rightarrow> nat \<Rightarrow> string" where
  "job_path q r = NZBPath (store q r)"

definition live_jobs :: "jobqueue \<Rightarrow> nat set" where
  "live_jobs q = {r \<in> set (jobs q). \<not> JobQueue.finished (status_at q r)}"

definition upload_path :: "webconf \<Rightarrow> nat \<Rightarrow> string \<Rightarrow> string" where
  "upload_path w k name = path_join (webUploadDir w) (uploadName k name)"

section \<open>Lemmas: names and directories\<close>

lemma safe_char_no_slash: "\<not> safe_char CHR ''/''"
  by (simp add: safe_char_def)

lemma clean_runes_safe: "c \<in> set (clean_runes s) \<Longrightarrow> safe_char c"
proof (induction s rule: clean_runes.induct)
  case (2 c' cs)
  then show ?case by (auto simp: safe_char_def[of "CHR ''_''"] split: if_splits)
qed simp

lemma digit_safe: "is_digit c \<Longrightarrow> safe_char c"
  by (simp add: is_digit_def safe_char_def)

lemma uploadName_safe: "c \<in> set (uploadName k name) \<Longrightarrow> safe_char c"
  by (auto simp: uploadName_def Let_def safe_char_def[of "CHR ''-''"] dest!: in_set_dropD clean_runes_safe dec_digits digit_safe)

lemma uploadName_shape: "\<exists>s. uploadName k name = dec k @ CHR ''-'' # s"
  by (simp add: uploadName_def Let_def)

lemma uploadName_plain: "plain_name (uploadName k name)"
proof -
  have "CHR ''-'' \<in> set (uploadName k name)" by (simp add: uploadName_def Let_def)
  then have "uploadName k name \<notin> {[], ''.'', ''..''}" by auto
  then show ?thesis using uploadName_safe[of "CHR ''/''" k name] safe_char_no_slash by (auto simp: plain_name_def)
qed

lemma uploadName_unique: "uploadName k name = uploadName k' name' \<Longrightarrow> k = k'"
proof -
  assume e: "uploadName k name = uploadName k' name'"
  have "takeWhile (\<lambda>c. c \<noteq> CHR ''-'') (uploadName n m) = dec n" for n m
  proof -
    obtain s where "uploadName n m = dec n @ CHR ''-'' # s" using uploadName_shape by blast
    moreover have "\<forall>c \<in> set (dec n). c \<noteq> CHR ''-''" using dec_digits digit_no_sign by blast
    ultimately show ?thesis by (simp add: takeWhile_append)
  qed
  then have "dec k = dec k'" using e by metis
  then show "k = k'" by simp
qed

lemma upload_path_unique: "upload_path w k name = upload_path w k' name' \<Longrightarrow> k = k'"
proof -
  assume e: "upload_path w k name = upload_path w k' name'"
  obtain pre where "\<forall>b. plain_name b \<longrightarrow> path_join (webUploadDir w) b = pre @ b" using path_join_prefix by blast
  then have "pre @ uploadName k name = pre @ uploadName k' name'" using e uploadName_plain by (simp add: upload_path_def)
  then show "k = k'" using uploadName_unique by simp
qed

text \<open>A directory that is written the way \<open>Clean\<close> writes it.\<close>

definition clean_dir :: "string \<Rightarrow> bool" where
  "clean_dir a \<longleftrightarrow> path_clean a = a \<and> a \<notin> {[], ''.'', ''/''}"

lemma clean_comps_empty_last: "clean_comps rooted st (cs @ [[]]) = clean_comps rooted st cs"
  by (induction rooted st cs rule: clean_comps.induct) (auto split: list.splits)

lemma clean_dir_join:
  assumes "clean_dir a" and "plain_name b"
  shows "path_join a b = a @ ''/'' @ b" and "path_dir (path_join a b) = a"
proof -
  have a: "a \<noteq> []" "path_clean a = a" using assms(1) by (auto simp: clean_dir_def)
  let ?r = "has_prefix ''/'' a"
  define cs where "cs = clean_comps ?r [] (split_on (CHR ''/'') a)"
  have pre: "has_prefix ''/'' (a @ s) = ?r" for s using a(1) by (cases a) auto
  have cs: "a = (if ?r then ''/'' else []) @ join_with (CHR ''/'') cs" "cs \<noteq> []"
    using a assms(1) by (auto simp: path_clean_def cs_def Let_def clean_dir_def split: if_splits)
  have b: "CHR ''/'' \<notin> set b" using assms(2) by (simp add: plain_name_def)
  have clean: "path_clean (a @ s) = (if ?r then ''/'' else []) @ join_with (CHR ''/'') (clean_comps ?r [] (split_on (CHR ''/'') (a @ s)))"
    if "join_with (CHR ''/'') (clean_comps ?r [] (split_on (CHR ''/'') (a @ s))) \<noteq> []" for s
    using that by (cases ?r) (simp_all add: path_clean_def Let_def pre)
  have "clean_comps ?r [] (split_on (CHR ''/'') (a @ CHR ''/'' # b)) = cs @ [b]"
    using b clean_comps_snoc[OF assms(2), of ?r "[]" "split_on (CHR ''/'') a"] by (simp add: split_on_snoc cs_def)
  then have "path_clean (a @ CHR ''/'' # b) = (if ?r then ''/'' else []) @ (join_with (CHR ''/'') cs @ CHR ''/'' # b)"
    using clean[of "CHR ''/'' # b"] cs(2) by (simp add: join_with_snoc)
  also have "\<dots> = a @ CHR ''/'' # b" using cs(1) by (metis append.assoc)
  finally show join: "path_join a b = a @ ''/'' @ b" using a(1) by (simp add: path_join_def)
  have "rev (dropWhile (\<lambda>c. c \<noteq> CHR ''/'') (rev (a @ ''/'' @ b))) = a @ [CHR ''/'']"
    using b by (auto simp: dropWhile_append3 dropWhile_eq_Nil_conv)
  moreover have "path_clean (a @ [CHR ''/'']) = a"
  proof -
    have "clean_comps ?r [] (split_on (CHR ''/'') (a @ [CHR ''/''])) = cs"
      using clean_comps_empty_last[of ?r "[]" "split_on (CHR ''/'') a"] split_on_snoc[of "CHR ''/''" "[]" a] by (simp add: cs_def)
    moreover have "join_with (CHR ''/'') cs \<noteq> []" using cs(1) assms(1) a(1) by (auto simp: clean_dir_def split: if_splits)
    ultimately show ?thesis using clean[of "''/''"] cs(1) by simp
  qed
  ultimately show "path_dir (path_join a b) = a" unfolding join path_dir_def by simp
qed


section \<open>Lemmas: steps of the queue and the files\<close>

text \<open>A step of the queue that adds no job keeps the paths of the jobs and gives up some
  jobs together with their files.\<close>

definition releases :: "nat set \<Rightarrow> jobqueue \<Rightarrow> jobqueue \<Rightarrow> bool" where
  "releases R q q' \<longleftrightarrow> R \<subseteq> set (jobs q) \<and> set (jobs q') \<subseteq> set (jobs q) \<and> live_jobs q' = live_jobs q - R \<and>
     uploads q' = uploads q - job_path q ` R \<and> (\<forall>r \<in> set (jobs q). job_path q' r = job_path q r)"

lemma releases_none:
  assumes "jobs q' = jobs q" and "uploads q' = uploads q"
    and "\<And>r. r \<in> set (jobs q) \<Longrightarrow> job_path q' r = job_path q r \<and> (JobQueue.finished (status_at q' r) \<longleftrightarrow> JobQueue.finished (status_at q r))"
  shows "releases {} q q'"
  using assms by (auto simp: releases_def live_jobs_def)

definition in_upload_dir :: "webconf \<Rightarrow> jobqueue \<Rightarrow> bool" where
  "in_upload_dir w q \<longleftrightarrow> webUploadDir w \<noteq> [] \<and> (\<forall>r \<in> set (jobs q). path_dir (job_path q r) = webUploadDir w)"

lemma removeUpload_uploads:
  "in_upload_dir w q \<Longrightarrow> r \<in> set (jobs q) \<Longrightarrow> uploads (removeUpload w (job_path q r) q') = uploads q' - {job_path q r}"
  by (auto simp: in_upload_dir_def removeUpload_def)

lemma finishLocked_releases:
  assumes "in_upload_dir w q" and "r \<in> set (jobs q)"
  shows "releases {r} q (finishLocked w now r err q)"
proof -
  have "set (jobs (finishLocked w now r err q)) \<subseteq> set (jobs q)" by (rule finishLocked_subset)
  moreover have "x \<in> set (jobs (finishLocked w now r err q))" if "x \<in> set (jobs q)" "x \<noteq> r" "\<not> JobQueue.finished (status_at q x)" for x
    using that by (auto simp: jobs_finishLocked intro: drop_first_keeps)
  moreover have "JobQueue.finished (status_at (finishLocked w now r err q) x) \<longleftrightarrow> x = r \<or> JobQueue.finished (status_at q x)" for x
    by (simp add: status_at_def finishLocked_simps)
  ultimately have "live_jobs (finishLocked w now r err q) = live_jobs q - {r}" by (auto simp: live_jobs_def)
  moreover have "uploads (finishLocked w now r err q) = uploads q - {job_path q r}"
    using removeUpload_uploads[OF assms] by (simp add: finishLocked_def Let_def set_job_simps job_path_def)
  ultimately show ?thesis using assms(2) finishLocked_subset[of w now r err q]
    by (auto simp: releases_def job_path_def finishLocked_simps finish_job_simps)
qed

lemma find_job_in: "find_job jid q = Some r \<Longrightarrow> r \<in> set (jobs q)"
  by (auto simp: find_job_def dest: find_SomeD)

lemma set_job_releases:
  assumes "NZBPath (f (store q r)) = job_path q r" and "JobQueue.finished (Status (f (store q r))) = JobQueue.finished (status_at q r)"
  shows "releases {} q (set_job r f q)"
  using assms by (intro releases_none) (simp_all add: set_job_def job_path_def status_at_def)

lemma releases_frame:
  "releases R q q' \<Longrightarrow> jobs q'' = jobs q' \<Longrightarrow> store q'' = store q' \<Longrightarrow> uploads q'' = uploads q' \<Longrightarrow> releases R q q''"
  by (simp add: releases_def live_jobs_def status_at_def job_path_def)

lemma releases_refl: "releases {} q q"
  by (rule releases_none) simp_all

lemma StartJob_releases: "releases {} q (fst (StartJob jid q))"
proof (cases "find_job jid q")
  case None
  then show ?thesis by (simp add: StartJob_def releases_refl)
next
  case (Some r)
  have "releases {} q (set_job r (\<lambda>j. j\<lparr>Status := jobstatus.Waiting\<rparr>) q)" if "status_at q r = Queued"
    using that by (intro set_job_releases) (simp_all add: job_path_def)
  then show ?thesis using Some
    by (cases "status_at q r = Queued") (auto simp: StartJob_def releases_refl intro: releases_frame)
qed

lemma StopJob_releases:
  assumes "in_upload_dir w q"
  shows "\<exists>R. releases R q (fst (StopJob w now jid q))"
proof (cases "find_job jid q")
  case None
  then show ?thesis by (intro exI[of _ "{}"] releases_none) (simp_all add: StopJob_def)
next
  case (Some r)
  show ?thesis
  proof (cases "status_at q r = jobstatus.Waiting")
    case True
    then show ?thesis using Some finishLocked_releases[OF assms find_job_in[OF Some]] by (intro exI[of _ "{r}"]) (simp add: StopJob_def)
  next
    case False
    have "releases {} q (set_job r (\<lambda>j. j\<lparr>stopRequested := True\<rparr>) q)"
      by (intro set_job_releases) (simp_all add: job_path_def status_at_def)
    then have "releases {} q (fst (StopJob w now jid q))" using Some False
      by (cases "status_at q r"; cases "job_session (store q r)")
        (auto simp: StopJob_def releases_refl Let_def intro: releases_frame)
    then show ?thesis by blast
  qed
qed

lemma DeleteJob_releases:
  assumes "in_upload_dir w q" and "distinct (jobs q)"
  shows "\<exists>R. releases R q (fst (DeleteJob w jid q))"
proof (cases "find_job jid q")
  case None
  then show ?thesis by (intro exI[of _ "{}"] releases_none) (simp_all add: DeleteJob_def)
next
  case (Some r)
  note r = find_job_in[OF Some]
  show ?thesis
  proof (cases "status_at q r = Queued \<or> JobQueue.finished (status_at q r)")
    case True
    then have "releases {r} q (fst (DeleteJob w jid q))"
      using Some r assms(2) removeUpload_uploads[OF assms(1) r]
      by (auto simp: DeleteJob_def releases_def live_jobs_def job_path_def removeUpload_simps status_at_def)
    then show ?thesis by blast
  next
    case False
    then show ?thesis using Some by (intro exI[of _ "{}"] releases_none) (auto simp: DeleteJob_def)
  qed
qed

lemma runJob_begin_releases:
  assumes "in_upload_dir w q" and "runner_ok q" and "runner q = Chosen r"
  shows "\<exists>R. releases R q (runJob_begin w now r q)"
proof -
  have drop: "releases R q q' \<Longrightarrow> releases R q (q'\<lparr>runner := pc\<rparr>)" for R q' pc
    by (rule releases_frame) simp_all
  consider (gone) "status_at q r \<noteq> jobstatus.Waiting" | (unset) "status_at q r = jobstatus.Waiting" "\<not> webProcessor w"
    | (run) "status_at q r = jobstatus.Waiting" "webProcessor w" by blast
  then show ?thesis
  proof cases
    case gone
    then show ?thesis by (intro exI[of _ "{}"] releases_none) (simp_all add: runJob_begin_def job_path_def status_at_def)
  next
    case unset
    then have "r \<in> set (jobs q)" using assms(2,3) by (simp add: runner_ok_def)
    then show ?thesis using unset drop[OF finishLocked_releases[OF assms(1)]] by (intro exI[of _ "{r}"]) (simp add: runJob_begin_def)
  next
    case run
    then show ?thesis
      by (intro exI[of _ "{}"] releases_none)
        (auto simp: runJob_begin_def job_path_def status_at_def set_job_simps split: prod.splits)
  qed
qed

lemma runJob_end_releases:
  assumes "in_upload_dir w q" and "runner_ok q" and "runner q = Launched r i"
  shows "\<exists>R. releases R q (runJob_end w now r i err q)"
proof -
  let ?q = "if err = None then q else q\<lparr>proc := removeSession i (proc q)\<rparr>"
  have same: "jobs ?q = jobs q" "uploads ?q = uploads q" "store ?q = store q" by simp_all
  then have d: "in_upload_dir w ?q" "r \<in> set (jobs ?q)" using assms by (simp_all add: in_upload_dir_def job_path_def runner_ok_def)
  have "releases {r} ?q (finishLocked w now r err ?q)" by (rule finishLocked_releases[OF d])
  then have "releases {r} q (runJob_end w now r i err q)" using same
    by (simp add: releases_def live_jobs_def status_at_def job_path_def runJob_end_def)
  then show ?thesis by blast
qed

lemma jstep_releases:
  assumes "jstep w q q'" and "nextID q' = nextID q" and "jinv q" and "in_upload_dir w q"
  shows "\<exists>R. releases R q q'"
  using assms
proof (induction rule: jstep.induct)
  case (Add q ld now path name)
  then have "fst (AddJob ld now path name q) = q" by (auto simp: AddJob_def Let_def split: option.splits if_splits)
  then show ?case using releases_none[of q q] by auto
next
  case (Start q jid)
  then show ?case using StartJob_releases by blast
next
  case (Stop q now jid)
  then show ?case using StopJob_releases by blast
next
  case (Delete q jid)
  then show ?case using DeleteJob_releases order_distinct by (simp add: jinv_def)
next
  case (Begin q r now)
  then show ?case using runJob_begin_releases by (simp add: jinv_def)
next
  case (End q r i now err)
  then show ?case using runJob_end_releases by (simp add: jinv_def)
qed (rule exI[of _ "{}"], rule releases_none; simp add: job_path_def status_at_def)+


section \<open>Lemmas: the invariant of the uploads\<close>

definition used_paths :: "upsys \<Rightarrow> string set" where
  "used_paths s = job_path (wq (us_web s)) ` set (jobs (wq (us_web s))) \<union> fst ` set (us_saved s)"

definition numbered :: "webconf \<Rightarrow> nat \<Rightarrow> string \<Rightarrow> bool" where
  "numbered w m p \<longleftrightarrow> (\<exists>k name. k \<le> m \<and> p = upload_path w k name)"

definition uinv :: "webconf \<Rightarrow> upsys \<Rightarrow> bool" where
  "uinv w s \<longleftrightarrow> (let q = wq (us_web s) in jinv q \<and> (\<forall>p \<in> used_paths s. numbered w (wseq (us_web s)) p) \<and>
     inj_on (job_path q) (set (jobs q)) \<and> distinct (map fst (us_saved s)) \<and>
     job_path q ` set (jobs q) \<inter> fst ` set (us_saved s) = {} \<and>
     uploads q = job_path q ` live_jobs q \<union> fst ` set (us_saved s))"

lemma jinv_uploads [simp]: "jinv (q\<lparr>uploads := x\<rparr>) = jinv q"
  by (simp add: jinv_def order_ok_def limits_ok_def runner_ok_def wake_ok_def none_running_def status_at_def
      cong: runner_pc.case_cong)

lemma queue_uploads [simp]:
  "job_path (q\<lparr>uploads := x\<rparr>) = job_path q" "live_jobs (q\<lparr>uploads := x\<rparr>) = live_jobs q"
  by (auto simp: job_path_def live_jobs_def status_at_def)

lemma numbered_new: "numbered w m p \<Longrightarrow> p \<noteq> upload_path w (m + 1) name"
  using upload_path_unique by (fastforce simp: numbered_def)

lemma numbered_dir:
  assumes "clean_dir (webUploadDir w)" and "numbered w m p"
  shows "path_dir p = webUploadDir w"
  using assms clean_dir_join(2) uploadName_plain by (auto simp: numbered_def upload_path_def)

lemma uinv_start: "uinv w (ustart p)"
proof -
  have "jinv (NewJobQueue p {})" using jinv_start by (auto simp: jstart_def)
  then show ?thesis by (simp add: uinv_def ustart_def used_paths_def NewJobQueue_def live_jobs_def Let_def)
qed

lemma uinv_queue:
  assumes "uinv w s" and "clean_dir (webUploadDir w)" and "jstep w (wq (us_web s)) q'" and "nextID q' = nextID (wq (us_web s))"
  shows "uinv w (s\<lparr>us_web := (us_web s)\<lparr>wq := q'\<rparr>\<rparr>)"
proof -
  let ?q = "wq (us_web s)"
  have inv: "jinv ?q" "\<forall>p \<in> used_paths s. numbered w (wseq (us_web s)) p" "inj_on (job_path ?q) (set (jobs ?q))"
    "distinct (map fst (us_saved s))" "job_path ?q ` set (jobs ?q) \<inter> fst ` set (us_saved s) = {}"
    "uploads ?q = job_path ?q ` live_jobs ?q \<union> fst ` set (us_saved s)"
    using assms(1) by (simp_all add: uinv_def Let_def)
  have "webUploadDir w \<noteq> []" using assms(2) by (simp add: clean_dir_def)
  then have dir: "in_upload_dir w ?q" using inv(2) numbered_dir[OF assms(2)] by (auto simp: in_upload_dir_def used_paths_def)
  obtain R where R: "R \<subseteq> set (jobs ?q)" "set (jobs q') \<subseteq> set (jobs ?q)" "live_jobs q' = live_jobs ?q - R"
      "uploads q' = uploads ?q - job_path ?q ` R" "\<forall>r \<in> set (jobs ?q). job_path q' r = job_path ?q r"
    using jstep_releases[OF assms(3,4) inv(1) dir] by (auto simp: releases_def)
  have same: "job_path q' ` A = job_path ?q ` A" if "A \<subseteq> set (jobs ?q)" for A using R(5) that by (intro image_cong) auto
  have live: "live_jobs ?q \<subseteq> set (jobs ?q)" by (auto simp: live_jobs_def)
  have "job_path ?q ` (live_jobs ?q - R) = job_path ?q ` live_jobs ?q - job_path ?q ` R"
    by (rule inj_on_image_set_diff[OF inv(3)]) (use live R(1) in auto)
  moreover have "job_path ?q ` R \<inter> fst ` set (us_saved s) = {}" using inv(5) R(1) by blast
  moreover have "job_path q' ` live_jobs q' = job_path ?q ` (live_jobs ?q - R)" using same[of "live_jobs q'"] live R(3) by blast
  ultimately have "uploads q' = job_path q' ` live_jobs q' \<union> fst ` set (us_saved s)"
    unfolding R(4) inv(6) by blast
  moreover have "inj_on (job_path q') (set (jobs q'))"
    using inv(3) R(2,5) by (metis (no_types, lifting) inj_on_def subsetD)
  moreover have "jinv q'" by (rule jinv_step[OF assms(3) inv(1)])
  moreover have "job_path q' ` set (jobs q') \<subseteq> job_path ?q ` set (jobs ?q)" using R(2) same[OF R(2)] by blast
  moreover from this have "job_path q' ` set (jobs q') \<inter> fst ` set (us_saved s) = {}" using inv(5) by blast
  ultimately show ?thesis using inv(2,4) by (auto simp: uinv_def Let_def used_paths_def)
qed

lemma saveUpload_cases:
  assumes "saveUpload w sv name ws = (ws', r)"
  obtains (saved) dst n where "r = Some (dst, n)" "dst = upload_path w (wseq ws + 1) name"
      "ws' = ws\<lparr>wseq := wseq ws + 1, wq := (wq ws)\<lparr>uploads := insert dst (uploads (wq ws))\<rparr>\<rparr>"
  | (failed) "r = None" "sv_remove sv \<longrightarrow> wq ws' = wq ws" "wseq ws \<le> wseq ws'"
proof (cases r)
  case (Some p)
  then show thesis using assms saved[of "fst p" "snd p"]
    by (auto simp: saveUpload_def upload_path_def Let_def split: if_splits)
next
  case None
  then show thesis using assms failed by (auto simp: saveUpload_def Let_def split: if_splits)
qed

lemma uinv_step: "ustep w s s' \<Longrightarrow> clean_dir (webUploadDir w) \<Longrightarrow> uinv w s \<Longrightarrow> uinv w s'"
proof (induction rule: ustep.induct)
  case (Save sv name s ws dst n)
  have d: "dst = upload_path w (wseq (us_web s) + 1) name"
    "ws = (us_web s)\<lparr>wseq := wseq (us_web s) + 1, wq := (wq (us_web s))\<lparr>uploads := insert dst (uploads (wq (us_web s)))\<rparr>\<rparr>"
    by (rule saveUpload_cases[OF Save(1)]; simp)+
  have new: "dst \<notin> used_paths s" using Save(3) numbered_new[of w "wseq (us_web s)"] d(1) by (auto simp: uinv_def Let_def)
  have up: "numbered w (m + 1) p" if "numbered w m p" for m p using that by (auto simp: numbered_def intro: le_SucI)
  have "numbered w (wseq (us_web s) + 1) dst" using d(1) by (auto simp: numbered_def)
  then show ?case using Save(3) new d(2) up by (auto simp: uinv_def Let_def used_paths_def)
next
  case (SaveFails sv name s ws)
  have ws: "wq ws = wq (us_web s)" "wseq (us_web s) \<le> wseq ws"
    by (rule saveUpload_cases[OF SaveFails(1)]; use SaveFails(2) in simp)+
  then have "numbered w (wseq ws) p" if "numbered w (wseq (us_web s)) p" for p
    using that by (auto simp: numbered_def intro: le_trans)
  then show ?case using SaveFails(4) ws(1) by (auto simp: uinv_def Let_def used_paths_def)
next
  case (AddSaved s xs dst name ys ld now ws r)
  let ?q = "wq (us_web s)"
  have inv: "jinv ?q" "\<forall>p \<in> used_paths s. numbered w (wseq (us_web s)) p" "inj_on (job_path ?q) (set (jobs ?q))"
    "distinct (map fst (us_saved s))" "job_path ?q ` set (jobs ?q) \<inter> fst ` set (us_saved s) = {}"
    "uploads ?q = job_path ?q ` live_jobs ?q \<union> fst ` set (us_saved s)"
    using AddSaved(4) by (simp_all add: uinv_def Let_def)
  have dst: "dst \<notin> fst ` set (xs @ ys)" "fst ` set (us_saved s) = insert dst (fst ` set (xs @ ys))"
    using inv(4) AddSaved(1) by auto
  have fresh: "nextID ?q \<notin> set (jobs ?q)" using inv(1) by (auto simp: jinv_def order_ok_def)
  obtain q' r' where a: "AddJob ld now dst name ?q = (q', r')" by fastforce
  have j: "jinv q'" using AddJob_jinv[OF inv(1), of ld now dst name] a by simp
  show ?case
  proof (cases r')
    case (Inl e)
    then have "q' = ?q" using a by (auto simp: AddJob_def Let_def split: option.splits if_splits)
    then have "ws = (us_web s)\<lparr>wq := ?q\<lparr>uploads := uploads ?q - {dst}\<rparr>\<rparr>"
      using AddSaved(2) a Inl by (simp add: queueUpload_def on_queue_def)
    moreover have "uploads ?q - {dst} = job_path ?q ` live_jobs ?q \<union> fst ` set (xs @ ys)"
      using inv(5,6) dst by (auto simp: live_jobs_def)
    ultimately show ?thesis using inv AddSaved(1) by (auto simp: uinv_def Let_def used_paths_def)
  next
    case (Inr jid)
    then have q': "jobs q' = jobs ?q @ [nextID ?q]" "uploads q' = uploads ?q" "job_path q' (nextID ?q) = dst"
      "\<And>x. x \<noteq> nextID ?q \<Longrightarrow> store q' x = store ?q x" "status_at q' (nextID ?q) = Queued"
      using a by (auto simp: AddJob_def Let_def job_path_def status_at_def split: option.splits if_splits)
    have ws: "ws = (us_web s)\<lparr>wq := q'\<rparr>" using AddSaved(2) a Inr by (simp add: queueUpload_def on_queue_def)
    have old: "job_path q' x = job_path ?q x" "status_at q' x = status_at ?q x" if "x \<in> set (jobs ?q)" for x
    proof -
      have "x \<noteq> nextID ?q" using fresh that by blast
      then show "job_path q' x = job_path ?q x" "status_at q' x = status_at ?q x"
        using q'(4)[of x] by (simp_all add: job_path_def status_at_def)
    qed
    then have img: "job_path q' ` set (jobs ?q) = job_path ?q ` set (jobs ?q)" "job_path q' ` live_jobs ?q = job_path ?q ` live_jobs ?q"
      by (auto simp: live_jobs_def intro!: image_cong)
    have live: "live_jobs q' = insert (nextID ?q) (live_jobs ?q)" using q'(1,5) old(2) by (auto simp: live_jobs_def)
    have "inj_on (job_path q') (set (jobs q'))"
      using inv(3,5) dst(2) img(1) old(1) fresh unfolding q'(1) by (auto simp: inj_on_def q'(3))
    then show ?thesis using inv dst AddSaved(1) j ws live img q'(1-3) unfolding uinv_def Let_def used_paths_def
      by auto
  qed
next
  case (Queue s q)
  show ?case by (rule uinv_queue[OF Queue(4,3) Queue(1,2)])
qed


interpretation upload_files: machine "\<lambda>s. \<exists>p. s = ustart p" "ustep w" "\<lambda>s. clean_dir (webUploadDir w) \<longrightarrow> uinv w s" for w
  by unfold_locales (use uinv_start uinv_step in auto)

section \<open>The properties\<close>



text \<open>C32: an upload is answered with its job's id exactly when there is a new job, queued
  under the client's name, and its file, which did not exist, in the upload directory;
  after every other reply the jobs are as before, and the files too when a file that
  could not be finished or queued can be removed.\<close>

theorem upload_all_or_nothing:
  assumes "handleUpload w ld now sv form s = (s', r)" and "sv_remove sv"
  shows "case r of
      Uploaded name fsize jid settings \<Rightarrow>
        (\<exists>dst. form = FormFile name fsize settings \<and> dst = upload_path w (wseq s + 1) name \<and> ld dst \<noteq> None \<and>
          dst \<notin> uploads (wq s) \<and> uploads (wq s') = insert dst (uploads (wq s)) \<and>
          jobs (wq s') = jobs (wq s) @ [nextID (wq s)] \<and> jid = job_id (nextID (wq s)) \<and>
          job_path (wq s') (nextID (wq s)) = dst \<and> NZBName (store (wq s') (nextID (wq s))) = name \<and>
          status_at (wq s') (nextID (wq s)) = Queued)
    | _ \<Rightarrow> wq s' = wq s \<and> status_code r \<in> {400, 413, 500, 503}"
proof (cases form)
  case (FormFile name fsize settings)
  show ?thesis
  proof (cases "path_ext name \<in> {''.nzb'', ''.gz''}")
    case True
    obtain s1 q where sv: "saveUpload w sv name s = (s1, q)" by fastforce
    show ?thesis
    proof (cases q)
      case None
      then have "wq s1 = wq s" by (rule_tac saveUpload_cases[OF sv]) (use assms(2) in auto)
      then show ?thesis using assms(1) FormFile True sv None by (auto simp: handleUpload_def)
    next
      case (Some p)
      obtain dst n where p: "p = (dst, n)" by fastforce
      have new: "dst \<notin> uploads (wq s)" using sv Some p by (auto simp: saveUpload_def Let_def split: if_splits)
      have s1: "dst = upload_path w (wseq s + 1) name"
        "s1 = s\<lparr>wseq := wseq s + 1, wq := (wq s)\<lparr>uploads := insert dst (uploads (wq s))\<rparr>\<rparr>"
        by (rule saveUpload_cases[OF sv]; use Some p in simp)+
      obtain q' r' where a: "AddJob ld now dst name (wq s1) = (q', r')" by fastforce
      have h: "handleUpload w ld now sv form s = (case queueUpload ld now (sv_remove sv) dst name s1 of
          (s2, Inl e) \<Rightarrow> (s2, JobFailed e) | (s2, Inr jid) \<Rightarrow> (s2, Uploaded name fsize jid settings))"
        by (simp only: handleUpload_def FormFile webform.case True not_True_eq_False if_False sv Some p option.case prod.case)
      show ?thesis
      proof (cases r')
        case (Inl e)
        then have q': "q' = wq s1" "e = InvalidNZB \<or> (\<exists>k. e = QueueFull k)"
          using a by (auto simp: AddJob_def Let_def split: option.splits if_splits)
        have "(s', r) = (s1\<lparr>wq := (wq s1)\<lparr>uploads := uploads (wq s1) - {dst}\<rparr>\<rparr>, JobFailed e)"
          using assms a Inl q'(1) unfolding h by (simp add: queueUpload_def on_queue_def)
        then show ?thesis using s1 new q'(2) by (auto simp: jobErrStatus_def)
      next
        case (Inr jid)
        have "(s', r) = (s1\<lparr>wq := q'\<rparr>, Uploaded name fsize jid settings)"
          using assms a Inr unfolding h by (simp add: queueUpload_def on_queue_def)
        then show ?thesis using a Inr s1 new FormFile
          by (auto simp: AddJob_def Let_def job_path_def status_at_def split: option.splits if_splits)
      qed
    qed
  next
    case False
    then show ?thesis using assms(1) FormFile by (auto simp: handleUpload_def)
  qed
qed (use assms(1) in \<open>auto simp: handleUpload_def\<close>)

theorem upload_all_or_nothing_witness:
  "\<forall>p. \<exists>s' r. handleUpload \<lparr>webUploadDir = ''/tmp/u'', webProcessor = True\<rparr> (\<lambda>_. None) 0
      \<lparr>sv_open = True, sv_create = True, sv_bytes = 3, sv_copy = True, sv_close = True, sv_remove = True\<rparr>
      (FormFile ''a.nzb'' 3 False) \<lparr>wq = NewJobQueue p {}, wseq = 0\<rparr> = (s', r) \<and> r = JobFailed InvalidNZB \<and> wq s' = NewJobQueue p {}"
proof
  fix p
  let ?w = "\<lparr>webUploadDir = ''/tmp/u'', webProcessor = True\<rparr>"
  let ?sv = "\<lparr>sv_open = True, sv_create = True, sv_bytes = 3, sv_copy = True, sv_close = True, sv_remove = True\<rparr>"
  let ?s = "\<lparr>wq = NewJobQueue p {}, wseq = 0\<rparr>"
  have dst: "path_join ''/tmp/u'' (uploadName (Suc 0) ''a.nzb'') = ''/tmp/u/1-a.nzb''" by code_simp
  have ext: "path_ext ''a.nzb'' = ''.nzb''" by code_simp
  obtain s' r where h: "handleUpload ?w (\<lambda>_. None) 0 ?sv (FormFile ''a.nzb'' 3 False) ?s = (s', r)" by fastforce
  have "r = JobFailed InvalidNZB"
    using h by (auto simp: handleUpload_def ext saveUpload_def Let_def dst NewJobQueue_def queueUpload_def on_queue_def AddJob_def)
  moreover have "wq s' = wq ?s" using upload_all_or_nothing[OF h] calculation by simp
  ultimately show "\<exists>s' r. handleUpload ?w (\<lambda>_. None) 0 ?sv (FormFile ''a.nzb'' 3 False) ?s = (s', r) \<and>
      r = JobFailed InvalidNZB \<and> wq s' = NewJobQueue p {}"
    using h by (intro exI[of _ s'] exI[of _ r]) simp
qed

text \<open>What \<open>Clean\<close> returns does not start with \<open>./\<close>, so the directory of a path is never
  one that is written so.\<close>

lemma clean_comps_no_dot: "''.'' \<notin> set st \<Longrightarrow> ''.'' \<notin> set (clean_comps rooted st cs)"
  by (induction rooted st cs rule: clean_comps.induct) (auto split: list.splits)

lemma clean_comps_no_slash:
  "\<forall>c \<in> set st. CHR ''/'' \<notin> set c \<Longrightarrow> \<forall>c \<in> set cs. CHR ''/'' \<notin> set c \<Longrightarrow> c \<in> set (clean_comps rooted st cs) \<Longrightarrow> CHR ''/'' \<notin> set c"
  by (induction rooted st cs rule: clean_comps.induct) (auto split: list.splits if_splits)

lemma join_with_head: "join_with c (x # xs) = x @ (if xs = [] then [] else c # join_with c xs)"
  by (cases xs) auto

lemma split_on_no_slash: "x \<in> set (split_on c s) \<Longrightarrow> c \<notin> set x"
proof (induction s arbitrary: x)
  case (Cons a s)
  then show ?case by (cases "split_on c s") (auto split: if_splits)
qed simp

lemma path_clean_not_dotted: "path_clean s \<noteq> ''./'' @ rest"
proof
  assume a: "path_clean s = ''./'' @ rest"
  define cs where "cs = clean_comps (has_prefix ''/'' s) [] (split_on CHR ''/'' s)"
  have b: "join_with (CHR ''/'') cs = ''./'' @ rest"
    using a by (auto simp: path_clean_def Let_def cs_def split: if_splits)
  then obtain x xs where c: "cs = x # xs" by (cases cs) auto
  have "CHR ''/'' \<notin> set x"
    by (rule clean_comps_no_slash[of "[]" "split_on CHR ''/'' s" x "has_prefix ''/'' s"])
      (use split_on_no_slash[of _ "CHR ''/''" s] c in \<open>auto simp: cs_def\<close>)
  then have "x = ''.''" using b unfolding c join_with_head by (auto simp: append_eq_Cons_conv split: if_splits)
  then show False using clean_comps_no_dot[of "[]" "has_prefix ''/'' s" "split_on CHR ''/'' s"] c by (simp add: cs_def)
qed

text \<open>With an upload directory like this (\<open>TMPDIR=./tmp\<close>), no upload is ever removed.\<close>

theorem dotted_upload_dir_keeps_uploads: "webUploadDir w = ''./'' @ rest \<Longrightarrow> removeUpload w path q = q"
  using path_clean_not_dotted[of _ rest] by (simp add: removeUpload_def path_dir_def)

section \<open>What a page, a request and a name may do\<close>

lemma get_changes_nothing:
  assumes "mux_route m p = Some r" and "is_get m" and "serve w e r s = (s', rep)"
  shows "s' = s"
  using assms by (auto simp: mux_route_def serve_def handleAPIJobsList_def split: if_splits list.splits)

lemma passed_change:
  assumes "webHandler url_host allowed w e g login other p s = (s', r)" and "s' \<noteq> s"
  shows "webGuard url_host allowed g = Passed" and "login = None \<or> login = Some Served" and "\<not> is_get (g_method g)"
    and "g_method g \<noteq> ''OPTIONS''"
proof -
  have pass: "webGuard url_host allowed g = Passed" "login = None \<or> login = Some Served"
    using assms by (auto simp: webHandler_def Let_def split: if_splits)
  then obtain rt where rt: "mux_route (g_method g) p = Some rt" "serve w e rt s = (s', r)"
    using assms by (auto simp: webHandler_def Let_def split: if_splits option.splits)
  show "\<not> is_get (g_method g)" using get_changes_nothing[OF rt(1) _ rt(2)] assms(2) by blast
  show "g_method g \<noteq> ''OPTIONS''" using rt(1) by (auto simp: mux_route_def is_get_def)
  show "webGuard url_host allowed g = Passed" "login = None \<or> login = Some Served" by (fact pass)+
qed

text \<open>C31: a request changes the queue or the uploads of a started server only with the
  marker header, from the same site and origin, and either after a login with a user of
  the passwd file or, on a server without one, at a loopback address and under one of
  its host names.\<close>

theorem web_changes_authorised:
  assumes "StartWebServer loopback st pw hosts ssl addr = Inr srv"
    and "webHandler url_host (sr_allowed srv) (sr_conf srv) e g login other p s = (s', r)" and "s' \<noteq> s"
    and "login = None \<longleftrightarrow> sr_auth srv = None"
  shows "g_marker g = ''1'' \<and> g_site g \<in> {[], ''same-origin'', ''none''} \<and>
      (g_origin g = [] \<or> map_option lower (url_host (g_origin g)) = Some (lower (g_host g))) \<and>
      (if pw = [] then isLoopbackAddr loopback addr \<and>
         (hostOnly (g_host g) \<in> {''localhost'', ''127.0.0.1'', ''::1''} \<or>
          (\<exists>h port. SplitHostPort addr = Some (h, port) \<and> h \<noteq> [] \<and> hostOnly (g_host g) = lower h) \<or>
          (\<exists>w \<in> set (split_on CHR '','' hosts). hostOnly (g_host g) = lower (TrimSpace w) \<and> hostOnly (g_host g) \<noteq> []))
       else login = Some Served)"
proof -
  note pass = passed_change[OF assms(2,3)]
  have srv: "pw = [] \<longrightarrow> isLoopbackAddr loopback addr \<and> sr_auth srv = None" "pw \<noteq> [] \<longrightarrow> sr_auth srv \<noteq> None"
    "sr_allowed srv = webAllowedHosts hosts addr (sr_auth srv \<noteq> None)"
    using assms(1) by (auto simp: StartWebServer_def Let_def split: if_splits option.splits)
  have guard: "webGuard url_host (webAllowedHosts hosts addr (sr_auth srv \<noteq> None)) g = Passed" using pass(1) srv(3) by simp
  have req: "g_marker g = ''1'' \<and> g_site g \<in> {[], ''same-origin'', ''none''} \<and>
      (g_origin g = [] \<or> map_option lower (url_host (g_origin g)) = Some (lower (g_host g)))"
    using guard pass(3,4) by (auto simp: webGuard_def is_get_def split: if_splits option.splits)
  show ?thesis
  proof (cases "pw = []")
    case True
    then have "hostOnly (g_host g) \<in> the (webAllowedHosts hosts addr False)"
      using guard srv(1) by (auto simp: webGuard_def webAllowedHosts_def split: if_splits)
    then have "hostOnly (g_host g) \<in> {''localhost'', ''127.0.0.1'', ''::1''} \<or>
        (\<exists>h port. SplitHostPort addr = Some (h, port) \<and> h \<noteq> [] \<and> hostOnly (g_host g) = lower h) \<or>
        (\<exists>w \<in> set (split_on CHR '','' hosts). hostOnly (g_host g) = lower (TrimSpace w) \<and> hostOnly (g_host g) \<noteq> [])"
      by (auto simp: webAllowedHosts_def split: option.splits if_splits)
    then show ?thesis using True req srv(1) by (simp only: if_True simp_thms)
  next
    case False
    then show ?thesis using req srv(2) assms(4) pass(2) by auto
  qed
qed

theorem web_changes_authorised_witness:
  "\<forall>p. \<exists>srv s'. StartWebServer (\<lambda>_. False) \<lparr>st_stamp = None, st_users = None, st_cert = False, st_dir = Some ''/tmp/u'', st_listen = True\<rparr>
      [] [] False ''localhost:80'' = Inr srv \<and>
    fst (webHandler (\<lambda>_. None) (sr_allowed srv) (sr_conf srv)
      \<lparr>we_load = \<lambda>_. None, we_static = \<lambda>_. False, we_now = 0,
        we_save = \<lparr>sv_open = True, sv_create = False, sv_bytes = 0, sv_copy = False, sv_close = False, sv_remove = True\<rparr>,
        we_form = FormFile ''a.nzb'' 3 False\<rparr>
      \<lparr>g_host = ''localhost'', g_method = ''POST'', g_marker = ''1'', g_site = [], g_origin = []\<rparr>
      None NotFound [''upload''] \<lparr>wq = NewJobQueue p {}, wseq = 0\<rparr>) = s' \<and> wseq s' = 1 \<and> isLoopbackAddr (\<lambda>_. False) ''localhost:80''"
proof
  fix p
  let ?st = "\<lparr>st_stamp = None, st_users = None, st_cert = False, st_dir = Some ''/tmp/u'', st_listen = True\<rparr>"
  let ?e = "\<lparr>we_load = \<lambda>_. None, we_static = \<lambda>_. False, we_now = 0,
        we_save = \<lparr>sv_open = True, sv_create = False, sv_bytes = 0, sv_copy = False, sv_close = False, sv_remove = True\<rparr>,
        we_form = FormFile ''a.nzb'' 3 False\<rparr>"
  let ?g = "\<lparr>g_host = ''localhost'', g_method = ''POST'', g_marker = ''1'', g_site = [], g_origin = []\<rparr>"
  let ?s = "\<lparr>wq = NewJobQueue p {}, wseq = 0\<rparr>"
  let ?w = "\<lparr>webUploadDir = ''/tmp/u'', webProcessor = True\<rparr>"
  let ?srv = "\<lparr>sr_auth = None, sr_allowed = webAllowedHosts [] ''localhost:80'' False, sr_conf = ?w, sr_tls = False\<rparr>"
  have lo: "SplitHostPort ''localhost:80'' = Some (''localhost'', ''80'')" by code_simp
  have start: "StartWebServer (\<lambda>_. False) ?st [] [] False ''localhost:80'' = Inr ?srv"
    by (simp add: StartWebServer_def isLoopbackAddr_def lo)
  have host: "hostOnly ''localhost'' = ''localhost''" by code_simp
  have run: "webHandler (\<lambda>_. None) (sr_allowed ?srv) (sr_conf ?srv) ?e ?g None NotFound [''upload''] ?s = (?s\<lparr>wseq := 1\<rparr>, SaveFailed)"
    by (simp add: webHandler_def webGuard_def webAllowedHosts_def host mux_route_def is_get_def serve_def handleUpload_def path_ext_def
      saveUpload_def)
  have "isLoopbackAddr (\<lambda>_. False) ''localhost:80''"
    using web_changes_authorised[OF start run] by (simp only: simp_thms if_True) simp
  then show "\<exists>srv s'. StartWebServer (\<lambda>_. False) ?st [] [] False ''localhost:80'' = Inr srv \<and>
    fst (webHandler (\<lambda>_. None) (sr_allowed srv) (sr_conf srv) ?e ?g None NotFound [''upload''] ?s) = s' \<and> wseq s' = 1 \<and>
    isLoopbackAddr (\<lambda>_. False) ''localhost:80''"
    using start run by (intro exI[of _ ?srv] exI[of _ "?s\<lparr>wseq := 1\<rparr>"]) simp
qed

lemma dec_length: "0 < k \<Longrightarrow> n < 10 ^ k \<Longrightarrow> length (dec n) \<le> k"
proof (induction k arbitrary: n)
  case (Suc k)
  show ?case
  proof (cases "n < 10")
    case False
    then have "0 < k" using Suc.prems(2) by (cases k) auto
    moreover have "n div 10 < 10 ^ k" using Suc.prems(2) by (simp add: less_mult_imp_div_less mult.commute)
    ultimately show ?thesis using Suc.IH[of "n div 10"] False dec.simps[of n] by simp
  qed (use dec.simps[of n] in simp)
qed simp

lemma path_base_join: "plain_name b \<Longrightarrow> path_base (a @ ''/'' @ b) = b"
proof -
  assume b: "plain_name b"
  have ns: "c \<noteq> CHR ''/''" if "c \<in> set b" for c using b that by (auto simp: plain_name_def)
  obtain c r where r: "rev b = c # r" using b by (cases "rev b") (auto simp: plain_name_def)
  then have "c \<noteq> CHR ''/''" using ns by (metis list.set_intros(1) set_rev)
  then have "TrimRight (a @ ''/'' @ b) {CHR ''/''} = a @ ''/'' @ b" using r by (simp add: TrimRight_def rev_swap)
  moreover have "takeWhile (\<lambda>c. c \<noteq> CHR ''/'') (rev (a @ ''/'' @ b)) = rev b"
    using takeWhile_append2[of "rev b" "\<lambda>c. c \<noteq> CHR ''/''" "CHR ''/'' # rev a"] ns by auto
  ultimately show ?thesis by (simp add: path_base_def Let_def del: rev_append)
qed

text \<open>C34: whatever name a client sends, the upload's file has at most 121 characters, all
  of them letters, digits, dots, dashes and underscores; it lies directly in the upload
  directory, and no two uploads get the same one.\<close>

theorem upload_name_bounds:
  assumes "clean_dir dir" and "k < 2 ^ 64"
  shows "length (uploadName k name) \<le> 121 \<and> list_all safe_char (uploadName k name) \<and>
    path_dir (path_join dir (uploadName k name)) = dir \<and> path_base (path_join dir (uploadName k name)) = uploadName k name \<and>
    (uploadName k' name' = uploadName k name \<longrightarrow> k' = k)"
proof -
  have "k < 10 ^ 20" using assms(2) by simp
  then have "length (dec k) \<le> 20" by (rule dec_length[rotated]) simp
  then have "length (uploadName k name) \<le> 121" by (simp add: uploadName_def Let_def)
  moreover have "list_all safe_char (uploadName k name)" using uploadName_safe by (simp add: list_all_iff)
  moreover have "path_dir (path_join dir (uploadName k name)) = dir"
    using clean_dir_join[OF assms(1) uploadName_plain] by simp
  moreover have "path_base (path_join dir (uploadName k name)) = uploadName k name"
    using clean_dir_join(1)[OF assms(1) uploadName_plain] path_base_join[OF uploadName_plain] by simp
  ultimately show ?thesis using uploadName_unique by blast
qed

theorem upload_name_bounds_witness:
  "length (uploadName 7 ''../..//../etc/pass wd'') \<le> 121 \<and>
   path_dir (path_join ''/tmp/u'' (uploadName 7 ''../..//../etc/pass wd'')) = ''/tmp/u'' \<and>
   path_join ''/tmp/u'' (uploadName 7 ''../..//../etc/pass wd'') = ''/tmp/u/7-pass_wd''"
proof -
  have "clean_dir ''/tmp/u''" by code_simp
  moreover have "path_join ''/tmp/u'' (uploadName 7 ''../..//../etc/pass wd'') = ''/tmp/u/7-pass_wd''" by code_simp
  ultimately show ?thesis using upload_name_bounds[of "''/tmp/u''" 7 "''../..//../etc/pass wd''"] by simp
qed

text \<open>The parts of a duration as it is shown add up to its seconds.\<close>

theorem format_duration_parts:
  "\<exists>days hours minutes seconds. hours < 24 \<and> minutes < 60 \<and> seconds < 60 \<and>
     86400 * days + 3600 * hours + 60 * minutes + seconds = d div 10 ^ 9 \<and>
     formatDuration d =
       (if 0 < days then dec days @ ''d '' else []) @ (if 0 < days \<or> 0 < hours then dec hours @ ''h '' else []) @
       (if 0 < days \<or> 0 < hours \<or> 0 < minutes then dec minutes @ ''m '' else []) @ dec seconds @ ''s''"
proof -
  define t m h where "t = d div 10 ^ 9" and "m = d div (60 * 10 ^ 9)" and "h = d div (3600 * 10 ^ 9)"
  have "m = t div 60" "h = m div 60"
    unfolding t_def m_def h_def by (simp_all add: div_mult2_eq[symmetric])
  moreover have "t = 60 * (t div 60) + t mod 60" "m = 60 * (m div 60) + m mod 60" "h = 24 * (h div 24) + h mod 24" by simp_all
  ultimately have "86400 * (h div 24) + 3600 * (h mod 24) + 60 * (m mod 60) + t mod 60 = t" by linarith
  moreover have "formatDuration d =
       (if 0 < h div 24 then dec (h div 24) @ ''d '' else []) @
       (if 0 < h div 24 \<or> 0 < h mod 24 then dec (h mod 24) @ ''h '' else []) @
       (if 0 < h div 24 \<or> 0 < h mod 24 \<or> 0 < m mod 60 then dec (m mod 60) @ ''m '' else []) @ dec (t mod 60) @ ''s''"
    unfolding formatDuration_def Let_def t_def[symmetric] m_def[symmetric] h_def[symmetric] by (simp del: dec.simps)
  ultimately show ?thesis
    unfolding t_def[symmetric]
    by (intro exI[of _ "h div 24"] exI[of _ "h mod 24"] exI[of _ "m mod 60"] exI[of _ "t mod 60"]) (simp only: simp_thms mod_less_divisor zero_less_numeral)
qed

text \<open>The number of open connections is the difference of two reads: when a connection opens
  and closes in between, it is \<open>2 ^ 64 - 1\<close>.\<close>

theorem open_conns_wrap:
  assumes "GetValue (g 9) ''TOTAL_NewConns'' = n" and "GetValue (g 10) ''TOTAL_DisConns'' = n + 1"
  shows "ws_OpenConns (collectStats up ml g processor sess wbase jq) = - 1"
  using assms by (simp add: collectStats_def Let_def)

end
