(* ===== verification/Boot.thy ===== *)
theory Boot
  imports Tasks ConnPool Machine
begin

text \<open>
  How \<open>LaunchSession\<close> boots the workers of a session and gets rid of them again
  (\<open>Session.go\<close>, \<open>GoBootWorkers\<close> and \<open>GoWorker\<close> of \<open>Workers.go\<close>, the shared
  connections of \<open>ConnPool.go\<close>), in every interleaving. The three routines of a
  worker share one connection through the channel \<open>sharedCC\<close>; a routine takes the
  connection (or nil) out of it for each item and puts one back. What the routines do
  with an item is in \<open>Tasks\<close>; how a pool hands out connections in \<open>ConnPool\<close>. An
  \<open>Add\<close> or \<open>Done\<close> of a wait group is an addition; a \<open>Wait\<close> a step that needs zero.
\<close>

section \<open>Workers\<close>

datatype role = CheckR | DownsR | ReupsR

text \<open>A routine waits for an item, has taken nil and calls \<open>GetConn\<close>, uses a connection, or
  has ended.\<close>

datatype rpos = RIdle | RDial | RUsing nat | RQuit

text \<open>A worker is not yet started, gets its first connection, serves, has ended without a
  connection, waits for the others to end, or has ended.\<close>

datatype gwpos = Unborn | Starting | Serving | Failed | WaitAll | Gone

text \<open>\<open>gw_tok\<close> is what \<open>sharedCC\<close>, with room for one, contains: nothing, nil, or a connection.\<close>

record gworker =
  gw_prov :: nat
  gw_pos :: gwpos
  gw_tok :: "nat option option"
  gw_rt :: "role \<Rightarrow> rpos"

definition new_worker :: "nat \<Rightarrow> gworker" where
  "new_worker i = \<lparr>gw_prov = i, gw_pos = Unborn, gw_tok = None, gw_rt = (\<lambda>_. RIdle)\<rparr>"

definition workers_of :: "provider list \<Rightarrow> gworker list" where
  "workers_of ps = concat (map (\<lambda>i. replicate (nat (MaxConns (ps ! i))) (new_worker i)) [0..<length ps])"

definition set_routine :: "role \<Rightarrow> rpos \<Rightarrow> nat option option \<Rightarrow> gworker \<Rightarrow> gworker" where
  "set_routine r p tok w = w\<lparr>gw_rt := (gw_rt w)(r := p), gw_tok := tok\<rparr>"

text \<open>\<open>SharedConnGet\<close> takes what is in the channel; nil, and the routine has to ask the pool, where
  it puts nil back when it gets nothing. \<open>SharedConnReturn\<close> puts the connection back,
  \<open>CloseConn\<close> nil. The end of \<open>GoWorker\<close> parks the connection that is in the channel.\<close>

definition shared_get :: "role \<Rightarrow> nat option \<Rightarrow> gworker \<Rightarrow> gworker" where
  "shared_get r t = set_routine r (case t of None \<Rightarrow> RDial | Some c \<Rightarrow> RUsing c) None"

definition shared_refused :: "role \<Rightarrow> gworker \<Rightarrow> gworker" where
  "shared_refused r = set_routine r RIdle (Some None)"

definition SharedConnReturn :: "role \<Rightarrow> nat \<Rightarrow> gworker \<Rightarrow> gworker" where
  "SharedConnReturn r c = set_routine r RIdle (Some (Some c))"

definition shared_closed :: "role \<Rightarrow> gworker \<Rightarrow> gworker" where
  "shared_closed r = set_routine r RIdle (Some None)"

definition final_park :: "gworker \<Rightarrow> gworker \<times> nat set" where
  "final_park w = (w\<lparr>gw_pos := WaitAll, gw_tok := None\<rparr>, case gw_tok w of Some (Some c) \<Rightarrow> {c} | _ \<Rightarrow> {})"

lemmas shared_defs [simp] = shared_get_def shared_refused_def SharedConnReturn_def shared_closed_def final_park_def

section \<open>The launch\<close>

text \<open>\<open>LaunchSession\<close> waits for the providers, then for the divider, then for the routines,
  then for the workers; then it closes the pools.\<close>

datatype lpos = LBooting | LDividing | LStopping | LWaitPool | LPools

text \<open>
  \<open>lb_ready\<close>, \<open>lb_worker\<close>, \<open>lb_pool\<close> are the three wait groups, \<open>lb_booting\<close> the
  providers whose goroutine in \<open>GoBootWorkers\<close> runs, \<open>lb_held\<close> the connections taken from
  the pools, \<open>lb_stopped\<close> that the session's channels are closed.
\<close>

record launch =
  lb_ready :: int
  lb_worker :: int
  lb_pool :: int
  lb_booting :: "bool list"
  lb_workers :: "gworker list"
  lb_checkers :: "string \<rightharpoonup> checkerGroup"
  lb_booted :: int
  lb_held :: "nat set"
  lb_stopped :: bool
  lb_pos :: lpos

definition launch_start :: "nat \<Rightarrow> provider list \<Rightarrow> launch" where
  "launch_start sz ps = \<lparr>lb_ready = int (length ps), lb_worker = sum_list (map (\<lambda>p. 3 * max 0 (MaxConns p)) ps),
     lb_pool = sum_list (map (\<lambda>p. max 0 (MaxConns p)) ps), lb_booting = replicate (length ps) True,
     lb_workers = workers_of ps, lb_checkers = sc_checkers (makeSegmentChans sz ps), lb_booted = 0,
     lb_held = {}, lb_stopped = False, lb_pos = LBooting\<rparr>"

definition worker_at :: "launch \<Rightarrow> nat \<Rightarrow> gwpos \<Rightarrow> gworker \<Rightarrow> bool" where
  "worker_at s i p w \<longleftrightarrow> i < length (lb_workers s) \<and> lb_workers s ! i = w \<and> gw_pos w = p"

definition put_worker :: "nat \<Rightarrow> gworker \<Rightarrow> launch \<Rightarrow> launch" where
  "put_worker i w s = s\<lparr>lb_workers := (lb_workers s)[i := w]\<rparr>"

text \<open>All workers of a provider get a position.\<close>

definition move_all :: "nat \<Rightarrow> gwpos \<Rightarrow> gworker list \<Rightarrow> gworker list" where
  "move_all i p = map (\<lambda>w. if gw_prov w = i then w\<lparr>gw_pos := p\<rparr> else w)"

text \<open>
  \<open>Refused\<close>: the connection for the check of the capabilities cannot be had.
  \<open>NoShared\<close>: \<open>GetNewSharedConnChannel\<close> fails. \<open>Take\<close>, \<open>DialFails\<close>, \<open>DialOk\<close>:
  \<open>SharedConnGet\<close>. \<open>Return\<close>: \<open>SharedConnReturn\<close>. \<open>HangUp\<close>: \<open>CloseConn\<close> with the channel.
  A routine that finds the session stopped in \<open>SharedConnGet\<close> takes nothing and is idle as
  before. A check routine may end at any time, the others when the session's channels are
  closed. \<open>ParkShared\<close> is the end of \<open>GoWorker\<close>, which empties the channel.
\<close>

inductive bstep :: "options \<Rightarrow> provider list \<Rightarrow> launch \<Rightarrow> launch \<Rightarrow> bool" for opt ps where
  Refused: "i < length (lb_booting s) \<Longrightarrow> lb_booting s ! i \<Longrightarrow> \<not> CheckOnly opt \<and> \<not> NoUpload (ps ! i) \<Longrightarrow> m = MaxConns (ps ! i) \<Longrightarrow>
    bstep opt ps s (s\<lparr>lb_booting := (lb_booting s)[i := False], lb_workers := move_all i Failed (lb_workers s),
      lb_worker := lb_worker s - 3 * m, lb_pool := lb_pool s - m, lb_ready := lb_ready s - 1,
      lb_checkers := checkersExit (Group (ps ! i)) m (lb_checkers s)\<rparr>)"
| Booted: "i < length (lb_booting s) \<Longrightarrow> lb_booting s ! i \<Longrightarrow>
    bstep opt ps s (s\<lparr>lb_booting := (lb_booting s)[i := False], lb_workers := move_all i Starting (lb_workers s),
      lb_ready := lb_ready s - 1\<rparr>)"
| NoShared: "worker_at s i Starting w \<Longrightarrow>
    bstep opt ps s (put_worker i (w\<lparr>gw_pos := Failed\<rparr>) s\<lparr>lb_worker := lb_worker s - 3, lb_pool := lb_pool s - 1,
      lb_checkers := checkersExit (Group (ps ! gw_prov w)) 1 (lb_checkers s)\<rparr>)"
| Shared: "worker_at s i Starting w \<Longrightarrow> c \<notin> lb_held s \<Longrightarrow>
    bstep opt ps s (put_worker i (w\<lparr>gw_pos := Serving, gw_tok := Some (Some c)\<rparr>) s
      \<lparr>lb_held := insert c (lb_held s), lb_booted := lb_booted s + 1\<rparr>)"
| Take: "worker_at s i Serving w \<Longrightarrow> gw_rt w r = RIdle \<Longrightarrow> gw_tok w = Some t \<Longrightarrow>
    bstep opt ps s (put_worker i (shared_get r t w) s)"
| DialFails: "worker_at s i Serving w \<Longrightarrow> gw_rt w r = RDial \<Longrightarrow> gw_tok w = None \<Longrightarrow>
    bstep opt ps s (put_worker i (shared_refused r w) s)"
| DialOk: "worker_at s i Serving w \<Longrightarrow> gw_rt w r = RDial \<Longrightarrow> c \<notin> lb_held s \<Longrightarrow>
    bstep opt ps s (put_worker i (set_routine r (RUsing c) (gw_tok w) w) s\<lparr>lb_held := insert c (lb_held s)\<rparr>)"
| Return: "worker_at s i Serving w \<Longrightarrow> gw_rt w r = RUsing c \<Longrightarrow> gw_tok w = None \<Longrightarrow>
    bstep opt ps s (put_worker i (SharedConnReturn r c w) s)"
| HangUp: "worker_at s i Serving w \<Longrightarrow> gw_rt w r = RUsing c \<Longrightarrow> gw_tok w = None \<Longrightarrow>
    bstep opt ps s (put_worker i (shared_closed r w) s\<lparr>lb_held := lb_held s - {c}\<rparr>)"
| RoutineEnds: "worker_at s i Serving w \<Longrightarrow> gw_rt w r = RIdle \<Longrightarrow> r = CheckR \<or> lb_stopped s \<Longrightarrow>
    bstep opt ps s (put_worker i (set_routine r RQuit (gw_tok w) w) s\<lparr>lb_worker := lb_worker s - 1,
      lb_checkers := (if r = CheckR then checkersExit (Group (ps ! gw_prov w)) 1 (lb_checkers s) else lb_checkers s)\<rparr>)"
| ParkShared: "worker_at s i Serving w \<Longrightarrow> gw_rt w = (\<lambda>_. RQuit) \<Longrightarrow>
    bstep opt ps s (put_worker i (fst (final_park w)) s
      \<lparr>lb_held := lb_held s - snd (final_park w),
       lb_booted := lb_booted s - 1, lb_pool := lb_pool s - 1\<rparr>)"
| Leave: "worker_at s i WaitAll w \<Longrightarrow> lb_worker s = 0 \<Longrightarrow> bstep opt ps s (put_worker i (w\<lparr>gw_pos := Gone\<rparr>) s)"
| Stop: "bstep opt ps s (s\<lparr>lb_stopped := True\<rparr>)"
| AllReady: "lb_pos s = LBooting \<Longrightarrow> lb_ready s = 0 \<Longrightarrow> bstep opt ps s (s\<lparr>lb_pos := LDividing\<rparr>)"
| DividerDone: "lb_pos s = LDividing \<Longrightarrow> bstep opt ps s (s\<lparr>lb_pos := LStopping, lb_stopped := True\<rparr>)"
| RoutinesDone: "lb_pos s = LStopping \<Longrightarrow> lb_worker s = 0 \<Longrightarrow> bstep opt ps s (s\<lparr>lb_pos := LWaitPool\<rparr>)"
| WorkersDone: "lb_pos s = LWaitPool \<Longrightarrow> lb_pool s = 0 \<Longrightarrow> bstep opt ps s (s\<lparr>lb_pos := LPools\<rparr>)"

abbreviation bsteps :: "options \<Rightarrow> provider list \<Rightarrow> launch \<Rightarrow> launch \<Rightarrow> bool" where
  "bsteps opt ps \<equiv> (bstep opt ps)\<^sup>*\<^sup>*"

text \<open>
  \<open>KillConnPool\<close>: the idle connections are closed, and while others are in use it looks again;
  \<open>between n\<close> is what happens to the pool before the next look, of which at most \<open>n\<close> are left
  when the deadline passes. The result is the pool that is dropped and whether all was closed.
\<close>

definition drain_pool :: "connpool \<Rightarrow> connpool" where
  "drain_pool c = fold CloseConn (pool_idle c) (c\<lparr>pool_idle := []\<rparr>)"

fun KillConnPool :: "(nat \<Rightarrow> connpool \<Rightarrow> connpool) \<Rightarrow> nat \<Rightarrow> connpool \<Rightarrow> connpool \<times> bool" where
  "KillConnPool between n c =
     (let c' = drain_pool c in
      if openConns c' \<le> 0 then (c', True)
      else case n of 0 \<Rightarrow> (c', False) | Suc k \<Rightarrow> KillConnPool between k (between k c'))"

section \<open>What is outstanding\<close>

definition routines :: "gworker \<Rightarrow> nat" where
  "routines w = (if gw_rt w CheckR = RQuit then 0 else 1) + (if gw_rt w DownsR = RQuit then 0 else 1) +
     (if gw_rt w ReupsR = RQuit then 0 else 1)"

definition routines_left :: "gworker \<Rightarrow> nat" where
  "routines_left w = (case gw_pos w of Unborn \<Rightarrow> 3 | Starting \<Rightarrow> 3 | Serving \<Rightarrow> routines w | _ \<Rightarrow> 0)"

definition worker_left :: "gworker \<Rightarrow> nat" where
  "worker_left w = (if gw_pos w \<in> {Unborn, Starting, Serving} then 1 else 0)"

definition checks_left :: "provider list \<Rightarrow> string \<Rightarrow> gworker \<Rightarrow> nat" where
  "checks_left ps g w =
     (if Group (ps ! gw_prov w) = g \<and>
         (gw_pos w \<in> {Unborn, Starting} \<or> gw_pos w = Serving \<and> gw_rt w CheckR \<noteq> RQuit) then 1 else 0)"

definition serving :: "gworker \<Rightarrow> nat" where
  "serving w = (if gw_pos w = Serving then 1 else 0)"

fun conn_of :: "rpos \<Rightarrow> nat multiset" where
  "conn_of (RUsing c) = {#c#}"
| "conn_of _ = {#}"

fun token_of :: "nat option option \<Rightarrow> nat multiset" where
  "token_of (Some (Some c)) = {#c#}"
| "token_of _ = {#}"

definition conns :: "gworker \<Rightarrow> nat multiset" where
  "conns w = token_of (gw_tok w) + conn_of (gw_rt w CheckR) + conn_of (gw_rt w DownsR) + conn_of (gw_rt w ReupsR)"

text \<open>The token is in the channel or with exactly one routine.\<close>

definition busy :: "rpos \<Rightarrow> nat" where
  "busy p = (case p of RDial \<Rightarrow> 1 | RUsing c \<Rightarrow> 1 | _ \<Rightarrow> 0)"

definition tokens :: "gworker \<Rightarrow> nat" where
  "tokens w = (if gw_tok w = None then 0 else 1) + busy (gw_rt w CheckR) + busy (gw_rt w DownsR) + busy (gw_rt w ReupsR)"

definition gw_ok :: "gworker \<Rightarrow> bool" where
  "gw_ok w \<longleftrightarrow> (case gw_pos w of
       Serving \<Rightarrow> tokens w = 1
     | WaitAll \<Rightarrow> tokens w = 0
     | Gone \<Rightarrow> tokens w = 0
     | _ \<Rightarrow> gw_tok w = None \<and> gw_rt w = (\<lambda>_. RIdle))"

lemmas left_defs = routines_def routines_left_def worker_left_def checks_left_def serving_def conns_def busy_def tokens_def

lemma role_all: "(\<forall>r. P r) \<longleftrightarrow> P CheckR \<and> P DownsR \<and> P ReupsR"
  by (metis role.exhaust)

definition total :: "(gworker \<Rightarrow> 'a :: comm_monoid_add) \<Rightarrow> gworker list \<Rightarrow> 'a" where
  "total f ws = sum_list (map f ws)"

lemma total_update: "i < length ws \<Longrightarrow> total f (ws[i := w]) + f (ws ! i) = total f ws + f w"
proof (induction ws arbitrary: i)
  case (Cons a ws)
  show ?case
  proof (cases i)
    case (Suc k)
    then have "total f (ws[k := w]) + f (ws ! k) = total f ws + f w" using Cons by simp
    then show ?thesis using Suc by (simp add: total_def add_ac)
  qed (simp add: total_def add_ac)
qed (simp add: total_def)

lemma total_zero: "total f ws = (0::nat) \<longleftrightarrow> (\<forall>w \<in> set ws. f w = 0)"
  by (induction ws) (auto simp: total_def)

lemma total_pos: "i < length ws \<Longrightarrow> f (ws ! i) \<le> total f ws" for f :: "gworker \<Rightarrow> nat"
  by (metis total_def elem_le_sum_list length_map nth_map)

lemma total_member: "w \<in> set ws \<Longrightarrow> f w \<subseteq># total f ws"
  by (induction ws) (auto simp: total_def intro: subset_mset.order_trans)

lemma total_empty: "\<forall>w \<in> set ws. f w = {#} \<Longrightarrow> total f ws = {#}"
  by (induction ws) (auto simp: total_def)

text \<open>When a provider's workers, all not yet started, move together.\<close>

lemma total_move:
  fixes f :: "gworker \<Rightarrow> nat"
  assumes "\<forall>w \<in> set ws. gw_prov w = i \<longrightarrow> f w = f (w\<lparr>gw_pos := p\<rparr>) + k"
  shows "total f ws = total f (move_all i p ws) + k * count_if (\<lambda>w. gw_prov w = i) ws"
  using assms by (induction ws) (auto simp: total_def move_all_def)

lemma total_move_same:
  assumes "\<forall>w \<in> set ws. gw_prov w = i \<longrightarrow> f (w\<lparr>gw_pos := p\<rparr>) = f w"
  shows "total f (move_all i p ws) = total f ws"
  using assms by (induction ws) (auto simp: total_def move_all_def)

lemma count_move: "count_if (\<lambda>w. gw_prov w = j) (move_all i p ws) = count_if (\<lambda>w. gw_prov w = j) ws"
  by (induction ws) (auto simp: move_all_def)

section \<open>The invariant\<close>

definition checks_ok :: "provider list \<Rightarrow> (string \<rightharpoonup> checkerGroup) \<Rightarrow> gworker list \<Rightarrow> bool" where
  "checks_ok ps cs ws \<longleftrightarrow>
     (\<forall>g. case cs g of
        None \<Rightarrow> total (checks_left ps g) ws = 0
      | Some cg \<Rightarrow> chk_left cg = int (total (checks_left ps g) ws) \<and> (chk_gone cg \<longleftrightarrow> chk_left cg \<le> 0))"

definition left_ok :: "provider list \<Rightarrow> launch \<Rightarrow> bool" where
  "left_ok ps s \<longleftrightarrow>
     lb_ready s = int (count_if id (lb_booting s)) \<and>
     lb_worker s = int (total routines_left (lb_workers s)) \<and>
     lb_pool s = int (total worker_left (lb_workers s)) \<and>
     lb_booted s = int (total serving (lb_workers s)) \<and>
     checks_ok ps (lb_checkers s) (lb_workers s)"

definition shape_ok :: "provider list \<Rightarrow> launch \<Rightarrow> bool" where
  "shape_ok ps s \<longleftrightarrow> length (lb_booting s) = length ps \<and>
     (\<forall>i < length ps. count_if (\<lambda>w. gw_prov w = i) (lb_workers s) = nat (MaxConns (ps ! i))) \<and>
     (\<forall>w \<in> set (lb_workers s). gw_ok w \<and> gw_prov w < length ps \<and> (gw_pos w = Unborn \<longleftrightarrow> lb_booting s ! gw_prov w))"

definition conns_ok :: "launch \<Rightarrow> bool" where
  "conns_ok s \<longleftrightarrow> finite (lb_held s) \<and> total conns (lb_workers s) = mset_set (lb_held s)"

definition pos_ok :: "launch \<Rightarrow> bool" where
  "pos_ok s \<longleftrightarrow> (lb_pos s \<noteq> LBooting \<longrightarrow> lb_ready s = 0) \<and>
     (lb_pos s \<in> {LStopping, LWaitPool, LPools} \<longrightarrow> lb_stopped s) \<and>
     (lb_pos s \<in> {LWaitPool, LPools} \<longrightarrow> lb_worker s = 0) \<and> (lb_pos s = LPools \<longrightarrow> lb_pool s = 0)"

definition binv :: "provider list \<Rightarrow> launch \<Rightarrow> bool" where
  "binv ps s \<longleftrightarrow> left_ok ps s \<and> shape_ok ps s \<and> conns_ok s \<and> pos_ok s"

text \<open>The start.\<close>

lemma total_concat: "total f (concat xss) = sum_list (map (total f) xss)"
  by (induction xss) (auto simp: total_def)

lemma total_replicate: "total f (replicate n w) = n * f w" for f :: "gworker \<Rightarrow> nat"
  by (induction n) (auto simp: total_def)

lemma total_workers_of:
  "total f (workers_of ps) = sum_list (map (\<lambda>i. nat (MaxConns (ps ! i)) * f (new_worker i)) [0..<length ps])"
  for f :: "gworker \<Rightarrow> nat"
  by (simp add: workers_of_def total_concat total_replicate o_def)

lemma worker_of_new: "w \<in> set (workers_of ps) \<Longrightarrow> \<exists>i < length ps. w = new_worker i"
  by (auto simp: workers_of_def)

lemma count_replicate: "count_if P (replicate n w) = (if P w then n else 0)"
  by (induction n) auto

lemma count_workers_of:
  assumes "i < length ps"
  shows "count_if (\<lambda>w. gw_prov w = i) (workers_of ps) = nat (MaxConns (ps ! i))"
proof -
  have "count_if (\<lambda>w. gw_prov w = i) (concat (map (\<lambda>i. replicate (nat (MaxConns (ps ! i))) (new_worker i)) [0..<n])) =
      (if i < n then nat (MaxConns (ps ! i)) else 0)" for n
    by (induction n) (auto simp: count_replicate new_worker_def)
  then show ?thesis using assms by (simp add: workers_of_def)
qed

definition good_providers :: "provider list \<Rightarrow> bool" where
  "good_providers ps \<longleftrightarrow> (\<forall>p \<in> set ps. Enabled p \<and> 0 < MaxConns p)"

lemma total_start:
  fixes f :: "gworker \<Rightarrow> nat"
  assumes "\<And>i. i < length ps \<Longrightarrow> f (new_worker i) = h (ps ! i)"
  shows "total f (workers_of ps) = sum_list (map (\<lambda>p. nat (MaxConns p) * h p) ps)"
proof -
  have "map (\<lambda>i. nat (MaxConns (ps ! i)) * f (new_worker i)) [0..<length ps] =
      map (\<lambda>p. nat (MaxConns p) * h p) (map ((!) ps) [0..<length ps])"
    using assms by simp
  then show ?thesis by (simp add: total_workers_of map_nth)
qed

lemma group_conns_nat:
  assumes "good_providers ps"
  shows "int (sum_list (map (\<lambda>p. nat (MaxConns p) * (if Group p = g then 1 else 0)) ps)) = group_conns ps g"
  using assms by (induction ps) (auto simp: good_providers_def group_conns_def serves_def)

lemma group_conns_pos: "good_providers ps \<Longrightarrow> (\<exists>p \<in> set ps. serves g p) \<longleftrightarrow> 0 < group_conns ps g"
  by (induction ps) (auto simp: good_providers_def group_conns_def serves_def)

lemma sum_conns:
  assumes "good_providers ps"
  shows "int (sum_list (map (\<lambda>p. nat (MaxConns p) * k) ps)) = sum_list (map (\<lambda>p. int k * max 0 (MaxConns p)) ps)"
  using assms by (induction ps) (auto simp: good_providers_def)

lemma binv_start:
  assumes "good_providers ps"
  shows "binv ps (launch_start sz ps)"
proof -
  have t: "total routines_left (workers_of ps) = sum_list (map (\<lambda>p. nat (MaxConns p) * 3) ps)"
    "total worker_left (workers_of ps) = sum_list (map (\<lambda>p. nat (MaxConns p) * 1) ps)"
    "total serving (workers_of ps) = sum_list (map (\<lambda>p. nat (MaxConns p) * 0) ps)"
    "total (checks_left ps g) (workers_of ps) = sum_list (map (\<lambda>p. nat (MaxConns p) * (if Group p = g then 1 else 0)) ps)" for g
    by (rule total_start; simp add: left_defs new_worker_def)+
  have c: "total conns ws = {#}" if "\<forall>w \<in> set ws. conns w = {#}" for ws
    using that by (induction ws) (auto simp: total_def)
  have "checks_ok ps (lb_checkers (launch_start sz ps)) (workers_of ps)"
    unfolding checks_ok_def
  proof
    fix g
    have "int (total (checks_left ps g) (workers_of ps)) = group_conns ps g"
      unfolding t(4) by (rule group_conns_nat[OF assms])
    moreover have "checkers_left (makeSegmentChans sz ps) g = (if 0 < group_conns ps g then Some (group_conns ps g) else None)"
      using makeSegmentChans_spec(4)[of sz ps g] group_conns_pos[OF assms] by simp
    ultimately show "case lb_checkers (launch_start sz ps) g of
        None \<Rightarrow> total (checks_left ps g) (workers_of ps) = 0
      | Some cg \<Rightarrow> chk_left cg = int (total (checks_left ps g) (workers_of ps)) \<and> (chk_gone cg \<longleftrightarrow> chk_left cg \<le> 0)"
      using makeSegmentChans_spec(5)[of sz ps g]
      by (auto simp: launch_start_def checkers_left_def split: option.splits if_splits)
  qed
  moreover have "left_ok ps (launch_start sz ps) = checks_ok ps (lb_checkers (launch_start sz ps)) (workers_of ps)"
    using sum_conns[OF assms, of 3] sum_conns[OF assms, of 1]
    by (simp add: left_ok_def t(1-3)) (simp add: launch_start_def t count_replicate)
  moreover have "shape_ok ps (launch_start sz ps)"
    using worker_of_new count_workers_of by (force simp: shape_ok_def launch_start_def gw_ok_def new_worker_def)
  moreover have "conns_ok (launch_start sz ps)"
    using c[of "workers_of ps"] worker_of_new by (force simp: conns_ok_def launch_start_def left_defs new_worker_def)
  ultimately show ?thesis by (simp add: binv_def pos_ok_def) (simp add: launch_start_def)
qed

text \<open>A check routine of a group ends.\<close>

lemma checks_exit:
  assumes "checks_ok ps cs ws" and "0 < n" and "\<And>g'. total (checks_left ps g') ws' + (if g' = g then n else 0) = total (checks_left ps g') ws"
  shows "checks_ok ps (checkersExit g (int n) cs) ws'"
  unfolding checks_ok_def
proof
  fix g'
  have old: "case cs g' of None \<Rightarrow> total (checks_left ps g') ws = 0
      | Some cg \<Rightarrow> chk_left cg = int (total (checks_left ps g') ws) \<and> (chk_gone cg \<longleftrightarrow> chk_left cg \<le> 0)"
    using assms(1) by (simp add: checks_ok_def)
  show "case checkersExit g (int n) cs g' of None \<Rightarrow> total (checks_left ps g') ws' = 0
      | Some cg \<Rightarrow> chk_left cg = int (total (checks_left ps g') ws') \<and> (chk_gone cg \<longleftrightarrow> chk_left cg \<le> 0)"
    using old assms(2) assms(3)[of g']
    by (auto simp: checkersExit_def group_exit_def Let_def split: option.splits if_splits)
qed

lemma checks_same:
  "checks_ok ps cs ws \<Longrightarrow> (\<And>g. total (checks_left ps g) ws' = total (checks_left ps g) ws) \<Longrightarrow> checks_ok ps cs ws'"
  by (simp add: checks_ok_def cong: option.case_cong)

text \<open>One worker moves. What it has less of is taken from the wait groups and counts.\<close>

lemma binv_put:
  assumes inv: "binv ps s" and at: "worker_at s i p w"
    and ws: "lb_workers s' = (lb_workers s)[i := w']"
    and shape: "gw_ok w'" "gw_prov w' = gw_prov w" "gw_pos w' \<noteq> Unborn" "p \<noteq> Unborn"
    and less: "routines_left w' \<le> routines_left w" "worker_left w' \<le> worker_left w"
    and groups: "lb_worker s' = lb_worker s - int (routines_left w - routines_left w')"
      "lb_pool s' = lb_pool s - int (worker_left w - worker_left w')"
      "lb_booted s' = lb_booted s - int (serving w) + int (serving w')"
    and checks: "if gw_pos w \<in> {Unborn, Starting} \<or> gw_pos w = Serving \<and> gw_rt w CheckR \<noteq> RQuit
        then (if gw_pos w' \<in> {Unborn, Starting} \<or> gw_pos w' = Serving \<and> gw_rt w' CheckR \<noteq> RQuit then lb_checkers s' = lb_checkers s
              else lb_checkers s' = checkersExit (Group (ps ! gw_prov w)) 1 (lb_checkers s))
        else \<not> (gw_pos w' \<in> {Unborn, Starting} \<or> gw_pos w' = Serving \<and> gw_rt w' CheckR \<noteq> RQuit) \<and> lb_checkers s' = lb_checkers s"
    and held: "finite (lb_held s) \<Longrightarrow> conns w \<subseteq># mset_set (lb_held s) \<Longrightarrow>
        finite (lb_held s') \<and> mset_set (lb_held s') + conns w = mset_set (lb_held s) + conns w'"
    and rest: "lb_ready s' = lb_ready s" "lb_booting s' = lb_booting s" "lb_pos s' = lb_pos s" "lb_stopped s' = lb_stopped s"
  shows "binv ps s'"
proof -
  have i: "i < length (lb_workers s)" "lb_workers s ! i = w" "gw_pos w = p" using at by (simp_all add: worker_at_def)
  have t: "total f (lb_workers s') + f w = total f (lb_workers s) + f w'" for f :: "gworker \<Rightarrow> nat"
    using total_update[OF i(1), of f w'] i(2) by (simp add: ws)
  have tc: "total conns (lb_workers s') + conns w = total conns (lb_workers s) + conns w'"
    using total_update[OF i(1), of conns w'] i(2) by (simp add: ws)
  have le: "f w \<le> total f (lb_workers s)" for f :: "gworker \<Rightarrow> nat" using total_pos[OF i(1), of f] i(2) by simp
  have old: "left_ok ps s" "shape_ok ps s" "conns_ok s" "pos_ok s" using inv by (simp_all add: binv_def)
  have "checks_ok ps (lb_checkers s') (lb_workers s')"
  proof (cases "(gw_pos w \<in> {Unborn, Starting} \<or> gw_pos w = Serving \<and> gw_rt w CheckR \<noteq> RQuit) \<and>
      \<not> (gw_pos w' \<in> {Unborn, Starting} \<or> gw_pos w' = Serving \<and> gw_rt w' CheckR \<noteq> RQuit)")
    case True
    have "total (checks_left ps g) (lb_workers s') + (if g = Group (ps ! gw_prov w) then 1 else 0) = total (checks_left ps g) (lb_workers s)" for g
      using t[of "checks_left ps g"] True shape(2) by (auto simp: checks_left_def split: if_splits)
    then show ?thesis
      using checks_exit[of ps "lb_checkers s" "lb_workers s" 1 "lb_workers s'" "Group (ps ! gw_prov w)"] old(1) checks True
      by (auto simp: left_ok_def split: if_splits)
  next
    case False
    have "checks_left ps g w' = checks_left ps g w" for g
      using False checks shape(2) by (auto simp: checks_left_def split: if_splits)
    then have "total (checks_left ps g) (lb_workers s') = total (checks_left ps g) (lb_workers s)" for g
      using t[of "checks_left ps g"] by simp
    moreover have "lb_checkers s' = lb_checkers s" using checks False by (auto split: if_splits)
    ultimately show ?thesis using checks_same[of ps "lb_checkers s" "lb_workers s" "lb_workers s'"] old(1) by (simp add: left_ok_def)
  qed
  then have left: "left_ok ps s'"
    using old(1) groups rest t[of routines_left] t[of worker_left] t[of serving] less le[of routines_left] le[of worker_left] le[of serving]
    by (auto simp: left_ok_def)
  have cnt: "count_if (\<lambda>w. gw_prov w = j) (lb_workers s') = count_if (\<lambda>w. gw_prov w = j) (lb_workers s)" for j
    using count_if_update[of i "lb_workers s" "\<lambda>w. gw_prov w = j" w'] i shape(2) by (simp add: ws)
  have "\<not> lb_booting s ! gw_prov w" "gw_prov w < length ps"
    using old(2) i shape(4) nth_mem[OF i(1)] by (auto simp: shape_ok_def)
  then have shp: "shape_ok ps s'"
    using old(2) cnt rest(2) shape by (auto simp: shape_ok_def ws dest!: subsetD[OF set_update_subset_insert])
  have sub: "conns w \<subseteq># mset_set (lb_held s)" using total_member[of w "lb_workers s" conns] old(3) nth_mem[OF i(1)] i(2)
    by (simp add: conns_ok_def)
  have con: "conns_ok s'"
    using held[OF _ sub] old(3) tc unfolding conns_ok_def by (metis add_right_imp_eq)
  have "0 \<le> lb_worker s'" "0 \<le> lb_pool s'" using left by (simp_all add: left_ok_def)
  then have "pos_ok s'" using old(4) rest groups by (auto simp: pos_ok_def)
  then show ?thesis using left shp con by (simp add: binv_def)
qed

definition quit :: "rpos \<Rightarrow> nat" where
  "quit p = (if p = RQuit then 0 else 1)"

definition has_token :: "nat option option \<Rightarrow> nat" where
  "has_token t = (if t = None then 0 else 1)"

lemma set_routine_counts:
  "conns (set_routine r p tok w) + token_of (gw_tok w) + conn_of (gw_rt w r) = conns w + token_of tok + conn_of p"
  "tokens (set_routine r p tok w) + has_token (gw_tok w) + busy (gw_rt w r) = tokens w + has_token tok + busy p"
  "routines (set_routine r p tok w) + quit (gw_rt w r) = routines w + quit p"
  "gw_pos (set_routine r p tok w) = gw_pos w" "gw_prov (set_routine r p tok w) = gw_prov w"
  "gw_rt (set_routine r p tok w) r' = (if r' = r then p else gw_rt w r')"
  by (cases r; simp add: set_routine_def conns_def tokens_def routines_def quit_def has_token_def)+

lemma worker_facts:
  assumes "binv ps s" and "worker_at s i p w"
  shows "gw_ok w" and "gw_pos w = p" and "conns w \<subseteq># mset_set (lb_held s)" and "finite (lb_held s)"
proof -
  have "w \<in> set (lb_workers s)" using assms(2) by (auto simp: worker_at_def)
  then show "gw_ok w" "conns w \<subseteq># mset_set (lb_held s)" "finite (lb_held s)"
    using assms(1) total_member[of w "lb_workers s" conns] by (simp_all add: binv_def shape_ok_def conns_ok_def)
  show "gw_pos w = p" using assms(2) by (simp add: worker_at_def)
qed

lemma held_remove:
  assumes "finite h" and "add_mset c M \<subseteq># mset_set h"
  shows "mset_set (h - {c}) + add_mset c N = mset_set h + N"
proof -
  have "c \<in># mset_set h" using assms(2) by (meson mset_subset_eqD union_single_eq_member)
  then have "c \<in> h" using assms(1) by simp
  then have "mset_set h = add_mset c (mset_set (h - {c}))" using assms(1) by (simp add: mset_set.remove)
  then show ?thesis by simp
qed

lemma swap_sums:
  fixes a :: "nat multiset"
  assumes "x + a + b = y + c + d" and "h + a + b = k + c + d"
  shows "h + y = k + x"
proof (rule multiset_eqI)
  fix z
  have "count x z + count a z + count b z = count y z + count c z + count d z"
    "count h z + count a z + count b z = count k z + count c z + count d z"
    using arg_cong[OF assms(1), of "\<lambda>m. count m z"] arg_cong[OF assms(2), of "\<lambda>m. count m z"] by simp_all
  then show "count (h + y) z = count (k + x) z" by simp
qed

text \<open>A routine of a serving worker moves.\<close>

lemma binv_routine:
  assumes inv: "binv ps s" and at: "worker_at s i Serving w"
    and ws: "lb_workers s' = (lb_workers s)[i := set_routine r p tok w]"
    and tok: "has_token tok + busy p = has_token (gw_tok w) + busy (gw_rt w r)"
    and q: "gw_rt w r \<noteq> RQuit" and worker: "lb_worker s' = lb_worker s - int (1 - quit p)"
    and checks: "lb_checkers s' =
      (if p = RQuit \<and> r = CheckR then checkersExit (Group (ps ! gw_prov w)) 1 (lb_checkers s) else lb_checkers s)"
    and held: "finite (lb_held s')" "mset_set (lb_held s') + token_of (gw_tok w) + conn_of (gw_rt w r) = mset_set (lb_held s) + token_of tok + conn_of p"
    and rest: "lb_ready s' = lb_ready s" "lb_booting s' = lb_booting s" "lb_pos s' = lb_pos s" "lb_stopped s' = lb_stopped s"
      "lb_pool s' = lb_pool s" "lb_booted s' = lb_booted s"
  shows "binv ps s'"
proof -
  note w = worker_facts[OF inv at]
  let ?w = "set_routine r p tok w"
  have t: "tokens ?w = tokens w" using set_routine_counts(2)[of r p tok w] tok by simp
  have rt: "routines ?w + 1 = routines w + quit p" using set_routine_counts(3)[of r p tok w] q by (simp add: quit_def)
  have cn: "mset_set (lb_held s') + conns w = mset_set (lb_held s) + conns ?w"
    by (rule swap_sums[OF set_routine_counts(1)[of r p tok w] held(2)])
  note same = set_routine_counts(4-6)[of r p tok w]
  have pos: "gw_pos ?w = Serving" using w(2) same(1) by simp
  have ok: "gw_ok ?w" using w(1,2) t pos by (simp add: gw_ok_def)
  have left: "routines_left w = routines w" "routines_left ?w = routines ?w" "worker_left w = worker_left ?w" "serving w = serving ?w"
    using w(2) pos by (simp_all add: routines_left_def worker_left_def serving_def)
  have less: "routines ?w \<le> routines w" "int (routines w - routines ?w) = int (1 - quit p)"
    using rt by (auto simp: quit_def split: if_splits)
  have chk: "if gw_pos w \<in> {Unborn, Starting} \<or> gw_pos w = Serving \<and> gw_rt w CheckR \<noteq> RQuit
        then (if gw_pos ?w \<in> {Unborn, Starting} \<or> gw_pos ?w = Serving \<and> gw_rt ?w CheckR \<noteq> RQuit then lb_checkers s' = lb_checkers s
              else lb_checkers s' = checkersExit (Group (ps ! gw_prov w)) 1 (lb_checkers s))
        else \<not> (gw_pos ?w \<in> {Unborn, Starting} \<or> gw_pos ?w = Serving \<and> gw_rt ?w CheckR \<noteq> RQuit) \<and> lb_checkers s' = lb_checkers s"
    using w(2) pos same(3)[of CheckR] q checks by auto
  show ?thesis
    by (rule binv_put[OF inv at ws ok same(2) _ _ _ _ _ _ _ chk])
      (use cn held(1) less left pos worker rest in simp_all)
qed

lemma binv_move:
  assumes inv: "binv ps s" and i: "i < length (lb_booting s)" "lb_booting s ! i" and p: "p \<in> {Starting, Failed}"
    and ws: "lb_workers s' = move_all i p (lb_workers s)" "lb_booting s' = (lb_booting s)[i := False]"
    and groups: "if p = Failed then lb_worker s' = lb_worker s - 3 * MaxConns (ps ! i) \<and> lb_pool s' = lb_pool s - MaxConns (ps ! i) \<and>
        lb_checkers s' = checkersExit (Group (ps ! i)) (MaxConns (ps ! i)) (lb_checkers s)
      else lb_worker s' = lb_worker s \<and> lb_pool s' = lb_pool s \<and> lb_checkers s' = lb_checkers s"
    and rest: "lb_ready s' = lb_ready s - 1" "lb_booted s' = lb_booted s" "lb_held s' = lb_held s" "lb_pos s' = lb_pos s" "lb_stopped s' = lb_stopped s"
    and good: "good_providers ps"
  shows "binv ps s'"
proof -
  have old: "left_ok ps s" "shape_ok ps s" "conns_ok s" "pos_ok s" using inv by (simp_all add: binv_def)
  have lps: "i < length ps" using i(1) old(2) by (simp add: shape_ok_def)
  then have m: "0 < MaxConns (ps ! i)" using good by (simp add: good_providers_def)
  let ?k = "nat (MaxConns (ps ! i))" and ?ws = "lb_workers s"
  have n: "count_if (\<lambda>w. gw_prov w = i) ?ws = ?k" using old(2) lps by (simp add: shape_ok_def)
  have unborn: "gw_pos w = Unborn \<and> gw_tok w = None \<and> gw_rt w = (\<lambda>_. RIdle)" if "w \<in> set ?ws" "gw_prov w = i" for w
    using that old(2) i(2) by (fastforce simp: shape_ok_def gw_ok_def)
  have t: "total routines_left ?ws = total routines_left (lb_workers s') + (if p = Failed then 3 * ?k else 0)"
    "total worker_left ?ws = total worker_left (lb_workers s') + (if p = Failed then ?k else 0)"
    "total (checks_left ps g) ?ws = total (checks_left ps g) (lb_workers s') + (if g = Group (ps ! i) then (if p = Failed then ?k else 0) else 0)" for g
    unfolding ws(1)
    using total_move[of ?ws i routines_left p "if p = Failed then 3 else 0"] total_move[of ?ws i worker_left p "if p = Failed then 1 else 0"]
      total_move[of ?ws i "checks_left ps g" p "if p = Failed \<and> g = Group (ps ! i) then 1 else 0"] unborn p n
    by (auto simp: routines_left_def worker_left_def checks_left_def)
  have same: "total serving (lb_workers s') = total serving ?ws" "total conns (lb_workers s') = total conns ?ws"
    unfolding ws(1) using unborn p by (auto intro!: total_move_same simp: serving_def conns_def)
  have ready: "count_if id (lb_booting s') + 1 = count_if id (lb_booting s)"
    using count_if_update[OF i(1), of id False] i(2) by (simp add: ws(2))
  have "checks_ok ps (lb_checkers s') (lb_workers s')"
  proof (cases "p = Failed")
    case True
    then show ?thesis
      using checks_exit[of ps "lb_checkers s" ?ws ?k "lb_workers s'" "Group (ps ! i)"] old(1) groups m t(3) by (simp add: left_ok_def)
  next
    case False
    then show ?thesis using checks_same[of ps "lb_checkers s" ?ws "lb_workers s'"] old(1) groups t(3) by (simp add: left_ok_def)
  qed
  moreover have "lb_ready s' = int (count_if id (lb_booting s'))" "lb_booted s' = int (total serving (lb_workers s'))"
    using old(1) rest ready same(1) by (simp_all add: left_ok_def)
  moreover have "lb_worker s' = int (total routines_left (lb_workers s')) \<and> lb_pool s' = int (total worker_left (lb_workers s'))"
  proof (cases "p = Failed")
    case True
    have "lb_worker s = int (total routines_left ?ws)" "lb_pool s = int (total worker_left ?ws)" using old(1) by (simp_all add: left_ok_def)
    then show ?thesis using True groups t(1,2) m by simp
  next
    case False
    then show ?thesis using old(1) groups t(1,2) by (simp add: left_ok_def)
  qed
  ultimately have left: "left_ok ps s'" by (simp add: left_ok_def)
  have moved: "gw_ok v \<and> gw_prov v < length ps \<and> (gw_pos v = Unborn \<longleftrightarrow> lb_booting s' ! gw_prov v)"
    if v: "v \<in> set (lb_workers s')" for v
  proof -
    obtain w where w: "w \<in> set ?ws" "v = (if gw_prov w = i then w\<lparr>gw_pos := p\<rparr> else w)" using v unfolding ws(1) move_all_def set_map by blast
    have okw: "gw_ok w \<and> gw_prov w < length ps \<and> (gw_pos w = Unborn \<longleftrightarrow> lb_booting s ! gw_prov w)"
      using old(2) w(1) by (simp add: shape_ok_def)
    show ?thesis
    proof (cases "gw_prov w = i")
      case True
      then have "gw_ok v" using unborn[OF w(1)] w(2) p by (auto simp: gw_ok_def)
      then show ?thesis using True w(2) p lps i(1) by (auto simp: ws(2))
    next
      case False
      then show ?thesis using okw w(2) by (simp add: ws(2))
    qed
  qed
  have shp: "shape_ok ps s'"
    unfolding shape_ok_def
  proof (intro conjI ballI allI impI)
    show "length (lb_booting s') = length ps" using old(2) by (simp add: ws(2) shape_ok_def)
    show "count_if (\<lambda>w. gw_prov w = j) (lb_workers s') = nat (MaxConns (ps ! j))" if "j < length ps" for j
      using old(2) that by (simp add: ws(1) count_move shape_ok_def)
  qed (use moved in blast)+
  have "conns_ok s'" using old(3) same(2) rest by (simp add: conns_ok_def)
  moreover have "0 \<le> lb_worker s'" "0 \<le> lb_pool s'" "0 \<le> lb_ready s'" using left by (simp_all add: left_ok_def)
  then have "pos_ok s'" using old(4) rest groups m by (auto simp: pos_ok_def split: if_splits)
  ultimately show ?thesis using left shp by (simp add: binv_def)
qed

lemma binv_step:
  assumes "bstep opt ps s s'" and "good_providers ps" and "binv ps s"
  shows "binv ps s'"
  using assms
proof (induction rule: bstep.induct)
  case (Refused i s m)
  then show ?case by (intro binv_move[OF Refused.prems(2) Refused.hyps(1,2), of Failed]) simp_all
next
  case (Booted i s)
  then show ?case by (intro binv_move[OF Booted.prems(2) Booted.hyps(1,2), of Starting]) simp_all
next
  case (NoShared s i w)
  note w = worker_facts[OF NoShared.prems(2) NoShared.hyps(1)]
  show ?case
    by (rule binv_put[OF NoShared.prems(2) NoShared.hyps(1), of _ "w\<lparr>gw_pos := Failed\<rparr>"])
      (use w in \<open>simp_all add: put_worker_def gw_ok_def routines_left_def worker_left_def serving_def conns_def\<close>)
next
  case (Shared s i w c)
  note w = worker_facts[OF Shared.prems(2) Shared.hyps(1)]
  show ?case
    by (rule binv_put[OF Shared.prems(2) Shared.hyps(1), of _ "w\<lparr>gw_pos := Serving, gw_tok := Some (Some c)\<rparr>"])
      (use w Shared.hyps(2) in \<open>simp_all add: put_worker_def gw_ok_def left_defs\<close>)
next
  case (Take s i w r t)
  show ?case
    by (rule binv_routine[OF Take.prems(2) Take.hyps(1), of _ r "case t of None \<Rightarrow> RDial | Some c \<Rightarrow> RUsing c" None])
      (use Take.hyps worker_facts(4)[OF Take.prems(2) Take.hyps(1)] in
        \<open>auto simp: put_worker_def has_token_def busy_def quit_def split: option.splits\<close>)
next
  case (DialFails s i w r)
  show ?case
    by (rule binv_routine[OF DialFails.prems(2) DialFails.hyps(1), of _ r RIdle "Some None"])
      (use DialFails.hyps worker_facts(4)[OF DialFails.prems(2) DialFails.hyps(1)] in
        \<open>auto simp: put_worker_def has_token_def busy_def quit_def\<close>)
next
  case (DialOk s i w r c)
  show ?case
    by (rule binv_routine[OF DialOk.prems(2) DialOk.hyps(1), of _ r "RUsing c" "gw_tok w"])
      (use DialOk.hyps worker_facts(4)[OF DialOk.prems(2) DialOk.hyps(1)] in
        \<open>auto simp: put_worker_def has_token_def busy_def quit_def\<close>)
next
  case (Return s i w r c)
  show ?case
    by (rule binv_routine[OF Return.prems(2) Return.hyps(1), of _ r RIdle "Some (Some c)"])
      (use Return.hyps worker_facts(4)[OF Return.prems(2) Return.hyps(1)] in
        \<open>auto simp: put_worker_def has_token_def busy_def quit_def\<close>)
next
  case (HangUp s i w r c)
  note w = worker_facts[OF HangUp.prems(2) HangUp.hyps(1)]
  have "\<exists>M. conns w = add_mset c M" using HangUp.hyps(2) by (cases r) (auto simp: conns_def)
  then obtain M where "conns w = add_mset c M" by blast
  then have "mset_set (lb_held s - {c}) + {#c#} = mset_set (lb_held s)" using held_remove[OF w(4), of c M "{#}"] w(3) by simp
  then show ?case
    by (intro binv_routine[OF HangUp.prems(2) HangUp.hyps(1), of _ r RIdle "Some None"])
      (use HangUp.hyps w(4) in \<open>auto simp: put_worker_def has_token_def busy_def quit_def\<close>)
next
  case (RoutineEnds s i w r)
  show ?case
    by (rule binv_routine[OF RoutineEnds.prems(2) RoutineEnds.hyps(1), of _ r RQuit "gw_tok w"])
      (use RoutineEnds.hyps worker_facts(4)[OF RoutineEnds.prems(2) RoutineEnds.hyps(1)] in
        \<open>auto simp: put_worker_def has_token_def busy_def quit_def\<close>)
next
  case (ParkShared s i w)
  note w = worker_facts[OF ParkShared.prems(2) ParkShared.hyps(1)]
  have c: "conns w = token_of (gw_tok w)" using ParkShared.hyps(2) by (simp add: conns_def)
  have held: "mset_set (lb_held s - (case gw_tok w of Some (Some c) \<Rightarrow> {c} | _ \<Rightarrow> {})) + conns w = mset_set (lb_held s)"
    using held_remove[OF w(4), of _ "{#}" "{#}"] w(3) unfolding c by (auto split: option.splits)
  show ?case
    by (rule binv_put[OF ParkShared.prems(2) ParkShared.hyps(1), of _ "w\<lparr>gw_pos := WaitAll, gw_tok := None\<rparr>"])
      (use w ParkShared.hyps(2) held in
        \<open>simp_all add: put_worker_def gw_ok_def routines_left_def worker_left_def serving_def routines_def tokens_def busy_def conns_def\<close>)
next
  case (Leave s i w)
  note w = worker_facts[OF Leave.prems(2) Leave.hyps(1)]
  show ?case
    by (rule binv_put[OF Leave.prems(2) Leave.hyps(1), of _ "w\<lparr>gw_pos := Gone\<rparr>"])
      (use w in \<open>simp_all add: put_worker_def gw_ok_def routines_left_def worker_left_def serving_def conns_def tokens_def\<close>)
qed (auto simp: binv_def left_ok_def shape_ok_def conns_ok_def pos_ok_def)

interpretation launch: machine "\<lambda>s. good_providers ps \<and> (\<exists>sz. s = launch_start sz ps)" "bstep opt ps" "\<lambda>s. good_providers ps \<longrightarrow> binv ps s" for opt ps
  by unfold_locales (use binv_start binv_step in auto)

section \<open>A session can always end\<close>

definition routine_rank :: "rpos \<Rightarrow> nat" where
  "routine_rank p = (case p of RIdle \<Rightarrow> 1 | RQuit \<Rightarrow> 0 | _ \<Rightarrow> 2)"

definition worker_rank :: "gworker \<Rightarrow> nat" where
  "worker_rank w = (case gw_pos w of Unborn \<Rightarrow> 9 | Starting \<Rightarrow> 8
     | Serving \<Rightarrow> 1 + routine_rank (gw_rt w CheckR) + routine_rank (gw_rt w DownsR) + routine_rank (gw_rt w ReupsR) | _ \<Rightarrow> 0)"

definition launch_rank :: "launch \<Rightarrow> nat" where
  "launch_rank s = total worker_rank (lb_workers s) + count_if id (lb_booting s) +
     (case lb_pos s of LBooting \<Rightarrow> 4 | LDividing \<Rightarrow> 3 | LStopping \<Rightarrow> 2 | LWaitPool \<Rightarrow> 1 | LPools \<Rightarrow> 0)"

lemma set_routine_rank:
  "gw_pos w = Serving \<Longrightarrow> worker_rank (set_routine r p tok w) + routine_rank (gw_rt w r) = worker_rank w + routine_rank p"
  by (cases r) (simp_all add: worker_rank_def set_routine_def)

lemma rank_put:
  assumes "worker_at s i p w" and "lb_workers s' = (lb_workers s)[i := w']" and "worker_rank w' < worker_rank w"
    and "lb_booting s' = lb_booting s" and "lb_pos s' = lb_pos s"
  shows "launch_rank s' < launch_rank s"
  using total_update[of i "lb_workers s" worker_rank w'] assms by (simp add: worker_at_def launch_rank_def)

lemma boot_goes_on:
  assumes "binv ps s" and "i < length (lb_booting s)" and "lb_booting s ! i" and "lb_stopped s"
  shows "\<exists>s'. bstep opt ps s s' \<and> launch_rank s' < launch_rank s \<and> lb_stopped s'"
proof -
  let ?s = "s\<lparr>lb_booting := (lb_booting s)[i := False], lb_workers := move_all i Starting (lb_workers s), lb_ready := lb_ready s - 1\<rparr>"
  have "\<forall>w \<in> set (lb_workers s). gw_prov w = i \<longrightarrow> gw_pos w = Unborn"
    using assms(1,3) by (auto simp: binv_def shape_ok_def)
  then have "total worker_rank (lb_workers s) = total worker_rank (move_all i Starting (lb_workers s)) + 1 * count_if (\<lambda>w. gw_prov w = i) (lb_workers s)"
    by (intro total_move) (auto simp: worker_rank_def)
  moreover have "count_if id ((lb_booting s)[i := False]) + 1 = count_if id (lb_booting s)"
    using count_if_update[OF assms(2), of id False] assms(3) by simp
  ultimately have "launch_rank ?s < launch_rank s" by (simp add: launch_rank_def)
  then show ?thesis using Booted[OF assms(2,3), of opt ps] assms(4) by (intro exI[of _ ?s]) simp
qed

lemma worker_goes_on:
  assumes inv: "binv ps s" and at: "worker_at s i p w" and p: "p = Starting \<or> p = Serving" and stop: "lb_stopped s"
  shows "\<exists>s'. bstep opt ps s s' \<and> launch_rank s' < launch_rank s \<and> lb_stopped s'"
proof (cases "p = Starting")
  case True
  note w = worker_facts[OF inv at]
  have "worker_rank (w\<lparr>gw_pos := Failed\<rparr>) < worker_rank w" using w(2) True by (simp add: worker_rank_def)
  then show ?thesis using NoShared[OF at[unfolded True], of opt ps] rank_put[OF at] stop
    by (intro exI conjI) (assumption | simp add: put_worker_def)+
next
  case False
  then have p: "p = Serving" using p by simp
  note at = at[unfolded p] and w = worker_facts[OF inv at[unfolded p]]
  have one: "tokens w = 1" using w(1,2) by (simp add: gw_ok_def)
  have free: "gw_tok w = None" if "busy (gw_rt w r) = 1" for r
    using one that by (cases r) (auto simp: tokens_def split: if_splits)
  have down: "worker_rank (set_routine r q tok w) < worker_rank w" if "routine_rank q < routine_rank (gw_rt w r)" for r q tok
    using set_routine_rank[OF w(2), of r q tok] that by simp
  show ?thesis
  proof (cases "\<exists>r. gw_rt w r \<noteq> RQuit")
    case True
    then obtain r where r: "gw_rt w r \<noteq> RQuit" by blast
    show ?thesis
    proof (cases "gw_rt w r")
      case RIdle
      then show ?thesis
        using RoutineEnds[OF at, of r opt ps] rank_put[OF at _ down[of RQuit r]] stop
        by (intro exI conjI) (assumption | simp add: put_worker_def routine_rank_def)+
    next
      case RDial
      then show ?thesis
        using DialFails[OF at, of r opt ps] rank_put[OF at _ down[of RIdle r]] free[of r] stop
        by (intro exI conjI) (assumption | simp add: put_worker_def routine_rank_def busy_def)+
    next
      case (RUsing c)
      then show ?thesis
        using HangUp[OF at, of r c opt ps] rank_put[OF at _ down[of RIdle r]] free[of r] stop
        by (intro exI conjI) (assumption | simp add: put_worker_def routine_rank_def busy_def)+
    qed (use r in simp)
  next
    case False
    then have "gw_rt w = (\<lambda>_. RQuit)" by auto
    moreover have "worker_rank (w\<lparr>gw_pos := WaitAll, gw_tok := None\<rparr>) < worker_rank w" using w(2) by (simp add: worker_rank_def)
    ultimately show ?thesis
      using ParkShared[OF at, of opt ps] rank_put[OF at] stop
      by (intro exI conjI) (assumption | simp add: put_worker_def)+
  qed
qed

lemma launch_goes_on:
  assumes inv: "binv ps s" and stop: "lb_stopped s" and "lb_pos s \<noteq> LPools"
  shows "\<exists>s'. bstep opt ps s s' \<and> launch_rank s' < launch_rank s \<and> lb_stopped s'"
proof (cases "\<exists>i < length (lb_booting s). lb_booting s ! i")
  case True
  then show ?thesis using boot_goes_on[OF inv _ _ stop] by blast
next
  case booted: False
  have ready: "lb_ready s = 0"
    using inv booted count_if_witness[of id "lb_booting s"] by (auto simp: binv_def left_ok_def)
  show ?thesis
  proof (cases "\<exists>i < length (lb_workers s). gw_pos (lb_workers s ! i) \<in> {Starting, Serving}")
    case True
    then obtain i where i: "i < length (lb_workers s)" "gw_pos (lb_workers s ! i) \<in> {Starting, Serving}" by blast
    then have "worker_at s i (gw_pos (lb_workers s ! i)) (lb_workers s ! i)" by (simp add: worker_at_def)
    from worker_goes_on[OF inv this _ stop] i(2) show ?thesis by simp
  next
    case False
    have "gw_pos w \<notin> {Unborn, Starting, Serving}" if "w \<in> set (lb_workers s)" for w
    proof -
      have "gw_pos w \<noteq> Unborn" using inv booted that by (auto simp: binv_def shape_ok_def)
      then show ?thesis using False that by (auto simp: in_set_conv_nth)
    qed
    then have "routines_left w = 0 \<and> worker_left w = 0" if "w \<in> set (lb_workers s)" for w
      using that by (cases "gw_pos w") (auto simp: routines_left_def worker_left_def)
    then have none: "lb_worker s = 0" "lb_pool s = 0" using inv by (simp_all add: binv_def left_ok_def total_zero)
    show ?thesis
    proof (cases "lb_pos s")
      case LBooting
      then show ?thesis using AllReady[OF LBooting ready, of opt ps] stop by (intro exI conjI) (assumption | simp add: launch_rank_def)+
    next
      case LDividing
      then show ?thesis using DividerDone[OF LDividing, of opt ps] by (intro exI conjI) (assumption | simp add: launch_rank_def)+
    next
      case LStopping
      then show ?thesis using RoutinesDone[OF LStopping none(1), of opt ps] stop by (intro exI conjI) (assumption | simp add: launch_rank_def)+
    next
      case LWaitPool
      then show ?thesis using WorkersDone[OF LWaitPool none(2), of opt ps] stop by (intro exI conjI) (assumption | simp add: launch_rank_def)+
    qed (use assms(3) in simp)
  qed
qed

lemma stopped_launch_ends:
  assumes "good_providers ps" and "binv ps s" and "lb_stopped s"
  shows "\<exists>s'. bsteps opt ps s s' \<and> lb_pos s' = LPools"
  using assms(2,3)
proof (induction "launch_rank s" arbitrary: s rule: less_induct)
  case less
  show ?case
  proof (cases "lb_pos s = LPools")
    case False
    then obtain s1 where s1: "bstep opt ps s s1" "launch_rank s1 < launch_rank s" "lb_stopped s1"
      using launch_goes_on[OF less.prems] by blast
    then obtain s' where "bsteps opt ps s1 s'" "lb_pos s' = LPools"
      using less.hyps[OF s1(2) binv_step[OF s1(1) assms(1) less.prems(1)] s1(3)] by blast
    then show ?thesis using s1(1) by (meson converse_rtranclp_into_rtranclp)
  qed auto
qed

section \<open>Closing the pools\<close>

lemma fold_CloseConn:
  assumes "distinct is" and "set is \<subseteq> pool_live c"
  shows "openConns (fold CloseConn is c) = openConns c - int (length is) \<and> pool_live (fold CloseConn is c) = pool_live c - set is \<and>
    pool_idle (fold CloseConn is c) = pool_idle c"
  using assms
proof (induction "is" arbitrary: c)
  case (Cons i "is")
  have "CloseConn i c = closeConnOnce i c" using Cons.prems(2) by (simp add: CloseConn_def)
  moreover from this have "set is \<subseteq> pool_live (CloseConn i c)" using Cons.prems by (auto simp: closeConnOnce_def)
  ultimately show ?case using Cons.IH[of "CloseConn i c"] Cons.prems by (auto simp: closeConnOnce_def)
qed simp

text \<open>When nobody holds a connection or dials, \<open>KillConnPool\<close> closes all at its first look.\<close>

lemma KillConnPool_idle:
  assumes "pool_ok c {#} {#} 0"
  shows "KillConnPool between n c = (drain_pool c, True)" and "pool_live (drain_pool c) = {}" and "openConns (drain_pool c) = 0"
proof -
  have c: "distinct (pool_idle c)" "set (pool_idle c) = pool_live c" "openConns c = int (card (pool_live c))"
    using assms by (auto simp: pool_ok_def)
  have "card (pool_live c) = length (pool_idle c)" using c(1,2) by (metis distinct_card)
  then have "openConns (drain_pool c) = 0 \<and> pool_live (drain_pool c) = {}"
    using fold_CloseConn[of "pool_idle c" "c\<lparr>pool_idle := []\<rparr>"] c by (simp add: drain_pool_def)
  then show "KillConnPool between n c = (drain_pool c, True)" "pool_live (drain_pool c) = {}" "openConns (drain_pool c) = 0"
    by (cases n; simp)+
qed

text \<open>At the end nothing is left.\<close>

lemma launch_ended:
  assumes inv: "binv ps s" and pos: "lb_pos s = LPools"
  shows "(\<forall>w \<in> set (lb_workers s). gw_pos w \<in> {Failed, WaitAll, Gone}) \<and> lb_held s = {} \<and> lb_booted s = 0 \<and>
      (\<forall>g cg. lb_checkers s g = Some cg \<longrightarrow> chk_left cg = 0 \<and> chk_gone cg)"
proof -
  have "total worker_left (lb_workers s) = 0" using inv pos by (simp add: binv_def left_ok_def pos_ok_def)
  then have p: "gw_pos w \<in> {Failed, WaitAll, Gone}" if "w \<in> set (lb_workers s)" for w
    using that by (cases "gw_pos w") (auto simp: total_zero worker_left_def)
  have ok: "gw_ok w" if "w \<in> set (lb_workers s)" for w using inv that by (simp add: binv_def shape_ok_def)
  have "conns w = {#} \<and> serving w = 0 \<and> (\<forall>g. checks_left ps g w = 0)" if "w \<in> set (lb_workers s)" for w
    using p[OF that] ok[OF that]
    by (auto simp: gw_ok_def left_defs split: if_splits rpos.splits)
  then have t: "\<forall>w \<in> set (lb_workers s). conns w = {#}" "total serving (lb_workers s) = 0" "\<And>g. total (checks_left ps g) (lb_workers s) = 0"
    by (auto simp: total_zero)
  have "total conns (lb_workers s) = {#}" using t(1) by (rule total_empty)
  then have "mset_set (lb_held s) = {#} \<and> finite (lb_held s)" using inv by (simp add: binv_def conns_ok_def)
  then have "lb_held s = {}" by (metis finite_set_mset_mset_set set_mset_empty)
  moreover have "lb_booted s = 0" using inv t(2) by (simp add: binv_def left_ok_def)
  moreover have "chk_left cg = 0 \<and> chk_gone cg" if "lb_checkers s g = Some cg" for g cg
  proof -
    have "case lb_checkers s g of None \<Rightarrow> total (checks_left ps g) (lb_workers s) = 0
      | Some cg \<Rightarrow> chk_left cg = int (total (checks_left ps g) (lb_workers s)) \<and> (chk_gone cg \<longleftrightarrow> chk_left cg \<le> 0)"
      using inv by (simp add: binv_def left_ok_def checks_ok_def)
    then show ?thesis using t(3)[of g] that by simp
  qed
  ultimately show ?thesis using p by blast
qed

text \<open>What two workers hold is disjoint.\<close>

lemma total_two:
  fixes f :: "gworker \<Rightarrow> 'b multiset"
  assumes "i < length ws" and "j < length ws" and "i \<noteq> j"
  shows "f (ws ! i) + f (ws ! j) \<subseteq># total f ws"
  using assms
proof (induction ws arbitrary: i j)
  case (Cons a ws)
  have m: "f (ws ! k) \<subseteq># total f ws" if "k < length ws" for k using total_member[of "ws ! k" ws f] that by simp
  consider (first) k where "i = 0" "j = Suc k" | (second) k where "j = 0" "i = Suc k" | (later) k l where "i = Suc k" "j = Suc l"
    using Cons.prems(3) by (metis not0_implies_Suc)
  then show ?case
  proof cases
    case later
    then have "f (ws ! k) + f (ws ! l) \<subseteq># total f ws" using Cons.prems by (intro Cons.IH) auto
    then show ?thesis using later by (simp add: total_def subset_mset.add_increasing)
  qed (use m Cons.prems in \<open>simp_all add: total_def add.commute\<close>)
qed simp

lemma loaded_good: "loadProviderList qs = Inr (Some (ps, gs)) \<Longrightarrow> good_providers ps"
  using providers_accepted[of qs ps gs] by (auto simp: good_providers_def)

lemma launch_inv: "loadProviderList qs = Inr (Some (ps, gs)) \<Longrightarrow> bsteps opt ps (launch_start sz ps) s \<Longrightarrow> binv ps s"
  using launch.inv_reach[of ps "launch_start sz ps" opt s] loaded_good by blast

section \<open>The properties\<close>


text \<open>C36: the connection that the three routines of a worker share is used by one routine at a
  time, and by no other worker; while a routine has it, or asks the pool for a new one,
  the channel is empty, so giving it back never blocks.\<close>

theorem shared_connection_exclusive:
  assumes "loadProviderList qs = Inr (Some (ps, gs))" and "bsteps opt ps (launch_start sz ps) s"
    and "worker_at s i p w" and "gw_rt w r = RUsing c \<or> gw_rt w r = RDial"
  shows "gw_tok w = None \<and> (\<forall>r'. r' \<noteq> r \<longrightarrow> gw_rt w r' \<in> {RIdle, RQuit}) \<and>
    (gw_rt w r = RUsing c \<longrightarrow> c \<in> lb_held s \<and> (\<forall>j q w'. worker_at s j q w' \<and> j \<noteq> i \<longrightarrow> c \<notin># conns w'))"
proof -
  note inv = launch_inv[OF assms(1,2)] and w = worker_facts[OF launch_inv[OF assms(1,2)] assms(3)]
  have "busy (gw_rt w r) = 1" using assms(4) by (auto simp: busy_def)
  then have "0 < tokens w" by (cases r) (auto simp: tokens_def)
  then have one: "tokens w = 1" using w(1) assms(4) by (cases "gw_pos w") (auto simp: gw_ok_def)
  have idle: "busy q = 0 \<longleftrightarrow> q \<in> {RIdle, RQuit}" for q by (cases q) (auto simp: busy_def)
  have rest: "gw_tok w = None \<and> (\<forall>r'. r' \<noteq> r \<longrightarrow> busy (gw_rt w r') = 0)"
    using one \<open>busy (gw_rt w r) = 1\<close> by (cases r) (auto simp: tokens_def role_all split: if_splits)
  have other: "c \<in> lb_held s \<and> (\<forall>j q w'. worker_at s j q w' \<and> j \<noteq> i \<longrightarrow> c \<notin># conns w')" if use: "gw_rt w r = RUsing c"
  proof -
    have c: "c \<in># conns w" using use by (cases r) (auto simp: conns_def)
    have "c \<in> lb_held s" using mset_subset_eqD[OF w(3) c] w(4) by simp
    moreover have "c \<notin># conns w'" if o: "worker_at s j q w'" "j \<noteq> i" for j q w'
    proof
      assume "c \<in># conns w'"
      moreover have "conns w + conns w' \<subseteq># mset_set (lb_held s)"
        using total_two[of i "lb_workers s" j conns] assms(3) o inv by (auto simp: worker_at_def binv_def conns_ok_def)
      then have "count (conns w) c + count (conns w') c \<le> count (mset_set (lb_held s)) c"
        by (metis count_union mset_subset_eq_count)
      moreover have "count (mset_set (lb_held s)) c \<le> 1" by (simp add: count_mset_set')
      moreover have "0 < count (conns w) c" using c by simp
      moreover have "0 < count (conns w') c" using \<open>c \<in># conns w'\<close> by simp
      ultimately show False by linarith
    qed
    ultimately show ?thesis by blast
  qed
  show ?thesis using rest idle other by blast
qed

text \<open>C37: in whatever state a session is, with providers that never answered, routines in the
  middle of an item and workers that get no connection, it can be stopped and comes to the
  closing of its pools, where \<open>KillConnPool\<close> finds no connection in use.\<close>

theorem session_can_end:
  assumes "loadProviderList qs = Inr (Some (ps, gs))" and "bsteps opt ps (launch_start sz ps) s"
  shows "\<exists>s'. bsteps opt ps s s' \<and> lb_pos s' = LPools \<and> lb_held s' = {}"
proof -
  have inv: "binv ps (s\<lparr>lb_stopped := True\<rparr>)" using binv_step[OF Stop[of opt ps s] loaded_good[OF assms(1)] launch_inv[OF assms]] by simp
  obtain s' where s': "bsteps opt ps (s\<lparr>lb_stopped := True\<rparr>) s'" "lb_pos s' = LPools"
    using stopped_launch_ends[OF loaded_good[OF assms(1)] inv, of opt] by auto
  have run: "bsteps opt ps s s'" using Stop[of opt ps s] s'(1) by (meson converse_rtranclp_into_rtranclp)
  have "bsteps opt ps (launch_start sz ps) s'" using assms(2) run by (rule rtranclp_trans)
  from launch_ended[OF launch_inv[OF assms(1) this] s'(2)] show ?thesis using run s'(2) by blast
qed

section \<open>A concrete launch\<close>

definition small_provider :: provider where
  "small_provider = (plain_provider ''A'')\<lparr>MaxConns := 1\<rparr>"

text \<open>One provider with one worker, whose check routine uses connection 7.\<close>

definition checking_worker :: gworker where
  "checking_worker = set_routine CheckR (RUsing 7) None ((new_worker 0)\<lparr>gw_pos := Serving\<rparr>)"

definition checking_launch :: launch where
  "checking_launch = (launch_start 1 [small_provider])\<lparr>lb_ready := 0, lb_booting := [False], lb_workers := [checking_worker],
     lb_booted := 1, lb_held := {7}\<rparr>"

lemma small_loaded: "loadProviderList [small_provider] = Inr (Some ([small_provider], [''A'']))"
  by (simp add: loadProviderList_def load_provider_def no_providers_def small_provider_def plain_provider_def Let_def)

lemma checking_reached: "bsteps plain_options [small_provider] (launch_start 1 [small_provider]) checking_launch"
proof -
  let ?ps = "[small_provider]" and ?s0 = "launch_start 1 [small_provider]"
  let ?w1 = "(new_worker 0)\<lparr>gw_pos := Starting\<rparr>"
  let ?s1 = "?s0\<lparr>lb_ready := 0, lb_booting := [False], lb_workers := [?w1]\<rparr>"
  let ?w2 = "?w1\<lparr>gw_pos := Serving, gw_tok := Some (Some 7)\<rparr>"
  let ?s2 = "?s1\<lparr>lb_workers := [?w2], lb_held := {7}, lb_booted := 1\<rparr>"
  have m: "MaxConns small_provider = 1" by (simp add: small_provider_def)
  have w0: "workers_of ?ps = [new_worker 0]" by (simp add: workers_of_def m)
  have "bstep plain_options ?ps ?s0 ?s1"
    using Booted[of 0 ?s0 plain_options ?ps] by (simp add: launch_start_def w0 move_all_def new_worker_def)
  moreover have "bstep plain_options ?ps ?s1 ?s2"
    using Shared[of ?s1 0 ?w1 7 plain_options ?ps] by (simp add: worker_at_def put_worker_def launch_start_def)
  moreover have "bstep plain_options ?ps ?s2 checking_launch"
    using Take[of ?s2 0 ?w2 CheckR "Some 7" plain_options ?ps]
    by (simp add: worker_at_def put_worker_def launch_start_def checking_launch_def checking_worker_def set_routine_def new_worker_def)
  ultimately show ?thesis by (meson converse_rtranclp_into_rtranclp rtranclp.rtrancl_refl)
qed


theorem shared_connection_exclusive_witness: "gw_tok checking_worker = None \<and> 7 \<in> lb_held checking_launch"
proof -
  have at: "worker_at checking_launch 0 Serving checking_worker"
    by (simp add: worker_at_def checking_launch_def checking_worker_def set_routine_def)
  have "gw_rt checking_worker CheckR = RUsing 7" by (simp add: checking_worker_def set_routine_def)
  then show ?thesis using shared_connection_exclusive[OF small_loaded checking_reached at, of CheckR 7] by blast
qed

theorem session_can_end_witness:
  "\<exists>s'. bsteps plain_options [small_provider] checking_launch s' \<and> lb_pos s' = LPools \<and> lb_held s' = {}"
  by (rule session_can_end[OF small_loaded checking_reached])

end
