(* ===== verification/Flags.thy ===== *)
theory Flags
  imports Proxy
begin

text \<open>
  \<open>Flags.go\<close> and \<open>main.go\<close>: which combinations of settings the program starts with, what
  it makes of them, and the two flags that add users. The parsing of the command line, the
  profiler, the benchmark and the decoder's self-test are left out; so are the settings that
  only choose what is printed. What the disk and the machine answer is an argument.
\<close>

section \<open>Modes\<close>

datatype mode_error = DirAndWeb | DirAndProxy | DirAndNzb | WebAndProxy | NzbAndServer

definition startupModeError :: "bool \<Rightarrow> string \<Rightarrow> bool \<Rightarrow> bool \<Rightarrow> mode_error option" where
  "startupModeError nzbSet dir web prx =
     (if dir \<noteq> [] then
        (if web then Some DirAndWeb else if prx then Some DirAndProxy else if nzbSet then Some DirAndNzb else None)
      else if web \<and> prx then Some WebAndProxy
      else if nzbSet \<and> (web \<or> prx) then Some NzbAndServer
      else None)"

text \<open>What \<open>main\<close> does.\<close>

datatype mode = WatchDir | RunProxy | RunWeb | RunNzb | RunNothing

definition main_mode :: "string \<Rightarrow> bool \<Rightarrow> bool \<Rightarrow> string \<Rightarrow> mode" where
  "main_mode dir prx web nzbfile =
     (if dir \<noteq> [] then WatchDir else if prx then RunProxy else if web then RunWeb
      else if nzbfile \<noteq> [] then RunNzb else RunNothing)"

section \<open>Settings\<close>

record flags =
  f_Cachedir :: string
  f_CRW :: int
  f_CheckOnly :: bool
  f_CheckFirst :: bool
  f_DlMissing :: bool
  f_DlAll :: bool
  f_UploadLater :: bool
  f_ByPassSTAT :: bool
  f_LogAppend :: bool
  f_LogOld :: int
  f_YencCRC :: bool
  f_YencTest :: int
  f_YencGo :: bool
  f_YencCpu :: int
  f_YencAsyncCpu :: int
  f_YencWrite :: bool
  f_YencMerge :: bool
  f_RapidYencBufSize :: int
  f_MaxArtSize :: int
  f_NzbDir :: string
  f_nzbSet :: bool
  f_web :: bool
  f_ProxyTCP :: int
  f_ProxyTLS :: int

text \<open>What the rest of the program finds: the settings, \<open>cacheON\<close>, the size of the decoder's
  buffers, the tokens in the two channels of \<open>setupCoreLimiters\<close>, and \<open>proxy\<close>.\<close>

record started =
  su_flags :: flags
  su_cacheON :: bool
  su_bufsize :: int
  su_cores :: "(int \<times> int) option"
  su_proxy :: bool

datatype flag_error =
    NoCache | DownloadNeedsCache | TwoDownloads | DownloadAndCheckOnly | UploadLaterNeedsCache | AppendAndRotate
  | BypassAndCheck | BadYencTest | GoNeedsMode4 | NegativeCpu | YencOutNeedsCache | SmallBuffer | BadHeaders
  | BadMode mode_error

text \<open>The machine's processors, whether the cache directory can be made, and whether the file with
  the headers can be read.\<close>

record flagcalls =
  fc_cpus :: int
  fc_cache :: bool
  fc_headers :: bool

definition DefaultBufSize :: int where "DefaultBufSize = 4096"

definition setupCoreLimiters :: "int \<Rightarrow> flags \<Rightarrow> flags \<times> int \<times> int" where
  "setupCoreLimiters cpus f =
     (let a = (if f_YencCpu f \<le> 0 then cpus else f_YencCpu f); b = (if f_YencAsyncCpu f \<le> 0 then cpus else f_YencAsyncCpu f)
      in (f\<lparr>f_YencCpu := a, f_YencAsyncCpu := b\<rparr>, a, b))"

definition yenc_settings :: "int \<Rightarrow> bool \<Rightarrow> flags \<Rightarrow> flag_error + flags \<times> int \<times> (int \<times> int) option" where
  "yenc_settings cpus con f =
     (if f_YencCRC f then
        (if f_YencTest f \<le> 0 \<or> f_YencTest f > 4 then Inl BadYencTest
         else if f_YencTest f \<noteq> 4 \<and> f_YencGo f then Inl GoNeedsMode4
         else if f_YencCpu f < 0 \<or> f_YencAsyncCpu f < 0 then Inl NegativeCpu
         else (case setupCoreLimiters cpus f of (f1, cores) \<Rightarrow>
           if (f_YencWrite f1 \<or> f_YencMerge f1) \<and> \<not> con then Inl YencOutNeedsCache
           else if f_RapidYencBufSize f1 \<noteq> DefaultBufSize
           then (if f_RapidYencBufSize f1 < 130 then Inl SmallBuffer else Inr (f1, f_RapidYencBufSize f1, Some cores))
           else Inr (f1, DefaultBufSize, Some cores)))
      else if f_YencGo f then Inl GoNeedsMode4
      else Inr (f\<lparr>f_YencTest := 0, f_YencWrite := False, f_YencMerge := False\<rparr>, DefaultBufSize, None))"

definition ParseFlags :: "flagcalls \<Rightarrow> flags \<Rightarrow> flag_error + started" where
  "ParseFlags fc f =
     (let con = (f_Cachedir f \<noteq> [] \<and> f_CRW f > 0); prx = (f_ProxyTCP f > 0 \<or> f_ProxyTLS f > 0) in
      if con \<and> \<not> fc_cache fc then Inl NoCache
      else if (f_DlMissing f \<or> f_DlAll f) \<and> f_Cachedir f = [] then Inl DownloadNeedsCache
      else if f_DlMissing f \<and> f_DlAll f then Inl TwoDownloads
      else if (f_DlMissing f \<or> f_DlAll f) \<and> f_CheckOnly f then Inl DownloadAndCheckOnly
      else if f_UploadLater f \<and> f_Cachedir f = [] then Inl UploadLaterNeedsCache
      else if f_LogAppend f \<and> f_LogOld f > 0 then Inl AppendAndRotate
      else if f_ByPassSTAT f \<and> (f_CheckFirst f \<or> f_CheckOnly f) then Inl BypassAndCheck
      else case yenc_settings (fc_cpus fc) con f of
        Inl e \<Rightarrow> Inl e
      | Inr (f1, buf, cores) \<Rightarrow>
          (let f2 = f1\<lparr>f_MaxArtSize := max 1 (f_MaxArtSize f1), f_LogOld := max 0 (f_LogOld f1)\<rparr> in
           if \<not> fc_headers fc then Inl BadHeaders
           else case startupModeError (f_nzbSet f) (f_NzbDir f) (f_web f) prx of
             Some e \<Rightarrow> Inl (BadMode e)
           | None \<Rightarrow> Inr \<lparr>su_flags = f2, su_cacheON = con, su_bufsize = buf, su_cores = cores, su_proxy = prx\<rparr>))"

section \<open>Adding users\<close>

definition second :: int where "second = 10 ^ 9"

text \<open>\<open>time.Now().Add(time.Duration(n) * unit).Unix()\<close>: the product is an int64. Times are
  nanoseconds.\<close>

definition after :: "int \<Rightarrow> int \<Rightarrow> int \<Rightarrow> int" where
  "after now n unit = (now + sint (word_of_int (n * unit) :: 64 word)) div second"

text \<open>The field for the end of the account; \<open>raw\<close> is the field before its blanks are removed,
  \<open>ok1\<close> whether the number of connections could be read.\<close>

definition expiry :: "int \<Rightarrow> string \<Rightarrow> bool \<Rightarrow> int option" where
  "expiry now raw ok1 =
     (let s = TrimSpace raw;
          timed = (\<lambda>u unit. case parse_int (TrimSuffix s u) of (n, ok) \<Rightarrow> if ok then Some (after now n unit) else None)
      in if has_suffix ''d'' s then timed ''d'' (24 * 3600 * second)
         else if has_suffix ''h'' s then timed ''h'' (3600 * second)
         else if has_suffix ''m'' s then timed ''m'' (60 * second)
         else case parse_int raw of (n, ok) \<Rightarrow> if ok1 \<and> ok then Some n else None)"

datatype user_error = BadFormat | ShortName | ShortPassword | BadExpiry | PastExpiry | NoWebPasswd | NoRandom | BadName | NotWritten

text \<open>\<open>rand\<close> are the credentials that \<open>generateRandomHexCredentials\<close> makes; its error is
  ignored by the first flag.\<close>

definition proxy_user :: "(string \<times> string) option \<Rightarrow> int \<Rightarrow> int \<Rightarrow> string \<Rightarrow> user_error + UserData" where
  "proxy_user rand now now2 spec =
     (case SplitN 5 CHR ''|'' spec of
        [p0, p1, p2, p3, p4] \<Rightarrow>
          (let auto = (TrimSpace p0 = ''auto'' \<and> TrimSpace p1 = ''auto'');
               cred = (if auto then (case rand of None \<Rightarrow> ([], []) | Some c \<Rightarrow> c) else (TrimSpace p0, TrimSpace p1))
           in if length (fst cred) < 10 then Inl ShortName
              else if length (snd cred) < 10 then Inl ShortPassword
              else (case parse_int p2 of (maxconns, ok1) \<Rightarrow>
                case expiry now p3 ok1 of
                  None \<Rightarrow> Inl BadExpiry
                | Some e \<Rightarrow>
                    if e < now2 div second then Inl PastExpiry
                    else Inr \<lparr>u_name = fst cred, u_hash = snd cred, u_maxconns = maxconns, u_expire = e,
                              u_posting = has_prefix ''post'' (lower p4)\<rparr>))
      | _ \<Rightarrow> Inl BadFormat)"

definition web_user :: "(string \<times> string) option \<Rightarrow> string \<Rightarrow> string \<Rightarrow> user_error + UserData" where
  "web_user rand webPasswdFile spec =
     (if webPasswdFile = [] then Inl NoWebPasswd
      else case SplitN 2 CHR ''|'' spec of
        [p0, p1] \<Rightarrow>
          (let auto = (TrimSpace p0 = ''auto'' \<and> TrimSpace p1 = ''auto'') in
           if auto \<and> rand = None then Inl NoRandom
           else (let cred = (if auto then the rand else (TrimSpace p0, TrimSpace p1)) in
             if length (fst cred) < minUsernameLen \<or> length (snd cred) < 10 then Inl ShortName
             else if CHR ''|'' \<in> set (fst cred) \<or> CHR '':'' \<in> set (fst cred) then Inl BadName
             else Inr \<lparr>u_name = fst cred, u_hash = snd cred, u_maxconns = 0, u_expire = 0, u_posting = False\<rparr>))
      | _ \<Rightarrow> Inl BadFormat)"

text \<open>The user goes to a new file \<open>passwd.new.time.number\<close>.\<close>

definition new_file :: "string \<Rightarrow> int \<Rightarrow> nat \<Rightarrow> string" where
  "new_file passwd now k = passwd @ ''.new.'' @ dec_int (now div second) @ ''.'' @ dec k"

definition write_user ::
  "(string \<Rightarrow> string option) \<Rightarrow> disk_io \<Rightarrow> string \<Rightarrow> user_error + UserData \<Rightarrow> disk \<Rightarrow> disk \<times> user_error option" where
  "write_user gen io file r d =
     (case r of Inl e \<Rightarrow> (d, Some e)
      | Inr u \<Rightarrow> (case appendPasswdUser gen io u file d of (d', ok) \<Rightarrow> (d', if ok then None else Some NotWritten)))"

definition add_proxy_user where
  "add_proxy_user gen io rand now now2 now3 k passwd spec d =
     write_user gen io (new_file passwd now3 k) (proxy_user rand now now2 spec) d"

definition addWebUser where
  "addWebUser gen io rand now k passwd spec d = write_user gen io (new_file passwd now k) (web_user rand passwd spec) d"

section \<open>Lemmas\<close>

lemma yenc_settings_ok:
  assumes "yenc_settings cpus con f = Inr (g, buf, cores)"
  shows "g = (if f_YencCRC f then fst (setupCoreLimiters cpus f) else f\<lparr>f_YencTest := 0, f_YencWrite := False, f_YencMerge := False\<rparr>)"
    and "130 \<le> buf"
    and "if f_YencCRC f then 1 \<le> f_YencTest f \<and> f_YencTest f \<le> 4 \<and> (f_YencWrite f \<or> f_YencMerge f \<longrightarrow> con) \<and>
        cores = Some (snd (setupCoreLimiters cpus f)) else cores = None"
  using assms
  by (auto simp: yenc_settings_def setupCoreLimiters_def Let_def DefaultBufSize_def split: if_splits prod.splits)

lemma sint_small: "- (2 ^ 63) \<le> n \<Longrightarrow> n < 2 ^ 63 \<Longrightarrow> sint (word_of_int n :: 64 word) = n"
  by (simp add: sint_sbintrunc' signed_take_bit_int_eq_self_iff)

lemma after_exact:
  assumes "0 \<le> n" and "n * unit < 2 ^ 63" and "0 \<le> unit" and "unit = k * second"
  shows "after now n unit = now div second + n * k"
proof -
  have "- (2 ^ 63) \<le> n * unit" using assms(1,3) by (smt (verit) mult_nonneg_nonneg zero_le_power)
  then have "sint (word_of_int (n * unit) :: 64 word) = n * unit" using sint_small assms(2) by blast
  then have "after now n unit = (now + n * k * second) div second" by (simp add: after_def assms(4) mult.assoc)
  then show ?thesis by (simp add: second_def)
qed

section \<open>The properties\<close>

text \<open>The program starts exactly when at most one of the four modes is asked for, and then
  runs this one, or the NZB of the default when there is none.\<close>

theorem modes_exclusive:
  "(startupModeError nzbSet dir web prx = None \<longleftrightarrow> length (filter id [nzbSet, dir \<noteq> [], web, prx]) \<le> 1) \<and>
   (startupModeError nzbSet dir web prx = None \<longrightarrow>
     main_mode dir prx web nzbfile =
       (if web then RunWeb else if prx then RunProxy else if dir \<noteq> [] then WatchDir else if nzbfile \<noteq> [] then RunNzb else RunNothing))"
  by (cases nzbSet; cases "dir = []"; cases web; cases prx) (simp_all add: startupModeError_def main_mode_def)

text \<open>C38: with the settings that are accepted, articles are downloaded for the cache only into a
  directory and not in a check, one decoder is chosen exactly when checksums are checked, parts
  are written only with a cache, the two limiters of the decoders have a token, their buffers
  hold a line, and an article may have a byte.\<close>

theorem accepted_settings:
  assumes "ParseFlags fc f = Inr su" and "0 < fc_cpus fc"
  shows "(f_DlMissing (su_flags su) \<or> f_DlAll (su_flags su) \<longrightarrow>
      f_Cachedir (su_flags su) \<noteq> [] \<and> \<not> f_CheckOnly (su_flags su) \<and> \<not> (f_DlMissing (su_flags su) \<and> f_DlAll (su_flags su))) \<and>
    (if f_YencCRC (su_flags su)
     then f_YencTest (su_flags su) \<in> {1, 2, 3, 4} \<and> (\<exists>a b. su_cores su = Some (a, b) \<and> 0 < a \<and> 0 < b)
     else f_YencTest (su_flags su) = 0 \<and> su_cores su = None) \<and>
    (f_YencWrite (su_flags su) \<or> f_YencMerge (su_flags su) \<longrightarrow> su_cacheON su) \<and>
    130 \<le> su_bufsize su \<and> 1 \<le> f_MaxArtSize (su_flags su) \<and> 0 \<le> f_LogOld (su_flags su) \<and>
    startupModeError (f_nzbSet (su_flags su)) (f_NzbDir (su_flags su)) (f_web (su_flags su)) (su_proxy su) = None"
proof -
  obtain g buf cores where y: "yenc_settings (fc_cpus fc) (f_Cachedir f \<noteq> [] \<and> f_CRW f > 0) f = Inr (g, buf, cores)"
    and su: "su = \<lparr>su_flags = g\<lparr>f_MaxArtSize := max 1 (f_MaxArtSize g), f_LogOld := max 0 (f_LogOld g)\<rparr>,
        su_cacheON = (f_Cachedir f \<noteq> [] \<and> f_CRW f > 0), su_bufsize = buf, su_cores = cores, su_proxy = (f_ProxyTCP f > 0 \<or> f_ProxyTLS f > 0)\<rparr>"
    and m: "startupModeError (f_nzbSet f) (f_NzbDir f) (f_web f) (f_ProxyTCP f > 0 \<or> f_ProxyTLS f > 0) = None"
    and d: "f_DlMissing f \<or> f_DlAll f \<longrightarrow> f_Cachedir f \<noteq> [] \<and> \<not> f_CheckOnly f \<and> \<not> (f_DlMissing f \<and> f_DlAll f)"
    using assms(1) by (auto simp: ParseFlags_def Let_def split: if_splits sum.splits prod.splits option.splits)
  note ys = yenc_settings_ok[OF y]
  have same: "f_DlMissing g = f_DlMissing f" "f_DlAll g = f_DlAll f" "f_Cachedir g = f_Cachedir f" "f_CheckOnly g = f_CheckOnly f"
    "f_nzbSet g = f_nzbSet f" "f_NzbDir g = f_NzbDir f" "f_web g = f_web f" "f_YencCRC g = f_YencCRC f"
    unfolding ys(1) by (simp_all add: setupCoreLimiters_def Let_def)
  show ?thesis
  proof (cases "f_YencCRC f")
    case True
    then have "f_YencTest g = f_YencTest f" "f_YencWrite g = f_YencWrite f" "f_YencMerge g = f_YencMerge f"
      unfolding ys(1) by (simp_all add: setupCoreLimiters_def Let_def)
    moreover have "f_YencTest f \<in> {1, 2, 3, 4}" "\<exists>a b. cores = Some (a, b) \<and> 0 < a \<and> 0 < b"
      using ys(3) True assms(2) by (auto simp: setupCoreLimiters_def Let_def)
    ultimately show ?thesis using ys(2,3) True m d same by (simp add: su)
  next
    case False
    then show ?thesis using ys m d same by (simp add: su)
  qed
qed

text \<open>The downloads of \<open>-dlall\<close> and \<open>-dlmissing\<close> need a directory, but not that the cache is
  on: without readers and writers (\<open>-crw=0\<close>) everything is downloaded and nothing is kept.\<close>

theorem downloads_without_cache:
  assumes "ParseFlags fc f = Inr su" and "f_DlAll f" and "f_CRW f \<le> 0" and "\<not> flagisDL it" and "\<not> flagCache it" and "\<not> flaginDL it"
  shows "su_cacheON su = False \<and> wantDownload (opt\<lparr>DlAll := f_DlAll f, cacheON := su_cacheON su\<rparr>) it"
  using assms by (auto simp: ParseFlags_def Let_def wantDownload_def split: if_splits sum.splits prod.splits option.splits)

lemma timed_field:
  assumes "TrimSpace (dec n @ [c]) = dec n @ [c]" and "n < 2 ^ 63"
  shows "parse_int (TrimSuffix (dec n @ [c]) [c]) = (int n, True)"
  using assms(2) TrimSuffix_append[of "dec n" "[c]"] by simp

lemma dec_unit_trim: "c \<notin> spaces \<Longrightarrow> TrimSpace (dec n @ [c]) = dec n @ [c]"
proof -
  assume c: "c \<notin> spaces"
  obtain d ds where d: "dec n = d # ds" by (cases "dec n") simp_all
  have "d \<notin> spaces" using digit_not_space[OF dec_hd[OF d]] .
  then show ?thesis using c d by (intro TrimSpace_id) simp
qed

lemma expiry_days:
  assumes "n \<le> 106751"
  shows "expiry now (dec n @ ''d'') ok1 = Some (now div second + 86400 * int n) \<and>
    (\<exists>e. expiry now ''213504d'' ok1 = Some e \<and> now div second \<le> e \<and> e < now div second + 1800)"
proof -
  have c: "CHR ''d'' \<notin> spaces" by (simp add: spaces_def)
  have day: "expiry now (dec m @ ''d'') ok1 = Some (after now (int m) (24 * 3600 * second))" if "m < 2 ^ 63" for m
    using timed_field[OF dec_unit_trim[OF c] that] dec_unit_trim[OF c, of m]
    by (simp add: expiry_def Let_def has_suffix_append)
  have n: "int n \<le> 106751" using assms by simp
  have "int n * (24 * 3600 * second) < 2 ^ 63"
  proof -
    have "int n * (24 * 3600 * second) \<le> 106751 * (24 * 3600 * second)"
      by (rule mult_right_mono[OF n]) (simp add: second_def)
    also have "\<dots> < 2 ^ 63" by (simp add: second_def)
    finally show ?thesis .
  qed
  then have "after now (int n) (24 * 3600 * second) = now div second + int n * 86400"
    by (intro after_exact) (simp_all add: second_def)
  moreover have "n < 2 ^ 63" using assms by simp
  ultimately have one: "expiry now (dec n @ ''d'') ok1 = Some (now div second + 86400 * int n)" using day[of n] by simp
  have w: "sint (word_of_int (213504 * (24 * 3600 * second)) :: 64 word) = 1526290448384"
    by (simp add: second_def)
  have "dec 213504 @ ''d'' = ''213504d''" by (simp add: dec.simps digit_def char_of_def bit_0)
  then have "expiry now ''213504d'' ok1 = Some (after now 213504 (24 * 3600 * second))" using day[of 213504] by simp
  moreover have "after now 213504 (24 * 3600 * second) = (now + 1526290448384) div second" unfolding after_def w ..
  moreover have "now div second \<le> (now + 1526290448384) div second" by (rule zdiv_mono1) (simp_all add: second_def)
  moreover have "(now + 1526290448384) div second \<le> (now + 1527 * second) div second" by (rule zdiv_mono1) (simp_all add: second_def)
  moreover have "(now + 1527 * second) div second = now div second + 1527" by (simp add: second_def)
  ultimately show ?thesis using one by (simp only: option.inject simp_thms)
qed

text \<open>C39: a time in days from now is exact up to 106751 days; 213504 days are less than half an
  hour, and the user is added.\<close>

theorem expiry_in_days:
  assumes "n \<le> 106751"
  shows "expiry now (dec n @ ''d'') ok1 = Some (now div second + 86400 * int n) \<and>
    (\<exists>e. expiry now ''213504d'' ok1 = Some e \<and> now div second \<le> e \<and> e < now div second + 1800)"
  using expiry_days[OF assms] .


text \<open>A name that begins with \<open>#\<close> is accepted by both flags, but its line is a comment.\<close>

theorem hash_name_is_a_comment:
  assumes "has_prefix ''#'' (u_name u)"
  shows "passwd_entry never now (passwd_text h u) = None"
proof -
  obtain n where n: "u_name u = CHR ''#'' # n" using assms by (auto simp: has_prefix_iff)
  obtain xs c where t: "passwd_text h u = CHR ''#'' # xs @ [c]" "c \<notin> spaces"
    by (cases "u_posting u") (auto simp: passwd_text_def n spaces_def intro: that[of "n @ ''|'' @ h @ ''|'' @ dec_int (u_maxconns u) @ ''|'' @ dec_int (u_expire u) @ ''|pos''"]
        that[of "n @ ''|'' @ h @ ''|'' @ dec_int (u_maxconns u) @ ''|'' @ dec_int (u_expire u) @ ''|nopos''"])
  then have "TrimSpace (passwd_text h u) = passwd_text h u" by (intro TrimSpace_id) (simp add: spaces_def)
  then show ?thesis using t(1) by (simp add: passwd_entry_def Let_def)
qed

section \<open>Concrete settings\<close>

definition no_flags :: flags where
  "no_flags = \<lparr>f_Cachedir = [], f_CRW = 100, f_CheckOnly = False, f_CheckFirst = False, f_DlMissing = False, f_DlAll = False,
     f_UploadLater = False, f_ByPassSTAT = False, f_LogAppend = False, f_LogOld = 0, f_YencCRC = False, f_YencTest = 4,
     f_YencGo = False, f_YencCpu = 0, f_YencAsyncCpu = 64, f_YencWrite = False, f_YencMerge = False,
     f_RapidYencBufSize = DefaultBufSize, f_MaxArtSize = 1048576, f_NzbDir = [], f_nzbSet = False, f_web = False,
     f_ProxyTCP = 0, f_ProxyTLS = 0\<rparr>"

definition eight_cores :: flagcalls where
  "eight_cores = \<lparr>fc_cpus = 8, fc_cache = True, fc_headers = True\<rparr>"

theorem modes_exclusive_witness:
  "startupModeError False [] True False = None \<and> main_mode [] False True ''x.nzb'' = RunWeb \<and>
   startupModeError False ''dir'' True False \<noteq> None"
  using modes_exclusive[of False "[]" True False "''x.nzb''"] modes_exclusive[of False "''dir''" True False "[]"] by simp

theorem accepted_settings_witness:
  "\<exists>su. ParseFlags eight_cores (no_flags\<lparr>f_YencCRC := True\<rparr>) = Inr su \<and> su_cores su = Some (8, 64) \<and> 130 \<le> su_bufsize su"
proof -
  obtain su where su: "ParseFlags eight_cores (no_flags\<lparr>f_YencCRC := True\<rparr>) = Inr su" "su_cores su = Some (8, 64)"
    by (simp add: ParseFlags_def yenc_settings_def setupCoreLimiters_def startupModeError_def no_flags_def eight_cores_def DefaultBufSize_def)
  have "0 < fc_cpus eight_cores" by (simp add: eight_cores_def)
  then show ?thesis using accepted_settings[OF su(1)] su by (intro exI[of _ su]) (simp only: simp_thms)
qed

theorem expiry_in_days_witness:
  "expiry 0 (dec 1 @ ''d'') True = Some 86400 \<and> (\<exists>e. expiry 0 ''213504d'' True = Some e \<and> e < 1800)"
  using expiry_in_days[of 1 0 True] by (auto simp: second_def)


end
