(* ===== verification/Spec2Isabelle.thy ===== *)
theory Spec2Isabelle
  imports Prelude Counter Items SlotPool MemLimit Workers Routines Divider Tasks Strings Machine Sessions JobQueue Yenc Nntp Cache ConnPool
    Passwd WebAuth Proxy ProxyRelay ProxyConns NzbDir RapidYenc WebServer Boot Flags
begin

text \<open>
  A model of NZBreX, which checks the articles of an NZB file at a list of news
  providers, downloads what is missing somewhere and uploads it there, and which
  can also be a news proxy in front of these providers.

  \<^bold>\<open>How the program works.\<close> A session (\<open>Session.go\<close>) turns an NZB into a list
  of segment items. The work divider (\<open>Workers.go\<close>) looks at all items again and
  again, and queues each for a download or an upload in the channel of a provider
  group; a worker per connection takes items from the check, download and upload
  channels (\<open>Workers.go\<close>), talks to a provider (\<open>Routines.go\<close>, \<open>NetConn.go\<close>) over
  a pooled connection (\<open>ConnPool.go\<close>) and writes down the outcome in the item's
  flags and sets. A downloaded article occupies a slot of the memory limiter
  (\<open>MemLimit.go\<close>) until it is uploaded, cached or given up (\<open>Cache.go\<close>). yEnc data
  is checked on the way (\<open>yenc/yenc.go\<close>). Sessions are started from the command
  line, from a directory, or by the queue of uploaded jobs (\<open>webjobs.go\<close>) behind a
  web login (\<open>webauth.go\<close>). The proxy (\<open>Server.go\<close>, \<open>Proxy.go\<close>, \<open>ProxyHelper.go\<close>)
  serves clients that log in with a user of a passwd file (\<open>passwd.go\<close>) over the
  same connection pools.

  \<^bold>\<open>Theories.\<close> \<open>Prelude\<close> has the outcome type of operations that may panic
  (\<open>go\<close>), the simplification collections and general lemmas; \<open>Strings\<close> the text
  functions of Go's library that the code calls. Then, in the order of the calls:
  \<^item> \<open>Counter\<close>: \<open>Counter_uint64.go\<close>, a Go map of 64 bit words, nil after a kill.
  \<^item> \<open>Items\<close>: providers, segment items, channels (\<open>Config.go\<close>, \<open>Session.go\<close>).
  \<^item> \<open>MemLimit\<close>: the limiter twice, as a step relation over the goroutines in
    \<open>MemLockWait\<close> and \<open>memReturn\<close> and as sequential functions that refine it.
  \<^item> \<open>Workers\<close>, \<open>Divider\<close>, \<open>Tasks\<close>: the decisions about one item, one round of
    the divider and its end, what the workers do with an item, channels, shutdown.
  \<^item> \<open>Routines\<close>: check, download and upload of one item on every server answer.
  \<^item> \<open>Sessions\<close>, \<open>JobQueue\<close>: sessions and their launch, the queue and its runner.
  \<^item> \<open>Yenc\<close>, \<open>Nntp\<close>: the decoder and an encoder; the commands on a connection and
    \<open>readDotLines\<close>, where a server is the list of lines it is going to send.
  \<^item> \<open>Cache\<close>: files of articles and yEnc parts on a disk that can refuse calls.
  \<^item> \<open>ConnPool\<close>: login, \<open>GetConn\<close>, \<open>ParkConn\<close>, \<open>CloseConn\<close> under every interleaving.
  \<^item> \<open>Passwd\<close>, \<open>WebAuth\<close>: users in files; the web login and the request guard.
  \<^item> \<open>Proxy\<close>, \<open>ProxyRelay\<close>, \<open>ProxyConns\<close>: one client connection and its properties;
    all connections with their counters and the reload of the users.

  \<^bold>\<open>State and operations.\<close> A struct is a record, with the source's field names
  where they are free; a Go map is a HOL map or, when only its keys matter, a
  set; objects shared by pointer are known by an index or live in a store.
  Operations return the updated state; errors, nil results and panics are
  values (\<open>option\<close>, sums, \<open>go\<close>). Concurrent components are \<open>inductive\<close> step relations whose
  steps are the code's critical sections and channel operations. What the outside
  answers (servers, disk, clock, bcrypt, the order of a range over a map) is an
  argument of the definitions that use it, so the theorems hold for all of it.

  \<^bold>\<open>Interfaces.\<close> The locale \<open>machine\<close> is a start, a step relation and an
  invariant that is kept; it is interpreted for the sessions, the job queue, the
  part writer, the connection pool, the web login and the proxy's connections.
  \<open>slot_pool\<close> is the contract of a pool of slots with owners, interpreted for the
  limiter; \<open>tally_counter\<close> that of a counter, interpreted for \<open>Counter_uint64.go\<close>.

  \<^bold>\<open>What is shown.\<close> Conservation: memory slots, connections, client connections,
  queued items and decoded parts are neither lost nor counted twice. Progress: the
  divider ends, the limiter does not deadlock, a waiting job is not forgotten.
  Safety: a session runs once; the divider quits only when nothing is left to
  do; an article with a yEnc part is delivered only if size and checksum match;
  nothing is sent to a provider for a client that has not logged in, and only
  whole commands are; a web request is served only after its password was
  verified. Round trips: yEnc, article transfer, cache, users. Equivalences of
  the line decoders and of the buffered line reader with a plain definition.
  Error theorems state what the code does in the cases where it does not do what
  it means to; they are the findings of the manifest.

  \<^bold>\<open>Bounds and fuel.\<close> Loops are structural recursions or \<open>function\<close>s with
  a measure; the loop of the decoder's \<open>run\<close> has a fuel argument for the parts it
  reads, which is 1 in \<open>Decode\<close> and \<open>DecodeSlice\<close> because a message has one part and
  the source stops after it, and the retry loop of a check has the bound the
  source gives it. Words keep their width in counters, sizes and
  checksums. The divider's bounds are 3602 rounds without any change and 15 once
  nothing is left.

  \<^bold>\<open>Not modelled.\<close> Log lines, statistics and speed meters; timers, deadlines and
  sleeps (time is an argument where a decision depends on it); wait groups; TLS and
  the dialling itself; the web pages' handlers (\<open>webserver.go\<close>, templates), flags
  and the start of the program (\<open>Flags.go\<close>, \<open>main.go\<close>), the directory watcher
  (\<open>nzbdir.go\<close>), \<open>Results.go\<close>, profiling; the SIMD decoder of \<open>rapidyenc/\<close>, whose
  result is an argument of \<open>readDotLines\<close> in mode 4; \<open>nzbparser\<close>, \<open>textproto\<close> and
  \<open>bcrypt\<close>, which are represented by what they return. Next in the plan: the
  directory watcher, the line splitter of \<open>rapidyenc/decoder.go\<close>, the web handlers,
  the flags.
\<close>

end
